(* ===== verification/Prelude.thy ===== *)
theory Prelude
  imports Complex_Main "HOL-Library.AList" "HOL-Library.Multiset" "HOL-Library.Word"
begin

text \<open>
  Shared vocabulary of the development: the Python exceptions the code raises, Python
  dictionaries and lists, and a source of random draws.

  A dictionary is an association list with distinct keys. Its order is the order in which
  Python 2 iterates over it; a new key goes to the end, an existing key keeps its place.
  CPython 2 iterates in hash order instead, so no property of the development depends on where
  a new key is placed: the properties are stated for every association list with distinct keys,
  that is for every iteration order.

  Floating-point numbers are modelled by \<^typ>\<open>real\<close> (no rounding). \<open>time.time()\<close> is a
  parameter of the operation that reads it.
\<close>

named_theorems ok_intros \<open>preservation of the well-formedness invariants\<close>

section \<open>Exceptions\<close>

text \<open>
  An operation that may raise returns \<open>Inl e\<close> for the exception \<open>e\<close>. Where the
  code has already changed its state when it raises, the operation returns the state reached
  beside the outcome.
\<close>

datatype pyerr = KeyError | IndexError | ValueError | TypeError | AttributeError
  | AssertionError | ZeroDivisionError | UnboundLocalError | NetworkXNoPath

text \<open>Sequencing: \<open>res_bind r f\<close> runs \<open>f\<close> on the value of \<open>r\<close> unless \<open>r\<close> raised.\<close>

definition res_bind :: "pyerr + 'a \<Rightarrow> ('a \<Rightarrow> pyerr + 'b) \<Rightarrow> pyerr + 'b" where
  "res_bind r f = (case r of Inl e \<Rightarrow> Inl e | Inr x \<Rightarrow> f x)"

fun res_map :: "('a \<Rightarrow> pyerr + 'b) \<Rightarrow> 'a list \<Rightarrow> pyerr + 'b list" where
  "res_map f [] = Inr []"
| "res_map f (x # xs) = res_bind (f x) (\<lambda>y. res_bind (res_map f xs) (\<lambda>ys. Inr (y # ys)))"

fun res_fold :: "('s \<Rightarrow> 'a \<Rightarrow> pyerr + 's) \<Rightarrow> 's \<Rightarrow> 'a list \<Rightarrow> pyerr + 's" where
  "res_fold f s [] = Inr s"
| "res_fold f s (x # xs) = res_bind (f s x) (\<lambda>s'. res_fold f s' xs)"

lemma res_bind_simps [simp]: "res_bind (Inl e) f = Inl e" "res_bind (Inr x) f = f x"
  by (simp_all add: res_bind_def)

lemma res_bind_Inr: "res_bind r f = Inr y \<longleftrightarrow> (\<exists>x. r = Inr x \<and> f x = Inr y)"
  by (cases r) auto

lemma res_map_total: "(\<And>x. x \<in> set xs \<Longrightarrow> f x = Inr (g x)) \<Longrightarrow> res_map f xs = Inr (map g xs)"
  by (induction xs) auto

lemma res_map_Inr: "res_map f xs = Inr ys \<Longrightarrow> list_all2 (\<lambda>x y. f x = Inr y) xs ys"
  by (induction xs arbitrary: ys) (auto simp: res_bind_Inr)

lemma res_fold_append: "res_fold f s (xs @ ys) = res_bind (res_fold f s xs) (\<lambda>s'. res_fold f s' ys)"
proof (induction xs arbitrary: s)
  case (Cons x xs)
  then show ?case by (cases "f s x") simp_all
qed simp

text \<open>A loop whose \<open>k\<close>-th iteration sets position \<open>k\<close> of an array.\<close>

lemma res_fold_positions:
  assumes len: "length ys0 = length xs"
    and step: "\<And>k ys. k < length xs \<Longrightarrow> length ys = length xs \<Longrightarrow> ys ! k = ys0 ! k \<Longrightarrow> step ys (xs ! k) = Inr (ys[k := g k])"
  shows "res_fold step ys0 xs = Inr (map g [0..<length xs])"
proof -
  have "res_fold step ys0 (take k xs) = Inr (map g [0..<k] @ drop k ys0)" if "k \<le> length xs" for k
    using that
  proof (induction k)
    case (Suc k)
    let ?ys = "map g [0..<k] @ drop k ys0"
    have "length ?ys = length xs" "?ys ! k = ys0 ! k" using Suc.prems len by (simp_all add: nth_append)
    then have "step ?ys (xs ! k) = Inr (?ys[k := g k])" using Suc.prems by (intro step) simp_all
    also have "?ys[k := g k] = map g [0..<Suc k] @ drop (Suc k) ys0"
      using Suc.prems len by (simp add: list_update_append Cons_nth_drop_Suc[symmetric])
    finally show ?case using Suc by (simp add: take_Suc_conv_app_nth res_fold_append)
  qed simp
  from this[OF order_refl] show ?thesis using len by simp
qed

lemma filter_unique:
  assumes "i < length xs" "P (xs ! i)" "\<And>j. j < length xs \<Longrightarrow> P (xs ! j) \<Longrightarrow> j = i"
  shows "filter P xs = [xs ! i]"
proof -
  have split: "xs = take i xs @ xs ! i # drop (Suc i) xs" using assms(1) by (rule id_take_nth_drop)
  have "\<not> P x" if x: "x \<in> set (take i xs)" for x
  proof
    assume "P x"
    from x obtain j where "j < i" "x = xs ! j" using assms(1) by (auto simp: in_set_conv_nth)
    then show False using assms(3)[of j] \<open>P x\<close> assms(1) by simp
  qed
  moreover have "\<not> P x" if x: "x \<in> set (drop (Suc i) xs)" for x
  proof
    assume "P x"
    from x obtain j where "j < length xs - Suc i" "x = xs ! (Suc i + j)" by (auto simp: in_set_conv_nth)
    moreover from this have "Suc i + j < length xs" by linarith
    ultimately show False using assms(3)[of "Suc i + j"] \<open>P x\<close> by simp
  qed
  ultimately have "filter P (take i xs) = []" "filter P (drop (Suc i) xs) = []" by (simp_all add: filter_empty_conv)
  then show ?thesis using assms(2) by (subst split) simp
qed

lemma res_map_Inl: "x \<in> set xs \<Longrightarrow> f x = Inl e \<Longrightarrow> \<exists>e'. res_map f xs = Inl e'"
proof (induction xs)
  case (Cons a xs)
  then show ?case by (cases "f a"; cases "res_map f xs") auto
qed simp

text \<open>
  Code with a loop that nothing in it bounds may also not return: its outcome is \<^term>\<open>None\<close>
  then. The operations on such outcomes have the same shape.
\<close>

type_synonym 'a run = "(pyerr + 'a) option"

definition run_bind :: "'a run \<Rightarrow> ('a \<Rightarrow> 'b run) \<Rightarrow> 'b run" where
  "run_bind r f = (case r of None \<Rightarrow> None | Some (Inl e) \<Rightarrow> Some (Inl e) | Some (Inr x) \<Rightarrow> f x)"

lemma run_bind_simps [simp]:
  "run_bind None f = None" "run_bind (Some (Inl e)) f = Some (Inl e)" "run_bind (Some (Inr x)) f = f x"
  by (simp_all add: run_bind_def)

lemma run_bind_Some: "run_bind r f = Some (Inr y) \<longleftrightarrow> (\<exists>x. r = Some (Inr x) \<and> f x = Some (Inr y))"
  by (auto simp: run_bind_def split: option.splits sum.splits)

lemma run_bind_None: "run_bind r f = None \<longleftrightarrow> r = None \<or> (\<exists>x. r = Some (Inr x) \<and> f x = None)"
  by (auto simp: run_bind_def split: option.splits sum.splits)

text \<open>\<open>float(x)\<close> of an attribute that may be \<open>None\<close>.\<close>

definition py_float :: "real option \<Rightarrow> pyerr + real" where
  "py_float x = (case x of None \<Rightarrow> Inl TypeError | Some r \<Rightarrow> Inr r)"

section \<open>Dictionaries\<close>

type_synonym ('k, 'v) pydict = "('k \<times> 'v) list"

abbreviation dict_ok :: "('k, 'v) pydict \<Rightarrow> bool" where
  "dict_ok d \<equiv> distinct (map fst d)"

abbreviation dict_get :: "('k, 'v) pydict \<Rightarrow> 'k \<Rightarrow> 'v option" where
  "dict_get d k \<equiv> map_of d k"

abbreviation dict_set :: "'k \<Rightarrow> 'v \<Rightarrow> ('k, 'v) pydict \<Rightarrow> ('k, 'v) pydict" where
  "dict_set k v d \<equiv> AList.update k v d"

abbreviation dict_del :: "'k \<Rightarrow> ('k, 'v) pydict \<Rightarrow> ('k, 'v) pydict" where
  "dict_del k d \<equiv> AList.delete k d"

abbreviation dict_keys :: "('k, 'v) pydict \<Rightarrow> 'k list" where
  "dict_keys d \<equiv> map fst d"

abbreviation dict_values :: "('k, 'v) pydict \<Rightarrow> 'v list" where
  "dict_values d \<equiv> map snd d"

lemma dict_get_set [simp]: "dict_get (dict_set k v d) k' = (if k' = k then Some v else dict_get d k')"
  by (simp add: update_conv')

lemma dict_get_del [simp]: "dict_get (dict_del k d) k' = (if k' = k then None else dict_get d k')"
  by (simp add: delete_conv')

lemma dict_ok_set [simp, ok_intros]: "dict_ok d \<Longrightarrow> dict_ok (dict_set k v d)"
  by (rule distinct_update)

lemma dict_ok_del [simp, ok_intros]: "dict_ok d \<Longrightarrow> dict_ok (dict_del k d)"
  by (rule distinct_delete)

lemma dict_get_Some_iff: "dict_ok d \<Longrightarrow> dict_get d k = Some v \<longleftrightarrow> (k, v) \<in> set d"
  by simp

lemma dict_get_None_iff: "dict_get d k = None \<longleftrightarrow> k \<notin> set (dict_keys d)"
  by (simp add: map_of_eq_None_iff)

lemma set_dict_set:
  "dict_ok d \<Longrightarrow> set (dict_set k v d) = insert (k, v) {p \<in> set d. fst p \<noteq> k}"
  by (induction d) (auto simp: image_iff)

lemma set_dict_del: "set (dict_del k d) = {p \<in> set d. fst p \<noteq> k}"
  by (auto simp: AList.delete_eq)

lemma keys_dict_set: "set (dict_keys (dict_set k v d)) = insert k (set (dict_keys d))"
  using dom_update[of k v d] by (simp add: dom_map_of_conv_image_fst)

lemma foldl_dict_set:
  "distinct (dict_keys d @ dict_keys es) \<Longrightarrow> foldl (\<lambda>d (k, v). dict_set k v d) d es = d @ es"
proof (induction es arbitrary: d)
  case (Cons e es)
  obtain k v where e: "e = (k, v)" by fastforce
  with Cons.prems have "k \<notin> set (dict_keys d)" by auto
  then have "dict_set k v d = d @ [(k, v)]" by (induction d) auto
  then show ?case using Cons e by simp
qed simp

section \<open>Lists\<close>

text \<open>
  \<open>list.index\<close>, \<open>list.remove\<close> and \<open>in\<close> compare with \<open>__eq__\<close>, which a class may
  override: the comparison with the sought element is the predicate \<open>p\<close>.
\<close>

fun index_by :: "('a \<Rightarrow> bool) \<Rightarrow> 'a list \<Rightarrow> nat option" where
  "index_by p [] = None"
| "index_by p (x # xs) = (if p x then Some 0 else map_option Suc (index_by p xs))"

fun remove_by :: "('a \<Rightarrow> bool) \<Rightarrow> 'a list \<Rightarrow> 'a list option" where
  "remove_by p [] = None"
| "remove_by p (x # xs) = (if p x then Some xs else map_option ((#) x) (remove_by p xs))"

abbreviation list_index :: "'a list \<Rightarrow> 'a \<Rightarrow> nat option" where
  "list_index xs x \<equiv> index_by (\<lambda>y. y = x) xs"

lemma index_by_Some:
  "index_by p xs = Some i \<Longrightarrow> i < length xs \<and> p (xs ! i) \<and> (\<forall>j < i. \<not> p (xs ! j))"
proof (induction xs arbitrary: i)
  case (Cons x xs)
  then show ?case
    by (cases i) (auto split: if_splits simp: less_Suc_eq_0_disj)
qed simp

lemma index_by_None_iff: "index_by p xs = None \<longleftrightarrow> (\<forall>x \<in> set xs. \<not> p x)"
  by (induction xs) auto

lemma list_index_nth:
  "distinct xs \<Longrightarrow> i < length xs \<Longrightarrow> list_index xs (xs ! i) = Some i"
proof (induction xs arbitrary: i)
  case (Cons x xs)
  then show ?case by (cases i) auto
qed simp

lemma list_index_Some_iff:
  "distinct xs \<Longrightarrow> list_index xs x = Some i \<longleftrightarrow> i < length xs \<and> xs ! i = x"
  using index_by_Some[of "\<lambda>y. y = x" xs i] list_index_nth[of xs i] by auto

lemma list_index_mem: "x \<in> set xs \<Longrightarrow> \<exists>i < length xs. list_index xs x = Some i \<and> xs ! i = x"
  using index_by_Some[of "\<lambda>y. y = x" xs] index_by_None_iff[of "\<lambda>y. y = x" xs]
  by (cases "list_index xs x") auto

lemma remove_by_None_iff: "remove_by p xs = None \<longleftrightarrow> (\<forall>x \<in> set xs. \<not> p x)"
  by (induction xs) auto

lemma remove_by_Some:
  "remove_by p xs = Some ys \<Longrightarrow> \<exists>us x vs. xs = us @ x # vs \<and> ys = us @ vs \<and> p x \<and> (\<forall>u \<in> set us. \<not> p u)"
proof (induction xs arbitrary: ys)
  case (Cons a xs)
  show ?case
  proof (cases "p a")
    case True
    with Cons.prems show ?thesis
      by (intro exI[of _ "[]"] exI[of _ a] exI[of _ xs]) auto
  next
    case False
    with Cons.prems obtain zs where "remove_by p xs = Some zs" "ys = a # zs" by auto
    with Cons.IH obtain us x vs where
      "xs = us @ x # vs" "zs = us @ vs" "p x" "\<forall>u \<in> set us. \<not> p u" by blast
    with False \<open>ys = a # zs\<close> show ?thesis
      by (intro exI[of _ "a # us"] exI[of _ x] exI[of _ vs]) auto
  qed
qed simp

definition py_index :: "'a list \<Rightarrow> 'a \<Rightarrow> pyerr + nat" where
  "py_index xs x = (case list_index xs x of None \<Rightarrow> Inl ValueError | Some i \<Rightarrow> Inr i)"

definition py_nth :: "'a list \<Rightarrow> nat \<Rightarrow> pyerr + 'a" where
  "py_nth xs i = (if i < length xs then Inr (xs ! i) else Inl IndexError)"

text \<open>The assignment \<open>xs[i] = x\<close>.\<close>

definition put_at :: "'a list \<Rightarrow> nat \<Rightarrow> 'a \<Rightarrow> pyerr + 'a list" where
  "put_at xs i x = (if i < length xs then Inr (xs[i := x]) else Inl IndexError)"

text \<open>A negative index counts from the end.\<close>

definition py_nth_int :: "'a list \<Rightarrow> int \<Rightarrow> pyerr + 'a" where
  "py_nth_int xs i =
     (if 0 \<le> i then py_nth xs (nat i)
      else if - int (length xs) \<le> i then Inr (xs ! nat (int (length xs) + i))
      else Inl IndexError)"

text \<open>The position of an element that is there.\<close>

definition pos :: "'a list \<Rightarrow> 'a \<Rightarrow> nat" where
  "pos xs x = (case list_index xs x of None \<Rightarrow> length xs | Some i \<Rightarrow> i)"

lemma py_index_mem: "x \<in> set xs \<Longrightarrow> py_index xs x = Inr (pos xs x)"
  using list_index_mem[of x xs] by (auto simp: py_index_def pos_def)

lemma py_index_not_mem: "x \<notin> set xs \<Longrightarrow> py_index xs x = Inl ValueError"
  using index_by_None_iff[of "\<lambda>y. y = x" xs] by (auto simp: py_index_def split: option.splits)

lemma pos_mem: "x \<in> set xs \<Longrightarrow> pos xs x < length xs \<and> xs ! pos xs x = x"
  using list_index_mem[of x xs] by (auto simp: pos_def)

lemma pos_Cons: "pos (x # xs) y = (if x = y then 0 else Suc (pos xs y))"
  by (simp add: pos_def split: option.splits)

lemma pos_filter:
  "distinct xs \<Longrightarrow> i < j \<Longrightarrow> j < length (filter P xs) \<Longrightarrow> pos xs (filter P xs ! i) < pos xs (filter P xs ! j)"
proof (induction xs arbitrary: i j)
  case (Cons x xs)
  have ne: "x \<noteq> filter P xs ! k" if "k < length (filter P xs)" for k
    using nth_mem[OF that] Cons.prems(1) by auto
  show ?case
  proof (cases "P x")
    case True
    obtain j' where j: "j = Suc j'" "j' < length (filter P xs)" using Cons.prems(2,3) True by (cases j) auto
    show ?thesis
    proof (cases i)
      case 0
      then show ?thesis using ne[OF j(2)] True j by (simp add: pos_Cons)
    next
      case (Suc i')
      then have "i' < j'" "x \<noteq> filter P xs ! i'" using Cons.prems(2) j ne by auto
      then show ?thesis using Suc j ne[OF j(2)] True Cons.IH[of i' j'] Cons.prems(1) by (simp add: pos_Cons)
    qed
  next
    case False
    then show ?thesis using Cons.IH[of i j] Cons.prems ne[of i] ne[of j] by (simp add: pos_Cons)
  qed
qed simp

lemma pos_nth: "distinct xs \<Longrightarrow> i < length xs \<Longrightarrow> pos xs (xs ! i) = i"
  by (simp add: pos_def list_index_nth)

lemma pos_inj: "x \<in> set xs \<Longrightarrow> y \<in> set xs \<Longrightarrow> pos xs x = pos xs y \<longleftrightarrow> x = y"
  by (metis pos_mem)

section \<open>Random draws\<close>

text \<open>
  Every run of the code makes finitely many calls of the \<open>random\<close> module, so the draws of a
  run are a list, consumed from the front (an exhausted list keeps giving 0). A property that
  holds for every list of draws holds for every run.

  \<open>random.random()\<close> is the next draw itself, a number of \<open>[0, 1)\<close>. \<open>random.randint(a, b)\<close>
  picks one of the \<open>b - a + 1\<close> integers from \<open>a\<close> to \<open>b\<close>; it raises \<open>ValueError\<close> on an
  empty range.
\<close>

type_synonym draws = "real list"

definition next_draw :: "draws \<Rightarrow> real \<times> draws" where
  "next_draw us = (case us of [] \<Rightarrow> (0, []) | u # us' \<Rightarrow> (u, us'))"

definition draws_ok :: "draws \<Rightarrow> bool" where
  "draws_ok us \<longleftrightarrow> (\<forall>u \<in> set us. 0 \<le> u \<and> u < 1)"

definition scale_draw :: "real \<Rightarrow> nat \<Rightarrow> nat" where
  "scale_draw u n = nat \<lfloor>u * real n\<rfloor>"

definition randint :: "nat \<Rightarrow> nat \<Rightarrow> draws \<Rightarrow> pyerr + (nat \<times> draws)" where
  "randint a b us =
     (if b < a then Inl ValueError
      else case next_draw us of (u, us') \<Rightarrow> Inr (a + scale_draw u (Suc b - a), us'))"

lemma randint_defined: "a \<le> b \<Longrightarrow> \<exists>r us'. randint a b us = Inr (r, us')"
  by (cases "next_draw us") (simp add: randint_def)

text \<open>
  \<open>random.shuffle(x)\<close> exchanges, from the last position down to position 1, the element with one at
  a random position that is not behind it.
\<close>

fun shuffle_down :: "nat \<Rightarrow> 'a list \<Rightarrow> draws \<Rightarrow> 'a list \<times> draws" where
  "shuffle_down 0 xs us = (xs, us)"
| "shuffle_down (Suc i) xs us =
     (case next_draw us of (u, us') \<Rightarrow>
        (let j = scale_draw u (Suc (Suc i))
         in shuffle_down i (xs[Suc i := xs ! j, j := xs ! Suc i]) us'))"

definition shuffle_list :: "'a list \<Rightarrow> draws \<Rightarrow> 'a list \<times> draws" where
  "shuffle_list xs us = shuffle_down (length xs - 1) xs us"

lemma draws_ok_next: "draws_ok us \<Longrightarrow> next_draw us = (u, us') \<Longrightarrow> 0 \<le> u \<and> u < 1 \<and> draws_ok us'"
  by (auto simp: next_draw_def draws_ok_def split: list.splits)

lemma scale_draw_less: "0 \<le> u \<Longrightarrow> u < 1 \<Longrightarrow> 0 < n \<Longrightarrow> scale_draw u n < n"
proof -
  assume u: "0 \<le> u" "u < 1" and n: "0 < n"
  have "u * real n < real n" using u n by simp
  then have "\<lfloor>u * real n\<rfloor> < int n" by (simp add: floor_less_iff)
  then show ?thesis unfolding scale_draw_def using n by linarith
qed

lemma randint_range:
  "draws_ok us \<Longrightarrow> randint a b us = Inr (r, us') \<Longrightarrow> a \<le> r \<and> r \<le> b \<and> draws_ok us'"
  using scale_draw_less[of "fst (next_draw us)" "Suc b - a"] draws_ok_next[of us]
  by (fastforce simp: randint_def split: if_splits prod.splits)

lemma shuffle_down_mset:
  "draws_ok us \<Longrightarrow> i < length xs \<Longrightarrow> shuffle_down i xs us = (ys, us') \<Longrightarrow> mset ys = mset xs \<and> draws_ok us'"
proof (induction i xs us rule: shuffle_down.induct)
  case (2 i xs us)
  obtain u us1 where n: "next_draw us = (u, us1)" by fastforce
  note u = draws_ok_next[OF "2.prems"(1) n]
  let ?j = "scale_draw u (Suc (Suc i))"
  have "?j < Suc (Suc i)" using u by (intro scale_draw_less) auto
  then have j: "?j < length xs" using "2.prems"(2) by simp
  have "mset ys = mset (xs[Suc i := xs ! ?j, ?j := xs ! Suc i]) \<and> draws_ok us'"
    using "2.IH"[OF n[symmetric] refl] "2.prems"(2,3) u n by (simp add: Let_def)
  then show ?case using mset_swap[OF j "2.prems"(2)] by simp
qed simp

lemma shuffle_list_mset:
  "draws_ok us \<Longrightarrow> shuffle_list xs us = (ys, us') \<Longrightarrow> mset ys = mset xs \<and> draws_ok us'"
  using shuffle_down_mset[of us "length xs - 1" xs ys us'] by (cases xs) (auto simp: shuffle_list_def)

section \<open>Stores driven by events\<close>

text \<open>
  Several tables of the program are sets kept up to date by events: the links, the neighbour
  relation, the members of a multicast group. \<open>effect ev = (e, True)\<close> when the event puts
  \<open>e\<close> in, \<open>(e, False)\<close> when it takes \<open>e\<close> out. What such a store promises is stated once: after
  any sequence of events it holds exactly the elements whose latest event put them in.
\<close>

fun latest :: "('ev \<Rightarrow> 'e \<times> bool) \<Rightarrow> 'e \<Rightarrow> bool \<Rightarrow> 'ev list \<Rightarrow> bool" where
  "latest eff e b [] = b"
| "latest eff e b (ev # evs) = latest eff e (if fst (eff ev) = e then snd (eff ev) else b) evs"

locale set_machine =
  fixes ok :: "'t \<Rightarrow> bool" and content :: "'t \<Rightarrow> 'e set"
    and step :: "'ev \<Rightarrow> 't \<Rightarrow> 't" and effect :: "'ev \<Rightarrow> 'e \<times> bool"
  assumes step_ok: "ok t \<Longrightarrow> ok (step ev t)"
    and step_content: "ok t \<Longrightarrow> content (step ev t) =
      (if snd (effect ev) then insert (fst (effect ev)) (content t) else content t - {fst (effect ev)})"
begin

lemma run_ok: "ok t \<Longrightarrow> ok (fold step evs t)"
  by (induction evs arbitrary: t) (auto intro: step_ok)

lemma run_content: "ok t \<Longrightarrow> e \<in> content (fold step evs t) \<longleftrightarrow> latest effect e (e \<in> content t) evs"
  by (induction evs arbitrary: t) (auto simp: step_ok step_content)

end

end
