(* ===== verification/OpenFlow.thy ===== *)
theory OpenFlow
  imports Prelude
begin

text \<open>
  The messages the applications send to the switches and to the web interface, as values. The
  constructors of \<open>ofproto_v1_3_parser\<close> that the code calls are the constructors here, with the
  arguments the code gives. An operation that sends returns the list of the messages it sent before
  it returned or raised.
\<close>

section \<open>Messages\<close>

datatype match_field = InPort nat | EthType nat | EthDst string | Ipv4Src string | Ipv4Dst string | NwProto nat

datatype of_action = Output nat | DecNwTtl | SetTcpSrc nat | SetTcpDst nat
  | SetIpv4Src string | SetIpv4Dst string | SetEthSrc string | SetEthDst string

record flow_entry =
  fm_dpid :: nat
  fm_priority :: nat
  fm_idle_timeout :: nat
  fm_hard_timeout :: nat
  fm_flags :: nat
  fm_match :: "match_field list"
  fm_actions :: "of_action list"

record arp_packet =
  arp_opcode :: nat
  arp_src_mac :: string
  arp_src_ip :: string
  arp_dst_mac :: string
  arp_dst_ip :: string

text \<open>
  The body of a packet-out: nothing, the bytes of the packet that came in, or a frame the code has
  built: an ARP packet, or an IGMP query with its Ethernet source, its group and its response time in
  tenths of a second (its other fields are constants).
\<close>

datatype frame = NoData | Raw string
  | ArpFrame (frame_dst: string) (frame_src: string) (frame_arp: arp_packet)
  | IgmpQuery string string nat

datatype out_msg = FlowAdd flow_entry | FlowDelete nat "match_field list"
  | PacketOut (po_dpid: nat) (po_buffer: nat) (po_in_port: nat) (po_actions: "of_action list") (po_data: frame)
  | WebRouteSet "(nat \<times> nat \<times> nat \<times> nat) list" | WebRouteSetDij "(nat \<times> nat \<times> nat \<times> nat) list"

abbreviation OFPP_FLOOD :: nat where "OFPP_FLOOD \<equiv> 0xfffffffb"
abbreviation OFPP_CONTROLLER :: nat where "OFPP_CONTROLLER \<equiv> 0xfffffffd"
abbreviation OFP_NO_BUFFER :: nat where "OFP_NO_BUFFER \<equiv> 0xffffffff"
abbreviation ETH_TYPE_IP :: nat where "ETH_TYPE_IP \<equiv> 0x0800"
abbreviation ETH_TYPE_ARP :: nat where "ETH_TYPE_ARP \<equiv> 0x0806"

abbreviation BROADCAST_STR :: string where "BROADCAST_STR \<equiv> ''ff:ff:ff:ff:ff:ff''"
abbreviation DEFAULT_ARP_PING_SRC_MAC :: string where "DEFAULT_ARP_PING_SRC_MAC \<equiv> ''02:00:00:00:be:ef''"

section \<open>Sending\<close>

text \<open>The messages sent, and the result or the exception that ended the operation.\<close>

type_synonym 'a sends = "out_msg list \<times> (pyerr + 'a)"

definition send :: "out_msg \<Rightarrow> unit sends" where
  "send m = ([m], Inr ())"

definition pure :: "pyerr + 'a \<Rightarrow> 'a sends" where
  "pure r = ([], r)"

definition send_bind :: "'a sends \<Rightarrow> ('a \<Rightarrow> 'b sends) \<Rightarrow> 'b sends" where
  "send_bind c f = (case snd c of Inl e \<Rightarrow> (fst c, Inl e) | Inr x \<Rightarrow> (fst c @ fst (f x), snd (f x)))"

lemma send_bind_simps [simp]:
  "send_bind (ms, Inr x) f = (ms @ fst (f x), snd (f x))" "send_bind (ms, Inl e) f = (ms, Inl e)"
  by (simp_all add: send_bind_def)

lemma send_bind_send [simp]: "send_bind (send m) f = (m # fst (f ()), snd (f ()))"
  by (simp add: send_def)

lemma send_bind_pure [simp]: "send_bind (pure (Inr x)) f = f x" "send_bind (pure (Inl e)) f = ([], Inl e)"
  by (simp_all add: pure_def)

fun send_each :: "('a \<Rightarrow> 'b sends) \<Rightarrow> 'a list \<Rightarrow> 'b list sends" where
  "send_each f [] = pure (Inr [])"
| "send_each f (x # xs) = send_bind (f x) (\<lambda>y. send_bind (send_each f xs) (\<lambda>ys. pure (Inr (y # ys))))"

lemma send_each_total:
  "(\<And>x. x \<in> set xs \<Longrightarrow> f x = (ms x, Inr (g x))) \<Longrightarrow> send_each f xs = (concat (map ms xs), Inr (map g xs))"
  by (induction xs) (auto simp: pure_def)

section \<open>Packets that come in\<close>

text \<open>The layers of a parsed packet that the applications look at.\<close>

record ip_packet =
  ipp_src :: string
  ipp_dst :: string
  ipp_proto :: nat

datatype protocol = Ethernet string string | Arp arp_packet | Ipv4 ip_packet | Igmp | Lldp | OtherLayer

record packet_in =
  pi_dpid :: nat
  pi_in_port :: nat
  pi_buffer_id :: nat
  pi_data :: string
  pi_protocols :: "protocol list"

text \<open>\<open>parse_packet(pkt, 'ethernet')\<close>: the first Ethernet layer.\<close>

definition parse_ethernet :: "protocol list \<Rightarrow> (string \<times> string) option" where
  "parse_ethernet ps =
     (case find (\<lambda>p. case p of Ethernet s d \<Rightarrow> True | _ \<Rightarrow> False) ps of
        Some (Ethernet s d) \<Rightarrow> Some (s, d) | _ \<Rightarrow> None)"

end
