(* ===== verification/Link_Table.thy ===== *)
theory Link_Table
  imports Prelude
begin

text \<open>
  The switch ports and links of \<open>topology_manage/object\<close>: \<open>Port\<close>, \<open>PortTable\<close>, \<open>Link\<close>,
  \<open>LinkTable\<close>, \<open>LinkTableApi\<close> and \<open>serialize\<close>. A link table maps the ordered pair of the
  switches' datapath ids to the list of the links between them.
\<close>

unbundle bit_operations_syntax

section \<open>Ports\<close>

text \<open>
  \<open>datapath\<close> is the connection object of a switch; only its id, its peer address and its port
  descriptions are read by the code modelled here. \<open>ofpport\<close> is a port description of OpenFlow
  1.3, with the 32-bit \<open>config\<close> and \<open>state\<close> fields of the wire format.
\<close>

record ofpport =
  ofp_port_no :: nat
  ofp_hw_addr :: string
  ofp_name :: string
  ofp_config :: "32 word"
  ofp_state :: "32 word"

record datapath =
  dp_id :: nat
  dp_address :: string
  dp_ports :: "(nat, ofpport) pydict"

record port =
  port_dpid :: nat
  port_no :: nat
  port_hw_addr :: string
  port_name :: string
  port_config :: "32 word"
  port_state :: "32 word"
  port_datapath :: "datapath option"

definition OFPP_MAX :: nat where "OFPP_MAX = 0xffffff00"
definition OFPP_LOCAL :: nat where "OFPP_LOCAL = 0xfffffffe"
definition OFPPS_LINK_DOWN :: "32 word" where "OFPPS_LINK_DOWN = 1"
definition OFPPC_PORT_DOWN :: "32 word" where "OFPPC_PORT_DOWN = 1"

definition is_reserved :: "port \<Rightarrow> bool" where
  "is_reserved p \<longleftrightarrow> port_no p > OFPP_MAX"

definition is_down :: "port \<Rightarrow> bool" where
  "is_down p \<longleftrightarrow> port_state p AND OFPPS_LINK_DOWN > 0 \<or> port_config p AND OFPPC_PORT_DOWN > 0"

definition port_eq :: "port \<Rightarrow> port \<Rightarrow> bool" where
  "port_eq p q \<longleftrightarrow> port_dpid p = port_dpid q \<and> port_no p = port_no q"

text \<open>
  \<open>Port(port, datapath)\<close> copies a port it is given and records the datapath passed; from an
  OpenFlow description it takes the dpid of the datapath.
\<close>

definition Port_of_port :: "port \<Rightarrow> datapath option \<Rightarrow> port" where
  "Port_of_port p dp = p\<lparr>port_datapath := dp\<rparr>"

definition Port_of_ofpport :: "ofpport \<Rightarrow> datapath \<Rightarrow> port" where
  "Port_of_ofpport p dp =
     \<lparr>port_dpid = dp_id dp, port_no = ofp_port_no p, port_hw_addr = ofp_hw_addr p,
      port_name = ofp_name p, port_config = ofp_config p, port_state = ofp_state p,
      port_datapath = None\<rparr>"

type_synonym port_table = "(nat, port) pydict"

definition add_port :: "nat \<Rightarrow> port \<Rightarrow> datapath option \<Rightarrow> port_table \<Rightarrow> port_table" where
  "add_port pno p dp pt = dict_set pno (Port_of_port (Port_of_port p dp) dp) pt"

definition add_ofpport :: "nat \<Rightarrow> ofpport \<Rightarrow> datapath \<Rightarrow> port_table \<Rightarrow> port_table" where
  "add_ofpport pno p dp pt = dict_set pno (Port_of_port (Port_of_ofpport p dp) (Some dp)) pt"

definition del_port :: "nat \<Rightarrow> port_table \<Rightarrow> port_table" where
  "del_port pno pt = dict_del pno pt"

definition get_port :: "nat \<Rightarrow> port_table \<Rightarrow> port option" where
  "get_port pno pt = dict_get pt pno"

section \<open>Links\<close>

datatype link_attribute = direct | virtual

record link =
  link_src :: port
  link_dst :: port
  link_attribute :: "link_attribute option"
  link_pkt_loss :: "real option"
  link_total_band :: "real option"
  link_available_band :: "real option"
  link_delay :: "real option"
  link_cost :: "real option"
  link_timestamp :: real

definition new_link :: "real \<Rightarrow> port \<Rightarrow> port \<Rightarrow> link_attribute option \<Rightarrow> link" where
  "new_link now src dst attr =
     \<lparr>link_src = src, link_dst = dst, link_attribute = attr, link_pkt_loss = None,
      link_total_band = None, link_available_band = None, link_delay = None, link_cost = None,
      link_timestamp = now\<rparr>"

definition link_eq :: "link \<Rightarrow> link \<Rightarrow> bool" where
  "link_eq l k \<longleftrightarrow> port_eq (link_src l) (link_src k) \<and> port_eq (link_dst l) (link_dst k)"

definition serialize :: "port \<Rightarrow> port \<Rightarrow> port \<times> port" where
  "serialize src dst = (if port_dpid src > port_dpid dst then (dst, src) else (src, dst))"

section \<open>The link table\<close>

type_synonym link_table = "(nat \<times> nat, link list) pydict"

definition add_link :: "real \<Rightarrow> link \<Rightarrow> link_table \<Rightarrow> link_table \<times> ((nat \<times> nat) \<times> link) option" where
  "add_link now l t =
     (let (src, dst) = serialize (link_src l) (link_dst l);
          k = (port_dpid src, port_dpid dst);
          nl = new_link now src dst (Some direct)
      in case dict_get t k of
           None \<Rightarrow> (dict_set k [nl] t, Some (k, nl))
         | Some ls \<Rightarrow>
             (if index_by (\<lambda>x. link_eq x nl) ls = None
              then (dict_set k (ls @ [nl]) t, Some (k, nl))
              else (t, None)))"

definition del_link :: "link \<Rightarrow> link_table \<Rightarrow> link_table \<times> (nat \<times> nat) option" where
  "del_link l t =
     (let (src, dst) = serialize (link_src l) (link_dst l);
          k = (port_dpid src, port_dpid dst)
      in case dict_get t k of
           None \<Rightarrow> (t, None)
         | Some ls \<Rightarrow>
             (case remove_by (\<lambda>x. link_eq x (new_link 0 src dst None)) ls of
                None \<Rightarrow> (t, None)
              | Some ls' \<Rightarrow> (if ls' = [] then dict_del k t else dict_set k ls' t, Some k)))"

definition get_link :: "link \<Rightarrow> link_table \<Rightarrow> link list option" where
  "get_link l t =
     (let (src, dst) = serialize (link_src l) (link_dst l)
      in dict_get t (port_dpid src, port_dpid dst))"

definition get_link_by_dpid :: "nat \<Rightarrow> nat \<Rightarrow> link_table \<Rightarrow> link list option" where
  "get_link_by_dpid s d t = dict_get t (if s > d then (d, s) else (s, d))"

text \<open>
  \<open>add_virtual_link\<close> returns \<open>True\<close> when it adds the link, \<open>False\<close> when a link that is not
  virtual is already there, and falls off the end (\<open>None\<close>) when a virtual one is.
\<close>

definition add_virtual_link ::
  "real \<Rightarrow> nat \<Rightarrow> port \<Rightarrow> nat \<Rightarrow> port \<Rightarrow> link_table \<Rightarrow> link_table \<times> bool option" where
  "add_virtual_link now sd sp dd dp t =
     (let (sd, dd, sp, dp) = (if sd > dd then (dd, sd, dp, sp) else (sd, dd, sp, dp));
          nl = new_link now sp dp (Some virtual)
      in case dict_get t (sd, dd) of
           None \<Rightarrow> (dict_set (sd, dd) [nl] t, Some True)
         | Some ls \<Rightarrow>
             (case index_by (\<lambda>x. link_eq x nl) ls of
                None \<Rightarrow> (dict_set (sd, dd) (ls @ [nl]) t, Some True)
              | Some i \<Rightarrow>
                  (t, if link_attribute (ls ! i) \<noteq> Some virtual then Some False else None)))"

definition del_virtual_link ::
  "nat \<Rightarrow> port \<Rightarrow> nat \<Rightarrow> port \<Rightarrow> link_table \<Rightarrow> link_table \<times> bool option" where
  "del_virtual_link sd sp dd dp t =
     (let (sd, dd, sp, dp) = (if sd > dd then (dd, sd, dp, sp) else (sd, dd, sp, dp));
          eq = (\<lambda>x. link_eq x (new_link 0 sp dp None))
      in case dict_get t (sd, dd) of
           None \<Rightarrow> (t, None)
         | Some ls \<Rightarrow>
             (case index_by eq ls of
                None \<Rightarrow> (t, None)
              | Some i \<Rightarrow>
                  (if link_attribute (ls ! i) = Some virtual
                   then (case remove_by eq ls of
                           None \<Rightarrow> (t, None)
                         | Some ls' \<Rightarrow>
                             (if ls' = [] then dict_del (sd, dd) t else dict_set (sd, dd) ls' t,
                              Some True))
                   else (t, None))))"

text \<open>
  The loop of \<open>del_all_virtual_link\<close> deletes from the list it enumerates: the iterator stands
  at position \<open>i\<close> of the list as it is now, and steps to \<open>i + 1\<close> after a deletion too.
\<close>

function del_enumerated :: "('a \<Rightarrow> bool) \<Rightarrow> nat \<Rightarrow> 'a list \<Rightarrow> 'a list" where
  "del_enumerated p i xs =
     (if i < length xs
      then del_enumerated p (Suc i) (if p (xs ! i) then take i xs @ drop (Suc i) xs else xs)
      else xs)"
  by pat_completeness auto
termination
  by (relation "measure (\<lambda>(p, i, xs). length xs - i)") auto

declare del_enumerated.simps [simp del]

definition del_all_virtual_link :: "nat \<Rightarrow> nat \<Rightarrow> link_table \<Rightarrow> link_table" where
  "del_all_virtual_link s d t =
     (let k = (if s > d then (d, s) else (s, d))
      in case dict_get t k of
           None \<Rightarrow> t
         | Some ls \<Rightarrow>
             (let ls' = del_enumerated (\<lambda>l. link_attribute l = Some virtual) 0 ls
              in if ls' = [] then dict_del k t else dict_set k ls' t))"

section \<open>The table handed to the other components\<close>

type_synonym link_table_api = "(nat \<times> nat, (nat \<times> nat, link) pydict) pydict"

definition ports_of :: "link \<Rightarrow> nat \<times> nat" where
  "ports_of l = (port_no (link_src l), port_no (link_dst l))"

definition api_insert :: "nat \<times> nat \<Rightarrow> link_table_api \<Rightarrow> link \<Rightarrow> link_table_api" where
  "api_insert k a l =
     (case dict_get a k of
        None \<Rightarrow> dict_set k (dict_set (ports_of l) l []) a
      | Some m \<Rightarrow> dict_set k (dict_set (ports_of l) l m) a)"

definition api_init :: "link_table \<Rightarrow> link_table_api" where
  "api_init t = foldl (\<lambda>a (k, ls). foldl (api_insert k) a ls) [] t"


section \<open>Well-formed link tables\<close>

text \<open>
  The endpoints of a link as the table orders them, and the endpoints of all the links a table
  holds: the table as a set of cables, which is what the rest of the program takes it for.
\<close>

definition raw_ends :: "link \<Rightarrow> (nat \<times> nat) \<times> (nat \<times> nat)" where
  "raw_ends l = ((port_dpid (link_src l), port_no (link_src l)), (port_dpid (link_dst l), port_no (link_dst l)))"

definition norm_ends :: "link \<Rightarrow> (nat \<times> nat) \<times> (nat \<times> nat)" where
  "norm_ends l = (let (s, d) = raw_ends l in if fst s > fst d then (d, s) else (s, d))"

definition table_ends :: "link_table \<Rightarrow> ((nat \<times> nat) \<times> (nat \<times> nat)) set" where
  "table_ends t = (\<Union>(k, ls) \<in> set t. raw_ends ` set ls)"

definition ends_key :: "(nat \<times> nat) \<times> (nat \<times> nat) \<Rightarrow> nat \<times> nat" where
  "ends_key e = (fst (fst e), fst (snd e))"

definition entry_ok :: "nat \<times> nat \<Rightarrow> link list \<Rightarrow> bool" where
  "entry_ok k ls \<longleftrightarrow> fst k \<le> snd k \<and> ls \<noteq> [] \<and>
     (\<forall>l \<in> set ls. (port_dpid (link_src l), port_dpid (link_dst l)) = k) \<and> distinct (map raw_ends ls)"

definition lt_ok :: "link_table \<Rightarrow> bool" where
  "lt_ok t \<longleftrightarrow> dict_ok t \<and> (\<forall>(k, ls) \<in> set t. entry_ok k ls)"

lemma lt_ok_empty [ok_intros]: "lt_ok []"
  by (simp add: lt_ok_def)

lemma lt_ok_set [ok_intros]: "lt_ok t \<Longrightarrow> entry_ok k ls \<Longrightarrow> lt_ok (dict_set k ls t)"
  unfolding lt_ok_def by (auto simp: set_dict_set)

lemma lt_ok_del [ok_intros]: "lt_ok t \<Longrightarrow> lt_ok (dict_del k t)"
  unfolding lt_ok_def by (auto simp: set_dict_del)

lemma lt_ok_get: "lt_ok t \<Longrightarrow> dict_get t k = Some ls \<Longrightarrow> entry_ok k ls"
  unfolding lt_ok_def by (auto dest!: map_of_SomeD)

lemma table_ends_key:
  "lt_ok t \<Longrightarrow> (e, f) \<in> table_ends t \<longleftrightarrow>
     (\<exists>ls. dict_get t (fst e, fst f) = Some ls \<and> (e, f) \<in> raw_ends ` set ls)"
  unfolding lt_ok_def entry_ok_def table_ends_def raw_ends_def ends_key_def
  by (fastforce simp: dict_get_Some_iff image_iff)

lemma table_ends_set:
  "lt_ok t \<Longrightarrow> table_ends (dict_set k ls t) = raw_ends ` set ls \<union> {e \<in> table_ends t. ends_key e \<noteq> k}"
  unfolding lt_ok_def entry_ok_def table_ends_def raw_ends_def ends_key_def by (fastforce simp: set_dict_set)

lemma table_ends_del:
  "lt_ok t \<Longrightarrow> table_ends (dict_del k t) = {e \<in> table_ends t. ends_key e \<noteq> k}"
  unfolding lt_ok_def entry_ok_def table_ends_def raw_ends_def ends_key_def by (fastforce simp: set_dict_del)

lemma entry_ends:
  "lt_ok t \<Longrightarrow> dict_get t k = Some ls \<Longrightarrow>
     {e \<in> table_ends t. ends_key e = k} = raw_ends ` set ls"
  unfolding lt_ok_def entry_ok_def table_ends_def raw_ends_def ends_key_def by (fastforce simp: dict_get_Some_iff)

lemma no_entry_ends:
  "lt_ok t \<Longrightarrow> dict_get t k = None \<Longrightarrow> e \<in> table_ends t \<Longrightarrow> ends_key e \<noteq> k"
  unfolding lt_ok_def entry_ok_def table_ends_def raw_ends_def ends_key_def
  by (fastforce simp: dict_get_None_iff image_iff)

lemma link_eq_iff: "link_eq l k \<longleftrightarrow> raw_ends l = raw_ends k"
  by (auto simp: link_eq_def port_eq_def raw_ends_def)

lemma raw_ends_serialized:
  "serialize (link_src l) (link_dst l) = (src, dst) \<Longrightarrow> raw_ends (new_link now src dst a) = norm_ends l"
  by (auto simp: serialize_def raw_ends_def new_link_def norm_ends_def Let_def split: if_splits)

lemma serialize_le:
  "serialize p q = (src, dst) \<Longrightarrow> port_dpid src \<le> port_dpid dst"
  by (auto simp: serialize_def split: if_splits)

lemma norm_ends_fst:
  "serialize (link_src l) (link_dst l) = (src, dst) \<Longrightarrow>
     ends_key (norm_ends l) = (port_dpid src, port_dpid dst)"
  by (auto simp: serialize_def norm_ends_def raw_ends_def ends_key_def Let_def split: if_splits)

lemma index_by_link_None:
  "index_by (\<lambda>x. link_eq x l) ls = None \<longleftrightarrow> raw_ends l \<notin> raw_ends ` set ls"
  by (induction ls) (auto simp: link_eq_iff)

section \<open>Adding and deleting a link\<close>

lemma new_link_entry:
  "port_dpid src \<le> port_dpid dst \<Longrightarrow> entry_ok (port_dpid src, port_dpid dst) [new_link now src dst a]"
  by (simp add: entry_ok_def new_link_def)

lemma add_link_spec:
  assumes ok: "lt_ok t" and add: "add_link now l t = (t', r)"
  shows "lt_ok t'" and "table_ends t' = insert (norm_ends l) (table_ends t)"
    and "r = None \<longleftrightarrow> norm_ends l \<in> table_ends t"
proof -
  obtain src dst where sd: "serialize (link_src l) (link_dst l) = (src, dst)" by fastforce
  let ?k = "(port_dpid src, port_dpid dst)" and ?nl = "new_link now src dst (Some direct)"
  note defs = add_link_def sd Let_def
  have re: "raw_ends ?nl = norm_ends l" by (rule raw_ends_serialized[OF sd])
  have kk: "ends_key (norm_ends l) = ?k" by (rule norm_ends_fst[OF sd])
  have le: "port_dpid src \<le> port_dpid dst" by (rule serialize_le[OF sd])
  have goals: "lt_ok t' \<and> table_ends t' = insert (norm_ends l) (table_ends t) \<and>
      (r = None \<longleftrightarrow> norm_ends l \<in> table_ends t)"
  proof (cases "dict_get t ?k")
    case None
    then have "t' = dict_set ?k [?nl] t" "r \<noteq> None" using add by (auto simp: defs)
    moreover have "norm_ends l \<notin> table_ends t" using no_entry_ends[OF ok None] kk by blast
    ultimately show ?thesis
      using ok le re kk no_entry_ends[OF ok None]
      by (auto simp: table_ends_set intro: lt_ok_set new_link_entry)
  next
    case (Some ls)
    have ent: "entry_ok ?k ls" by (rule lt_ok_get[OF ok Some])
    note es = entry_ends[OF ok Some]
    show ?thesis
    proof (cases "norm_ends l \<in> raw_ends ` set ls")
      case True
      then have "index_by (\<lambda>x. link_eq x ?nl) ls \<noteq> None" by (simp add: index_by_link_None re)
      then have "t' = t" "r = None" using add Some by (auto simp: defs split: option.splits if_splits)
      then show ?thesis using ok True es by auto
    next
      case False
      then have "index_by (\<lambda>x. link_eq x ?nl) ls = None" by (simp add: index_by_link_None re)
      then have t': "t' = dict_set ?k (ls @ [?nl]) t" and "r \<noteq> None"
        using add Some by (auto simp: defs)
      have "entry_ok ?k (ls @ [?nl])"
        using ent False re by (auto simp: entry_ok_def new_link_def)
      then have "lt_ok t'" unfolding t' by (rule lt_ok_set[OF ok])
      moreover have "table_ends t' = insert (norm_ends l) (table_ends t)"
        unfolding t' table_ends_set[OF ok] using es re by auto
      moreover have "norm_ends l \<notin> table_ends t" using es kk False by auto
      ultimately show ?thesis using \<open>r \<noteq> None\<close> by blast
    qed
  qed
  then show "lt_ok t'" and "table_ends t' = insert (norm_ends l) (table_ends t)"
    and "r = None \<longleftrightarrow> norm_ends l \<in> table_ends t" by blast+
qed

lemma remove_by_link:
  assumes rm: "remove_by (\<lambda>x. link_eq x m) ls = Some ls'" and d: "distinct (map raw_ends ls)"
  shows "set ls' \<subseteq> set ls" and "raw_ends ` set ls' = raw_ends ` set ls - {raw_ends m}"
    and "distinct (map raw_ends ls')" and "raw_ends m \<in> raw_ends ` set ls"
proof -
  obtain us x vs where "ls = us @ x # vs" "ls' = us @ vs" "link_eq x m"
    using remove_by_Some[OF rm] by blast
  then show "set ls' \<subseteq> set ls" and "raw_ends ` set ls' = raw_ends ` set ls - {raw_ends m}"
    and "distinct (map raw_ends ls')" and "raw_ends m \<in> raw_ends ` set ls"
    using d by (auto simp: link_eq_iff)
qed

lemma del_link_spec:
  assumes ok: "lt_ok t" and del: "del_link l t = (t', r)"
  shows "lt_ok t'" and "table_ends t' = table_ends t - {norm_ends l}"
    and "r = None \<longleftrightarrow> norm_ends l \<notin> table_ends t"
proof -
  obtain src dst where sd: "serialize (link_src l) (link_dst l) = (src, dst)" by fastforce
  let ?k = "(port_dpid src, port_dpid dst)" and ?m = "new_link 0 src dst None"
  note defs = del_link_def sd Let_def
  have re: "raw_ends ?m = norm_ends l" by (rule raw_ends_serialized[OF sd])
  have kk: "ends_key (norm_ends l) = ?k" by (rule norm_ends_fst[OF sd])
  have "lt_ok t' \<and> table_ends t' = table_ends t - {norm_ends l} \<and>
      (r = None \<longleftrightarrow> norm_ends l \<notin> table_ends t)"
  proof (cases "dict_get t ?k")
    case None
    have "norm_ends l \<notin> table_ends t" using no_entry_ends[OF ok None] kk by blast
    then show ?thesis using del ok None by (auto simp: defs)
  next
    case (Some ls)
    have ent: "entry_ok ?k ls" by (rule lt_ok_get[OF ok Some])
    note es = entry_ends[OF ok Some]
    show ?thesis
    proof (cases "remove_by (\<lambda>x. link_eq x ?m) ls")
      case None
      then have "norm_ends l \<notin> raw_ends ` set ls"
        using re by (auto simp: remove_by_None_iff link_eq_iff)
      then show ?thesis using del ok Some None es kk by (auto simp: defs)
    next
      case (Some ls')
      note rm = remove_by_link[OF Some, unfolded re]
      have t': "t' = (if ls' = [] then dict_del ?k t else dict_set ?k ls' t)" and r: "r \<noteq> None"
        using del Some \<open>dict_get t ?k = Some ls\<close> by (auto simp: defs)
      have d: "distinct (map raw_ends ls)" using ent by (simp add: entry_ok_def)
      have "ls' \<noteq> [] \<Longrightarrow> entry_ok ?k ls'" using ent rm(1,3)[OF d] by (auto simp: entry_ok_def)
      then have "lt_ok t'" unfolding t' by (auto intro: ok lt_ok_set lt_ok_del)
      moreover have "table_ends t' = table_ends t - {norm_ends l}"
      proof -
        have "raw_ends ` set ls' = {e \<in> table_ends t. ends_key e = ?k} - {norm_ends l}"
          unfolding rm(2)[OF d] es ..
        then have "raw_ends ` set ls' \<union> {e \<in> table_ends t. ends_key e \<noteq> ?k} = table_ends t - {norm_ends l}"
          using kk by auto
        then show ?thesis
          by (cases "ls' = []") (simp_all add: t' table_ends_set[OF ok] table_ends_del[OF ok])
      qed
      moreover have "norm_ends l \<in> table_ends t" using rm(4)[OF d] es by auto
      ultimately show ?thesis using r by blast
    qed
  qed
  then show "lt_ok t'" and "table_ends t' = table_ends t - {norm_ends l}"
    and "r = None \<longleftrightarrow> norm_ends l \<notin> table_ends t" by blast+
qed

section \<open>The table under the events of the topology\<close>

datatype link_event = Link_up real link | Link_down link

fun link_event_step :: "link_event \<Rightarrow> link_table \<Rightarrow> link_table" where
  "link_event_step (Link_up now l) t = fst (add_link now l t)"
| "link_event_step (Link_down l) t = fst (del_link l t)"

fun link_event_effect :: "link_event \<Rightarrow> ((nat \<times> nat) \<times> (nat \<times> nat)) \<times> bool" where
  "link_event_effect (Link_up now l) = (norm_ends l, True)"
| "link_event_effect (Link_down l) = (norm_ends l, False)"

interpretation links: set_machine lt_ok table_ends link_event_step link_event_effect
proof
  fix t ev
  assume ok: "lt_ok t"
  show "lt_ok (link_event_step ev t)"
    by (cases ev) (auto intro: add_link_spec(1)[OF ok] del_link_spec(1)[OF ok] simp: prod_eq_iff)
  show "table_ends (link_event_step ev t) =
      (if snd (link_event_effect ev) then insert (fst (link_event_effect ev)) (table_ends t)
       else table_ends t - {fst (link_event_effect ev)})"
    by (cases ev) (auto simp: add_link_spec(2)[OF ok prod.collapse[symmetric]]
        del_link_spec(2)[OF ok prod.collapse[symmetric]])
qed

text \<open>
  C2. The link table refines a set of cables: after any sequence of link-up and link-down
  events from a well-formed table, the table is well formed (ordered keys, no empty entry, no
  duplicate) and holds exactly the cables whose latest event is a link-up; for a cable between
  two switches it does not matter which end an event names first.
\<close>

theorem link_table_tracks_events:
  assumes "lt_ok t"
  shows "lt_ok (fold link_event_step evs t) \<and>
    (e \<in> table_ends (fold link_event_step evs t) \<longleftrightarrow> latest link_event_effect e (e \<in> table_ends t) evs)"
  using links.run_ok[OF assms] links.run_content[OF assms] by blast

definition wit_port :: "nat \<Rightarrow> nat \<Rightarrow> port" where
  "wit_port d n = \<lparr>port_dpid = d, port_no = n, port_hw_addr = [], port_name = [],
     port_config = 0, port_state = 0, port_datapath = None\<rparr>"

definition wit_link :: "nat \<Rightarrow> nat \<Rightarrow> nat \<Rightarrow> nat \<Rightarrow> link" where
  "wit_link s p d q = new_link 0 (wit_port s p) (wit_port d q) None"

lemmas wit_link_simps = wit_link_def wit_port_def new_link_def norm_ends_def raw_ends_def

theorem link_table_tracks_events_witness:
  "lt_ok [] \<and>
   ((1, 3), (2, 4)) \<in> table_ends
     (fold link_event_step [Link_up 0 (wit_link 2 4 1 3), Link_up 1 (wit_link 1 3 2 4)] [])"
  using link_table_tracks_events[of "[]" "[Link_up 0 (wit_link 2 4 1 3), Link_up 1 (wit_link 1 3 2 4)]"
      "((1, 3), (2, 4))"] lt_ok_empty
  by (simp add: wit_link_simps)

section \<open>Virtual links\<close>

text \<open>What the enumeration that deletes as it goes leaves: after a deletion one element is skipped.\<close>

fun skipping :: "('a \<Rightarrow> bool) \<Rightarrow> 'a list \<Rightarrow> 'a list" where
  "skipping p [] = []"
| "skipping p [x] = (if p x then [] else [x])"
| "skipping p (x # y # xs) = (if p x then y # skipping p xs else x # skipping p (y # xs))"

lemma del_enumerated_skipping: "del_enumerated p (length us) (us @ xs) = us @ skipping p xs"
proof (induction p xs arbitrary: us rule: skipping.induct)
  case (1 p)
  then show ?case by (simp add: del_enumerated.simps)
next
  case (2 p x)
  then show ?case by (simp add: del_enumerated.simps)
next
  case (3 p x y xs)
  show ?case
  proof (cases "p x")
    case True
    then have "del_enumerated p (length us) (us @ x # y # xs) = del_enumerated p (length (us @ [y])) ((us @ [y]) @ xs)"
      by (subst del_enumerated.simps) simp
    then show ?thesis unfolding "3.IH"(1)[OF True] using True by simp
  next
    case False
    then have "del_enumerated p (length us) (us @ x # y # xs) = del_enumerated p (length (us @ [x])) ((us @ [x]) @ y # xs)"
      by (subst del_enumerated.simps) simp
    then show ?thesis unfolding "3.IH"(2)[OF False] using False by simp
  qed
qed

lemma filter_skipping: "filter (\<lambda>x. \<not> p x) (skipping p xs) = filter (\<lambda>x. \<not> p x) xs"
  by (induction p xs rule: skipping.induct) auto

lemma skipping_subset: "set (skipping p xs) \<subseteq> set xs"
  by (induction p xs rule: skipping.induct) auto

lemma distinct_skipping: "distinct (map f xs) \<Longrightarrow> distinct (map f (skipping p xs))"
proof (induction p xs rule: skipping.induct)
  case (3 p x y xs)
  then show ?case using skipping_subset[of p xs] skipping_subset[of p "y # xs"] by auto
qed auto

lemma skipping_leaves:
  "length (filter p (skipping p xs)) \<le> length (filter p xs) div 2"
  by (induction p xs rule: skipping.induct) auto

lemma del_all_entry:
  assumes "lt_ok t" "dict_get t k = Some ls"
    and "skipping p ls \<noteq> []"
  shows "entry_ok k (skipping p ls)"
  using lt_ok_get[OF assms(1,2)] assms(3) skipping_subset[of p ls] distinct_skipping[of raw_ends ls p]
  unfolding entry_ok_def by blast

definition is_virtual :: "link \<Rightarrow> bool" where
  "is_virtual l \<longleftrightarrow> link_attribute l = Some virtual"

definition links_between :: "nat \<Rightarrow> nat \<Rightarrow> link_table \<Rightarrow> link list" where
  "links_between s d t = (case get_link_by_dpid s d t of None \<Rightarrow> [] | Some ls \<Rightarrow> ls)"

lemma del_all_virtual_link_skipping:
  "del_all_virtual_link s d t =
     (case get_link_by_dpid s d t of
        None \<Rightarrow> t
      | Some ls \<Rightarrow>
          (let k = (if s > d then (d, s) else (s, d)); ls' = skipping is_virtual ls
           in if ls' = [] then dict_del k t else dict_set k ls' t))"
  using del_enumerated_skipping[where us = "[]" and p = is_virtual]
  by (simp add: del_all_virtual_link_def get_link_by_dpid_def is_virtual_def[abs_def] Let_def
      split: option.splits)

lemma links_between_del_all:
  "links_between s d (del_all_virtual_link s d t) = skipping is_virtual (links_between s d t)"
  by (simp add: links_between_def del_all_virtual_link_skipping Let_def get_link_by_dpid_def
      split: option.splits)

lemma get_link_del_all:
  assumes "{s', d'} \<noteq> {s, d}"
  shows "get_link_by_dpid s' d' (del_all_virtual_link s d t) = get_link_by_dpid s' d' t"
proof -
  obtain k' where k': "k' = (if s' > d' then (d', s') else (s', d'))" by simp
  obtain k where k: "k = (if s > d then (d, s) else (s, d))" by simp
  have "k' \<noteq> k" using assms by (auto simp: k k' doubleton_eq_iff split: if_splits)
  then show ?thesis
    unfolding get_link_by_dpid_def del_all_virtual_link_skipping k[symmetric] k'[symmetric]
    by (auto simp: Let_def split: option.splits)
qed

lemma lt_ok_del_all [ok_intros]: "lt_ok t \<Longrightarrow> lt_ok (del_all_virtual_link s d t)"
  using del_all_entry[of t _ _ is_virtual]
  by (auto simp: get_link_by_dpid_def del_all_virtual_link_skipping Let_def
      intro!: lt_ok_set lt_ok_del split: option.splits)

text \<open>
  \<open>del_all_virtual_link\<close> keeps the table well formed, keeps every link of the pair that
  is not virtual, in order, keeps the other pairs, and of the virtual links of the pair leaves at
  most half (deleting while enumerating skips the neighbour of a deleted link, so it may leave
  some).
\<close>

theorem del_all_virtual_link_spec:
  assumes "lt_ok t" and "{s', d'} \<noteq> {s, d}"
  shows "lt_ok (del_all_virtual_link s d t) \<and>
    filter (\<lambda>l. \<not> is_virtual l) (links_between s d (del_all_virtual_link s d t)) =
      filter (\<lambda>l. \<not> is_virtual l) (links_between s d t) \<and>
    length (filter is_virtual (links_between s d (del_all_virtual_link s d t)))
      \<le> length (filter is_virtual (links_between s d t)) div 2 \<and>
    links_between s' d' (del_all_virtual_link s d t) = links_between s' d' t"
  using assms
  by (simp add: lt_ok_del_all links_between_del_all filter_skipping skipping_leaves)
     (simp add: links_between_def get_link_del_all)

definition wit_virtual :: "nat \<Rightarrow> link" where
  "wit_virtual p = wit_link 1 p 2 p\<lparr>link_attribute := Some virtual\<rparr>"

theorem del_all_virtual_link_spec_witness:
  "length (links_between 1 2 (del_all_virtual_link 2 1 [((1, 2), [wit_virtual 1, wit_virtual 2])])) = 1 \<and>
   length (filter is_virtual (links_between 2 1
     (del_all_virtual_link 2 1 [((1, 2), [wit_virtual 1, wit_virtual 2])]))) \<le> 1"
  using del_all_virtual_link_spec[of "[((1, 2), [wit_virtual 1, wit_virtual 2])]" 3 4 2 1]
  by (simp add: lt_ok_def entry_ok_def wit_virtual_def wit_link_simps links_between_def
      get_link_by_dpid_def del_all_virtual_link_skipping is_virtual_def)

section \<open>The exported table\<close>

lemma api_insert_fold:
  "k \<notin> set (dict_keys a) \<Longrightarrow> foldl (api_insert k) (a @ [(k, m)]) ls = a @ [(k, foldl (\<lambda>m l. dict_set (ports_of l) l m) m ls)]"
proof (induction ls arbitrary: m)
  case (Cons l ls)
  have "api_insert k (a @ [(k, m)]) l = a @ [(k, dict_set (ports_of l) l m)]"
    using Cons.prems by (induction a) (auto simp: api_insert_def split: option.splits)
  then show ?case using Cons by simp
qed simp

lemma ports_fold:
  "distinct (map ports_of (map snd m @ ls)) \<Longrightarrow> \<forall>(q, l) \<in> set m. q = ports_of l \<Longrightarrow>
   foldl (\<lambda>m l. dict_set (ports_of l) l m) m ls = m @ map (\<lambda>l. (ports_of l, l)) ls"
proof (induction ls arbitrary: m)
  case (Cons l ls)
  have "ports_of l \<notin> set (dict_keys m)"
    using Cons.prems by (force simp: image_iff)
  then have "dict_set (ports_of l) l m = m @ [(ports_of l, l)]"
    by (induction m) auto
  then show ?case using Cons.prems by (simp add: Cons.IH)
qed simp

text \<open>The table handed to the other components has the same keys and links, indexed by port numbers.\<close>

lemma api_init_eq:
  assumes "lt_ok t"
  shows "api_init t = map (\<lambda>(k, ls). (k, map (\<lambda>l. (ports_of l, l)) ls)) t"
proof -
  have pd: "distinct (map ports_of ls)" if "entry_ok k ls" for k ls
  proof -
    have "map raw_ends ls = map (\<lambda>(p, q). ((fst k, p), (snd k, q))) (map ports_of ls)"
      using that by (auto simp: entry_ok_def raw_ends_def ports_of_def)
    then show ?thesis using that by (metis distinct_map entry_ok_def)
  qed
  have "foldl (\<lambda>a (k, ls). foldl (api_insert k) a ls) a u =
      a @ map (\<lambda>(k, ls). (k, map (\<lambda>l. (ports_of l, l)) ls)) u"
    if "distinct (dict_keys a @ dict_keys u)" "\<forall>(k, ls) \<in> set u. entry_ok k ls" for a u
    using that
  proof (induction u arbitrary: a)
    case (Cons x u)
    obtain k ls where x: "x = (k, ls)" by fastforce
    with Cons.prems have ent: "entry_ok k ls" and k: "k \<notin> set (dict_keys a)" by auto
    then obtain l ls' where ls: "ls = l # ls'" by (cases ls) (auto simp: entry_ok_def)
    have "dict_set k [(ports_of l, l)] a = a @ [(k, [(ports_of l, l)])]"
      using k by (induction a) auto
    then have "foldl (api_insert k) a ls = a @ [(k, map (\<lambda>l. (ports_of l, l)) ls)]"
      using k pd[OF ent] api_insert_fold[OF k, of "[(ports_of l, l)]" ls'] ports_fold[of "[(ports_of l, l)]" ls']
      by (simp add: ls api_insert_def dict_get_None_iff[THEN iffD2])
    then show ?case using Cons by (simp add: x)
  qed simp
  from this[of "[]" t] show ?thesis using assms by (simp add: api_init_def lt_ok_def)
qed

end
