(* ===== verification/Switch_Table.thy ===== *)
theory Switch_Table
  imports Link_Table
begin

text \<open>
  The switches of \<open>topology_manage/object/switch.py\<close>: \<open>Switch\<close> and \<open>SwitchTable\<close>. A switch
  keeps its ports and its neighbours: \<open>neighbors\<close> maps the dpid of a neighbour to the local ports
  that lead to it. The back reference \<open>Switch.switches\<close> to the table itself is never read and
  has no counterpart here.
\<close>

record switch =
  sw_dp :: datapath
  sw_name :: "string option"
  sw_attribute :: string
  sw_neighbors :: "(nat, nat list) pydict"
  sw_ports :: port_table

type_synonym switch_table = "(nat, switch) pydict"

definition new_switch :: "datapath \<Rightarrow> switch" where
  "new_switch dp = \<lparr>sw_dp = dp, sw_name = None, sw_attribute = ''edge'', sw_neighbors = [], sw_ports = []\<rparr>"

definition add_switch :: "nat \<Rightarrow> datapath \<Rightarrow> switch_table \<Rightarrow> switch_table" where
  "add_switch dpid dp st =
     (case dict_get st dpid of
        Some sw \<Rightarrow> dict_set dpid (sw\<lparr>sw_dp := dp\<rparr>) st
      | None \<Rightarrow> dict_set dpid (new_switch dp) st)"

definition del_switch :: "nat \<Rightarrow> switch_table \<Rightarrow> switch_table" where
  "del_switch dpid st = dict_del dpid st"

definition get_switch :: "nat \<Rightarrow> switch_table \<Rightarrow> switch option" where
  "get_switch dpid st = dict_get st dpid"

text \<open>
  \<open>enum\<close> returns a class, and \<open>attr in sw.AttributeEnum\<close> on a class raises \<open>TypeError\<close>: no
  branch of \<open>set_attribute\<close> is ever reached.
\<close>

definition set_attribute :: "nat \<Rightarrow> string \<Rightarrow> switch_table \<Rightarrow> pyerr" where
  "set_attribute dpid attr st = (case dict_get st dpid of None \<Rightarrow> KeyError | Some sw \<Rightarrow> TypeError)"

definition get_neighbor :: "nat \<Rightarrow> nat \<Rightarrow> switch_table \<Rightarrow> nat list option" where
  "get_neighbor dpid nd st =
     (case dict_get st dpid of None \<Rightarrow> None | Some sw \<Rightarrow> dict_get (sw_neighbors sw) nd)"

definition set_neighbor :: "nat \<Rightarrow> nat \<Rightarrow> nat \<Rightarrow> switch_table \<Rightarrow> switch_table \<times> pyerr option" where
  "set_neighbor dpid nd pno st =
     (case dict_get st dpid of
        None \<Rightarrow> (st, Some KeyError)
      | Some sw \<Rightarrow>
          (case dict_get (sw_neighbors sw) nd of
             None \<Rightarrow> (dict_set dpid (sw\<lparr>sw_neighbors := dict_set nd [pno] (sw_neighbors sw)\<rparr>) st, None)
           | Some ps \<Rightarrow>
               (if pno \<notin> set ps
                then (dict_set dpid (sw\<lparr>sw_neighbors := dict_set nd (ps @ [pno]) (sw_neighbors sw)\<rparr>) st, None)
                else (st, None))))"

definition del_neighbor :: "nat \<Rightarrow> nat \<Rightarrow> nat \<Rightarrow> switch_table \<Rightarrow> switch_table \<times> pyerr option" where
  "del_neighbor dpid nd pno st =
     (case dict_get st dpid of
        None \<Rightarrow> (st, Some KeyError)
      | Some sw \<Rightarrow>
          (case dict_get (sw_neighbors sw) nd of
             None \<Rightarrow> (st, Some KeyError)
           | Some ps \<Rightarrow>
               (let ps' = (case remove_by (\<lambda>x. x = pno) ps of None \<Rightarrow> ps | Some qs \<Rightarrow> qs);
                    nbs = (if ps' = [] then dict_del nd (sw_neighbors sw) else dict_set nd ps' (sw_neighbors sw))
                in (dict_set dpid (sw\<lparr>sw_neighbors := nbs\<rparr>) st, None))))"

section \<open>Well-formed switch tables\<close>

definition nbs_ok :: "(nat, nat list) pydict \<Rightarrow> bool" where
  "nbs_ok nbs \<longleftrightarrow> dict_ok nbs \<and> (\<forall>(n, ps) \<in> set nbs. ps \<noteq> [] \<and> distinct ps)"

definition ports_ok :: "nat \<Rightarrow> port_table \<Rightarrow> bool" where
  "ports_ok d pt \<longleftrightarrow> dict_ok pt \<and> (\<forall>(n, p) \<in> set pt. port_dpid p = d \<and> port_no p = n)"

definition switch_ok :: "nat \<Rightarrow> switch \<Rightarrow> bool" where
  "switch_ok d sw \<longleftrightarrow> dp_id (sw_dp sw) = d \<and> nbs_ok (sw_neighbors sw) \<and> ports_ok d (sw_ports sw)"

definition st_ok :: "switch_table \<Rightarrow> bool" where
  "st_ok st \<longleftrightarrow> dict_ok st \<and> (\<forall>(d, sw) \<in> set st. switch_ok d sw)"

text \<open>The neighbour relation of a table: \<open>(d, n, p)\<close> when port \<open>p\<close> of switch \<open>d\<close> leads to switch \<open>n\<close>.\<close>

definition nb_rel :: "switch_table \<Rightarrow> (nat \<times> nat \<times> nat) set" where
  "nb_rel st = {(d, n, p). \<exists>ps. get_neighbor d n st = Some ps \<and> p \<in> set ps}"

lemma st_ok_empty [ok_intros]: "st_ok []"
  by (simp add: st_ok_def)

lemma st_ok_get: "st_ok st \<Longrightarrow> dict_get st d = Some sw \<Longrightarrow> switch_ok d sw"
  unfolding st_ok_def by (auto dest!: map_of_SomeD)

lemma st_ok_set [ok_intros]: "st_ok st \<Longrightarrow> switch_ok d sw \<Longrightarrow> st_ok (dict_set d sw st)"
  unfolding st_ok_def by (auto simp: set_dict_set)

lemma st_ok_del [ok_intros]: "st_ok st \<Longrightarrow> st_ok (dict_del d st)"
  unfolding st_ok_def by (auto simp: set_dict_del)

lemma nbs_ok_get: "nbs_ok nbs \<Longrightarrow> dict_get nbs n = Some ps \<Longrightarrow> ps \<noteq> [] \<and> distinct ps"
  unfolding nbs_ok_def by (auto dest!: map_of_SomeD)

lemma nbs_ok_set [ok_intros]: "nbs_ok nbs \<Longrightarrow> ps \<noteq> [] \<Longrightarrow> distinct ps \<Longrightarrow> nbs_ok (dict_set n ps nbs)"
  unfolding nbs_ok_def by (auto simp: set_dict_set)

lemma nbs_ok_del [ok_intros]: "nbs_ok nbs \<Longrightarrow> nbs_ok (dict_del n nbs)"
  unfolding nbs_ok_def by (auto simp: set_dict_del)

lemma switch_ok_nbs [ok_intros]:
  "switch_ok d sw \<Longrightarrow> nbs_ok nbs \<Longrightarrow> switch_ok d (sw\<lparr>sw_neighbors := nbs\<rparr>)"
  by (simp add: switch_ok_def)

lemma switch_ok_ports [ok_intros]:
  "switch_ok d sw \<Longrightarrow> ports_ok d pt \<Longrightarrow> switch_ok d (sw\<lparr>sw_ports := pt\<rparr>)"
  by (simp add: switch_ok_def)

lemma ports_ok_set [ok_intros]:
  "ports_ok d pt \<Longrightarrow> port_dpid p = d \<Longrightarrow> port_no p = n \<Longrightarrow> ports_ok d (dict_set n p pt)"
  unfolding ports_ok_def by (auto simp: set_dict_set)

lemma ports_ok_del [ok_intros]: "ports_ok d pt \<Longrightarrow> ports_ok d (dict_del n pt)"
  unfolding ports_ok_def by (auto simp: set_dict_del)

lemma switch_ok_new [ok_intros]: "dp_id dp = d \<Longrightarrow> switch_ok d (new_switch dp)"
  by (simp add: switch_ok_def new_switch_def nbs_ok_def ports_ok_def)

lemma add_switch_ok [ok_intros]: "st_ok st \<Longrightarrow> dp_id dp = d \<Longrightarrow> st_ok (add_switch d dp st)"
  using st_ok_get[of st d]
  by (cases "dict_get st d") (auto simp: add_switch_def switch_ok_def intro!: st_ok_set switch_ok_new)

lemma get_add_switch:
  "get_switch d' (add_switch d dp st) =
     (if d' = d then Some (case get_switch d st of Some sw \<Rightarrow> sw\<lparr>sw_dp := dp\<rparr> | None \<Rightarrow> new_switch dp)
      else get_switch d' st)"
  by (auto simp: get_switch_def add_switch_def split: option.splits)

lemma nb_rel_add_switch: "nb_rel (add_switch d dp st) = nb_rel st"
  by (auto simp: nb_rel_def get_neighbor_def add_switch_def new_switch_def split: option.splits if_splits)

lemma remove_port:
  assumes "distinct ps" and "qs = (case remove_by (\<lambda>x. x = p) ps of None \<Rightarrow> ps | Some qs \<Rightarrow> qs)"
  shows "set qs = set ps - {p}" and "distinct qs"
  using assms remove_by_Some[of "\<lambda>x. x = p" ps qs] remove_by_None_iff[of "\<lambda>x. x = p" ps]
  by (auto split: option.splits)

lemma get_neighbor_update:
  "get_neighbor d' n (dict_set d (sw\<lparr>sw_neighbors := nbs\<rparr>) st) =
     (if d' = d then dict_get nbs n else get_neighbor d' n st)"
  by (simp add: get_neighbor_def)

lemma nb_rel_update:
  "nb_rel (dict_set d (sw\<lparr>sw_neighbors := nbs\<rparr>) st) =
     {(d', n, p). if d' = d then \<exists>ps. dict_get nbs n = Some ps \<and> p \<in> set ps else (d', n, p) \<in> nb_rel st}"
  unfolding nb_rel_def get_neighbor_update by auto

lemma nb_rel_at:
  "dict_get st d = Some sw \<Longrightarrow> (d, n, p) \<in> nb_rel st \<longleftrightarrow> (\<exists>ps. dict_get (sw_neighbors sw) n = Some ps \<and> p \<in> set ps)"
  by (simp add: nb_rel_def get_neighbor_def)

lemma keys_update: "dict_get st d = Some sw \<Longrightarrow> set (dict_keys (dict_set d sw' st)) = set (dict_keys st)"
  unfolding keys_dict_set using map_of_SomeD[of st d sw] by force

lemma set_neighbor_spec:
  assumes ok: "st_ok st" and d: "d \<in> set (dict_keys st)" and set: "set_neighbor d n p st = (st', e)"
  shows "st_ok st'" and "e = None" and "nb_rel st' = insert (d, n, p) (nb_rel st)"
    and "set (dict_keys st') = set (dict_keys st)"
proof -
  obtain sw where sw: "dict_get st d = Some sw"
    using d by (cases "dict_get st d") (auto simp: dict_get_None_iff)
  have swok: "switch_ok d sw" and nok: "nbs_ok (sw_neighbors sw)"
    using st_ok_get[OF ok sw] by (auto simp: switch_ok_def)
  have "st_ok st' \<and> e = None \<and> nb_rel st' = insert (d, n, p) (nb_rel st) \<and>
      set (dict_keys st') = set (dict_keys st)"
  proof (cases "(d, n, p) \<in> nb_rel st")
    case True
    then show ?thesis using set ok sw by (auto simp: set_neighbor_def nb_rel_at)
  next
    case False
    obtain ps where ps: "ps = (case dict_get (sw_neighbors sw) n of None \<Rightarrow> [] | Some ps \<Rightarrow> ps)" by simp
    have st': "st' = dict_set d (sw\<lparr>sw_neighbors := dict_set n (ps @ [p]) (sw_neighbors sw)\<rparr>) st" "e = None"
      using set sw False by (auto simp: set_neighbor_def nb_rel_at ps split: option.splits)
    have "distinct (ps @ [p])"
      using nbs_ok_get[OF nok, of n] False unfolding nb_rel_at[OF sw]
      by (cases "dict_get (sw_neighbors sw) n") (simp_all add: ps)
    then have "st_ok st'" unfolding st' using ok swok nok by (intro st_ok_set switch_ok_nbs nbs_ok_set) auto
    moreover have "nb_rel st' = insert (d, n, p) (nb_rel st)"
      unfolding st' nb_rel_update
      by (cases "dict_get (sw_neighbors sw) n") (auto simp: nb_rel_at[OF sw] ps split: if_splits)
    ultimately show ?thesis using st' keys_update[OF sw] by blast
  qed
  then show "st_ok st'" and "e = None" and "nb_rel st' = insert (d, n, p) (nb_rel st)"
    and "set (dict_keys st') = set (dict_keys st)" by blast+
qed

lemma del_neighbor_spec:
  assumes ok: "st_ok st" and del: "del_neighbor d n p st = (st', e)"
  shows "st_ok st'" and "nb_rel st' = nb_rel st - {(d, n, p)}"
    and "e = None \<longleftrightarrow> get_neighbor d n st \<noteq> None" and "set (dict_keys st') = set (dict_keys st)"
proof -
  have "st_ok st' \<and> nb_rel st' = nb_rel st - {(d, n, p)} \<and> (e = None \<longleftrightarrow> get_neighbor d n st \<noteq> None) \<and>
      set (dict_keys st') = set (dict_keys st)"
  proof (cases "get_neighbor d n st")
    case None
    then show ?thesis using del ok
      by (auto simp: del_neighbor_def get_neighbor_def nb_rel_def split: option.splits)
  next
    case (Some ps)
    then obtain sw where sw: "dict_get st d = Some sw" and ps: "dict_get (sw_neighbors sw) n = Some ps"
      by (auto simp: get_neighbor_def split: option.splits)
    have swok: "switch_ok d sw" and nok: "nbs_ok (sw_neighbors sw)"
      using st_ok_get[OF ok sw] by (auto simp: switch_ok_def)
    obtain qs where qs: "qs = (case remove_by (\<lambda>x. x = p) ps of None \<Rightarrow> ps | Some qs \<Rightarrow> qs)" by simp
    have dq: "distinct ps" using nbs_ok_get[OF nok ps] by simp
    note rp = remove_port[OF dq qs]
    have st': "st' = dict_set d (sw\<lparr>sw_neighbors := if qs = [] then dict_del n (sw_neighbors sw)
        else dict_set n qs (sw_neighbors sw)\<rparr>) st" and "e = None"
      using del sw ps by (auto simp: del_neighbor_def qs Let_def)
    moreover have "st_ok st'" unfolding st'
      using ok swok nok rp(2) by (intro st_ok_set switch_ok_nbs) (auto intro: nbs_ok_set nbs_ok_del)
    moreover have "nb_rel st' = nb_rel st - {(d, n, p)}"
    proof (rule set_eqI, clarify)
      fix d' n' p'
      show "(d', n', p') \<in> nb_rel st' \<longleftrightarrow> (d', n', p') \<in> nb_rel st - {(d, n, p)}"
      proof (cases "d' = d \<and> n' = n")
        case True
        then show ?thesis unfolding st' nb_rel_update using rp(1) nb_rel_at[OF sw, of n p'] ps by simp force
      next
        case False
        then show ?thesis unfolding st' nb_rel_update using nb_rel_at[OF sw, of n' p'] by auto
      qed
    qed
    moreover have "set (dict_keys st') = set (dict_keys st)"
      unfolding st' by (rule keys_update[OF sw])
    ultimately show ?thesis using Some by simp
  qed
  then show "st_ok st'" and "nb_rel st' = nb_rel st - {(d, n, p)}"
    and "e = None \<longleftrightarrow> get_neighbor d n st \<noteq> None" and "set (dict_keys st') = set (dict_keys st)" by blast+
qed

end
