(* ===== verification/Route_Deploy.thy ===== *)
theory Route_Deploy
  imports OpenFlow Switch_Table
begin

text \<open>
  The deployment of unicast routes in \<open>route_manage/route_task.py\<close>: \<open>flow_mod\<close> and
  \<open>deploy_flow_table\<close> of \<open>RouteTaskEntry\<close> and of \<open>NATRouteTaskEntry\<close>. The messages sent before an
  exception stay sent. In the events for the web interface a link keeps the numbers of its switches,
  which the code renders in hexadecimal.
\<close>

section \<open>Tasks\<close>

record task =
  route_type :: nat
  src_dpid :: nat
  src_ip :: string
  src_port_no :: nat
  dst_dpid :: nat
  dst_ip :: string
  dst_port_no :: nat
  t_timestamp :: real

abbreviation FLOW_IDLE_TIMEOUT :: nat where "FLOW_IDLE_TIMEOUT \<equiv> 300"
abbreviation FLOW_HARD_TIMEOUT :: nat where "FLOW_HARD_TIMEOUT \<equiv> 1800"
abbreviation ROUTE_FLOW_PRIORITY :: nat where "ROUTE_FLOW_PRIORITY \<equiv> 1000"
abbreviation server_tcp_port :: nat where "server_tcp_port \<equiv> 80"

definition route_match :: "nat \<Rightarrow> string \<Rightarrow> string \<Rightarrow> match_field list" where
  "route_match inport s d = [EthType ETH_TYPE_IP, InPort inport, Ipv4Src s, Ipv4Dst d]"

definition flow_mod :: "nat \<Rightarrow> string \<Rightarrow> string \<Rightarrow> nat \<Rightarrow> nat \<Rightarrow> out_msg" where
  "flow_mod dpid s d inport outport =
     FlowAdd \<lparr>fm_dpid = dpid, fm_priority = ROUTE_FLOW_PRIORITY, fm_idle_timeout = FLOW_IDLE_TIMEOUT,
       fm_hard_timeout = FLOW_HARD_TIMEOUT, fm_flags = 0, fm_match = route_match inport s d, fm_actions = [Output outport]\<rparr>"

section \<open>Attributes of a switch that may be missing\<close>

text \<open>\<open>sw.dp\<close> and \<open>sw.neighbors[d][0]\<close> for the result \<open>sw\<close> of \<open>get_switch\<close>, which may be \<open>None\<close>.\<close>

definition dp_of :: "switch option \<Rightarrow> pyerr + datapath" where
  "dp_of sw = (case sw of None \<Rightarrow> Inl AttributeError | Some s \<Rightarrow> Inr (sw_dp s))"

definition nb_port :: "switch option \<Rightarrow> nat \<Rightarrow> pyerr + nat" where
  "nb_port sw d =
     (case sw of
        None \<Rightarrow> Inl AttributeError
      | Some s \<Rightarrow> (case dict_get (sw_neighbors s) d of None \<Rightarrow> Inl KeyError | Some ps \<Rightarrow> py_nth ps 0))"

text \<open>\<open>self.flow_mod(sw.dp, s, d, inport, outport)\<close>: the arguments are evaluated from left to right.\<close>

definition mod_at :: "switch option \<Rightarrow> string \<Rightarrow> string \<Rightarrow> pyerr + nat \<Rightarrow> pyerr + nat \<Rightarrow> unit sends" where
  "mod_at sw s d inport outport =
     send_bind (pure (dp_of sw)) (\<lambda>dp.
     send_bind (pure inport) (\<lambda>i.
     send_bind (pure outport) (\<lambda>out. send (flow_mod (dp_id dp) s d i out))))"

text \<open>A link for the web interface: both switches and their ports towards each other.\<close>

definition web_link :: "switch_table \<Rightarrow> nat \<Rightarrow> nat \<Rightarrow> pyerr + (nat \<times> nat \<times> nat \<times> nat)" where
  "web_link st d next_d =
     (let sw = get_switch d st; next_sw = get_switch next_d st
      in res_bind (nb_port sw next_d) (\<lambda>p.
         res_bind (nb_port next_sw d) (\<lambda>next_p.
         res_bind (dp_of sw) (\<lambda>dp.
         res_bind (dp_of next_sw) (\<lambda>next_dp. Inr (dp_id dp, p, dp_id next_dp, next_p))))))"

definition web_event :: "string \<Rightarrow> (nat \<times> nat \<times> nat \<times> nat) list \<Rightarrow> unit sends" where
  "web_event algorithm_type ls =
     (if algorithm_type = ''GA'' then send (WebRouteSet ls)
      else if algorithm_type = ''Dij'' then send (WebRouteSetDij ls)
      else pure (Inr ()))"

section \<open>RouteTaskEntry\<close>

definition deploy_pair :: "switch option \<Rightarrow> switch option \<Rightarrow> task \<Rightarrow> bool sends" where
  "deploy_pair sw1 sw2 t =
     (let p12 = res_bind (dp_of sw2) (\<lambda>dp. nb_port sw1 (dp_id dp));
          p21 = res_bind (dp_of sw1) (\<lambda>dp. nb_port sw2 (dp_id dp))
      in send_bind (mod_at sw2 (dst_ip t) (src_ip t) (Inr (dst_port_no t)) p21) (\<lambda>_.
         send_bind (mod_at sw2 (src_ip t) (dst_ip t) p21 (Inr (dst_port_no t))) (\<lambda>_.
         send_bind (mod_at sw1 (dst_ip t) (src_ip t) p12 (Inr (src_port_no t))) (\<lambda>_.
         send_bind (mod_at sw1 (src_ip t) (dst_ip t) (Inr (src_port_no t)) p12) (\<lambda>_. pure (Inr True))))))"

definition deploy_hop :: "switch_table \<Rightarrow> task \<Rightarrow> nat list \<Rightarrow> nat \<Rightarrow> (nat \<times> nat \<times> nat \<times> nat) list sends" where
  "deploy_hop st t link_list num =
     (let dpid = link_list ! num; sw = get_switch dpid st
      in if num = 0 then
           send_bind (mod_at sw (src_ip t) (dst_ip t) (Inr (src_port_no t)) (nb_port sw (link_list ! (num + 1)))) (\<lambda>_.
           send_bind (pure (web_link st dpid (link_list ! (num + 1)))) (\<lambda>l. pure (Inr [l])))
         else if num = length link_list - 1 then
           send_bind (mod_at sw (dst_ip t) (src_ip t) (Inr (dst_port_no t)) (nb_port sw (link_list ! (num - 1)))) (\<lambda>_.
           pure (Inr []))
         else
           send_bind (mod_at sw (src_ip t) (dst_ip t) (nb_port sw (link_list ! (num - 1))) (nb_port sw (link_list ! (num + 1)))) (\<lambda>_.
           send_bind (mod_at sw (dst_ip t) (src_ip t) (nb_port sw (link_list ! (num + 1))) (nb_port sw (link_list ! (num - 1)))) (\<lambda>_.
           send_bind (pure (web_link st dpid (link_list ! (num + 1)))) (\<lambda>l. pure (Inr [l])))))"

definition deploy_flow_table :: "switch_table \<Rightarrow> string \<Rightarrow> task \<Rightarrow> nat list \<Rightarrow> bool sends" where
  "deploy_flow_table st algorithm_type t link_list =
     (if length link_list = 1 then
        (let sw = get_switch (hd link_list) st
         in send_bind (mod_at sw (dst_ip t) (src_ip t) (Inr (dst_port_no t)) (Inr (src_port_no t))) (\<lambda>_.
            send_bind (mod_at sw (src_ip t) (dst_ip t) (Inr (src_port_no t)) (Inr (dst_port_no t))) (\<lambda>_. pure (Inr True))))
      else if length link_list > 1 then
        (let sw1 = get_switch (hd link_list) st; sw2 = get_switch (last link_list) st
         in if length link_list = 2 then deploy_pair sw1 sw2 t
            else
              send_bind (send_each (deploy_hop st t link_list) [0..<length link_list]) (\<lambda>ls.
              send_bind (web_event algorithm_type (concat ls)) (\<lambda>_.
              send_bind (mod_at sw2 (src_ip t) (dst_ip t) (nb_port sw2 (link_list ! (length link_list - 2))) (Inr (dst_port_no t))) (\<lambda>_.
              send_bind (mod_at sw1 (dst_ip t) (src_ip t) (nb_port sw1 (link_list ! 1)) (Inr (src_port_no t))) (\<lambda>_.
              pure (Inr True))))))
      else pure (Inr False))"

section \<open>NATRouteTaskEntry\<close>

record nat_info =
  gateway_ip :: string
  gateway_mac :: string
  server_mac :: string
  user_mac :: string

text \<open>An empty string and port 0 count as absent in \<open>update_attribute\<close>.\<close>

definition update_attribute :: "string option \<Rightarrow> nat option \<Rightarrow> string option \<Rightarrow> task \<times> nat_info \<Rightarrow> task \<times> nat_info" where
  "update_attribute ip port mac tn =
     (case tn of (t, n) \<Rightarrow>
        (let t1 = (case ip of Some (c # s) \<Rightarrow> t\<lparr>dst_ip := c # s\<rparr> | _ \<Rightarrow> t);
             t2 = (case port of Some (Suc p) \<Rightarrow> t1\<lparr>dst_port_no := Suc p\<rparr> | _ \<Rightarrow> t1);
             n1 = (case mac of Some (c # s) \<Rightarrow> n\<lparr>server_mac := c # s\<rparr> | _ \<Rightarrow> n)
         in (t2, n1)))"

definition nat_entry :: "nat \<Rightarrow> match_field list \<Rightarrow> of_action list \<Rightarrow> out_msg" where
  "nat_entry dpid m actions =
     FlowAdd \<lparr>fm_dpid = dpid, fm_priority = ROUTE_FLOW_PRIORITY, fm_idle_timeout = FLOW_IDLE_TIMEOUT,
       fm_hard_timeout = FLOW_HARD_TIMEOUT, fm_flags = 1, fm_match = m, fm_actions = actions\<rparr>"

definition user_to_server_flow_mod :: "nat \<Rightarrow> string \<Rightarrow> string \<Rightarrow> nat \<Rightarrow> nat_info \<Rightarrow> out_msg" where
  "user_to_server_flow_mod dpid user_ip server_ip outport n =
     nat_entry dpid [EthType ETH_TYPE_IP, NwProto 6, Ipv4Src user_ip, Ipv4Dst (gateway_ip n)]
       [DecNwTtl, SetTcpDst server_tcp_port, SetIpv4Dst server_ip, SetEthDst (server_mac n), Output outport]"

definition server_to_user_flow_mod :: "nat \<Rightarrow> string \<Rightarrow> string \<Rightarrow> nat \<Rightarrow> nat_info \<Rightarrow> out_msg" where
  "server_to_user_flow_mod dpid user_ip server_ip outport n =
     nat_entry dpid [EthType ETH_TYPE_IP, NwProto 6, Ipv4Src server_ip, Ipv4Dst user_ip]
       [DecNwTtl, SetTcpSrc 80, SetIpv4Src (gateway_ip n), SetEthSrc (gateway_mac n), SetEthDst (user_mac n), Output outport]"

text \<open>
  The two translating entries, installed together. \<open>sw\<close> is a switch here: the guard before them has
  read its attribute.
\<close>

definition nat_pair :: "switch \<Rightarrow> task \<Rightarrow> nat_info \<Rightarrow> pyerr + nat \<Rightarrow> nat \<Rightarrow> unit sends" where
  "nat_pair sw t n outport1 outport2 =
     send_bind (pure outport1) (\<lambda>p.
     send_bind (send (user_to_server_flow_mod (dp_id (sw_dp sw)) (src_ip t) (dst_ip t) p n)) (\<lambda>_.
     send (server_to_user_flow_mod (dp_id (sw_dp sw)) (src_ip t) (dst_ip t) outport2 n)))"

definition nat_hop :: "switch_table \<Rightarrow> (nat \<times> nat) list \<Rightarrow> task \<Rightarrow> nat_info \<Rightarrow> nat list \<Rightarrow> nat \<Rightarrow>
    (nat \<times> nat \<times> nat \<times> nat) list sends" where
  "nat_hop st user_ports t n rl num =
     (let dpid = rl ! num; sw = get_switch dpid st
      in case sw of
           None \<Rightarrow> pure (Inl AttributeError)
         | Some s \<Rightarrow>
             (let translate = sw_attribute s = ''access'' \<and> (dpid, src_port_no t) \<in> set user_ports
              in if num = 0 then
                   send_bind
                     (if translate then nat_pair s t n (nb_port sw (rl ! (num + 1))) (dst_port_no t)
                      else send_bind (mod_at sw (src_ip t) (dst_ip t) (nb_port sw (rl ! (num + 1))) (Inr (dst_port_no t))) (\<lambda>_.
                           mod_at sw (dst_ip t) (src_ip t) (Inr (dst_port_no t)) (nb_port sw (rl ! (num + 1))))) (\<lambda>_.
                   send_bind (pure (web_link st dpid (rl ! (num + 1)))) (\<lambda>l. pure (Inr [l])))
                 else if num = length rl - 1 then
                   send_bind
                     (if translate then nat_pair s t n (nb_port sw (rl ! (num - 1))) (src_port_no t)
                      else send_bind (mod_at sw (src_ip t) (dst_ip t) (Inr (src_port_no t)) (nb_port sw (rl ! (num - 1)))) (\<lambda>_.
                           mod_at sw (dst_ip t) (src_ip t) (nb_port sw (rl ! (num - 1))) (Inr (src_port_no t)))) (\<lambda>_.
                   pure (Inr []))
                 else
                   send_bind (mod_at sw (src_ip t) (dst_ip t) (nb_port sw (rl ! (num + 1))) (nb_port sw (rl ! (num - 1)))) (\<lambda>_.
                   send_bind (mod_at sw (dst_ip t) (src_ip t) (nb_port sw (rl ! (num - 1))) (nb_port sw (rl ! (num + 1)))) (\<lambda>_.
                   send_bind (pure (web_link st dpid (rl ! (num + 1)))) (\<lambda>l. pure (Inr [l]))))))"

definition nat_deploy_flow_table :: "switch_table \<Rightarrow> (nat \<times> nat) list \<Rightarrow> string \<Rightarrow> task \<Rightarrow> nat_info \<Rightarrow> nat list \<Rightarrow> bool sends" where
  "nat_deploy_flow_table st user_ports algorithm_type t n link_list =
     (if length link_list > 1 then
        (let sw1 = get_switch (hd link_list) st; sw2 = get_switch (last link_list) st
         in if length link_list = 2 then deploy_pair sw1 sw2 t
            else
              send_bind (send_each (nat_hop st user_ports t n (rev link_list)) [0..<length link_list]) (\<lambda>ls.
              send_bind (web_event algorithm_type (concat ls)) (\<lambda>_. pure (Inr True))))
      else pure (Inr False))"

section \<open>The data plane\<close>

text \<open>
  What the entries of \<open>flow_mod\<close> do to the packets from \<open>s\<close> to \<open>d\<close>. All of them have the same
  priority and match the same four fields, so two of them have the same match or match no common
  packet; a switch that gets an entry with a match it knows replaces the old entry. So the entry that
  counts is the latest with this match. \<open>wire\<close> is the cabling: the port at the other end of a cable,
  \<^term>\<open>None\<close> for a port with no switch behind it.
\<close>

fun applies :: "nat \<Rightarrow> nat \<Rightarrow> string \<Rightarrow> string \<Rightarrow> out_msg \<Rightarrow> bool" where
  "applies dpid inport s d (FlowAdd f) \<longleftrightarrow> fm_dpid f = dpid \<and> fm_match f = route_match inport s d"
| "applies dpid inport s d _ \<longleftrightarrow> False"

fun output_of :: "out_msg \<Rightarrow> nat option" where
  "output_of (FlowAdd f) = (case fm_actions f of [Output p] \<Rightarrow> Some p | _ \<Rightarrow> None)"
| "output_of _ = None"

definition flow_lookup :: "out_msg list \<Rightarrow> nat \<Rightarrow> nat \<Rightarrow> string \<Rightarrow> string \<Rightarrow> nat option" where
  "flow_lookup table dpid inport s d =
     (case find (applies dpid inport s d) (rev table) of None \<Rightarrow> None | Some m \<Rightarrow> output_of m)"

datatype verdict = Delivered nat nat | Lost

fun carry :: "out_msg list \<Rightarrow> (nat \<times> nat \<Rightarrow> (nat \<times> nat) option) \<Rightarrow> string \<Rightarrow> string \<Rightarrow> nat \<Rightarrow> nat \<times> nat \<Rightarrow>
    nat list \<times> verdict option" where
  "carry table wire s d 0 hop = ([], None)"
| "carry table wire s d (Suc n) (dpid, inport) =
     (case flow_lookup table dpid inport s d of
        None \<Rightarrow> ([dpid], Some Lost)
      | Some p \<Rightarrow>
          (case wire (dpid, p) of
             None \<Rightarrow> ([dpid], Some (Delivered dpid p))
           | Some hop \<Rightarrow> (case carry table wire s d n hop of (ds, v) \<Rightarrow> (dpid # ds, v))))"

text \<open>A packet follows a list of switches whose entries and cables fit together.\<close>

lemma carry_path:
  assumes "path \<noteq> []"
    and "\<forall>(dpid, i, p) \<in> set path. flow_lookup table dpid i s d = Some p"
    and "\<forall>j. Suc j < length path \<longrightarrow> wire (fst (path ! j), snd (snd (path ! j))) = Some (fst (path ! Suc j), fst (snd (path ! Suc j)))"
    and "wire (fst (last path), snd (snd (last path))) = None"
  shows "carry table wire s d (length path) (fst (hd path), fst (snd (hd path))) =
    (map fst path, Some (Delivered (fst (last path)) (snd (snd (last path)))))"
  using assms
proof (induction path)
  case (Cons a path)
  obtain dpid i p where a: "a = (dpid, i, p)" by (cases a)
  show ?case
  proof (cases path)
    case Nil
    then show ?thesis using Cons.prems a by simp
  next
    case (Cons b rest)
    have "wire (dpid, p) = Some (fst b, fst (snd b))" using Cons.prems(3)[rule_format, of 0] Cons a by simp
    moreover have "carry table wire s d (length path) (fst (hd path), fst (snd (hd path))) =
      (map fst path, Some (Delivered (fst (last path)) (snd (snd (last path)))))"
    proof (rule Cons.IH)
      show "\<forall>j. Suc j < length path \<longrightarrow> wire (fst (path ! j), snd (snd (path ! j))) = Some (fst (path ! Suc j), fst (snd (path ! Suc j)))"
        using Cons.prems(3) by auto
    qed (use Cons Cons.prems in auto)
    ultimately show ?thesis using Cons.prems(2) a Cons by simp
  qed
qed simp

section \<open>The entries of a unicast route\<close>

text \<open>The first port of a switch towards a neighbour.\<close>

definition port_to :: "switch_table \<Rightarrow> nat \<Rightarrow> nat \<Rightarrow> nat" where
  "port_to st u v =
     (case get_switch u st of None \<Rightarrow> 0 | Some sw \<Rightarrow> (case dict_get (sw_neighbors sw) v of Some (p # ps) \<Rightarrow> p | _ \<Rightarrow> 0))"

definition linked :: "switch_table \<Rightarrow> nat \<Rightarrow> nat \<Rightarrow> bool" where
  "linked st u v \<longleftrightarrow>
     (case get_switch u st of None \<Rightarrow> False
      | Some sw \<Rightarrow> (case dict_get (sw_neighbors sw) v of Some (p # ps) \<Rightarrow> True | _ \<Rightarrow> False))"

definition known_switch :: "switch_table \<Rightarrow> nat \<Rightarrow> bool" where
  "known_switch st d \<longleftrightarrow> (case get_switch d st of None \<Rightarrow> False | Some sw \<Rightarrow> dp_id (sw_dp sw) = d)"

definition route_known :: "switch_table \<Rightarrow> nat list \<Rightarrow> bool" where
  "route_known st ll \<longleftrightarrow> ll \<noteq> [] \<and> distinct ll \<and> (\<forall>d \<in> set ll. known_switch st d) \<and>
     (\<forall>i. Suc i < length ll \<longrightarrow> linked st (ll ! i) (ll ! Suc i) \<and> linked st (ll ! Suc i) (ll ! i))"

definition in_port_at :: "switch_table \<Rightarrow> task \<Rightarrow> nat list \<Rightarrow> nat \<Rightarrow> nat" where
  "in_port_at st t ll i = (if i = 0 then src_port_no t else port_to st (ll ! i) (ll ! (i - 1)))"

definition out_port_at :: "switch_table \<Rightarrow> task \<Rightarrow> nat list \<Rightarrow> nat \<Rightarrow> nat" where
  "out_port_at st t ll i = (if i = length ll - 1 then dst_port_no t else port_to st (ll ! i) (ll ! Suc i))"

definition fwd :: "switch_table \<Rightarrow> task \<Rightarrow> nat list \<Rightarrow> nat \<Rightarrow> out_msg" where
  "fwd st t ll i = flow_mod (ll ! i) (src_ip t) (dst_ip t) (in_port_at st t ll i) (out_port_at st t ll i)"

definition bwd :: "switch_table \<Rightarrow> task \<Rightarrow> nat list \<Rightarrow> nat \<Rightarrow> out_msg" where
  "bwd st t ll i = flow_mod (ll ! i) (dst_ip t) (src_ip t) (out_port_at st t ll i) (in_port_at st t ll i)"

lemma nb_port_linked: "linked st u v \<Longrightarrow> nb_port (get_switch u st) v = Inr (port_to st u v)"
  by (auto simp: linked_def nb_port_def port_to_def py_nth_def split: option.splits list.splits)

lemma dp_known: "known_switch st d \<Longrightarrow> \<exists>dp. dp_of (get_switch d st) = Inr dp \<and> dp_id dp = d"
  by (auto simp: known_switch_def dp_of_def split: option.splits)

lemma mod_at_known: "known_switch st d \<Longrightarrow> mod_at (get_switch d st) s e (Inr i) (Inr p) = ([flow_mod d s e i p], Inr ())"
  using dp_known[of st d] by (auto simp: mod_at_def send_def)

lemma web_link_known:
  "known_switch st u \<Longrightarrow> known_switch st v \<Longrightarrow> linked st u v \<Longrightarrow> linked st v u \<Longrightarrow>
     web_link st u v = Inr (u, port_to st u v, v, port_to st v u)"
  using dp_known[of st u] dp_known[of st v] by (auto simp: web_link_def Let_def nb_port_linked)

lemma web_event_cases: "web_event ty ls \<in> {([WebRouteSet ls], Inr ()), ([WebRouteSetDij ls], Inr ()), ([], Inr ())}"
  by (simp add: web_event_def send_def pure_def)

definition flows :: "out_msg list \<Rightarrow> out_msg set" where
  "flows ms = {m \<in> set ms. \<exists>f. m = FlowAdd f}"

lemma flows_simps [simp]:
  "flows [] = {}" "flows (ms @ ms') = flows ms \<union> flows ms'" "flows (flow_mod d s e i p # ms) = insert (flow_mod d s e i p) (flows ms)"
  "flows (WebRouteSet ls # ms) = flows ms" "flows (WebRouteSetDij ls # ms) = flows ms"
  by (auto simp: flows_def flow_mod_def)

lemma route_known_nth:
  assumes "route_known st ll" "i < length ll"
  shows "known_switch st (ll ! i)"
    "0 < i \<Longrightarrow> linked st (ll ! i) (ll ! (i - 1)) \<and> linked st (ll ! (i - 1)) (ll ! i)"
    "Suc i < length ll \<Longrightarrow> linked st (ll ! i) (ll ! Suc i) \<and> linked st (ll ! Suc i) (ll ! i)"
proof -
  show "known_switch st (ll ! i)" using assms by (simp add: route_known_def)
  show "Suc i < length ll \<Longrightarrow> linked st (ll ! i) (ll ! Suc i) \<and> linked st (ll ! Suc i) (ll ! i)"
    using assms(1) by (simp add: route_known_def)
  show "0 < i \<Longrightarrow> linked st (ll ! i) (ll ! (i - 1)) \<and> linked st (ll ! (i - 1)) (ll ! i)"
    using assms unfolding route_known_def by (cases i) auto
qed

text \<open>The messages of one switch of a route of three or more.\<close>

definition hop_msgs :: "switch_table \<Rightarrow> task \<Rightarrow> nat list \<Rightarrow> nat \<Rightarrow> out_msg list" where
  "hop_msgs st t ll i =
     (if i = 0 then [fwd st t ll i] else if i = length ll - 1 then [bwd st t ll i] else [fwd st t ll i, bwd st t ll i])"

lemma deploy_hop_eval:
  assumes r: "route_known st ll" and i: "i < length ll" and "3 \<le> length ll"
  shows "\<exists>ls. deploy_hop st t ll i = (hop_msgs st t ll i, Inr ls)"
proof -
  note at = route_known_nth[OF r i]
  have nx: "known_switch st (ll ! Suc i)" if "Suc i < length ll" using route_known_nth(1)[OF r that] .
  have w: "web_link st (ll ! i) (ll ! Suc i) = Inr (ll ! i, port_to st (ll ! i) (ll ! Suc i), ll ! Suc i, port_to st (ll ! Suc i) (ll ! i))"
    if "Suc i < length ll" using at(1) nx[OF that] at(3)[OF that] by (simp add: web_link_known)
  consider "i = 0" | "i = length ll - 1" "0 < i" | "0 < i" "Suc i < length ll" using i by linarith
  then show ?thesis
  proof cases
    case 1
    then show ?thesis using at w assms(3)
      by (simp add: deploy_hop_def Let_def hop_msgs_def fwd_def in_port_at_def out_port_at_def nb_port_linked mod_at_known pure_def)
  next
    case 2
    then show ?thesis using at assms(3)
      by (simp add: deploy_hop_def Let_def hop_msgs_def bwd_def in_port_at_def out_port_at_def nb_port_linked mod_at_known pure_def)
  next
    case 3
    then have "i \<noteq> length ll - 1" by simp
    with 3 show ?thesis using at w
      by (simp add: deploy_hop_def Let_def hop_msgs_def fwd_def bwd_def in_port_at_def out_port_at_def nb_port_linked mod_at_known pure_def)
  qed
qed

lemma deploy_flows:
  assumes r: "route_known st ll"
  shows "\<exists>ms. deploy_flow_table st ty t ll = (ms, Inr True) \<and> flows ms = (fwd st t ll ` {..<length ll}) \<union> (bwd st t ll ` {..<length ll})"
proof -
  have ne: "ll \<noteq> []" using r by (simp add: route_known_def)
  consider u where "ll = [u]" | u v where "ll = [u, v]" | "3 \<le> length ll"
    using ne by (cases ll; cases "tl ll"; cases "tl (tl ll)") (auto simp: Suc_le_eq)
  then show ?thesis
  proof cases
    case 1
    then show ?thesis using route_known_nth(1)[OF r, of 0]
      by (simp add: deploy_flow_table_def mod_at_known fwd_def bwd_def in_port_at_def out_port_at_def pure_def lessThan_Suc insert_commute)
  next
    case (2 u v)
    then have k: "known_switch st u" "known_switch st v" "linked st u v" "linked st v u"
      using route_known_nth(1)[OF r, of 0] route_known_nth(1)[OF r, of 1] route_known_nth(3)[OF r, of 0] by simp_all
    obtain dp1 dp2 where dp: "dp_of (get_switch u st) = Inr dp1" "dp_id dp1 = u" "dp_of (get_switch v st) = Inr dp2" "dp_id dp2 = v"
      using dp_known[OF k(1)] dp_known[OF k(2)] by blast
    show ?thesis using k dp 2
      by (auto simp: deploy_flow_table_def deploy_pair_def Let_def nb_port_linked mod_at_known fwd_def bwd_def in_port_at_def
          out_port_at_def pure_def lessThan_Suc)
  next
    case 3
    let ?n = "length ll"
    define ls where "ls = map (\<lambda>i. case snd (deploy_hop st t ll i) of Inr l \<Rightarrow> l | Inl e \<Rightarrow> []) [0..<?n]"
    have "send_each (deploy_hop st t ll) [0..<?n] = (concat (map (hop_msgs st t ll) [0..<?n]), Inr ls)"
      unfolding ls_def by (rule send_each_total) (use deploy_hop_eval[OF r _ 3, of _ t] in fastforce)
    moreover have "hd ll = ll ! 0" "last ll = ll ! (?n - 1)" using ne by (simp_all add: hd_conv_nth last_conv_nth)
    moreover have "mod_at (get_switch (ll ! (?n - 1)) st) (src_ip t) (dst_ip t) (nb_port (get_switch (ll ! (?n - 1)) st) (ll ! (?n - 2))) (Inr (dst_port_no t))
        = ([fwd st t ll (?n - 1)], Inr ())"
      using route_known_nth(1,2)[OF r, of "?n - 1"] 3
      by (simp add: nb_port_linked mod_at_known fwd_def in_port_at_def out_port_at_def numeral_2_eq_2)
    moreover have "mod_at (get_switch (ll ! 0) st) (dst_ip t) (src_ip t) (nb_port (get_switch (ll ! 0) st) (ll ! 1)) (Inr (src_port_no t))
        = ([bwd st t ll 0], Inr ())"
      using route_known_nth(1,3)[OF r, of 0] 3 ne
      by (simp add: nb_port_linked mod_at_known bwd_def in_port_at_def out_port_at_def)
    ultimately obtain w where ms: "deploy_flow_table st ty t ll =
        (concat (map (hop_msgs st t ll) [0..<?n]) @ w @ [fwd st t ll (?n - 1), bwd st t ll 0], Inr True)" "flows w = {}"
      using 3 web_event_cases[of ty "concat ls"] by (auto simp: deploy_flow_table_def Let_def pure_def)
    have "flows (concat (map (hop_msgs st t ll) [0..<?n])) = (\<Union>i < ?n. flows (hop_msgs st t ll i))"
      by (auto simp: flows_def)
    also have "\<dots> \<union> {fwd st t ll (?n - 1), bwd st t ll 0} = (fwd st t ll ` {..<?n}) \<union> (bwd st t ll ` {..<?n})"
      using 3 by (auto simp: hop_msgs_def fwd_def bwd_def split: if_splits)
    finally show ?thesis using ms by (simp add: fwd_def bwd_def)
  qed
qed

section \<open>Packets follow the route\<close>

text \<open>
  \<open>wired\<close>: the first ports of two switches towards each other are the ends of one cable. The hosts are
  on ports with no switch behind them.
\<close>

definition wired :: "switch_table \<Rightarrow> (nat \<times> nat \<Rightarrow> (nat \<times> nat) option) \<Rightarrow> nat list \<Rightarrow> bool" where
  "wired st wire ll \<longleftrightarrow> (\<forall>i. Suc i < length ll \<longrightarrow>
     wire (ll ! i, port_to st (ll ! i) (ll ! Suc i)) = Some (ll ! Suc i, port_to st (ll ! Suc i) (ll ! i)) \<and>
     wire (ll ! Suc i, port_to st (ll ! Suc i) (ll ! i)) = Some (ll ! i, port_to st (ll ! i) (ll ! Suc i)))"

lemma find_left: "find P xs = Some x \<Longrightarrow> find P (xs @ ys) = Some x"
  by (induction xs) (auto split: if_splits)

lemma flow_lookup_append:
  assumes "m \<in> flows ms" "applies dpid i s d m" "\<And>m'. m' \<in> flows ms \<Longrightarrow> applies dpid i s d m' \<Longrightarrow> output_of m' = Some p"
  shows "flow_lookup (old @ ms) dpid i s d = Some p"
proof -
  have "find (applies dpid i s d) (rev ms) \<noteq> None" using assms(1,2) by (auto simp: find_None_iff flows_def)
  then obtain m' where m': "find (applies dpid i s d) (rev ms) = Some m'" by blast
  then have "m' \<in> set (rev ms)" "applies dpid i s d m'" by (auto simp only: find_Some_iff intro!: nth_mem)
  then have "m' \<in> set ms" by simp
  then have "m' \<in> flows ms" using \<open>applies dpid i s d m'\<close> by (auto simp: flows_def elim: applies.elims)
  then have "output_of m' = Some p" using assms(3) \<open>applies dpid i s d m'\<close> by blast
  moreover have "find (applies dpid i s d) (rev ms @ rev old) = Some m'" using m' by (rule find_left)
  ultimately show ?thesis by (simp add: flow_lookup_def)
qed

lemma applies_flow_mod [simp]:
  "applies dpid i s d (flow_mod dpid' s' d' i' p') \<longleftrightarrow> dpid' = dpid \<and> i' = i \<and> s' = s \<and> d' = d"
  "output_of (flow_mod dpid' s' d' i' p') = Some p'"
  by (auto simp: flow_mod_def route_match_def)

lemma route_entries:
  assumes r: "distinct ll" and fl: "flows ms = (fwd st t ll ` {..<length ll}) \<union> (bwd st t ll ` {..<length ll})"
    and ip: "src_ip t \<noteq> dst_ip t" and i: "i < length ll"
  shows "flow_lookup (old @ ms) (ll ! i) (in_port_at st t ll i) (src_ip t) (dst_ip t) = Some (out_port_at st t ll i)"
    "flow_lookup (old @ ms) (ll ! i) (out_port_at st t ll i) (dst_ip t) (src_ip t) = Some (in_port_at st t ll i)"
proof -
  have inj: "ll ! j = ll ! i \<longleftrightarrow> j = i" if "j < length ll" for j using r that i by (simp add: nth_eq_iff_index_eq)
  show "flow_lookup (old @ ms) (ll ! i) (in_port_at st t ll i) (src_ip t) (dst_ip t) = Some (out_port_at st t ll i)"
    by (rule flow_lookup_append[of "fwd st t ll i"]) (use fl i ip inj in \<open>auto simp: fwd_def bwd_def\<close>)
  show "flow_lookup (old @ ms) (ll ! i) (out_port_at st t ll i) (dst_ip t) (src_ip t) = Some (in_port_at st t ll i)"
    by (rule flow_lookup_append[of "bwd st t ll i"]) (use fl i ip inj in \<open>auto simp: fwd_def bwd_def\<close>)
qed

lemma deploy_carries:
  assumes r: "route_known st ll" and w: "wired st wire ll"
    and ends: "wire (hd ll, src_port_no t) = None" "wire (last ll, dst_port_no t) = None"
    and ip: "src_ip t \<noteq> dst_ip t"
  shows "\<exists>ms. deploy_flow_table st ty t ll = (ms, Inr True) \<and>
    carry (old @ ms) wire (src_ip t) (dst_ip t) (length ll) (hd ll, src_port_no t) = (ll, Some (Delivered (last ll) (dst_port_no t))) \<and>
    carry (old @ ms) wire (dst_ip t) (src_ip t) (length ll) (last ll, dst_port_no t) = (rev ll, Some (Delivered (hd ll) (src_port_no t)))"
proof -
  obtain ms where ms: "deploy_flow_table st ty t ll = (ms, Inr True)"
    "flows ms = (fwd st t ll ` {..<length ll}) \<union> (bwd st t ll ` {..<length ll})" using deploy_flows[OF r] by blast
  have ne: "ll \<noteq> []" "distinct ll" using r by (simp_all add: route_known_def)
  note at = route_entries[OF ne(2) ms(2) ip, of _ old]
  let ?n = "length ll"
  have n: "0 < ?n" using ne by simp
  let ?P = "map (\<lambda>i. (ll ! i, in_port_at st t ll i, out_port_at st t ll i)) [0..<?n]"
  let ?Q = "map (\<lambda>i. (ll ! (?n - 1 - i), out_port_at st t ll (?n - 1 - i), in_port_at st t ll (?n - 1 - i))) [0..<?n]"
  have P: "hd ?P = (hd ll, src_port_no t, out_port_at st t ll 0)" "last ?P = (last ll, in_port_at st t ll (?n - 1), dst_port_no t)"
    using n ne by (simp_all add: hd_map last_map hd_conv_nth last_conv_nth in_port_at_def out_port_at_def)
  have Q: "hd ?Q = (last ll, dst_port_no t, in_port_at st t ll (?n - 1))" "last ?Q = (hd ll, out_port_at st t ll 0, src_port_no t)"
    using n ne by (simp_all add: hd_map last_map hd_conv_nth last_conv_nth in_port_at_def out_port_at_def)
  have "carry (old @ ms) wire (src_ip t) (dst_ip t) (length ?P) (fst (hd ?P), fst (snd (hd ?P))) =
      (map fst ?P, Some (Delivered (fst (last ?P)) (snd (snd (last ?P)))))"
  proof (rule carry_path)
    show "\<forall>j. Suc j < length ?P \<longrightarrow> wire (fst (?P ! j), snd (snd (?P ! j))) = Some (fst (?P ! Suc j), fst (snd (?P ! Suc j)))"
      using w by (auto simp: wired_def in_port_at_def out_port_at_def)
    show "wire (fst (last ?P), snd (snd (last ?P))) = None" unfolding P(2) using ends by simp
  qed (use n at in auto)
  moreover have "carry (old @ ms) wire (dst_ip t) (src_ip t) (length ?Q) (fst (hd ?Q), fst (snd (hd ?Q))) =
      (map fst ?Q, Some (Delivered (fst (last ?Q)) (snd (snd (last ?Q)))))"
  proof (rule carry_path)
    show "\<forall>j. Suc j < length ?Q \<longrightarrow> wire (fst (?Q ! j), snd (snd (?Q ! j))) = Some (fst (?Q ! Suc j), fst (snd (?Q ! Suc j)))"
    proof (intro allI impI)
      fix j assume j: "Suc j < length ?Q"
      let ?i = "?n - 1 - Suc j"
      have i: "?n - 1 - j = Suc ?i" "Suc ?i < ?n" using j by auto
      have "wire (ll ! Suc ?i, port_to st (ll ! Suc ?i) (ll ! ?i)) = Some (ll ! ?i, port_to st (ll ! ?i) (ll ! Suc ?i))"
        using w i(2) by (simp add: wired_def)
      moreover have "?i \<noteq> ?n - 1" using j by simp
      ultimately show "wire (fst (?Q ! j), snd (snd (?Q ! j))) = Some (fst (?Q ! Suc j), fst (snd (?Q ! Suc j)))"
        using j i by (simp add: in_port_at_def out_port_at_def)
    qed
    show "wire (fst (last ?Q), snd (snd (last ?Q))) = None" unfolding Q(2) using ends by simp
  qed (use n at in auto)
  moreover have "map fst ?P = ll" "map fst ?Q = rev ll"
    by (simp_all add: o_def map_nth) (rule nth_equalityI, simp_all add: rev_nth)
  ultimately show ?thesis using ms(1) unfolding P Q by auto
qed

text \<open>
  C10. For a route over known, linked switches without repetition, whose links are cabled as recorded,
  the deployment succeeds; afterwards, whatever routes were deployed before, a packet of the source
  visits exactly the switches of the route and leaves at the port of the destination, and a packet
  of the destination takes the same way back.
\<close>

theorem deployed_route_carries:
  assumes "route_known st ll" "wired st wire ll"
    and "wire (hd ll, src_port_no t) = None" "wire (last ll, dst_port_no t) = None" "src_ip t \<noteq> dst_ip t"
  shows "\<exists>ms. deploy_flow_table st ty t ll = (ms, Inr True) \<and>
    carry (old @ ms) wire (src_ip t) (dst_ip t) (length ll) (hd ll, src_port_no t) = (ll, Some (Delivered (last ll) (dst_port_no t))) \<and>
    carry (old @ ms) wire (dst_ip t) (src_ip t) (length ll) (last ll, dst_port_no t) = (rev ll, Some (Delivered (hd ll) (src_port_no t)))"
  by (rule deploy_carries[OF assms])

definition wit_nodes :: switch_table where
  "wit_nodes = map (\<lambda>(d, ns). (d, (new_switch \<lparr>dp_id = d, dp_address = [], dp_ports = []\<rparr>)\<lparr>sw_neighbors := map (\<lambda>n. (n, [n])) ns\<rparr>))
     [(11, [12, 13]), (12, [11, 13]), (13, [11, 12])]"

definition wit_task :: task where
  "wit_task = \<lparr>route_type = 3, src_dpid = 11, src_ip = ''10.0.0.1'', src_port_no = 1, dst_dpid = 13,
     dst_ip = ''10.0.0.2'', dst_port_no = 2, t_timestamp = 0\<rparr>"

definition wit_wire :: "nat \<times> nat \<Rightarrow> (nat \<times> nat) option" where
  "wit_wire = (\<lambda>(d, p). if p < 10 then None else Some (p, d))"

theorem deployed_route_carries_witness:
  "\<exists>ms. deploy_flow_table wit_nodes ''Dij'' wit_task [11, 12, 13] = (ms, Inr True) \<and>
     carry ms wit_wire ''10.0.0.1'' ''10.0.0.2'' 3 (11, 1) = ([11, 12, 13], Some (Delivered 13 2))"
proof -
  have all3: "(\<forall>i. Suc i < length [11, 12, 13 :: nat] \<longrightarrow> P i) \<longleftrightarrow> P 0 \<and> P 1" for P
    by (auto simp: less_Suc_eq)
  have r: "route_known wit_nodes [11, 12, 13]"
    unfolding route_known_def all3
    by (simp add: known_switch_def linked_def get_switch_def wit_nodes_def new_switch_def)
  have w: "wired wit_nodes wit_wire [11, 12, 13]"
    unfolding wired_def all3 by (simp add: port_to_def get_switch_def wit_nodes_def wit_wire_def)
  have ends: "wit_wire (hd [11, 12, 13], src_port_no wit_task) = None" "wit_wire (last [11, 12, 13], dst_port_no wit_task) = None"
    "src_ip wit_task \<noteq> dst_ip wit_task"
    by (simp_all add: wit_wire_def wit_task_def)
  show ?thesis using deployed_route_carries[OF r w ends, of "''Dij''" "[]"] by (force simp: wit_task_def numeral_3_eq_3)
qed

end
