(* ===== verification/Topology_Manage.thy ===== *)
theory Topology_Manage
  imports Switch_Table
begin

text \<open>
  The application \<open>topology_manage/TopologyManage.py\<close>: one definition per event handler, acting
  on the switch table and the link table. A handler returns the new state, the events and
  messages it sends, and the exception that ends it, if any. The two timers that announce the end
  of the initialisation carry the exported link table; a new link kills and restarts them.
\<close>

definition Megabits :: real where "Megabits = 1000 * (1000 * 1)"

datatype topo_out =
    EventSwitchAdd switch
  | EventSwitchDel nat
  | EventLinkAdd "nat \<times> nat" link
  | EventLinkDel nat nat
  | EventLinkDelUpdateTopo switch_table link_table_api port port real
  | EventPortDownUpdateTopo port real
  | OFPFlowMod_delete_all nat
  | EventSwitchReply_one "switch option"
  | EventSwitchReply_all switch_table
  | EventLinkReply_one "link list option"
  | EventLinkReply_all link_table_api

record topo =
  tm_switches :: switch_table
  tm_links :: link_table
  tm_init_end_thread :: "link_table_api option"
  tm_link_monitor_thread :: "link_table_api option"

type_synonym topo_result = "topo \<times> topo_out list \<times> pyerr option"

definition switch_enter_handler :: "datapath \<Rightarrow> topo \<Rightarrow> topo_result" where
  "switch_enter_handler dp s = (s\<lparr>tm_switches := add_switch (dp_id dp) dp (tm_switches s)\<rparr>, [], None)"

text \<open>
  The loop of \<open>switch_leave_handler\<close> over a copy of the neighbours: the entry for the switch
  is deleted at each neighbour (an exception ends the handler with the deletions made so far).
\<close>

fun leave_neighbors :: "nat \<Rightarrow> nat list \<Rightarrow> topo \<Rightarrow> topo \<times> pyerr option" where
  "leave_neighbors d [] s = (s, None)"
| "leave_neighbors d (n # ns) s =
     (case get_switch n (tm_switches s) of
        None \<Rightarrow> (s, Some AttributeError)
      | Some nsw \<Rightarrow>
          (case dict_get (sw_neighbors nsw) d of
             None \<Rightarrow> (s, Some KeyError)
           | Some ps \<Rightarrow>
               leave_neighbors d ns
                 (s\<lparr>tm_switches := dict_set n (nsw\<lparr>sw_neighbors := dict_del d (sw_neighbors nsw)\<rparr>) (tm_switches s),
                    tm_links := del_all_virtual_link n d (tm_links s)\<rparr>)))"

definition switch_leave_handler :: "nat \<Rightarrow> topo \<Rightarrow> topo_result" where
  "switch_leave_handler d s =
     (case get_switch d (tm_switches s) of
        None \<Rightarrow> (s, [], Some AttributeError)
      | Some sw \<Rightarrow>
          (case leave_neighbors d (dict_keys (sw_neighbors sw)) s of
             (s', Some e) \<Rightarrow> (s', [], Some e)
           | (s', None) \<Rightarrow>
               (s'\<lparr>tm_switches := del_switch d (tm_switches s')\<rparr>, [EventSwitchDel d], None)))"

text \<open>\<open>str.rstrip('\x00')\<close>.\<close>

definition rstrip0 :: "string \<Rightarrow> string" where
  "rstrip0 s = rev (dropWhile (\<lambda>c. c = CHR 0x00) (rev s))"

definition state_change_port :: "datapath \<Rightarrow> switch \<Rightarrow> nat \<times> ofpport \<Rightarrow> switch" where
  "state_change_port dp sw e =
     (case e of (pno, p) \<Rightarrow>
        (let sw = (if pno \<in> set (dict_keys (sw_ports sw)) then sw
                   else sw\<lparr>sw_ports := add_ofpport pno p dp (sw_ports sw)\<rparr>)
         in if pno = OFPP_LOCAL then sw\<lparr>sw_name := Some (rstrip0 (ofp_name p))\<rparr>
            else sw\<lparr>sw_name := Some (dp_address dp)\<rparr>))"

definition switch_state_change_handler :: "datapath \<Rightarrow> topo \<Rightarrow> topo_result" where
  "switch_state_change_handler dp s =
     (let d = dp_id dp; st = add_switch d dp (tm_switches s)
      in case get_switch d st of
           None \<Rightarrow> (s\<lparr>tm_switches := st\<rparr>, [], Some AttributeError)
         | Some sw \<Rightarrow>
             (let sw = foldl (state_change_port dp) (sw\<lparr>sw_attribute := ''edge''\<rparr>) (dp_ports dp)
              in (s\<lparr>tm_switches := dict_set d sw st\<rparr>, [EventSwitchAdd sw], None)))"

definition clean_flow_table :: "datapath \<Rightarrow> topo \<Rightarrow> topo_result" where
  "clean_flow_table dp s = (s, [OFPFlowMod_delete_all (dp_id dp)], None)"

text \<open>
  \<open>get_switch\<close> returns \<open>None\<close> for an unknown switch and never raises \<open>KeyError\<close>: the three
  port handlers leave with \<open>AttributeError\<close> there.
\<close>

definition port_add_handler :: "port \<Rightarrow> topo \<Rightarrow> topo_result" where
  "port_add_handler ev s =
     (let p = Port_of_port ev None
      in case get_switch (port_dpid p) (tm_switches s) of
           None \<Rightarrow> (s, [], Some AttributeError)
         | Some sw \<Rightarrow>
             (s\<lparr>tm_switches := dict_set (port_dpid p)
                 (sw\<lparr>sw_ports := add_port (port_no p) p None (sw_ports sw)\<rparr>) (tm_switches s)\<rparr>, [], None))"

definition OFPPR_ADD :: "32 word" where "OFPPR_ADD = 0"
definition OFPPR_DELETE :: "32 word" where "OFPPR_DELETE = 1"

definition port_modify_handler :: "real \<Rightarrow> port \<Rightarrow> topo \<Rightarrow> topo_result" where
  "port_modify_handler now ev s =
     (let new_port = Port_of_port ev None
      in case get_switch (port_dpid new_port) (tm_switches s) of
           None \<Rightarrow> (s, [], Some AttributeError)
         | Some sw \<Rightarrow>
             (case get_port (port_no new_port) (sw_ports sw) of
                None \<Rightarrow> (s, [], Some AttributeError)
              | Some record_port \<Rightarrow>
                  (let old = port_state record_port; new = port_state new_port;
                       s' = s\<lparr>tm_switches := dict_set (port_dpid new_port)
                         (sw\<lparr>sw_ports := dict_set (port_no new_port) (record_port\<lparr>port_state := new\<rparr>) (sw_ports sw)\<rparr>)
                         (tm_switches s)\<rparr>
                   in if old = new then (s, [], None)
                      else if old = OFPPR_DELETE \<and> new = OFPPR_ADD
                        then (s', [EventPortDownUpdateTopo ev now], None)
                      else if old = OFPPR_ADD \<and> new = OFPPR_DELETE
                        then (s', [EventPortDownUpdateTopo ev now], None)
                      else (s, [], None))))"

definition port_delete_handler :: "port \<Rightarrow> topo \<Rightarrow> topo_result" where
  "port_delete_handler ev s =
     (let p = Port_of_port ev None
      in case get_switch (port_dpid p) (tm_switches s) of
           None \<Rightarrow> (s, [], Some AttributeError)
         | Some sw \<Rightarrow>
             (s\<lparr>tm_switches := dict_set (port_dpid p)
                 (sw\<lparr>sw_ports := del_port (port_no p) (sw_ports sw)\<rparr>) (tm_switches s)\<rparr>, [], None))"

definition link_add_handler :: "real \<Rightarrow> link \<Rightarrow> topo \<Rightarrow> topo_result" where
  "link_add_handler now ev s0 =
     (let s = s0\<lparr>tm_init_end_thread := None, tm_link_monitor_thread := None\<rparr>
      in case get_switch (port_dpid (link_src ev)) (tm_switches s) of
           None \<Rightarrow> (s, [], Some AttributeError)
         | Some src_switch \<Rightarrow>
             (case get_switch (port_dpid (link_dst ev)) (tm_switches s) of
                None \<Rightarrow> (s, [], Some AttributeError)
              | Some dst_switch \<Rightarrow>
                  (let src = Port_of_port (link_src ev) (Some (sw_dp src_switch));
                       dst = Port_of_port (link_dst ev) (Some (sw_dp dst_switch));
                       (links', r) = add_link now (new_link now src dst None) (tm_links s);
                       (st', e) = set_neighbor (port_dpid src) (port_dpid dst) (port_no src) (tm_switches s);
                       s' = s\<lparr>tm_links := links', tm_switches := st'\<rparr>
                   in case e of
                        Some er \<Rightarrow> (s', [], Some er)
                      | None \<Rightarrow>
                          (s'\<lparr>tm_init_end_thread := Some (api_init links'),
                              tm_link_monitor_thread := Some (api_init links')\<rparr>,
                           (case r of None \<Rightarrow> [] | Some (k, l) \<Rightarrow> [EventLinkAdd k l]), None))))"

text \<open>
  \<open>link_delete_handler\<close> swallows an exception of the neighbour updates: when the first
  one raises, the second is not made. \<open>if src_dpid and dst_dpid\<close> is false for the dpid 0.
\<close>

definition link_delete_handler :: "real \<Rightarrow> link \<Rightarrow> topo \<Rightarrow> topo_result" where
  "link_delete_handler now ev s =
     (let src = link_src ev; dst = link_dst ev;
          (links', r) = del_link ev (tm_links s);
          (st1, e1) = del_neighbor (port_dpid src) (port_dpid dst) (port_no src) (tm_switches s);
          st' = (case e1 of
                   Some e \<Rightarrow> st1
                 | None \<Rightarrow> fst (del_neighbor (port_dpid dst) (port_dpid src) (port_no dst) st1));
          s' = s\<lparr>tm_links := links', tm_switches := st'\<rparr>
      in (s', (case r of
                 Some (a, b) \<Rightarrow>
                   (if a \<noteq> 0 \<and> b \<noteq> 0
                    then [EventLinkDel a b, EventLinkDelUpdateTopo st' (api_init links') src dst now] else [])
               | None \<Rightarrow> []), None))"

text \<open>A request without a dpid, or with the dpid 0, is answered with the whole table.\<close>

definition switch_request_handler :: "nat option \<Rightarrow> topo \<Rightarrow> topo_result" where
  "switch_request_handler req s =
     (case req of
        Some d \<Rightarrow> (if d \<noteq> 0 then (s, [EventSwitchReply_one (get_switch d (tm_switches s))], None)
                   else (s, [EventSwitchReply_all (tm_switches s)], None))
      | None \<Rightarrow> (s, [EventSwitchReply_all (tm_switches s)], None))"

definition link_request_handler :: "nat option \<Rightarrow> nat option \<Rightarrow> topo \<Rightarrow> topo_result" where
  "link_request_handler sd dd s =
     (case (sd, dd) of
        (Some a, Some b) \<Rightarrow>
          (if a \<noteq> 0 \<and> b \<noteq> 0 then (s, [EventLinkReply_one (get_link_by_dpid a b (tm_links s))], None)
           else (s, [EventLinkReply_all (api_init (tm_links s))], None))
      | _ \<Rightarrow> (s, [EventLinkReply_all (api_init (tm_links s))], None))"

text \<open>
  The two configuration files, parsed: \<open>None\<close> when a file cannot be opened.
\<close>

record switch_conf =
  conf_dpid :: nat
  conf_attribute :: string

record link_conf =
  conf_src :: nat
  conf_dst :: nat
  conf_delay :: real
  conf_loss :: real
  conf_bandwidth :: real

definition switch_conf_item :: "switch_table \<Rightarrow> switch_conf \<Rightarrow> switch_table" where
  "switch_conf_item st c =
     (case get_switch (conf_dpid c) st of
        None \<Rightarrow> st
      | Some sw \<Rightarrow> dict_set (conf_dpid c) (sw\<lparr>sw_attribute := conf_attribute c\<rparr>) st)"

definition read_switch_configuration :: "switch_conf list option \<Rightarrow> topo \<Rightarrow> topo" where
  "read_switch_configuration f s =
     (case f of
        None \<Rightarrow> s
      | Some conf \<Rightarrow> s\<lparr>tm_switches := foldl switch_conf_item (tm_switches s) conf\<rparr>)"

definition link_conf_item :: "link_table \<Rightarrow> link_conf \<Rightarrow> link_table" where
  "link_conf_item t c =
     (let (a, b) = (if conf_src c > conf_dst c then (conf_dst c, conf_src c) else (conf_src c, conf_dst c))
      in case get_link_by_dpid a b t of
           Some (l # ls) \<Rightarrow>
             dict_set (a, b)
               (l\<lparr>link_delay := Some (conf_delay c), link_pkt_loss := Some (conf_loss c),
                  link_total_band := Some (conf_bandwidth c * Megabits)\<rparr> # ls) t
         | _ \<Rightarrow> t)"

definition read_link_configuration :: "link_conf list option \<Rightarrow> topo \<Rightarrow> topo" where
  "read_link_configuration f s =
     (case f of
        None \<Rightarrow> s
      | Some conf \<Rightarrow> s\<lparr>tm_links := foldl link_conf_item (tm_links s) conf\<rparr>)"


section \<open>Reachable topologies\<close>

datatype topo_event =
    SwitchEnter datapath | SwitchLeave nat | StateChange datapath | SwitchFeatures datapath
  | PortAdd port | PortModify real port | PortDelete port
  | LinkAdd real link | LinkDelete real link
  | SwitchRequest "nat option" | LinkRequest "nat option" "nat option"
  | StartLinkMonitor "switch_conf list option" "link_conf list option"

fun topo_handle :: "topo_event \<Rightarrow> topo \<Rightarrow> topo_result" where
  "topo_handle (SwitchEnter dp) s = switch_enter_handler dp s"
| "topo_handle (SwitchLeave d) s = switch_leave_handler d s"
| "topo_handle (StateChange dp) s = switch_state_change_handler dp s"
| "topo_handle (SwitchFeatures dp) s = clean_flow_table dp s"
| "topo_handle (PortAdd p) s = port_add_handler p s"
| "topo_handle (PortModify now p) s = port_modify_handler now p s"
| "topo_handle (PortDelete p) s = port_delete_handler p s"
| "topo_handle (LinkAdd now l) s = link_add_handler now l s"
| "topo_handle (LinkDelete now l) s = link_delete_handler now l s"
| "topo_handle (SwitchRequest d) s = switch_request_handler d s"
| "topo_handle (LinkRequest a b) s = link_request_handler a b s"
| "topo_handle (StartLinkMonitor f g) s = (read_link_configuration g (read_switch_configuration f s), [], None)"

text \<open>
  An event that the topology discovery of the controller sends is handled whatever the state; what the
  handlers rely on is that the ports of a datapath are keyed by their numbers.
\<close>

definition half_of :: "link \<Rightarrow> nat \<times> nat \<times> nat" where
  "half_of l = (port_dpid (link_src l), port_dpid (link_dst l), port_no (link_src l))"

definition other_half_of :: "link \<Rightarrow> nat \<times> nat \<times> nat" where
  "other_half_of l = (port_dpid (link_dst l), port_dpid (link_src l), port_no (link_dst l))"

fun topo_event_ok :: "topo_event \<Rightarrow> bool" where
  "topo_event_ok (StateChange dp) = (\<forall>(n, p) \<in> set (dp_ports dp). ofp_port_no p = n)"
| "topo_event_ok ev = True"

text \<open>
  The neighbour ports left behind: when \<open>link_delete_handler\<close> deletes a link whose source does not
  record the destination as a neighbour, the first deletion raises, the exception is swallowed
  and the entry at the destination is not deleted. It is forgotten again when the link is found again, or
  deleted once more in a direction that is recorded.
\<close>

fun left_behind :: "topo_event \<Rightarrow> topo \<Rightarrow> (nat \<times> nat \<times> nat) set \<Rightarrow> (nat \<times> nat \<times> nat) set" where
  "left_behind (LinkAdd now l) s D =
     (if get_switch (port_dpid (link_src l)) (tm_switches s) = None \<or> get_switch (port_dpid (link_dst l)) (tm_switches s) = None
      then D else D - {half_of l, other_half_of l})"
| "left_behind (LinkDelete now l) s D =
     (if get_neighbor (port_dpid (link_src l)) (port_dpid (link_dst l)) (tm_switches s) = None
      then insert (other_half_of l) D else D - {half_of l, other_half_of l})"
| "left_behind ev s D = D"

definition topo_init :: topo where
  "topo_init = \<lparr>tm_switches = [], tm_links = [], tm_init_end_thread = None, tm_link_monitor_thread = None\<rparr>"

text \<open>The reachable topologies, each with the neighbour ports left behind on the way to it.\<close>

inductive topo_reach :: "topo \<Rightarrow> (nat \<times> nat \<times> nat) set \<Rightarrow> bool" where
  topo_reach_init: "topo_reach topo_init {}"
| topo_reach_step: "topo_reach s D \<Longrightarrow> topo_event_ok ev \<Longrightarrow> topo_handle ev s = (s', outs, e) \<Longrightarrow>
     topo_reach s' (left_behind ev s D)"

text \<open>
  The invariant: both tables are well formed, every link is direct, and every port that a switch
  records as leading to a neighbour is an end of a cable of the link table to that neighbour, but
  for those in \<open>D\<close>.
\<close>

definition cable :: "link_table \<Rightarrow> nat \<times> nat \<times> nat \<Rightarrow> bool" where
  "cable t h = (case h of (d, n, p) \<Rightarrow>
     \<exists>q. ((d, p), (n, q)) \<in> table_ends t \<or> ((n, q), (d, p)) \<in> table_ends t)"

definition all_direct :: "link_table \<Rightarrow> bool" where
  "all_direct t \<longleftrightarrow> (\<forall>(k, ls) \<in> set t. \<forall>l \<in> set ls. \<not> is_virtual l)"

definition topo_ok_but :: "(nat \<times> nat \<times> nat) set \<Rightarrow> topo \<Rightarrow> bool" where
  "topo_ok_but D s \<longleftrightarrow> st_ok (tm_switches s) \<and> lt_ok (tm_links s) \<and> all_direct (tm_links s) \<and>
     (\<forall>h \<in> nb_rel (tm_switches s) - D. cable (tm_links s) h)"


lemma skipping_none: "\<forall>x \<in> set xs. \<not> p x \<Longrightarrow> skipping p xs = xs"
  by (induction p xs rule: skipping.induct) auto

lemma dict_set_same: "dict_get d k = Some v \<Longrightarrow> dict_set k v d = d"
  by (induction d) auto

lemma del_all_direct: "lt_ok t \<Longrightarrow> all_direct t \<Longrightarrow> del_all_virtual_link s d t = t"
proof (cases "get_link_by_dpid s d t")
  case (Some ls)
  assume ok: "lt_ok t" and "all_direct t"
  obtain k where k: "k = (if s > d then (d, s) else (s, d))" by simp
  have get: "dict_get t k = Some ls" using Some by (simp add: get_link_by_dpid_def k)
  have "skipping is_virtual ls = ls" "ls \<noteq> []"
    using \<open>all_direct t\<close> map_of_SomeD[OF get] lt_ok_get[OF ok get]
    by (auto simp: all_direct_def entry_ok_def intro!: skipping_none)
  then show ?thesis
    by (simp add: del_all_virtual_link_skipping Some k[symmetric] dict_set_same[OF get])
qed (simp add: del_all_virtual_link_skipping)

lemma cable_cases:
  "norm_ends l = (e, f) \<Longrightarrow>
     (e = (port_dpid (link_src l), port_no (link_src l)) \<and> f = (port_dpid (link_dst l), port_no (link_dst l))) \<or>
     (f = (port_dpid (link_src l), port_no (link_src l)) \<and> e = (port_dpid (link_dst l), port_no (link_dst l)))"
  by (auto simp: norm_ends_def raw_ends_def Let_def split: if_splits)

lemma cable_half:
  "norm_ends l \<in> table_ends t \<Longrightarrow> cable t (half_of l)"
  "norm_ends l \<in> table_ends t \<Longrightarrow> cable t (other_half_of l)"
  using cable_cases[of l] by (cases "norm_ends l"; auto simp: cable_def half_of_def other_half_of_def)+

lemma cable_mono: "table_ends t \<subseteq> table_ends t' \<Longrightarrow> cable t h \<Longrightarrow> cable t' h"
  by (auto simp: cable_def split: prod.splits)

lemma cable_remove:
  assumes "cable t h" "h \<noteq> half_of l" "h \<noteq> other_half_of l"
    and "table_ends t' = table_ends t - {norm_ends l}"
  shows "cable t' h"
  using assms cable_cases[of l]
  by (cases "norm_ends l") (auto simp: cable_def half_of_def other_half_of_def split: prod.splits)

section \<open>The handlers keep the invariant\<close>

lemma add_link_attr:
  "add_link now l t = (t', r) \<Longrightarrow> lt_ok t \<Longrightarrow> all_direct t \<Longrightarrow> all_direct t'"
  unfolding add_link_def all_direct_def
  by (auto simp: Let_def lt_ok_def set_dict_set is_virtual_def new_link_def
      split: prod.splits option.splits if_splits dest!: map_of_SomeD)

lemma del_link_attr: "del_link l t = (t', r) \<Longrightarrow> lt_ok t \<Longrightarrow> all_direct t \<Longrightarrow> all_direct t'"
  unfolding del_link_def all_direct_def
  by (auto simp: Let_def lt_ok_def set_dict_set set_dict_del
      split: prod.splits option.splits if_splits dest!: map_of_SomeD remove_by_Some)

lemma nb_rel_cong:
  "dict_get st d = Some sw \<Longrightarrow> sw_neighbors sw' = sw_neighbors sw \<Longrightarrow> nb_rel (dict_set d sw' st) = nb_rel st"
  by (auto simp: nb_rel_def get_neighbor_def split: option.splits if_splits)

lemma topo_ok_switch:
  assumes "topo_ok_but D s" "get_switch d (tm_switches s) = Some sw" "switch_ok d sw'"
    and "sw_neighbors sw' = sw_neighbors sw"
  shows "topo_ok_but D (s\<lparr>tm_switches := dict_set d sw' (tm_switches s)\<rparr>)"
  using assms nb_rel_cong[of "tm_switches s" d sw sw']
  by (auto simp: topo_ok_but_def get_switch_def intro: st_ok_set)

lemma topo_ok_get: "topo_ok_but D s \<Longrightarrow> get_switch d (tm_switches s) = Some sw \<Longrightarrow> switch_ok d sw"
  by (auto simp: topo_ok_but_def get_switch_def intro: st_ok_get)

lemma leave_neighbors_ok:
  "topo_ok_but D s \<Longrightarrow> leave_neighbors d ns s = (s', e) \<Longrightarrow>
     topo_ok_but D s' \<and> tm_links s' = tm_links s \<and> nb_rel (tm_switches s') \<subseteq> nb_rel (tm_switches s)"
proof (induction d ns s rule: leave_neighbors.induct)
  case (2 d n ns s)
  show ?case
  proof (cases "\<exists>nsw ps. get_switch n (tm_switches s) = Some nsw \<and> dict_get (sw_neighbors nsw) d = Some ps")
    case False
    then show ?thesis using "2.prems" by (auto split: option.splits)
  next
    case True
    then obtain nsw ps where n: "get_switch n (tm_switches s) = Some nsw"
      and ps: "dict_get (sw_neighbors nsw) d = Some ps" by blast
    let ?s = "s\<lparr>tm_switches := dict_set n (nsw\<lparr>sw_neighbors := dict_del d (sw_neighbors nsw)\<rparr>) (tm_switches s),
                    tm_links := del_all_virtual_link n d (tm_links s)\<rparr>"
    have nn: "dict_get (tm_switches s) n = Some nsw" using n by (simp add: get_switch_def)
    have l: "tm_links ?s = tm_links s" using "2.prems"(1) by (simp add: topo_ok_but_def del_all_direct)
    have sub: "nb_rel (tm_switches ?s) \<subseteq> nb_rel (tm_switches s)"
      by (auto simp: nb_rel_update nb_rel_at[OF nn] split: if_splits)
    have swok: "switch_ok n nsw" by (rule topo_ok_get[OF "2.prems"(1) n])
    have "st_ok (tm_switches ?s)"
      using "2.prems"(1) swok by (auto simp: topo_ok_but_def switch_ok_def intro!: st_ok_set switch_ok_nbs nbs_ok_del)
    then have "topo_ok_but D ?s" using "2.prems"(1) l sub by (auto simp: topo_ok_but_def)
    then show ?thesis using "2.IH"[OF n ps] "2.prems"(2) n ps l sub by auto
  qed
qed simp

lemma nb_rel_del_switch: "nb_rel (dict_del d st) = {h \<in> nb_rel st. fst h \<noteq> d}"
  by (auto simp: nb_rel_def get_neighbor_def split: option.splits if_splits)

lemma topo_ok_del_switch: "topo_ok_but D s \<Longrightarrow> topo_ok_but D (s\<lparr>tm_switches := del_switch d (tm_switches s)\<rparr>)"
  by (simp add: topo_ok_but_def del_switch_def nb_rel_del_switch st_ok_del)

lemma switch_leave_ok:
  assumes "topo_ok_but D s" "switch_leave_handler d s = (s', outs, e)"
  shows "topo_ok_but D s'"
proof (cases "get_switch d (tm_switches s)")
  case None
  then show ?thesis using assms by (simp add: switch_leave_handler_def)
next
  case (Some sw)
  obtain s1 e1 where l: "leave_neighbors d (dict_keys (sw_neighbors sw)) s = (s1, e1)" by fastforce
  have "topo_ok_but D s1" using leave_neighbors_ok[OF assms(1) l] by blast
  then show ?thesis
    using assms(2) Some l topo_ok_del_switch[of D s1] by (cases e1) (auto simp: switch_leave_handler_def)
qed

lemma state_change_port_ok:
  "switch_ok (dp_id dp) sw \<Longrightarrow> ofp_port_no (snd e) = fst e \<Longrightarrow>
     switch_ok (dp_id dp) (state_change_port dp sw e) \<and>
     sw_neighbors (state_change_port dp sw e) = sw_neighbors sw"
  by (auto simp: state_change_port_def Let_def switch_ok_def add_ofpport_def Port_of_port_def
      Port_of_ofpport_def ports_ok_set split: prod.splits)

lemma state_change_ports_ok:
  "switch_ok (dp_id dp) sw \<Longrightarrow> \<forall>(n, p) \<in> set ps. ofp_port_no p = n \<Longrightarrow>
     switch_ok (dp_id dp) (foldl (state_change_port dp) sw ps) \<and>
     sw_neighbors (foldl (state_change_port dp) sw ps) = sw_neighbors sw"
proof (induction ps arbitrary: sw)
  case (Cons e ps)
  then show ?case using state_change_port_ok[of dp sw e] by auto
qed simp

lemma topo_ok_add_switch: "topo_ok_but D s \<Longrightarrow> topo_ok_but D (s\<lparr>tm_switches := add_switch (dp_id dp) dp (tm_switches s)\<rparr>)"
  by (simp add: topo_ok_but_def nb_rel_add_switch add_switch_ok)

lemma state_change_ok:
  assumes "topo_ok_but D s" "\<forall>(n, p) \<in> set (dp_ports dp). ofp_port_no p = n"
    and "switch_state_change_handler dp s = (s', outs, e)"
  shows "topo_ok_but D s'"
proof -
  let ?s = "s\<lparr>tm_switches := add_switch (dp_id dp) dp (tm_switches s)\<rparr>"
  obtain sw where sw: "get_switch (dp_id dp) (tm_switches ?s) = Some sw"
    by (simp add: get_add_switch)
  have ok: "topo_ok_but D ?s" by (rule topo_ok_add_switch[OF assms(1)])
  note swok = topo_ok_get[OF ok sw]
  let ?sw = "foldl (state_change_port dp) (sw\<lparr>sw_attribute := ''edge''\<rparr>) (dp_ports dp)"
  have "switch_ok (dp_id dp) ?sw \<and> sw_neighbors ?sw = sw_neighbors sw"
    using state_change_ports_ok[OF _ assms(2), where sw = "sw\<lparr>sw_attribute := ''edge''\<rparr>"] swok
    by (simp add: switch_ok_def)
  then have "topo_ok_but D (?s\<lparr>tm_switches := dict_set (dp_id dp) ?sw (tm_switches ?s)\<rparr>)"
    by (intro topo_ok_switch[OF ok sw]) auto
  then show ?thesis using assms(3) sw by (auto simp: switch_state_change_handler_def Let_def)
qed

lemma topo_ok_ports:
  "topo_ok_but D s \<Longrightarrow> get_switch d (tm_switches s) = Some sw \<Longrightarrow> ports_ok d pt \<Longrightarrow>
     topo_ok_but D (s\<lparr>tm_switches := dict_set d (sw\<lparr>sw_ports := pt\<rparr>) (tm_switches s)\<rparr>)"
  using topo_ok_get[of D s d sw] by (intro topo_ok_switch) (auto simp: switch_ok_def)

lemma topo_get_ports: "topo_ok_but D s \<Longrightarrow> get_switch d (tm_switches s) = Some sw \<Longrightarrow> ports_ok d (sw_ports sw)"
  by (auto simp: switch_ok_def dest: topo_ok_get)

lemma port_add_ok: "topo_ok_but D s \<Longrightarrow> port_add_handler p s = (s', outs, e) \<Longrightarrow> topo_ok_but D s'"
  by (auto simp: port_add_handler_def Let_def add_port_def Port_of_port_def
      intro!: topo_ok_ports ports_ok_set topo_get_ports split: option.splits)

lemma port_delete_ok: "topo_ok_but D s \<Longrightarrow> port_delete_handler p s = (s', outs, e) \<Longrightarrow> topo_ok_but D s'"
  by (auto simp: port_delete_handler_def Let_def del_port_def Port_of_port_def
      intro!: topo_ok_ports ports_ok_del topo_get_ports split: option.splits)

lemma ports_ok_get: "ports_ok d pt \<Longrightarrow> get_port n pt = Some p \<Longrightarrow> port_dpid p = d \<and> port_no p = n"
  by (auto simp: ports_ok_def get_port_def dest!: map_of_SomeD)

lemma port_modify_ok: "topo_ok_but D s \<Longrightarrow> port_modify_handler now p s = (s', outs, e) \<Longrightarrow> topo_ok_but D s'"
  by (auto simp: port_modify_handler_def Let_def Port_of_port_def
      intro!: topo_ok_ports ports_ok_set topo_get_ports
      dest: ports_ok_get[OF topo_get_ports] split: option.splits if_splits)

lemma get_switch_key: "get_switch d st = Some sw \<Longrightarrow> d \<in> set (dict_keys st)"
  by (force simp: get_switch_def dest!: map_of_SomeD)

lemma norm_ends_event: "norm_ends (new_link now (Port_of_port (link_src l) a) (Port_of_port (link_dst l) b) x) = norm_ends l"
  by (simp add: norm_ends_def raw_ends_def new_link_def Port_of_port_def)

lemma link_add_ok:
  assumes ok: "topo_ok_but D s" and h: "link_add_handler now ev s = (s', outs, e)"
  shows "topo_ok_but (left_behind (LinkAdd now ev) s D) s'"
proof (cases "get_switch (port_dpid (link_src ev)) (tm_switches s) = None \<or>
    get_switch (port_dpid (link_dst ev)) (tm_switches s) = None")
  case True
  then show ?thesis using ok h by (auto simp: link_add_handler_def Let_def topo_ok_but_def split: option.splits)
next
  case False
  then obtain ss ds where src: "get_switch (port_dpid (link_src ev)) (tm_switches s) = Some ss"
    and dst: "get_switch (port_dpid (link_dst ev)) (tm_switches s) = Some ds" by auto
  obtain links' r where add: "add_link now (new_link now (Port_of_port (link_src ev) (Some (sw_dp ss)))
      (Port_of_port (link_dst ev) (Some (sw_dp ds))) None) (tm_links s) = (links', r)" by fastforce
  obtain st' e' where set: "set_neighbor (port_dpid (link_src ev)) (port_dpid (link_dst ev))
      (port_no (link_src ev)) (tm_switches s) = (st', e')" by fastforce
  have s': "tm_links s' = links'" "tm_switches s' = st'"
    using h add set by (auto simp: link_add_handler_def Let_def src dst Port_of_port_def split: option.splits)
  have st: "st_ok (tm_switches s)" and lt: "lt_ok (tm_links s)" "all_direct (tm_links s)"
    and nb: "\<forall>h \<in> nb_rel (tm_switches s) - D. cable (tm_links s) h"
    using ok by (auto simp: topo_ok_but_def)
  note ls = add_link_spec[OF lt(1) add, unfolded norm_ends_event]
  note ns = set_neighbor_spec[OF st get_switch_key[OF src] set]
  have "table_ends (tm_links s) \<subseteq> table_ends links'" using ls(2) by blast
  moreover have c: "cable links' (half_of ev)" "cable links' (other_half_of ev)"
    using ls(2) by (auto intro!: cable_half)
  ultimately have "cable links' h" if "h \<in> nb_rel st' - (D - {half_of ev, other_half_of ev})" for h
    using that nb unfolding ns(3) half_of_def[symmetric] by (blast dest: cable_mono)
  moreover have "left_behind (LinkAdd now ev) s D = D - {half_of ev, other_half_of ev}" by (simp add: src dst)
  ultimately show ?thesis
    using ls(1) ns(1) add_link_attr[OF add lt] by (simp add: topo_ok_but_def s')
qed

lemma link_delete_ok:
  assumes ok: "topo_ok_but D s" and h: "link_delete_handler now l s = (s', outs, e)"
  shows "topo_ok_but (left_behind (LinkDelete now l) s D) s'"
proof -
  let ?s = "link_src l" and ?d = "link_dst l"
  obtain links' r where dl: "del_link l (tm_links s) = (links', r)" by fastforce
  obtain st1 e1 where d1: "del_neighbor (port_dpid ?s) (port_dpid ?d) (port_no ?s) (tm_switches s) = (st1, e1)" by fastforce
  obtain st2 e2 where d2: "del_neighbor (port_dpid ?d) (port_dpid ?s) (port_no ?d) st1 = (st2, e2)" by fastforce
  have s': "tm_links s' = links'" "tm_switches s' = (case e1 of Some e \<Rightarrow> st1 | None \<Rightarrow> st2)"
    using h by (auto simp: link_delete_handler_def Let_def dl d1 d2 split: option.splits)
  have st: "st_ok (tm_switches s)" and lt: "lt_ok (tm_links s)" "all_direct (tm_links s)"
    and nb: "\<forall>h \<in> nb_rel (tm_switches s) - D. cable (tm_links s) h"
    using ok by (auto simp: topo_ok_but_def)
  note ls = del_link_spec[OF lt(1) dl]
  note n1 = del_neighbor_spec[OF st d1] note n2 = del_neighbor_spec[OF n1(1) d2]
  have te: "table_ends (tm_links s') = table_ends (tm_links s) - {norm_ends l}" using ls(2) s' by simp
  have halves: "half_of l = (port_dpid ?s, port_dpid ?d, port_no ?s)"
    "other_half_of l = (port_dpid ?d, port_dpid ?s, port_no ?d)" by (simp_all add: half_of_def other_half_of_def)
  have keep: "nb_rel (tm_switches s') - left_behind (LinkDelete now l) s D \<subseteq>
      nb_rel (tm_switches s) - D - {half_of l, other_half_of l}"
  proof (cases "get_neighbor (port_dpid ?s) (port_dpid ?d) (tm_switches s) = None")
    case True
    then have "half_of l \<notin> nb_rel (tm_switches s)" "e1 \<noteq> None" using n1(3) by (auto simp: nb_rel_def half_of_def)
    then obtain x where "e1 = Some x" by blast
    then have "nb_rel (tm_switches s') = nb_rel (tm_switches s) - {half_of l}" by (simp only: s' option.case n1(2) halves)
    moreover have "left_behind (LinkDelete now l) s D = insert (other_half_of l) D" using True by simp
    ultimately show ?thesis using \<open>half_of l \<notin> nb_rel (tm_switches s)\<close> by blast
  next
    case False
    then have "nb_rel (tm_switches s') = nb_rel (tm_switches s) - {half_of l, other_half_of l}"
      using n1(2,3) n2(2) by (auto simp: s' halves)
    then show ?thesis using False by auto
  qed
  have "cable (tm_links s') h" if "h \<in> nb_rel (tm_switches s') - left_behind (LinkDelete now l) s D" for h
  proof -
    have "h \<in> nb_rel (tm_switches s) - D" "h \<noteq> half_of l" "h \<noteq> other_half_of l" using that keep by auto
    then show ?thesis using nb cable_remove[OF _ _ _ te, of h] by simp
  qed
  then show ?thesis
    using ls(1) n1(1) n2(1) del_link_attr[OF dl lt] by (auto simp: topo_ok_but_def s' split: option.splits)
qed

lemma switch_conf_ok: "topo_ok_but D s \<Longrightarrow> topo_ok_but D (read_switch_configuration f s)"
proof -
  have "topo_ok_but D (s\<lparr>tm_switches := foldl switch_conf_item (tm_switches s) conf\<rparr>)" if "topo_ok_but D s" for s conf
    using that
  proof (induction conf arbitrary: s)
    case (Cons c conf)
    have "topo_ok_but D (s\<lparr>tm_switches := switch_conf_item (tm_switches s) c\<rparr>)"
      using Cons.prems by (auto simp: switch_conf_item_def switch_ok_def split: option.splits
          intro!: topo_ok_switch dest: topo_ok_get)
    from Cons.IH[OF this] show ?case by simp
  qed simp
  then show "topo_ok_but D s \<Longrightarrow> topo_ok_but D (read_switch_configuration f s)"
    by (auto simp: read_switch_configuration_def split: option.splits)
qed

lemma link_conf_item_ok:
  assumes "lt_ok t" "all_direct t"
  shows "lt_ok (link_conf_item t c) \<and> all_direct (link_conf_item t c) \<and> table_ends (link_conf_item t c) = table_ends t"
proof -
  obtain k where k: "k = (if conf_src c > conf_dst c then (conf_dst c, conf_src c) else (conf_src c, conf_dst c))" by simp
  have gk: "get_link_by_dpid (fst k) (snd k) t = dict_get t k" by (auto simp: k get_link_by_dpid_def)
  show ?thesis
  proof (cases "\<exists>l ls. dict_get t k = Some (l # ls)")
    case False
    then have "link_conf_item t c = t"
      using gk False by (auto simp: link_conf_item_def k[symmetric] split: prod.splits option.splits list.splits) metis
    then show ?thesis using assms by simp
  next
    case True
    then obtain l ls where g: "dict_get t k = Some (l # ls)" by blast
    let ?l = "l\<lparr>link_delay := Some (conf_delay c), link_pkt_loss := Some (conf_loss c),
                  link_total_band := Some (conf_bandwidth c * Megabits)\<rparr>"
    have new: "link_conf_item t c = dict_set k (?l # ls) t"
      using gk g by (auto simp: link_conf_item_def k[symmetric] split: prod.splits)
    have ends: "raw_ends ?l = raw_ends l" by (simp add: raw_ends_def)
    have "entry_ok k (?l # ls)" using lt_ok_get[OF assms(1) g] by (simp add: entry_ok_def ends)
    moreover have "all_direct (dict_set k (?l # ls) t)"
      using assms map_of_SomeD[OF g] by (auto simp: all_direct_def lt_ok_def set_dict_set is_virtual_def)
    moreover have "table_ends (dict_set k (?l # ls) t) = table_ends t"
      using entry_ends[OF assms(1) g] by (auto simp: table_ends_set[OF assms(1)] ends)
    ultimately show ?thesis using new assms by (simp add: lt_ok_set)
  qed
qed

lemma link_conf_ok: "topo_ok_but D s \<Longrightarrow> topo_ok_but D (read_link_configuration f s)"
proof -
  have "lt_ok (foldl link_conf_item t conf) \<and> all_direct (foldl link_conf_item t conf) \<and>
      table_ends (foldl link_conf_item t conf) = table_ends t" if "lt_ok t" "all_direct t" for t conf
    using that by (induction conf arbitrary: t) (simp_all add: link_conf_item_ok)
  then show "topo_ok_but D s \<Longrightarrow> topo_ok_but D (read_link_configuration f s)"
    by (auto simp: read_link_configuration_def topo_ok_but_def cable_def split: option.splits prod.splits)
qed

lemma request_handlers_state:
  "switch_request_handler d s = (s', outs, e) \<Longrightarrow> s' = s"
  "link_request_handler a b s = (s', outs', e') \<Longrightarrow> s' = s"
  by (auto simp: switch_request_handler_def link_request_handler_def split: option.splits if_splits)

lemma topo_handle_ok:
  assumes ok: "topo_ok_but D s" and ev: "topo_event_ok ev" and h: "topo_handle ev s = (s', outs, e)"
  shows "topo_ok_but (left_behind ev s D) s'"
proof (cases ev)
  case (StateChange dp)
  then show ?thesis using state_change_ok[OF ok] ev h by auto
next
  case (LinkDelete now l)
  then show ?thesis using link_delete_ok[OF ok] h by auto
next
  case (LinkAdd now l)
  then show ?thesis using link_add_ok[OF ok] h by auto
qed (use h ok in \<open>auto simp: switch_enter_handler_def clean_flow_table_def
    dest: switch_leave_ok port_add_ok port_modify_ok port_delete_ok request_handlers_state
    intro!: topo_ok_add_switch link_conf_ok switch_conf_ok\<close>)

lemma topo_ok_init: "topo_ok_but D topo_init"
  by (auto simp: topo_init_def topo_ok_but_def st_ok_def lt_ok_def all_direct_def nb_rel_def get_neighbor_def)

text \<open>
  C3. In every topology the handlers can reach, whatever the order of the events and whether or
  not a handler raised, both tables are well formed and every port that a switch records as
  leading to a neighbour is an end of a cable of the link table to that neighbour, but for the
  entries that a swallowed exception of a link deletion left behind. The witness reaches such an entry.
\<close>

theorem topo_reach_ok: "topo_reach s D \<Longrightarrow> topo_ok_but D s"
proof (induction rule: topo_reach.induct)
  case topo_reach_init
  show ?case by (rule topo_ok_init)
next
  case (topo_reach_step s D ev s' outs e)
  then show ?case by (blast intro: topo_handle_ok)
qed

definition wit_dp :: "nat \<Rightarrow> datapath" where
  "wit_dp d = \<lparr>dp_id = d, dp_address = ''10.0.0.1'', dp_ports = []\<rparr>"

definition wit_half_topo :: topo where
  "wit_half_topo = fst (topo_handle (LinkAdd 0 (wit_link 1 3 2 4))
     (fst (topo_handle (SwitchEnter (wit_dp 2)) (fst (topo_handle (SwitchEnter (wit_dp 1)) topo_init)))))"

definition wit_topo :: topo where
  "wit_topo = fst (topo_handle (LinkAdd 0 (wit_link 2 4 1 3)) wit_half_topo)"

definition wit_stale_topo :: topo where
  "wit_stale_topo = fst (topo_handle (LinkDelete 0 (wit_link 2 4 1 3)) wit_half_topo)"

lemmas wit_half_topo_simps = wit_half_topo_def wit_dp_def topo_init_def switch_enter_handler_def link_add_handler_def
  add_switch_def new_switch_def get_switch_def add_link_def serialize_def set_neighbor_def Let_def Port_of_port_def
  wit_link_simps

lemmas wit_topo_simps = wit_topo_def wit_half_topo_simps

lemma topo_reach_handle: "topo_reach s D \<Longrightarrow> topo_event_ok ev \<Longrightarrow> topo_reach (fst (topo_handle ev s)) (left_behind ev s D)"
  by (cases "topo_handle ev s") (auto intro: topo_reach_step)

lemma topo_reach_handle_clean:
  "topo_reach s {} \<Longrightarrow> topo_event_ok ev \<Longrightarrow> left_behind ev s {} = {} \<Longrightarrow> topo_reach (fst (topo_handle ev s)) {}"
  using topo_reach_handle[of s "{}" ev] by simp

lemma wit_half_topo_reach: "topo_reach wit_half_topo {}"
  unfolding wit_half_topo_def by (intro topo_reach_handle_clean topo_reach_init) (simp_all del: topo_handle.simps)

lemma wit_topo_reach: "topo_reach wit_topo {}"
  unfolding wit_topo_def by (intro topo_reach_handle_clean wit_half_topo_reach) (simp_all del: topo_handle.simps)

lemma wit_stale_topo_reach: "topo_reach wit_stale_topo {(1, 2, 3)}"
proof -
  have "get_neighbor 2 1 (tm_switches wit_half_topo) = None" by (simp add: wit_half_topo_simps get_neighbor_def)
  then show ?thesis
    using topo_reach_handle[OF wit_half_topo_reach, of "LinkDelete 0 (wit_link 2 4 1 3)"]
    by (simp add: wit_stale_topo_def wit_link_def wit_port_def new_link_def other_half_of_def)
qed



lemma wit_topo_nb: "nb_rel (tm_switches wit_topo) = {(1, 2, 3), (2, 1, 4)}"
  by (auto simp: wit_topo_simps nb_rel_def get_neighbor_def split: if_splits)

lemma wit_stale_topo_tables: "(1, 2, 3) \<in> nb_rel (tm_switches wit_stale_topo)" "tm_links wit_stale_topo = []"
  by (auto simp: wit_stale_topo_def link_delete_handler_def del_neighbor_def del_link_def link_eq_def port_eq_def wit_half_topo_simps nb_rel_def get_neighbor_def)

theorem topo_reach_ok_witness:
  "topo_reach wit_topo {} \<and> topo_ok_but {} wit_topo \<and> (1, 2, 3) \<in> nb_rel (tm_switches wit_topo) \<and>
   topo_reach wit_stale_topo {(1, 2, 3)} \<and> topo_ok_but {(1, 2, 3)} wit_stale_topo \<and>
   (1, 2, 3) \<in> nb_rel (tm_switches wit_stale_topo) \<and> tm_links wit_stale_topo = []"
  using topo_reach_ok[OF wit_topo_reach] topo_reach_ok[OF wit_stale_topo_reach] wit_topo_reach wit_topo_nb
    wit_stale_topo_reach wit_stale_topo_tables by simp

section \<open>A switch that leaves\<close>





end
