(* ===== verification/Route_Task.thy ===== *)
theory Route_Task
  imports Route_Deploy Topology_Manage
begin

text \<open>
  The task queue of \<open>route_manage/route_task.py\<close>: \<open>RouteTaskHandler\<close> and \<open>TaskEntryBase\<close>. The
  routing algorithm is an argument of \<open>route_calc\<close>, as the three methods that the code calls; the
  measured links (\<open>link_monitor_main.global_link_table\<close>) are part of the first. The queue is handled
  in passes; a pass is stated for any route calculation and deployment.
\<close>

section \<open>Creation of tasks and route calculation\<close>

definition new_task :: "real \<Rightarrow> nat option \<Rightarrow> nat option \<Rightarrow> string option \<Rightarrow> nat \<Rightarrow> nat option \<Rightarrow> string option \<Rightarrow> nat \<Rightarrow>
    pyerr + task" where
  "new_task now ty sdpid sip sport ddpid dip dport =
     (case (ty, sdpid, sip, ddpid, dip) of
        (Some ty', Some sd, Some si, Some dd, Some di) \<Rightarrow>
          Inr \<lparr>route_type = ty', src_dpid = sd, src_ip = si, src_port_no = sport, dst_dpid = dd, dst_ip = di,
               dst_port_no = dport, t_timestamp = now\<rparr>
      | _ \<Rightarrow> Inl AssertionError)"

definition BusinessType :: "(string, real) pydict" where
  "BusinessType = [(''HTML'', 3 / 10 * Megabits), (''FTP'', 1 * Megabits), (''VIDEO'', 5 * Megabits), (''USER'', 1 / 100 * Megabits)]"

definition business_type :: "(string, string) pydict \<Rightarrow> string \<Rightarrow> real" where
  "business_type servers ip =
     (case dict_get servers ip of
        None \<Rightarrow> 3 / 10 * Megabits
      | Some ty \<Rightarrow> (case dict_get BusinessType ty of None \<Rightarrow> 3 / 10 * Megabits | Some b \<Rightarrow> b))"

definition route_calc ::
    "('a \<Rightarrow> pyerr + 'a) \<Rightarrow> (nat \<Rightarrow> nat \<Rightarrow> real \<Rightarrow> 'a \<Rightarrow> 'a run) \<Rightarrow> (nat \<Rightarrow> nat \<Rightarrow> 'a \<Rightarrow> pyerr + ('a \<times> (nat list \<times> real) option)) \<Rightarrow>
     (string, string) pydict \<Rightarrow> task \<Rightarrow> 'a \<Rightarrow> ('a \<times> (nat list \<times> real) option) run" where
  "route_calc alg_update alg_run alg_get servers t a =
     (if src_dpid t = dst_dpid t then Some (Inr (a, Some ([src_dpid t], 0)))
      else
        run_bind (Some (alg_update a)) (\<lambda>a1.
        run_bind (alg_run (src_dpid t) (dst_dpid t) (business_type servers (dst_ip t)) a1) (\<lambda>a2.
        Some (alg_get (src_dpid t) (dst_dpid t) a2))))"

section \<open>The queue\<close>

text \<open>
  A pass of \<open>_handle_task\<close>. \<open>work e s\<close> stands for the calculation and the deployment of an entry:
  \<^term>\<open>None\<close> when it does not return, else the new state, the messages it sent and how it ended. An
  exception ends the thread of the handler.
\<close>

datatype outcome = NoRoute | Deployed | Raised pyerr

datatype ending = PassOver | ThreadDead pyerr | Hangs

type_synonym ('e, 's) worker = "'e \<Rightarrow> 's \<Rightarrow> ('s \<times> out_msg list \<times> outcome) option"

fun handle_pass :: "('e \<Rightarrow> real) \<Rightarrow> ('e, 's) worker \<Rightarrow> real \<Rightarrow> nat \<Rightarrow> 'e list \<Rightarrow> 's \<Rightarrow> 'e list \<times> 's \<times> out_msg list \<times> ending" where
  "handle_pass timestamp work now 0 queue s = (queue, s, [], PassOver)"
| "handle_pass timestamp work now (Suc k) [] s = ([], s, [], ThreadDead IndexError)"
| "handle_pass timestamp work now (Suc k) (e # queue) s =
     (if timestamp e < now then
        (case work e s of
           None \<Rightarrow> (e # queue, s, [], Hangs)
         | Some (s', ms, Raised err) \<Rightarrow> (e # queue, s', ms, ThreadDead err)
         | Some (s', ms, NoRoute) \<Rightarrow> (e # queue, s', ms, PassOver)
         | Some (s', ms, Deployed) \<Rightarrow>
             (case handle_pass timestamp work now k queue s' of (q, s'', ms', x) \<Rightarrow> (q, s'', ms @ ms', x)))
      else (e # queue, s, [], PassOver))"

definition handle_task :: "('e \<Rightarrow> real) \<Rightarrow> ('e, 's) worker \<Rightarrow> real \<Rightarrow> 'e list \<Rightarrow> 's \<Rightarrow> 'e list \<times> 's \<times> out_msg list \<times> ending" where
  "handle_task timestamp work now queue s = handle_pass timestamp work now (length queue) queue s"

definition enqueue_task :: "'e \<Rightarrow> 'e list \<Rightarrow> 'e list" where
  "enqueue_task e queue = queue @ [e]"

text \<open>
  The work on a unicast task. A result of the deployment is a boolean that the handler ignores: an
  empty route is popped like a deployed one.
\<close>

definition unicast_work ::
    "('a \<Rightarrow> pyerr + 'a) \<Rightarrow> (nat \<Rightarrow> nat \<Rightarrow> real \<Rightarrow> 'a \<Rightarrow> 'a run) \<Rightarrow> (nat \<Rightarrow> nat \<Rightarrow> 'a \<Rightarrow> pyerr + ('a \<times> (nat list \<times> real) option)) \<Rightarrow>
     (string, string) pydict \<Rightarrow> (task \<Rightarrow> nat list \<Rightarrow> bool sends) \<Rightarrow> (task, 'a) worker" where
  "unicast_work alg_update alg_run alg_get servers deploy t a =
     (case route_calc alg_update alg_run alg_get servers t a of
        None \<Rightarrow> None
      | Some (Inl e) \<Rightarrow> Some (a, [], Raised e)
      | Some (Inr (a', None)) \<Rightarrow> Some (a', [], NoRoute)
      | Some (Inr (a', Some (link_list, _))) \<Rightarrow>
          (case deploy t link_list of
             (ms, Inl e) \<Rightarrow> Some (a', ms, Raised e)
           | (ms, Inr _) \<Rightarrow> Some (a', ms, Deployed)))"

section \<open>Order and progress\<close>

text \<open>
  \<open>works_off work es s s' ms\<close>: the entries \<open>es\<close>, worked off one after the other from state \<open>s\<close>, are all
  deployed, and lead to the state \<open>s'\<close> and the messages \<open>ms\<close>.
\<close>

fun works_off :: "('e, 's) worker \<Rightarrow> 'e list \<Rightarrow> 's \<Rightarrow> 's \<Rightarrow> out_msg list \<Rightarrow> bool" where
  "works_off work [] s s' ms \<longleftrightarrow> s' = s \<and> ms = []"
| "works_off work (e # es) s s' ms \<longleftrightarrow>
     (\<exists>s1 ms1 ms2. work e s = Some (s1, ms1, Deployed) \<and> works_off work es s1 s' ms2 \<and> ms = ms1 @ ms2)"

lemma handle_pass_works_off:
  "handle_pass timestamp work now (length queue) queue s = (q, s', ms, x) \<Longrightarrow>
   \<exists>served s1 ms1. queue = served @ q \<and> (\<forall>e \<in> set served. timestamp e < now) \<and> works_off work served s s1 ms1 \<and>
     (case q of
        [] \<Rightarrow> s' = s1 \<and> ms = ms1 \<and> x = PassOver
      | e # _ \<Rightarrow>
          (if timestamp e < now
           then (case work e s1 of
                   None \<Rightarrow> s' = s1 \<and> ms = ms1 \<and> x = Hangs
                 | Some (s2, ms2, NoRoute) \<Rightarrow> s' = s2 \<and> ms = ms1 @ ms2 \<and> x = PassOver
                 | Some (s2, ms2, Raised err) \<Rightarrow> s' = s2 \<and> ms = ms1 @ ms2 \<and> x = ThreadDead err
                 | Some (s2, ms2, Deployed) \<Rightarrow> False)
           else s' = s1 \<and> ms = ms1 \<and> x = PassOver))"
proof (induction queue arbitrary: s ms)
  case (Cons e queue)
  consider (later) "\<not> timestamp e < now" | (hang) "timestamp e < now" "work e s = None"
    | (none) s1 m where "timestamp e < now" "work e s = Some (s1, m, NoRoute)"
    | (err) s1 m err where "timestamp e < now" "work e s = Some (s1, m, Raised err)"
    | (ok) s1 m where "timestamp e < now" "work e s = Some (s1, m, Deployed)"
    by (metis outcome.exhaust option.exhaust prod.exhaust)
  then show ?case
  proof cases
    case ok
    obtain ms' where rest: "handle_pass timestamp work now (length queue) queue s1 = (q, s', ms', x)" "ms = m @ ms'"
      using Cons.prems ok by (auto split: prod.splits)
    from Cons.IH[OF rest(1)] obtain served' s2 ms1 where d: "queue = served' @ q" "\<forall>e \<in> set served'. timestamp e < now"
      "works_off work served' s1 s2 ms1" and r: "case q of
        [] \<Rightarrow> s' = s2 \<and> ms' = ms1 \<and> x = PassOver
      | e # _ \<Rightarrow>
          (if timestamp e < now
           then (case work e s2 of
                   None \<Rightarrow> s' = s2 \<and> ms' = ms1 \<and> x = Hangs
                 | Some (s3, ms2, NoRoute) \<Rightarrow> s' = s3 \<and> ms' = ms1 @ ms2 \<and> x = PassOver
                 | Some (s3, ms2, Raised err) \<Rightarrow> s' = s3 \<and> ms' = ms1 @ ms2 \<and> x = ThreadDead err
                 | Some (s3, ms2, Deployed) \<Rightarrow> False)
           else s' = s2 \<and> ms' = ms1 \<and> x = PassOver)"
      by (elim exE conjE) (rule that)
    have w: "works_off work (e # served') s s2 (m @ ms1)" using ok(2) d(3) by auto
    show ?thesis
    proof (intro exI conjI)
      show "e # queue = (e # served') @ q" "\<forall>e \<in> set (e # served'). timestamp e < now" using d(1,2) ok(1) by auto
      show "works_off work (e # served') s s2 (m @ ms1)" by (rule w)
    qed (use r rest(2) in \<open>auto split: list.splits if_splits option.splits prod.splits outcome.splits\<close>)
  qed (use Cons.prems in \<open>auto intro!: exI[of _ "[]"]\<close>)
qed simp

text \<open>
  C29. A pass serves the queue in order: it deploys a first part of the queue, entry by entry, sends
  exactly their messages and drops exactly these entries. It stops where the queue ends, or at an
  entry that is not older than the pass, that has no route, whose work raises or does not return;
  that entry and all behind it stay.
\<close>

theorem handle_task_in_order:
  assumes "handle_task timestamp work now queue s = (q, s', ms, x)"
  shows "\<exists>served s1 ms1. queue = served @ q \<and> (\<forall>e \<in> set served. timestamp e < now) \<and> works_off work served s s1 ms1 \<and>
     (case q of
        [] \<Rightarrow> s' = s1 \<and> ms = ms1 \<and> x = PassOver
      | e # _ \<Rightarrow>
          (if timestamp e < now
           then (case work e s1 of
                   None \<Rightarrow> s' = s1 \<and> ms = ms1 \<and> x = Hangs
                 | Some (s2, ms2, NoRoute) \<Rightarrow> s' = s2 \<and> ms = ms1 @ ms2 \<and> x = PassOver
                 | Some (s2, ms2, Raised err) \<Rightarrow> s' = s2 \<and> ms = ms1 @ ms2 \<and> x = ThreadDead err
                 | Some (s2, ms2, Deployed) \<Rightarrow> False)
           else s' = s1 \<and> ms = ms1 \<and> x = PassOver))"
  using assms unfolding handle_task_def by (rule handle_pass_works_off)

theorem handle_task_in_order_witness:
  "\<exists>served s1 ms1. [1, 2, 9] = served @ [9 :: nat] \<and> works_off (\<lambda>e s. Some (s + e, [], Deployed)) served (0 :: nat) s1 ms1"
proof -
  have "handle_task real (\<lambda>e s. Some (s + e, [], Deployed)) 5 [1, 2, 9] (0 :: nat) = ([9], 3, [], PassOver)"
    by (simp add: handle_task_def)
  from handle_task_in_order[OF this] show ?thesis by blast
qed

text \<open>
  A task for which no route exists blocks the queue: however often the handler runs, as long as the
  calculation of the first task finds no route, no later task is served.
\<close>

fun passes :: "('e \<Rightarrow> real) \<Rightarrow> ('e, 's) worker \<Rightarrow> real list \<Rightarrow> 'e list \<Rightarrow> 's \<Rightarrow> 'e list \<times> 's \<times> out_msg list" where
  "passes timestamp work [] queue s = (queue, s, [])"
| "passes timestamp work (now # nows) queue s =
     (case handle_task timestamp work now queue s of
        (q, s', ms, PassOver) \<Rightarrow> (case passes timestamp work nows q s' of (q', s'', ms') \<Rightarrow> (q', s'', ms @ ms'))
      | (q, s', ms, _) \<Rightarrow> (q, s', ms))"

lemma passes_blocked:
  assumes "\<And>s. \<exists>s'. work e s = Some (s', [], NoRoute)"
  shows "\<exists>s'. passes timestamp work nows (e # queue) s = (e # queue, s', [])"
proof (induction nows arbitrary: s)
  case (Cons now nows)
  obtain s' where "work e s = Some (s', [], NoRoute)" using assms by blast
  then have "\<exists>s1. handle_task timestamp work now (e # queue) s = (e # queue, s1, [], PassOver)" by (simp add: handle_task_def)
  then show ?case using Cons.IH by auto
qed simp

text \<open>
  While the routing algorithm, once run, finds no route for the first unicast task, the handler
  never serves any task behind it, in any number of passes.
\<close>

theorem task_without_route_blocks:
  assumes "src_dpid t \<noteq> dst_dpid t" and "\<And>a. \<exists>a1 a2 a3. alg_update a = Inr a1 \<and>
      alg_run (src_dpid t) (dst_dpid t) (business_type servers (dst_ip t)) a1 = Some (Inr a2) \<and>
      alg_get (src_dpid t) (dst_dpid t) a2 = Inr (a3, None)"
  shows "\<exists>a'. passes t_timestamp (unicast_work alg_update alg_run alg_get servers deploy) nows (t # queue) a = (t # queue, a', [])"
proof (rule passes_blocked)
  fix s
  obtain a1 a2 a3 where "alg_update s = Inr a1" "alg_run (src_dpid t) (dst_dpid t) (business_type servers (dst_ip t)) a1 = Some (Inr a2)"
    "alg_get (src_dpid t) (dst_dpid t) a2 = Inr (a3, None)" using assms(2) by blast
  then show "\<exists>s'. unicast_work alg_update alg_run alg_get servers deploy t s = Some (s', [], NoRoute)"
    using assms(1) by (simp add: unicast_work_def route_calc_def)
qed

theorem task_without_route_blocks_witness:
  "\<exists>a'. passes t_timestamp (unicast_work Inr (\<lambda>_ _ _ a. Some (Inr a)) (\<lambda>_ _ a. Inr (a, None)) [] (\<lambda>_ _. ([], Inr True)))
     [1, 2, 3] [wit_task, wit_task\<lparr>dst_dpid := 11\<rparr>] () = ([wit_task, wit_task\<lparr>dst_dpid := 11\<rparr>], a', [])"
  by (rule task_without_route_blocks) (simp_all add: wit_task_def)

end
