(* ===== verification/Multicast_Deploy.thy ===== *)
theory Multicast_Deploy
  imports Route_Deploy
begin

text \<open>
  The deployment of multicast routes in \<open>route_manage/route_task.py\<close>: \<open>MulticastTaskEntry\<close>. A multicast
  route is a list of branches, one per destination switch, each from the switch of the source.
  \<open>_format_link_list\<close> merges the branches into one record per switch; the two parallel lists of the
  code (the switches, and the one-entry dictionaries) are one dictionary in the order of the lists.
\<close>

record branch_info =
  former :: "nat option"
  next_dpids :: "nat list"
  is_root :: bool
  is_shared :: bool
  is_end :: bool

type_synonym formatted = "(nat, branch_info) pydict"

definition new_branch_info :: branch_info where
  "new_branch_info = \<lparr>former = None, next_dpids = [], is_root = False, is_shared = False, is_end = False\<rparr>"

definition add_next :: "nat \<Rightarrow> branch_info \<Rightarrow> branch_info" where
  "add_next d i = (if d \<notin> set (next_dpids i) then i\<lparr>next_dpids := next_dpids i @ [d]\<rparr> else i)"

definition visit_branch :: "nat \<Rightarrow> nat list \<Rightarrow> formatted \<Rightarrow> pyerr + formatted" where
  "visit_branch depth branch acc =
     (if depth \<ge> length branch then Inr acc
      else
        (let dpid = branch ! depth;
             i = (case dict_get acc dpid of None \<Rightarrow> new_branch_info | Some i \<Rightarrow> i\<lparr>is_shared := True\<rparr>)
         in if depth > 0 then
              (let i1 = i\<lparr>former := Some (branch ! (depth - 1))\<rparr>
               in if depth < length branch - 1 then Inr (dict_set dpid (add_next (branch ! (depth + 1)) i1) acc)
                  else Inr (dict_set dpid (i1\<lparr>is_end := True\<rparr>) acc))
            else
              res_bind (py_nth branch (depth + 1)) (\<lambda>d.
              Inr (dict_set dpid (add_next d (i\<lparr>is_root := True\<rparr>)) acc))))"

definition format_link_list :: "nat list list \<Rightarrow> pyerr + formatted" where
  "format_link_list link_list =
     (if link_list = [] then Inl ValueError
      else res_fold (\<lambda>acc (depth, branch). visit_branch depth branch acc) []
             [(depth, branch). depth \<leftarrow> [0..<Max (set (map length link_list))], branch \<leftarrow> link_list])"

abbreviation MULTICAST_FLOW_IDLE_TIMEOUT :: nat where "MULTICAST_FLOW_IDLE_TIMEOUT \<equiv> 5"
abbreviation MULTICAST_FLOW_HARD_TIMEOUT :: nat where "MULTICAST_FLOW_HARD_TIMEOUT \<equiv> 20"

definition multicast_flow_mod :: "nat \<Rightarrow> string \<Rightarrow> string \<Rightarrow> nat \<Rightarrow> nat list \<Rightarrow> out_msg" where
  "multicast_flow_mod dpid s d inport outports =
     FlowAdd \<lparr>fm_dpid = dpid, fm_priority = ROUTE_FLOW_PRIORITY, fm_idle_timeout = MULTICAST_FLOW_IDLE_TIMEOUT,
       fm_hard_timeout = MULTICAST_FLOW_HARD_TIMEOUT, fm_flags = 0, fm_match = route_match inport s d, fm_actions = map Output outports\<rparr>"

record mtask =
  m_src_dpid :: nat
  m_src_ip :: string
  m_src_port_no :: nat
  m_dst_dpids :: "nat list"
  m_group_ip :: string
  m_timestamp :: real

text \<open>The members of the groups: for each group the ports with members, by switch.\<close>

type_synonym multicast_group = "(string, (nat, nat list) pydict) pydict"

definition multicast_entry :: "switch_table \<Rightarrow> (nat, nat list) pydict \<Rightarrow> mtask \<Rightarrow> nat \<times> branch_info \<Rightarrow> pyerr + out_msg" where
  "multicast_entry st group_info t di =
     (case di of (dpid, info) \<Rightarrow>
        (case get_switch dpid st of
           None \<Rightarrow> Inl KeyError
         | Some sw \<Rightarrow>
             res_bind
               (if is_root info then Inr (m_src_port_no t)
                else case former info of None \<Rightarrow> Inl KeyError | Some d \<Rightarrow> nb_port (Some sw) d) (\<lambda>in_port.
             res_bind
               (if is_end info then (case dict_get group_info dpid of None \<Rightarrow> Inl KeyError | Some ps \<Rightarrow> Inr ps) else Inr []) (\<lambda>group_outports.
             res_bind (res_map (nb_port (Some sw)) (next_dpids info)) (\<lambda>next_outports.
             Inr (multicast_flow_mod (dp_id (sw_dp sw)) (m_src_ip t) (m_group_ip t) in_port (group_outports @ next_outports)))))))"

definition multicast_deploy :: "switch_table \<Rightarrow> multicast_group \<Rightarrow> mtask \<Rightarrow> nat list list \<Rightarrow> unit sends" where
  "multicast_deploy st groups t link_list =
     send_bind (pure (format_link_list link_list)) (\<lambda>fl.
     case dict_get groups (m_group_ip t) of
       None \<Rightarrow> pure (Inl KeyError)
     | Some group_info \<Rightarrow>
         send_bind (send_each (\<lambda>di. send_bind (pure (multicast_entry st group_info t di)) send) (rev fl)) (\<lambda>_. pure (Inr ())))"

text \<open>The calculation of a multicast route, for the multicast algorithm given by its three methods.\<close>

definition multicast_route_calc ::
    "('a \<Rightarrow> pyerr + 'a) \<Rightarrow> (nat \<Rightarrow> nat list \<Rightarrow> 'a \<Rightarrow> 'a run) \<Rightarrow> ('a \<Rightarrow> pyerr + nat list list option) \<Rightarrow> mtask \<Rightarrow> 'a \<Rightarrow>
     ('a \<times> nat list list option) run" where
  "multicast_route_calc alg_update alg_run alg_get t a =
     run_bind (Some (alg_update a)) (\<lambda>a1.
     run_bind (alg_run (m_src_dpid t) (m_dst_dpids t) a1) (\<lambda>a2.
     run_bind (Some (alg_get a2)) (\<lambda>l. Some (Inr (a2, l)))))"

section \<open>The merged branches\<close>

text \<open>
  \<open>describes ps d i\<close>: the record \<open>i\<close> is right about the switch \<open>d\<close> at the positions \<open>ps\<close>, each a depth
  and a branch.
\<close>

definition describes :: "(nat \<times> nat list) set \<Rightarrow> nat \<Rightarrow> branch_info \<Rightarrow> bool" where
  "describes ps d i \<longleftrightarrow>
     (is_root i \<longleftrightarrow> (\<exists>b. (0, b) \<in> ps \<and> b ! 0 = d)) \<and>
     (is_end i \<longleftrightarrow> (\<exists>k b. (k, b) \<in> ps \<and> 0 < k \<and> Suc k = length b \<and> b ! k = d)) \<and>
     set (next_dpids i) = {b ! Suc k |k b. (k, b) \<in> ps \<and> b ! k = d \<and> Suc k < length b} \<and>
     (former i = None \<longrightarrow> (\<forall>k b. (k, b) \<in> ps \<longrightarrow> b ! k = d \<longrightarrow> k = 0)) \<and>
     (\<forall>u. former i = Some u \<longrightarrow> (\<exists>k b. (Suc k, b) \<in> ps \<and> b ! Suc k = d \<and> b ! k = u))"

definition merged :: "(nat \<times> nat list) set \<Rightarrow> formatted \<Rightarrow> bool" where
  "merged ps acc \<longleftrightarrow> dict_ok acc \<and> set (dict_keys acc) = (\<lambda>(k, b). b ! k) ` ps \<and>
     (\<forall>d i. dict_get acc d = Some i \<longrightarrow> describes ps d i)"

lemma describes_other: "b ! k \<noteq> d \<Longrightarrow> describes ps d i \<Longrightarrow> describes (insert (k, b) ps) d i"
  unfolding describes_def by (elim conjE, intro conjI) (auto, metis+)

lemma describes_shared [simp]: "describes ps d (i\<lparr>is_shared := x\<rparr>) = describes ps d i"
  by (simp add: describes_def)

lemma describes_new: "d \<notin> (\<lambda>(k, b). b ! k) ` ps \<Longrightarrow> describes ps d new_branch_info"
  by (auto simp: describes_def new_branch_info_def image_iff)

lemma add_next_simps [simp]:
  "set (next_dpids (add_next d i)) = insert d (set (next_dpids i))" "is_root (add_next d i) = is_root i"
  "is_end (add_next d i) = is_end i" "former (add_next d i) = former i"
  by (auto simp: add_next_def)

lemma describes_root:
  assumes "describes ps d i" "b ! 0 = d" "Suc 0 < length b"
  shows "describes (insert (0, b) ps) d (add_next (b ! Suc 0) (i\<lparr>is_root := True\<rparr>))"
  using assms unfolding describes_def by (elim conjE, intro conjI) auto

lemma describes_middle:
  assumes "describes ps d i" "b ! Suc k = d" "Suc (Suc k) < length b"
  shows "describes (insert (Suc k, b) ps) d (add_next (b ! Suc (Suc k)) (i\<lparr>former := Some (b ! k)\<rparr>))"
  using assms unfolding describes_def by (elim conjE, intro conjI) auto

lemma describes_end:
  assumes "describes ps d i" "b ! Suc k = d" "Suc (Suc k) = length b"
  shows "describes (insert (Suc k, b) ps) d (i\<lparr>former := Some (b ! k), is_end := True\<rparr>)"
  using assms unfolding describes_def by (elim conjE, intro conjI) auto

lemma merged_set:
  assumes "merged ps acc" "describes (insert (k, b) ps) (b ! k) i"
  shows "merged (insert (k, b) ps) (dict_set (b ! k) i acc)"
  using assms describes_other[of b k _ ps] unfolding merged_def by (auto simp: keys_dict_set simp del: set_map)

lemma merged_get:
  assumes "merged ps acc"
  shows "describes ps d (case dict_get acc d of None \<Rightarrow> new_branch_info | Some i \<Rightarrow> i\<lparr>is_shared := True\<rparr>)"
proof (cases "dict_get acc d")
  case None
  then have "d \<notin> (\<lambda>(k, b). b ! k) ` ps" using assms unfolding merged_def dict_get_None_iff by simp
  then show ?thesis using None by (simp add: describes_new)
next
  case (Some i)
  then show ?thesis using assms by (simp add: merged_def)
qed

lemma visit_branch_merged:
  assumes "merged ps acc" "k < length b" "2 \<le> length b"
  shows "\<exists>acc'. visit_branch k b acc = Inr acc' \<and> merged (insert (k, b) ps) acc'"
proof -
  let ?i = "case dict_get acc (b ! k) of None \<Rightarrow> new_branch_info | Some i \<Rightarrow> i\<lparr>is_shared := True\<rparr>"
  note d = merged_get[OF assms(1), of "b ! k"]
  consider "k = 0" | j where "k = Suc j" "Suc k < length b" | j where "k = Suc j" "Suc k = length b"
    using assms(2) by (metis Suc_lessI not0_implies_Suc)
  then show ?thesis
  proof cases
    case 1
    then show ?thesis using merged_set[OF assms(1) describes_root[OF d[unfolded 1]]] assms(2,3)
      by (auto simp: visit_branch_def Let_def py_nth_def)
  next
    case (2 j)
    have "describes (insert (k, b) ps) (b ! k) (add_next (b ! Suc k) (?i\<lparr>former := Some (b ! j)\<rparr>))"
      using describes_middle[OF d, of b j] 2 by simp
    from merged_set[OF assms(1) this] show ?thesis using 2 by (simp add: visit_branch_def Let_def less_diff_conv)
  next
    case (3 j)
    have "describes (insert (k, b) ps) (b ! k) (?i\<lparr>former := Some (b ! j), is_end := True\<rparr>)"
      using describes_end[OF d, of b j] 3 by simp
    from merged_set[OF assms(1) this] show ?thesis using 3 by (simp add: visit_branch_def Let_def less_diff_conv)
  qed
qed

lemma format_fold_merged:
  assumes "\<forall>(k, b) \<in> set todo. 2 \<le> length b" "merged ps acc"
  shows "\<exists>acc'. res_fold (\<lambda>acc (depth, branch). visit_branch depth branch acc) acc todo = Inr acc' \<and>
     merged (ps \<union> {(k, b) \<in> set todo. k < length b}) acc'"
  using assms
proof (induction todo arbitrary: ps acc)
  case (Cons x todo)
  obtain k b where x: "x = (k, b)" by fastforce
  show ?case
  proof (cases "k < length b")
    case True
    obtain acc1 where "visit_branch k b acc = Inr acc1" "merged (insert (k, b) ps) acc1"
      using visit_branch_merged[OF Cons.prems(2) True] Cons.prems(1) x by auto
    moreover have "insert (k, b) ps \<union> {(k, b) \<in> set todo. k < length b} = ps \<union> {(k, b) \<in> set (x # todo). k < length b}"
      using x True by auto
    ultimately show ?thesis using Cons.IH[of "insert (k, b) ps" acc1] Cons.prems(1) x by auto
  next
    case False
    then have "visit_branch k b acc = Inr acc" by (simp add: visit_branch_def)
    moreover have "{(k, b) \<in> set (x # todo). k < length b} = {(k, b) \<in> set todo. k < length b}" using x False by auto
    ultimately show ?thesis using Cons.IH[OF _ Cons.prems(2)] Cons.prems(1) x by auto
  qed
qed simp

definition positions_in :: "nat list list \<Rightarrow> (nat \<times> nat list) set" where
  "positions_in ll = {(k, b). b \<in> set ll \<and> k < length b}"

lemma format_link_list_merged:
  assumes "ll \<noteq> []" "\<forall>b \<in> set ll. 2 \<le> length b"
  shows "\<exists>acc. format_link_list ll = Inr acc \<and> merged (positions_in ll) acc"
proof -
  define M where "M = Max (set (map length ll))"
  let ?todo = "[(depth, branch). depth \<leftarrow> [0..<M], branch \<leftarrow> ll]"
  have "length b \<le> M" if "b \<in> set ll" for b using that unfolding M_def by simp
  then have lt: "k < M" if "b \<in> set ll" "k < length b" for k b using that order_less_le_trans by blast
  have "set ?todo = {..<M} \<times> set ll" by auto
  then have "{(k, b) \<in> set ?todo. k < length b} = positions_in ll" unfolding positions_in_def using lt by blast
  moreover have "\<forall>(k, b) \<in> set ?todo. 2 \<le> length b" using assms(2) by auto
  moreover have "merged {} []" by (simp add: merged_def)
  ultimately show ?thesis using format_fold_merged[of ?todo "{}" "[]"] assms(1)
    by (simp add: format_link_list_def M_def[symmetric] del: set_map)
qed

section \<open>Packets reach the members\<close>

text \<open>
  The copies of a packet: \<open>mreach\<close> holds for the ports of switches where a copy comes in, when the
  packet comes in at \<open>start\<close>.
\<close>

definition outputs :: "out_msg list \<Rightarrow> nat \<Rightarrow> nat \<Rightarrow> string \<Rightarrow> string \<Rightarrow> nat list" where
  "outputs table dpid i s d =
     (case find (applies dpid i s d) (rev table) of
        Some (FlowAdd f) \<Rightarrow> concat (map (\<lambda>a. case a of Output p \<Rightarrow> [p] | _ \<Rightarrow> []) (fm_actions f))
      | _ \<Rightarrow> [])"

inductive mreach :: "out_msg list \<Rightarrow> (nat \<times> nat \<Rightarrow> (nat \<times> nat) option) \<Rightarrow> string \<Rightarrow> string \<Rightarrow> nat \<times> nat \<Rightarrow> nat \<times> nat \<Rightarrow> bool"
  for table wire s d start where
  enter: "mreach table wire s d start start"
| hop: "mreach table wire s d start (dpid, i) \<Longrightarrow> p \<in> set (outputs table dpid i s d) \<Longrightarrow> wire (dpid, p) = Some x \<Longrightarrow>
    mreach table wire s d start x"

text \<open>
  \<open>tree_shaped\<close>: every branch has at least two switches, and a switch has the same depth and the same
  predecessor wherever it occurs; all branches begin at one switch.
\<close>

definition tree_shaped :: "nat \<Rightarrow> nat list list \<Rightarrow> bool" where
  "tree_shaped r ll \<longleftrightarrow> ll \<noteq> [] \<and> (\<forall>b \<in> set ll. 2 \<le> length b \<and> b ! 0 = r) \<and>
     (\<forall>b \<in> set ll. \<forall>b' \<in> set ll. \<forall>k < length b. \<forall>k' < length b'.
        b ! k = b' ! k' \<longrightarrow> k = k' \<and> (0 < k \<longrightarrow> b ! (k - 1) = b' ! (k' - 1)))"

definition tree_known :: "switch_table \<Rightarrow> (nat \<times> nat \<Rightarrow> (nat \<times> nat) option) \<Rightarrow> nat list list \<Rightarrow> bool" where
  "tree_known st wire ll \<longleftrightarrow> (\<forall>b \<in> set ll. route_known st b \<and> wired st wire b)"

definition tree_in_port :: "switch_table \<Rightarrow> mtask \<Rightarrow> nat \<times> branch_info \<Rightarrow> nat" where
  "tree_in_port st t = (\<lambda>(d, i). if is_root i then m_src_port_no t else port_to st d (the (former i)))"

definition tree_out_ports :: "switch_table \<Rightarrow> (nat, nat list) pydict \<Rightarrow> nat \<times> branch_info \<Rightarrow> nat list" where
  "tree_out_ports st group_info =
     (\<lambda>(d, i). (if is_end i then the (dict_get group_info d) else []) @ map (port_to st d) (next_dpids i))"

definition tree_entry :: "switch_table \<Rightarrow> (nat, nat list) pydict \<Rightarrow> mtask \<Rightarrow> nat \<times> branch_info \<Rightarrow> out_msg" where
  "tree_entry st group_info t di =
     multicast_flow_mod (fst di) (m_src_ip t) (m_group_ip t) (tree_in_port st t di) (tree_out_ports st group_info di)"

lemma described:
  assumes "describes (positions_in ll) d i"
  shows "v \<in> set (next_dpids i) \<longleftrightarrow> (\<exists>b \<in> set ll. \<exists>k. Suc k < length b \<and> b ! k = d \<and> b ! Suc k = v)"
    and "former i = Some u \<Longrightarrow> \<exists>b \<in> set ll. \<exists>k. Suc k < length b \<and> b ! Suc k = d \<and> b ! k = u"
    and "former i = None \<Longrightarrow> b \<in> set ll \<Longrightarrow> k < length b \<Longrightarrow> b ! k = d \<Longrightarrow> k = 0"
    and "is_root i \<longleftrightarrow> (\<exists>b \<in> set ll. 0 < length b \<and> b ! 0 = d)"
    and "is_end i \<longleftrightarrow> (\<exists>b \<in> set ll. 2 \<le> length b \<and> last b = d)"
proof -
  note D = assms[unfolded describes_def]
  show "v \<in> set (next_dpids i) \<longleftrightarrow> (\<exists>b \<in> set ll. \<exists>k. Suc k < length b \<and> b ! k = d \<and> b ! Suc k = v)"
    unfolding conjunct1[OF conjunct2[OF conjunct2[OF D]]]
  proof
    assume "v \<in> {b ! Suc k |k b. (k, b) \<in> positions_in ll \<and> b ! k = d \<and> Suc k < length b}"
    then obtain k b where "v = b ! Suc k" "(k, b) \<in> positions_in ll" "b ! k = d" "Suc k < length b" by blast
    then show "\<exists>b \<in> set ll. \<exists>k. Suc k < length b \<and> b ! k = d \<and> b ! Suc k = v"
      by (intro bexI[of _ b] exI[of _ k]) (simp_all add: positions_in_def)
  next
    assume "\<exists>b \<in> set ll. \<exists>k. Suc k < length b \<and> b ! k = d \<and> b ! Suc k = v"
    then obtain b k where "b \<in> set ll" "Suc k < length b" "b ! k = d" "b ! Suc k = v" by (elim bexE exE conjE)
    then show "v \<in> {b ! Suc k |k b. (k, b) \<in> positions_in ll \<and> b ! k = d \<and> Suc k < length b}"
      by (intro CollectI exI[of _ k] exI[of _ b]) (simp add: positions_in_def)
  qed
  show "former i = Some u \<Longrightarrow> \<exists>b \<in> set ll. \<exists>k. Suc k < length b \<and> b ! Suc k = d \<and> b ! k = u"
    using conjunct2[OF conjunct2[OF conjunct2[OF conjunct2[OF D]]]] unfolding positions_in_def by blast
  show "former i = None \<Longrightarrow> b \<in> set ll \<Longrightarrow> k < length b \<Longrightarrow> b ! k = d \<Longrightarrow> k = 0"
    using conjunct1[OF conjunct2[OF conjunct2[OF conjunct2[OF D]]]] unfolding positions_in_def by blast
  show "is_root i \<longleftrightarrow> (\<exists>b \<in> set ll. 0 < length b \<and> b ! 0 = d)"
    unfolding conjunct1[OF D] positions_in_def by auto
  have "(\<exists>k b. (k, b) \<in> positions_in ll \<and> 0 < k \<and> Suc k = length b \<and> b ! k = d) \<longleftrightarrow> (\<exists>b \<in> set ll. 2 \<le> length b \<and> last b = d)" (is "?L \<longleftrightarrow> ?R")
  proof
    assume ?L
    then obtain k b where "b \<in> set ll" "0 < k" "length b = Suc k" "b ! k = d" unfolding positions_in_def by auto
    moreover from this have "b \<noteq> []" by auto
    ultimately show ?R by (intro bexI[of _ b]) (auto simp: last_conv_nth)
  next
    assume ?R
    then obtain b where "b \<in> set ll" "2 \<le> length b" "last b = d" by blast
    moreover from this have "b ! (length b - 1) = d" by (metis last_conv_nth list.size(3) not_numeral_le_zero)
    ultimately show ?L unfolding positions_in_def by (intro exI[of _ "length b - 1"] exI[of _ b]) auto
  qed
  then show "is_end i \<longleftrightarrow> (\<exists>b \<in> set ll. 2 \<le> length b \<and> last b = d)"
    unfolding conjunct1[OF conjunct2[OF D]] .
qed

lemma tree_known_step:
  assumes "tree_known st wire ll" "b \<in> set ll" "Suc k < length b"
  shows "linked st (b ! k) (b ! Suc k)" "linked st (b ! Suc k) (b ! k)"
    "wire (b ! k, port_to st (b ! k) (b ! Suc k)) = Some (b ! Suc k, port_to st (b ! Suc k) (b ! k))"
  using assms route_known_nth(3)[of st b k] by (simp_all add: tree_known_def wired_def)

lemma multicast_entry_eval:
  assumes m: "merged (positions_in ll) fl" and k: "tree_known st wire ll" and di: "(d, i) \<in> set fl"
    and g: "\<forall>b \<in> set ll. dict_get group_info (last b) \<noteq> None"
  shows "multicast_entry st group_info t (d, i) = Inr (tree_entry st group_info t (d, i))"
proof -
  have dok: "dict_ok fl" using m by (simp add: merged_def)
  then have "dict_get fl d = Some i" using di by simp
  then have desc: "describes (positions_in ll) d i" using m by (simp add: merged_def)
  have "d \<in> set (dict_keys fl)" using di by (metis fst_conv image_eqI set_map)
  also have "set (dict_keys fl) = (\<lambda>(k, b). b ! k) ` positions_in ll" using m by (simp only: merged_def)
  finally obtain x where x: "d = (case x of (k, b) \<Rightarrow> b ! k)" "x \<in> positions_in ll" by (rule imageE)
  obtain k b where "x = (k, b)" by (cases x)
  with x have bk: "b \<in> set ll" "k < length b" "d = b ! k" by (simp_all add: positions_in_def)
  then have kn: "known_switch st d" using route_known_nth(1)[of st b k] assms(2) by (simp add: tree_known_def)
  obtain sw where sw: "get_switch d st = Some sw" "dp_id (sw_dp sw) = d" using kn by (auto simp: known_switch_def split: option.splits)
  have nx: "nb_port (Some sw) v = Inr (port_to st d v)" if v: "v \<in> set (next_dpids i)" for v
  proof -
    obtain k' b' where "b' \<in> set ll" "Suc k' < length b'" "b' ! k' = d" "b' ! Suc k' = v"
      using described(1)[OF desc, THEN iffD1, OF v] by (elim bexE exE conjE)
    then have "linked st d v" using tree_known_step(1)[OF k, of b' k'] by simp
    then show ?thesis using nb_port_linked[of st d v] sw by simp
  qed
  have fo: "nb_port (Some sw) u = Inr (port_to st d u)" if u: "former i = Some u" for u
  proof -
    obtain k' b' where "b' \<in> set ll" "Suc k' < length b'" "b' ! Suc k' = d" "b' ! k' = u"
      using described(2)[OF desc u] by (elim bexE exE conjE)
    then have "linked st d u" using tree_known_step(2)[OF k, of b' k'] by simp
    then show ?thesis using nb_port_linked[of st d u] sw by simp
  qed
  have root: "\<exists>u. former i = Some u" if "\<not> is_root i"
  proof (rule ccontr)
    assume "\<nexists>u. former i = Some u"
    then have "k = 0" using described(3)[OF desc _ bk(1,2)] bk(3) by auto
    then show False using that described(4)[OF desc] bk by auto
  qed
  have ends: "dict_get group_info d \<noteq> None" if "is_end i" using that described(5)[OF desc] g by auto
  have map: "res_map (nb_port (Some sw)) (next_dpids i) = Inr (map (port_to st d) (next_dpids i))" by (rule res_map_total) (rule nx)
  have inp: "(if is_root i then Inr (m_src_port_no t) else case former i of None \<Rightarrow> Inl KeyError | Some u \<Rightarrow> nb_port (Some sw) u) =
      Inr (tree_in_port st t (d, i))" using root fo by (auto simp: tree_in_port_def)
  have grp: "(if is_end i then case dict_get group_info d of None \<Rightarrow> Inl KeyError | Some ps \<Rightarrow> Inr ps else Inr []) =
      Inr (if is_end i then the (dict_get group_info d) else [])" using ends by auto
  show ?thesis unfolding multicast_entry_def
    by (simp add: sw inp grp map tree_entry_def tree_out_ports_def del: if_split_asm split del: if_split)
qed

text \<open>The tree inside the entries: each switch has one entry, and it fits the branch it stands on.\<close>

lemma find_unique:
  "x \<in> set xs \<Longrightarrow> P x \<Longrightarrow> (\<And>y. y \<in> set xs \<Longrightarrow> P y \<Longrightarrow> y = x) \<Longrightarrow> find P xs = Some x"
proof -
  assume x: "x \<in> set xs" "P x" and u: "\<And>y. y \<in> set xs \<Longrightarrow> P y \<Longrightarrow> y = x"
  obtain y where y: "find P xs = Some y" using x by (cases "find P xs") (auto simp: find_None_iff)
  then have "y \<in> set xs" "P y" by (auto simp only: find_Some_iff intro!: nth_mem)
  then show "find P xs = Some x" using u y by simp
qed

lemma outputs_tree:
  assumes "dict_ok fl" "(d, i) \<in> set fl"
  shows "outputs (map (tree_entry st gi t) (rev fl)) d (tree_in_port st t (d, i)) (m_src_ip t) (m_group_ip t) = tree_out_ports st gi (d, i)"
proof -
  have "find (applies d (tree_in_port st t (d, i)) (m_src_ip t) (m_group_ip t)) (map (tree_entry st gi t) fl) = Some (tree_entry st gi t (d, i))"
  proof (rule find_unique)
    fix m assume m: "m \<in> set (map (tree_entry st gi t) fl)" "applies d (tree_in_port st t (d, i)) (m_src_ip t) (m_group_ip t) m"
    then obtain d' i' where "m = tree_entry st gi t (d', i')" "(d', i') \<in> set fl" by auto
    moreover from this m have "d' = d" by (simp add: tree_entry_def multicast_flow_mod_def)
    ultimately show "m = tree_entry st gi t (d, i)" using assms by (metis eq_key_imp_eq_value)
  next
    show "tree_entry st gi t (d, i) \<in> set (map (tree_entry st gi t) fl)" using assms(2) by simp
    show "applies d (tree_in_port st t (d, i)) (m_src_ip t) (m_group_ip t) (tree_entry st gi t (d, i))"
      by (simp add: tree_entry_def multicast_flow_mod_def)
  qed
  then show ?thesis
    by (simp add: outputs_def tree_entry_def multicast_flow_mod_def rev_map o_def)
qed

lemma outputs_other_port:
  assumes "dict_ok fl" "p \<in> set (outputs (map (tree_entry st gi t) (rev fl)) d x (m_src_ip t) (m_group_ip t))"
  shows "\<exists>i. (d, i) \<in> set fl \<and> x = tree_in_port st t (d, i)"
proof -
  obtain m where "find (applies d x (m_src_ip t) (m_group_ip t)) (map (tree_entry st gi t) fl) = Some m"
    using assms(2) by (cases "find (applies d x (m_src_ip t) (m_group_ip t)) (map (tree_entry st gi t) fl)") (auto simp: outputs_def rev_map)
  then have "m \<in> set (map (tree_entry st gi t) fl)" "applies d x (m_src_ip t) (m_group_ip t) m"
    by (auto simp only: find_Some_iff intro!: nth_mem)
  then show ?thesis by (auto simp: tree_entry_def multicast_flow_mod_def route_match_def)
qed

lemma merged_at:
  assumes "merged (positions_in ll) fl" "b \<in> set ll" "k < length b"
  shows "\<exists>i. (b ! k, i) \<in> set fl \<and> describes (positions_in ll) (b ! k) i"
proof -
  have "b ! k \<in> (\<lambda>(k, b). b ! k) ` positions_in ll" by (rule rev_image_eqI[of "(k, b)"]) (simp_all add: positions_in_def assms)
  then have "b ! k \<in> set (dict_keys fl)" using assms(1) by (simp only: merged_def)
  then obtain i where "dict_get fl (b ! k) = Some i" by (metis dict_get_None_iff not_None_eq)
  then show ?thesis using assms(1) map_of_SomeD by (fastforce simp: merged_def)
qed

lemma tree_in_port_at:
  assumes tr: "tree_shaped r ll" and d: "describes (positions_in ll) (b ! k) i" and b: "b \<in> set ll" "k < length b"
  shows "tree_in_port st t (b ! k, i) = (if k = 0 then m_src_port_no t else port_to st (b ! k) (b ! (k - 1)))"
proof -
  have same: "k' = k \<and> (0 < k \<longrightarrow> b' ! (k' - 1) = b ! (k - 1))" if "b' \<in> set ll" "k' < length b'" "b' ! k' = b ! k" for b' k'
  proof -
    have "\<forall>b \<in> set ll. \<forall>b' \<in> set ll. \<forall>k < length b. \<forall>k' < length b'.
        b ! k = b' ! k' \<longrightarrow> k = k' \<and> (0 < k \<longrightarrow> b ! (k - 1) = b' ! (k' - 1))"
      using tr unfolding tree_shaped_def by (elim conjE)
    from this[rule_format, OF that(1) b(1) that(2) b(2) that(3)] show ?thesis by auto
  qed
  show ?thesis
  proof (cases "k = 0")
    case True
    then have "is_root i" using described(4)[OF d] b by auto
    then show ?thesis using True by (simp add: tree_in_port_def)
  next
    case False
    have "\<not> is_root i" using described(4)[OF d] same False by (metis)
    moreover obtain u where u: "former i = Some u" using described(3)[OF d _ b] False by (cases "former i") auto
    moreover have "u = b ! (k - 1)"
    proof -
      obtain b' k' where "b' \<in> set ll" "Suc k' < length b'" "b' ! Suc k' = b ! k" "b' ! k' = u"
        using described(2)[OF d u] by (elim bexE exE conjE)
      then show ?thesis using same[of b' "Suc k'"] False by simp
    qed
    ultimately show ?thesis using False by (simp add: tree_in_port_def)
  qed
qed

lemma multicast_deploy_eval:
  assumes tr: "tree_shaped r ll" and k: "tree_known st wire ll" and g: "dict_get groups (m_group_ip t) = Some gi"
    "\<forall>b \<in> set ll. dict_get gi (last b) \<noteq> None"
  obtains fl where "merged (positions_in ll) fl" "multicast_deploy st groups t ll = (map (tree_entry st gi t) (rev fl), Inr ())"
proof -
  have "ll \<noteq> []" "\<forall>b \<in> set ll. 2 \<le> length b" using tr by (auto simp: tree_shaped_def)
  then obtain fl where fl: "format_link_list ll = Inr fl" "merged (positions_in ll) fl" using format_link_list_merged by blast
  have "send_each (\<lambda>di. send_bind (pure (multicast_entry st gi t di)) send) (rev fl) =
      (concat (map (\<lambda>di. [tree_entry st gi t di]) (rev fl)), Inr (map (\<lambda>_. ()) (rev fl)))"
  proof (rule send_each_total)
    fix di assume "di \<in> set (rev fl)"
    then show "send_bind (pure (multicast_entry st gi t di)) send = ([tree_entry st gi t di], Inr ())"
      using multicast_entry_eval[OF fl(2) k _ g(2), of "fst di" "snd di" t] by (simp add: send_def)
  qed
  then have "multicast_deploy st groups t ll = (map (tree_entry st gi t) (rev fl), Inr ())"
    by (simp add: multicast_deploy_def fl(1) g(1) pure_def)
  then show ?thesis using fl(2) that by blast
qed

text \<open>A copy comes in at every switch of every branch, on the port towards its predecessor.\<close>

lemma mreach_branch:
  assumes tr: "tree_shaped r ll" and kn: "tree_known st wire ll" and m: "merged (positions_in ll) fl" and b: "b \<in> set ll"
  shows "k < length b \<Longrightarrow> mreach (map (tree_entry st gi t) (rev fl)) wire (m_src_ip t) (m_group_ip t) (r, m_src_port_no t)
     (b ! k, if k = 0 then m_src_port_no t else port_to st (b ! k) (b ! (k - 1)))"
proof (induction k)
  case 0
  then show ?case using tr b by (simp add: tree_shaped_def mreach.enter)
next
  case (Suc k)
  then have k: "k < length b" by simp
  obtain i where i: "(b ! k, i) \<in> set fl" "describes (positions_in ll) (b ! k) i" using merged_at[OF m b k] by blast
  have dok: "dict_ok fl" using m by (simp add: merged_def)
  have "b ! Suc k \<in> set (next_dpids i)" using described(1)[OF i(2)] b Suc.prems by blast
  then have "port_to st (b ! k) (b ! Suc k) \<in> set (tree_out_ports st gi (b ! k, i))" by (simp add: tree_out_ports_def)
  then have "port_to st (b ! k) (b ! Suc k) \<in> set (outputs (map (tree_entry st gi t) (rev fl)) (b ! k)
      (if k = 0 then m_src_port_no t else port_to st (b ! k) (b ! (k - 1))) (m_src_ip t) (m_group_ip t))"
    using outputs_tree[OF dok i(1), of st gi t] tree_in_port_at[OF tr i(2) b k, of st t] by simp
  from mreach.hop[OF Suc.IH[OF k] this tree_known_step(3)[OF kn b Suc.prems]] show ?case by simp
qed

lemma mreach_inside:
  assumes tr: "tree_shaped r ll" and kn: "tree_known st wire ll" and m: "merged (positions_in ll) fl"
    and ends: "\<forall>b \<in> set ll. \<forall>p \<in> set (the (dict_get gi (last b))). wire (last b, p) = None"
    and x: "mreach (map (tree_entry st gi t) (rev fl)) wire (m_src_ip t) (m_group_ip t) (r, m_src_port_no t) x"
  shows "\<exists>b \<in> set ll. \<exists>k < length b. x = (b ! k, if k = 0 then m_src_port_no t else port_to st (b ! k) (b ! (k - 1)))"
  using x
proof (induction rule: mreach.induct)
  case enter
  obtain b where "b \<in> set ll" using tr by (cases ll) (auto simp: tree_shaped_def)
  then show ?case using tr by (intro bexI[of _ b] exI[of _ 0]) (auto simp: tree_shaped_def)
next
  case (hop dpid i p x)
  have dok: "dict_ok fl" using m by (simp add: merged_def)
  obtain info where inf: "(dpid, info) \<in> set fl" "i = tree_in_port st t (dpid, info)"
    using outputs_other_port[OF dok hop.hyps(2)] by blast
  then have desc: "describes (positions_in ll) dpid info" using m dok by (simp add: merged_def)
  have "p \<in> set (tree_out_ports st gi (dpid, info))" using hop.hyps(2) outputs_tree[OF dok inf(1), of st gi t] inf(2) by simp
  then consider "is_end info" "p \<in> set (the (dict_get gi dpid))" | v where "v \<in> set (next_dpids info)" "p = port_to st dpid v"
    by (auto simp: tree_out_ports_def split: if_splits)
  then show ?case
  proof cases
    case 1
    then obtain b where "b \<in> set ll" "last b = dpid" using described(5)[OF desc] by blast
    then show ?thesis using ends 1(2) hop.hyps(3) by fastforce
  next
    case (2 v)
    obtain b k where b: "b \<in> set ll" "Suc k < length b" "b ! k = dpid" "b ! Suc k = v"
      using described(1)[OF desc, THEN iffD1, OF 2(1)] by (elim bexE exE conjE)
    then have "x = (b ! Suc k, port_to st (b ! Suc k) (b ! k))" using tree_known_step(3)[OF kn b(1,2)] 2(2) hop.hyps(3) by simp
    then show ?thesis using b by (intro bexI[of _ b] exI[of _ "Suc k"]) auto
  qed
qed

text \<open>
  C11. For branches that form a tree over known, linked and cabled switches, with members of the group
  registered at the last switch of every branch, the multicast deployment succeeds. A packet of the
  source then comes in at exactly the switches of the tree, each time on the port towards the
  predecessor in the tree, and leaves at every port with members behind the last switches.
\<close>

theorem multicast_tree_delivers:
  assumes "tree_shaped r ll" "tree_known st wire ll" "dict_get groups (m_group_ip t) = Some gi"
    and "\<forall>b \<in> set ll. dict_get gi (last b) \<noteq> None"
    and "\<forall>b \<in> set ll. \<forall>p \<in> set (the (dict_get gi (last b))). wire (last b, p) = None"
  shows "\<exists>ms. multicast_deploy st groups t ll = (ms, Inr ()) \<and>
    (\<forall>x. mreach ms wire (m_src_ip t) (m_group_ip t) (r, m_src_port_no t) x \<longleftrightarrow>
       (\<exists>b \<in> set ll. \<exists>k < length b. x = (b ! k, if k = 0 then m_src_port_no t else port_to st (b ! k) (b ! (k - 1))))) \<and>
    (\<forall>b \<in> set ll. \<exists>i. mreach ms wire (m_src_ip t) (m_group_ip t) (r, m_src_port_no t) (last b, i) \<and>
       set (the (dict_get gi (last b))) \<subseteq> set (outputs ms (last b) i (m_src_ip t) (m_group_ip t)))"
proof -
  obtain fl where fl: "merged (positions_in ll) fl" "multicast_deploy st groups t ll = (map (tree_entry st gi t) (rev fl), Inr ())"
    using multicast_deploy_eval[OF assms(1-4)] by blast
  let ?ms = "map (tree_entry st gi t) (rev fl)"
  let ?R = "mreach ?ms wire (m_src_ip t) (m_group_ip t) (r, m_src_port_no t)"
  have "?R x \<longleftrightarrow> (\<exists>b \<in> set ll. \<exists>k < length b. x = (b ! k, if k = 0 then m_src_port_no t else port_to st (b ! k) (b ! (k - 1))))" for x
  proof
    show "?R x \<Longrightarrow> \<exists>b \<in> set ll. \<exists>k < length b. x = (b ! k, if k = 0 then m_src_port_no t else port_to st (b ! k) (b ! (k - 1)))"
      by (rule mreach_inside[OF assms(1,2) fl(1) assms(5)])
    assume "\<exists>b \<in> set ll. \<exists>k < length b. x = (b ! k, if k = 0 then m_src_port_no t else port_to st (b ! k) (b ! (k - 1)))"
    then obtain b k where "b \<in> set ll" "k < length b" "x = (b ! k, if k = 0 then m_src_port_no t else port_to st (b ! k) (b ! (k - 1)))"
      by (elim bexE exE conjE)
    then show "?R x" using mreach_branch[OF assms(1,2) fl(1)] by (simp only:)
  qed
  moreover have "\<exists>i. ?R (last b, i) \<and> set (the (dict_get gi (last b))) \<subseteq> set (outputs ?ms (last b) i (m_src_ip t) (m_group_ip t))"
    if b: "b \<in> set ll" for b
  proof -
    have len: "2 \<le> length b" using assms(1) b by (auto simp: tree_shaped_def)
    then have "b \<noteq> []" by auto
    then have last: "last b = b ! (length b - 1)" "length b - 1 < length b" by (simp_all add: last_conv_nth)
    obtain i where i: "(last b, i) \<in> set fl" "describes (positions_in ll) (last b) i"
      using merged_at[OF fl(1) b last(2)] last(1) by auto
    have "is_end i" using described(5)[OF i(2)] b len by blast
    moreover have "dict_ok fl" using fl(1) by (simp add: merged_def)
    ultimately have "set (the (dict_get gi (last b))) \<subseteq> set (outputs ?ms (last b) (tree_in_port st t (last b, i)) (m_src_ip t) (m_group_ip t))"
      using outputs_tree[OF _ i(1), of st gi t] by (simp add: tree_out_ports_def)
    moreover have "?R (last b, tree_in_port st t (last b, i))"
      using mreach_branch[OF assms(1,2) fl(1) b last(2), of gi t] tree_in_port_at[OF assms(1) i(2)[unfolded last(1)] b last(2), of st t]
      unfolding last(1) by simp
    ultimately show ?thesis by blast
  qed
  ultimately show ?thesis using fl(2) by blast
qed

definition wit_mtask :: mtask where
  "wit_mtask = \<lparr>m_src_dpid = 11, m_src_ip = ''10.0.0.1'', m_src_port_no = 1, m_dst_dpids = [12, 13], m_group_ip = ''225.0.0.1'', m_timestamp = 0\<rparr>"

theorem multicast_tree_delivers_witness:
  "\<exists>ms. multicast_deploy wit_nodes [(''225.0.0.1'', [(12, [3]), (13, [4, 5])])] wit_mtask [[11, 12], [11, 13]] = (ms, Inr ())"
proof -
  have all2: "(\<forall>i. Suc i < length [a, b :: nat] \<longrightarrow> P i) \<longleftrightarrow> P 0" for P a b by auto
  have r: "route_known wit_nodes [11, 12]" "route_known wit_nodes [11, 13]"
    unfolding route_known_def all2 by (simp_all add: known_switch_def linked_def get_switch_def wit_nodes_def new_switch_def)
  have w: "wired wit_nodes wit_wire [11, 12]" "wired wit_nodes wit_wire [11, 13]"
    unfolding wired_def all2 by (simp_all add: port_to_def get_switch_def wit_nodes_def wit_wire_def)
  have t: "tree_shaped 11 [[11, 12], [11, 13]]" by (simp add: tree_shaped_def less_Suc_eq all_conj_distrib nth_Cons')
  have k: "tree_known wit_nodes wit_wire [[11, 12], [11, 13]]" using r w by (simp add: tree_known_def)
  have g: "dict_get [(''225.0.0.1'', [(12, [3]), (13, [4, 5])])] (m_group_ip wit_mtask) = Some [(12, [3]), (13, [4, 5 :: nat])]"
    by (simp add: wit_mtask_def)
  show ?thesis using multicast_tree_delivers[OF t k g] by (simp add: wit_wire_def) blast
qed

section \<open>A source and a member on one switch\<close>

lemma res_fold_raises:
  assumes "x \<in> set xs" "\<And>acc. f acc x = Inl e" "\<And>acc y e'. f acc y = Inl e' \<Longrightarrow> e' = e"
  shows "res_fold f acc xs = Inl e"
  using assms(1)
proof (induction xs arbitrary: acc)
  case (Cons y xs)
  then show ?case using assms(2) assms(3)[of acc y] by (cases "f acc y") auto
qed simp

lemma visit_branch_error: "visit_branch k b acc = Inl e \<Longrightarrow> e = IndexError"
  by (auto simp: visit_branch_def Let_def py_nth_def split: if_splits)

text \<open>
  When a branch consists of one switch only, as it does when a member sits on the switch of the
  source, merging the branches leaves with \<open>IndexError\<close>, whatever the other branches are; nothing is
  deployed for any member.
\<close>

theorem single_switch_branch_raises:
  assumes "[d] \<in> set ll"
  shows "format_link_list ll = Inl IndexError \<and> multicast_deploy st groups t ll = ([], Inl IndexError)"
proof -
  define M where "M = Max (set (map length ll))"
  have "length [d] \<le> M" using assms unfolding M_def by (intro Max_ge) (force simp: image_iff)+
  then have mem: "(0, [d]) \<in> set [(depth, branch). depth \<leftarrow> [0..<M], branch \<leftarrow> ll]" using assms by force
  have "format_link_list ll = Inl IndexError"
    unfolding format_link_list_def M_def[symmetric]
    using assms res_fold_raises[OF mem, of "\<lambda>acc (depth, branch). visit_branch depth branch acc" IndexError "[]"]
    by (auto simp: visit_branch_error visit_branch_def py_nth_def)
  then show ?thesis by (simp add: multicast_deploy_def)
qed

theorem single_switch_branch_raises_witness: "format_link_list [[1, 2], [1]] = Inl IndexError"
  using single_switch_branch_raises[of 1 "[[1, 2], [1]]"] by simp

end
