(* ===== verification/Host_Track.thy ===== *)
theory Host_Track
  imports OpenFlow Switch_Table
begin

text \<open>
  The host tracker and the search for missing hosts: \<open>host_manage/HostTrack.py\<close> and
  \<open>host_manage/HostDiscovery.py\<close>. The tracker learns hosts from packets that come in at ports that
  lead to no switch, pings addresses that have been quiet, and forgets hosts. \<open>time.time()\<close> is the
  parameter \<open>clk\<close>, which gives a value for every place and every object at which an activation of a
  handler reads the clock: the time may pass between any two of them. The links come from the API of
  Ryu and are a parameter.
\<close>

section \<open>The clock\<close>

text \<open>
  The readings of one activation: the creation of an entry, its refreshment, the first or a new sight of an address
  and the ping control of a new address; in a round of the timer, for each entry, the test of each of its
  addresses, the sending of a ping, and the test of the entry.
\<close>

datatype reading =
    MacMade | MacSeen | IpSeen | PingMade
  | IpExpired string string | PingSent string string | MacExpired string

type_synonym clock = "reading \<Rightarrow> real"

section \<open>Entries\<close>

definition arpAware :: real where "arpAware = 10 * 2"
definition arpSilent :: real where "arpSilent = 10 * 20"
definition arpReply :: real where "arpReply = 4"

definition expired :: "real \<Rightarrow> real \<Rightarrow> real \<Rightarrow> bool" where
  "expired now lastTimeSeen interval \<longleftrightarrow> now > lastTimeSeen + interval"

record ping_ctrl =
  ping_seen :: real
  ping_interval :: real
  pending :: nat

definition PingCtrl :: "real \<Rightarrow> ping_ctrl" where
  "PingCtrl now = \<lparr>ping_seen = now, ping_interval = arpReply, pending = 0\<rparr>"

definition ping_sent :: "real \<Rightarrow> ping_ctrl \<Rightarrow> ping_ctrl" where
  "ping_sent now c = c\<lparr>ping_seen := now, pending := pending c + 1\<rparr>"

definition pingLim :: nat where "pingLim = 3"

definition ping_failed :: "ping_ctrl \<Rightarrow> bool" where
  "ping_failed c \<longleftrightarrow> pending c > pingLim"

definition ping_received :: "ping_ctrl \<Rightarrow> ping_ctrl" where
  "ping_received c = c\<lparr>pending := 0\<rparr>"

record ip_entry =
  ie_seen :: real
  ie_interval :: real
  ie_has_arp :: bool
  ie_pings :: ping_ctrl

definition IpEntry :: "real \<Rightarrow> real \<Rightarrow> bool \<Rightarrow> ip_entry" where
  "IpEntry now now' has_arp =
     \<lparr>ie_seen = now, ie_interval = (if has_arp then arpAware else arpSilent), ie_has_arp = has_arp, ie_pings = PingCtrl now'\<rparr>"

text \<open>\<open>me_inport\<close> is the attribute that the handler of moves creates; no code reads it.\<close>

record mac_entry =
  me_dpid :: nat
  me_port :: nat
  me_macaddr :: string
  me_seen :: real
  me_interval :: real
  me_inport :: "nat option"
  me_ipaddrs :: "(string, ip_entry) pydict"

definition MacEntry :: "real \<Rightarrow> nat \<Rightarrow> nat \<Rightarrow> string \<Rightarrow> mac_entry" where
  "MacEntry now dpid port macaddr =
     \<lparr>me_dpid = dpid, me_port = port, me_macaddr = macaddr, me_seen = now, me_interval = arpSilent, me_inport = None, me_ipaddrs = []\<rparr>"

definition entry_eq :: "mac_entry \<Rightarrow> nat \<times> nat \<times> string \<Rightarrow> bool" where
  "entry_eq e other \<longleftrightarrow> (me_dpid e, me_port e, me_macaddr e) = other"

section \<open>The tracker\<close>

record host_track =
  ht_mac_to_port :: "(nat, (string, nat) pydict) pydict"
  ht_datapaths :: "(nat, datapath option) pydict"
  ht_ping_src_mac :: string
  ht_install_flow :: bool
  entry_by_mac :: "(string, mac_entry) pydict"

definition new_host_track :: host_track where
  "new_host_track = \<lparr>ht_mac_to_port = [], ht_datapaths = [], ht_ping_src_mac = DEFAULT_ARP_PING_SRC_MAC, ht_install_flow = True, entry_by_mac = []\<rparr>"

text \<open>A message to a switch, or an event \<open>EventHostState\<close> with the address of its entry.\<close>

datatype host_out = HostSends out_msg | HostJoin string | HostMove string nat nat | HostLeave string

type_synonym host_result = "host_track \<times> host_out list \<times> pyerr option"

definition ping_frame :: "string \<Rightarrow> string \<Rightarrow> string \<Rightarrow> frame" where
  "ping_frame src macaddr ipaddr =
     ArpFrame macaddr src \<lparr>arp_opcode = 1, arp_src_mac = src, arp_src_ip = ''0.0.0.0'', arp_dst_mac = macaddr, arp_dst_ip = ipaddr\<rparr>"

definition send_ping :: "host_track \<Rightarrow> mac_entry \<Rightarrow> string \<Rightarrow> mac_entry \<times> host_out list \<times> pyerr option" where
  "send_ping h e ipaddr =
     (case dict_get (ht_datapaths h) (me_dpid e) of
        None \<Rightarrow> (e, [], Some KeyError)
      | Some None \<Rightarrow> (e\<lparr>me_ipaddrs := dict_del ipaddr (me_ipaddrs e)\<rparr>, [], None)
      | Some (Some dp) \<Rightarrow>
          (e, [HostSends (PacketOut (dp_id dp) OFP_NO_BUFFER OFPP_CONTROLLER [Output (me_port e)] (ping_frame (ht_ping_src_mac h) (me_macaddr e) ipaddr))], None))"

text \<open>\<open>header_list\<close> keeps the last layer of each protocol.\<close>

definition get_src_ip_and_arp :: "protocol list \<Rightarrow> string option \<times> bool" where
  "get_src_ip_and_arp ps =
     (case find (\<lambda>p. case p of Ipv4 _ \<Rightarrow> True | _ \<Rightarrow> False) (rev ps) of
        Some (Ipv4 ip) \<Rightarrow> (Some (ipp_src ip), False)
      | _ \<Rightarrow>
          (case find (\<lambda>p. case p of Arp _ \<Rightarrow> True | _ \<Rightarrow> False) (rev ps) of
             Some (Arp a) \<Rightarrow> (Some (arp_src_ip a), True)
           | _ \<Rightarrow> (None, False)))"

definition update_ip_info :: "clock \<Rightarrow> string \<Rightarrow> bool \<Rightarrow> mac_entry \<Rightarrow> mac_entry" where
  "update_ip_info clk ip has_arp e =
     (let ie = (case dict_get (me_ipaddrs e) ip of Some ie \<Rightarrow> ie\<lparr>ie_seen := clk IpSeen\<rparr> | None \<Rightarrow> IpEntry (clk IpSeen) (clk PingMade) has_arp);
          ie' = (if has_arp then ie\<lparr>ie_pings := ping_received (ie_pings ie)\<rparr> else ie)
      in e\<lparr>me_ipaddrs := dict_set ip ie' (me_ipaddrs e)\<rparr>)"

definition arp_response_flow_entry :: "datapath \<Rightarrow> host_track \<Rightarrow> host_result" where
  "arp_response_flow_entry dp h =
     (if \<not> ht_install_flow h then (h, [], None)
      else
        (h\<lparr>ht_datapaths := dict_set (dp_id dp) (Some dp) (ht_datapaths h),
           ht_mac_to_port := (case dict_get (ht_mac_to_port h) (dp_id dp) of Some _ \<Rightarrow> ht_mac_to_port h | None \<Rightarrow> dict_set (dp_id dp) [] (ht_mac_to_port h))\<rparr>,
         [HostSends (FlowAdd \<lparr>fm_dpid = dp_id dp, fm_priority = 300, fm_idle_timeout = 0, fm_hard_timeout = 0, fm_flags = 0,
            fm_match = [EthType ETH_TYPE_ARP, EthDst (ht_ping_src_mac h)], fm_actions = [Output OFPP_CONTROLLER]\<rparr>)],
         None))"

text \<open>The port is an end of a link between switches.\<close>

definition is_link_port :: "link list \<Rightarrow> nat \<Rightarrow> nat \<Rightarrow> bool" where
  "is_link_port links dpid in_port \<longleftrightarrow>
     list_ex (\<lambda>l. if dpid = port_dpid (link_src l) then in_port = port_no (link_src l)
                  else dpid = port_dpid (link_dst l) \<and> in_port = port_no (link_dst l)) links"

text \<open>\<open>mac_to_port\<close> is a \<open>defaultdict\<close> of dictionaries.\<close>

definition m2p_at :: "nat \<Rightarrow> (nat, (string, nat) pydict) pydict \<Rightarrow> (string, nat) pydict" where
  "m2p_at dpid t = (case dict_get t dpid of Some d \<Rightarrow> d | None \<Rightarrow> [])"

definition m2p_set :: "nat \<Rightarrow> string \<Rightarrow> nat \<Rightarrow> (nat, (string, nat) pydict) pydict \<Rightarrow> (nat, (string, nat) pydict) pydict" where
  "m2p_set dpid m p t = dict_set dpid (dict_set m p (m2p_at dpid t)) t"

definition m2p_del :: "nat \<Rightarrow> string \<Rightarrow> (nat, (string, nat) pydict) pydict \<Rightarrow> (nat, (string, nat) pydict) pydict \<times> pyerr option" where
  "m2p_del dpid m t =
     (dict_set dpid (dict_del m (m2p_at dpid t)) t, if m \<in> set (dict_keys (m2p_at dpid t)) then None else Some KeyError)"

text \<open>The end of the handler: the entry is refreshed and learns the source address.\<close>

definition learn_ip :: "clock \<Rightarrow> protocol list \<Rightarrow> mac_entry \<Rightarrow> mac_entry" where
  "learn_ip clk ps e =
     (case get_src_ip_and_arp ps of
        (None, _) \<Rightarrow> e\<lparr>me_seen := clk MacSeen\<rparr>
      | (Some ip, has_arp) \<Rightarrow> update_ip_info clk ip has_arp (e\<lparr>me_seen := clk MacSeen\<rparr>))"

definition track_packet_in :: "clock \<Rightarrow> link list \<Rightarrow> packet_in \<Rightarrow> host_track \<Rightarrow> host_result" where
  "track_packet_in clk links msg h =
     (let dpid = pi_dpid msg; in_port = pi_in_port msg; ps = pi_protocols msg
      in if in_port > OFPP_MAX then (h, [], None)
         else
           (case parse_ethernet ps of
              None \<Rightarrow> (h, [], Some IndexError)
            | Some (src_mac, dst_mac) \<Rightarrow>
                if is_link_port links dpid in_port then (h, [], None)
                else if Lldp \<in> set ps then (h, [], None)
                else
                  (case dict_get (entry_by_mac h) src_mac of
                     None \<Rightarrow>
                       (h\<lparr>ht_mac_to_port := m2p_set dpid src_mac in_port (ht_mac_to_port h),
                          entry_by_mac := dict_set src_mac (learn_ip clk ps (MacEntry (clk MacMade) dpid in_port src_mac)) (entry_by_mac h)\<rparr>,
                        [HostJoin src_mac], None)
                   | Some e \<Rightarrow>
                       if entry_eq e (dpid, in_port, src_mac) then
                         (h\<lparr>entry_by_mac := dict_set src_mac (learn_ip clk ps e) (entry_by_mac h)\<rparr>, [], None)
                       else
                         (case m2p_del (me_dpid e) src_mac (ht_mac_to_port h) of
                            (t, Some err) \<Rightarrow> (h\<lparr>ht_mac_to_port := t\<rparr>, [], Some err)
                          | (t, None) \<Rightarrow>
                              (h\<lparr>ht_mac_to_port := m2p_set dpid src_mac in_port t,
                                 entry_by_mac := dict_set src_mac (learn_ip clk ps (e\<lparr>me_dpid := dpid, me_inport := Some in_port\<rparr>)) (entry_by_mac h)\<rparr>,
                               [HostMove src_mac dpid in_port], None)))))"

section \<open>Timeouts\<close>

text \<open>
  The loop over a copy of the addresses of an entry: the entry, what was sent, and whether a ping
  was sent.
\<close>

fun check_ips :: "clock \<Rightarrow> host_track \<Rightarrow> (string \<times> ip_entry) list \<Rightarrow> mac_entry \<Rightarrow> mac_entry \<times> host_out list \<times> bool \<times> pyerr option" where
  "check_ips clk h [] e = (e, [], False, None)"
| "check_ips clk h ((ip, ie) # ips) e =
     (if \<not> expired (clk (IpExpired (me_macaddr e) ip)) (ie_seen ie) (ie_interval ie) then check_ips clk h ips e
      else if ping_failed (ie_pings ie) then check_ips clk h ips (e\<lparr>me_ipaddrs := dict_del ip (me_ipaddrs e)\<rparr>)
      else
        (case send_ping h e ip of
           (e', outs, Some err) \<Rightarrow> (e', outs, False, Some err)
         | (e', outs, None) \<Rightarrow>
             (let e'' = (case dict_get (me_ipaddrs e') ip of
                           Some _ \<Rightarrow> e'\<lparr>me_ipaddrs := dict_set ip (ie\<lparr>ie_pings := ping_sent (clk (PingSent (me_macaddr e) ip)) (ie_pings ie)\<rparr>) (me_ipaddrs e')\<rparr>
                         | None \<Rightarrow> e')
              in case check_ips clk h ips e'' of
                   (e3, outs', pinged, err) \<Rightarrow> (e3, outs @ outs', True, err))))"

text \<open>
  The loop over the addresses left deletes, for each of them, the address \<open>ip_addr\<close> that the earlier
  loop has left in its variable.
\<close>

fun del_left :: "string \<Rightarrow> string list \<Rightarrow> (string, ip_entry) pydict \<Rightarrow> (string, ip_entry) pydict \<times> pyerr option" where
  "del_left ip_addr [] d = (d, None)"
| "del_left ip_addr (ip # ips) d =
     (if ip_addr \<in> set (dict_keys d) then del_left ip_addr ips (dict_del ip_addr d) else (d, Some KeyError))"

definition expire_entry :: "string \<Rightarrow> mac_entry \<Rightarrow> host_track \<Rightarrow> host_result" where
  "expire_entry ip_addr e h =
     (case del_left ip_addr (dict_keys (me_ipaddrs e)) (me_ipaddrs e) of
        (d, Some err) \<Rightarrow> (h\<lparr>entry_by_mac := dict_set (me_macaddr e) (e\<lparr>me_ipaddrs := d\<rparr>) (entry_by_mac h)\<rparr>, [], Some err)
      | (d, None) \<Rightarrow>
          (case m2p_del (me_dpid e) (me_macaddr e) (ht_mac_to_port h) of
             (t, Some err) \<Rightarrow>
               (h\<lparr>ht_mac_to_port := t, entry_by_mac := dict_set (me_macaddr e) (e\<lparr>me_ipaddrs := d\<rparr>) (entry_by_mac h)\<rparr>, [], Some err)
           | (t, None) \<Rightarrow>
               (h\<lparr>ht_mac_to_port := t, entry_by_mac := dict_del (me_macaddr e) (entry_by_mac h)\<rparr>, [HostLeave (me_macaddr e)], None)))"

definition check_entry :: "clock \<Rightarrow> mac_entry \<Rightarrow> host_track \<Rightarrow> host_result" where
  "check_entry clk e h =
     (case check_ips clk h (me_ipaddrs e) e of
        (e', outs, pinged, Some err) \<Rightarrow> (h\<lparr>entry_by_mac := dict_set (me_macaddr e) e' (entry_by_mac h)\<rparr>, outs, Some err)
      | (e', outs, pinged, None) \<Rightarrow>
          (let h' = h\<lparr>entry_by_mac := dict_set (me_macaddr e) e' (entry_by_mac h)\<rparr>
           in if expired (clk (MacExpired (me_macaddr e))) (me_seen e) (me_interval e) \<and> \<not> pinged then
                (case expire_entry (last ([] # dict_keys (me_ipaddrs e))) e' h' of (h'', outs', err) \<Rightarrow> (h'', outs @ outs', err))
              else (h', outs, None)))"

fun check_entries :: "clock \<Rightarrow> mac_entry list \<Rightarrow> host_track \<Rightarrow> host_result" where
  "check_entries clk [] h = (h, [], None)"
| "check_entries clk (e # es) h =
     (case check_entry clk e h of
        (h', outs, Some err) \<Rightarrow> (h', outs, Some err)
      | (h', outs, None) \<Rightarrow> (case check_entries clk es h' of (h'', outs', err) \<Rightarrow> (h'', outs @ outs', err)))"

definition check_timeouts :: "clock \<Rightarrow> host_track \<Rightarrow> host_result" where
  "check_timeouts clk h = check_entries clk (dict_values (entry_by_mac h)) h"

section \<open>Missing hosts\<close>

datatype missing = MissingHost string | MissingSrc "protocol list" | MissingDst "protocol list" | MissingOther

text \<open>\<open>find_packet(pkt, 'ipv4')\<close>: the first IPv4 layer.\<close>

definition find_ipv4 :: "protocol list \<Rightarrow> ip_packet option" where
  "find_ipv4 ps =
     (case find (\<lambda>p. case p of Ipv4 _ \<Rightarrow> True | _ \<Rightarrow> False) ps of Some (Ipv4 ip) \<Rightarrow> Some ip | _ \<Rightarrow> None)"

definition send_arp_request :: "datapath \<Rightarrow> string \<Rightarrow> out_msg" where
  "send_arp_request dp req_ip =
     PacketOut (dp_id dp) OFP_NO_BUFFER 0xffffffff [Output OFPP_FLOOD]
       (ArpFrame BROADCAST_STR DEFAULT_ARP_PING_SRC_MAC
         \<lparr>arp_opcode = 1, arp_src_mac = DEFAULT_ARP_PING_SRC_MAC, arp_src_ip = ''0.0.0.0'', arp_dst_mac = ''00:00:00:00:00:00'', arp_dst_ip = req_ip\<rparr>)"

definition missing_ip :: "missing \<Rightarrow> pyerr + string option" where
  "missing_ip ev =
     (case ev of
        MissingHost ip \<Rightarrow> Inr (Some ip)
      | MissingSrc ps \<Rightarrow> (case find_ipv4 ps of None \<Rightarrow> Inl AttributeError | Some ip \<Rightarrow> Inr (Some (ipp_src ip)))
      | MissingDst ps \<Rightarrow> (case find_ipv4 ps of None \<Rightarrow> Inl AttributeError | Some ip \<Rightarrow> Inr (Some (ipp_dst ip)))
      | MissingOther \<Rightarrow> Inr None)"

definition host_missing_handler :: "switch_table \<Rightarrow> missing \<Rightarrow> unit sends" where
  "host_missing_handler st ev =
     (case missing_ip ev of
        Inl e \<Rightarrow> ([], Inl e)
      | Inr None \<Rightarrow> ([], Inr ())
      | Inr (Some ip) \<Rightarrow> (map (\<lambda>sw. send_arp_request (sw_dp sw) ip) (filter (\<lambda>sw. sw_attribute sw = ''edge'') (dict_values st)), Inr ()))"


section \<open>The invariant\<close>

definition mac_entry_ok :: "string \<Rightarrow> mac_entry \<Rightarrow> bool" where
  "mac_entry_ok m e \<longleftrightarrow> me_macaddr e = m \<and> me_interval e = arpSilent \<and> dict_ok (me_ipaddrs e) \<and>
     (\<forall>ip ie. dict_get (me_ipaddrs e) ip = Some ie \<longrightarrow> ie_interval ie \<le> arpSilent)"

text \<open>
  \<open>mac_to_port\<close> has an address at a switch exactly when its entry is at that
  switch, and the switches of the entries are connected.
\<close>

definition track_ok :: "host_track \<Rightarrow> bool" where
  "track_ok h \<longleftrightarrow> dict_ok (entry_by_mac h) \<and>
     (\<forall>m e. dict_get (entry_by_mac h) m = Some e \<longrightarrow>
        mac_entry_ok m e \<and> (\<exists>dp. dict_get (ht_datapaths h) (me_dpid e) = Some (Some dp))) \<and>
     (\<forall>d m. m \<in> set (dict_keys (m2p_at d (ht_mac_to_port h))) \<longleftrightarrow> (\<exists>e. dict_get (entry_by_mac h) m = Some e \<and> me_dpid e = d))"

lemma m2p_at_set [simp]: "m2p_at d (dict_set d' x t) = (if d = d' then x else m2p_at d t)"
  by (simp add: m2p_at_def)

lemma keys_dict_del: "set (dict_keys (dict_del k d)) = set (dict_keys d) - {k}"
  by (auto simp: AList.delete_eq image_iff)

lemma m2p_keys_set: "m \<in> set (dict_keys (m2p_at d (m2p_set d' m' p t))) \<longleftrightarrow> (d = d' \<and> m = m') \<or> m \<in> set (dict_keys (m2p_at d t))"
  by (simp add: m2p_set_def keys_dict_set del: set_map)

lemma m2p_del_eq:
  "m \<in> set (dict_keys (m2p_at d t)) \<Longrightarrow> m2p_del d m t = (fst (m2p_del d m t), None)"
  "m' \<in> set (dict_keys (m2p_at d' (fst (m2p_del d m t)))) \<longleftrightarrow> \<not> (d' = d \<and> m' = m) \<and> m' \<in> set (dict_keys (m2p_at d' t))"
  by (auto simp add: m2p_del_def keys_dict_del simp del: set_map)

lemma learn_ip_simps [simp]:
  "me_dpid (learn_ip clk ps e) = me_dpid e" "me_port (learn_ip clk ps e) = me_port e" "me_macaddr (learn_ip clk ps e) = me_macaddr e"
  "me_seen (learn_ip clk ps e) = clk MacSeen" "me_interval (learn_ip clk ps e) = me_interval e"
  by (simp_all add: learn_ip_def update_ip_info_def Let_def split: prod.splits option.splits)

lemma mac_entry_ok_learn:
  assumes "mac_entry_ok m e"
  shows "mac_entry_ok m (learn_ip clk ps e)"
proof -
  obtain ipo has where g: "get_src_ip_and_arp ps = (ipo, has)" by fastforce
  have old: "ie_interval ie \<le> arpSilent" if "dict_get (me_ipaddrs e) ip = Some ie" for ip ie
    using assms that unfolding mac_entry_ok_def by force
  have new: "ie_interval (IpEntry t t' b) \<le> arpSilent" for t t' b
    by (simp add: IpEntry_def arpAware_def arpSilent_def)
  show ?thesis
  proof (cases ipo)
    case None
    then show ?thesis using g assms old by (simp add: learn_ip_def mac_entry_ok_def)
  next
    case (Some ip)
    show ?thesis using g Some assms(1) old new
      by (auto simp: learn_ip_def mac_entry_ok_def update_ip_info_def Let_def split: option.splits)
  qed
qed

lemma mac_entry_ok_new: "mac_entry_ok m (MacEntry now d p m)"
  by (simp add: MacEntry_def mac_entry_ok_def)

lemma track_ok_start: "track_ok new_host_track"
  by (simp add: track_ok_def new_host_track_def m2p_at_def)

lemma track_ok_features: "track_ok h \<Longrightarrow> track_ok (fst (arp_response_flow_entry dp h))"
proof -
  assume ok: "track_ok h"
  have "m2p_at d (case dict_get t x of Some _ \<Rightarrow> t | None \<Rightarrow> dict_set x [] t) = m2p_at d t" for d x and t :: "(nat, (string, nat) pydict) pydict"
    by (auto simp: m2p_at_def split: option.splits)
  then show ?thesis using ok by (auto simp: track_ok_def arp_response_flow_entry_def simp del: set_map)
qed

text \<open>An entry is put at a switch, in both tables.\<close>

lemma track_ok_put:
  assumes ok: "track_ok h" and e: "mac_entry_ok m e" "dict_get (ht_datapaths h) (me_dpid e) = Some (Some dp)"
    and t: "\<And>d' m'. m' \<in> set (dict_keys (m2p_at d' t)) \<longleftrightarrow> (d' = me_dpid e \<and> m' = m) \<or> (m' \<noteq> m \<and> m' \<in> set (dict_keys (m2p_at d' (ht_mac_to_port h))))"
  shows "track_ok (h\<lparr>ht_mac_to_port := t, entry_by_mac := dict_set m e (entry_by_mac h)\<rparr>)"
  unfolding track_ok_def
proof (intro conjI allI impI)
  let ?h = "h\<lparr>ht_mac_to_port := t, entry_by_mac := dict_set m e (entry_by_mac h)\<rparr>"
  show "dict_ok (entry_by_mac ?h)" using ok by (simp add: track_ok_def)
  show "m' \<in> set (dict_keys (m2p_at d' (ht_mac_to_port ?h))) \<longleftrightarrow> (\<exists>e'. dict_get (entry_by_mac ?h) m' = Some e' \<and> me_dpid e' = d')" for d' m'
    using ok t[of m' d'] by (simp add: track_ok_def del: set_map) blast
  show "mac_entry_ok m' e'" "\<exists>dp. dict_get (ht_datapaths ?h) (me_dpid e') = Some (Some dp)"
    if "dict_get (entry_by_mac ?h) m' = Some e'" for m' e'
    using ok e that by (auto simp: track_ok_def split: if_splits)
qed

text \<open>The packets the tracker looks at.\<close>

definition host_packet :: "link list \<Rightarrow> packet_in \<Rightarrow> string \<Rightarrow> bool" where
  "host_packet links msg src \<longleftrightarrow> pi_in_port msg \<le> OFPP_MAX \<and> (\<exists>dst. parse_ethernet (pi_protocols msg) = Some (src, dst)) \<and>
     \<not> is_link_port links (pi_dpid msg) (pi_in_port msg) \<and> Lldp \<notin> set (pi_protocols msg)"

text \<open>What a packet of a host does: its entry is at the place of the packet, with the port of the first packet.\<close>

lemma track_host_packet:
  assumes ok: "track_ok h" and pkt: "host_packet links msg src"
    and conn: "dict_get (ht_datapaths h) (pi_dpid msg) = Some (Some dp)"
    and r: "track_packet_in clk links msg h = (h', outs, err)"
  shows "err = None" "track_ok h'" "ht_datapaths h' = ht_datapaths h"
    "dict_get (m2p_at (pi_dpid msg) (ht_mac_to_port h')) src = Some (pi_in_port msg) \<or>
       (\<exists>e. dict_get (entry_by_mac h) src = Some e \<and> me_dpid e = pi_dpid msg \<and> me_port e = pi_in_port msg)"
    "\<exists>e'. dict_get (entry_by_mac h') src = Some e' \<and> me_dpid e' = pi_dpid msg \<and> me_macaddr e' = src \<and>
       me_port e' = (case dict_get (entry_by_mac h) src of Some e \<Rightarrow> me_port e | None \<Rightarrow> pi_in_port msg)"
proof -
  let ?d = "pi_dpid msg" and ?p = "pi_in_port msg" and ?ps = "pi_protocols msg" and ?t = "ht_mac_to_port h"
  obtain dst where g: "\<not> ?p > OFPP_MAX" "parse_ethernet ?ps = Some (src, dst)" "\<not> is_link_port links ?d ?p" "Lldp \<notin> set ?ps"
    using pkt unfolding host_packet_def by auto
  have inv: "src \<in> set (dict_keys (m2p_at d ?t)) \<longleftrightarrow> (\<exists>e. dict_get (entry_by_mac h) src = Some e \<and> me_dpid e = d)" for d
    using ok by (simp add: track_ok_def del: set_map)
  have "err = None \<and> track_ok h' \<and> ht_datapaths h' = ht_datapaths h \<and>
    (dict_get (m2p_at ?d (ht_mac_to_port h')) src = Some ?p \<or> (\<exists>e. dict_get (entry_by_mac h) src = Some e \<and> me_dpid e = ?d \<and> me_port e = ?p)) \<and>
    (\<exists>e'. dict_get (entry_by_mac h') src = Some e' \<and> me_dpid e' = ?d \<and> me_macaddr e' = src \<and>
       me_port e' = (case dict_get (entry_by_mac h) src of Some e \<Rightarrow> me_port e | None \<Rightarrow> ?p))"
  proof (cases "dict_get (entry_by_mac h) src")
    case None
    let ?e = "learn_ip clk ?ps (MacEntry (clk MacMade) ?d ?p src)"
    have h': "h' = h\<lparr>ht_mac_to_port := m2p_set ?d src ?p ?t, entry_by_mac := dict_set src ?e (entry_by_mac h)\<rparr>" "err = None"
      using r g None by (simp_all add: track_packet_in_def Let_def)
    have "mac_entry_ok src ?e" by (intro mac_entry_ok_learn mac_entry_ok_new)
    moreover have "me_dpid ?e = ?d" "me_port ?e = ?p" "me_macaddr ?e = src" by (simp_all add: MacEntry_def)
    ultimately have "track_ok h'" unfolding h' using ok conn None inv
      by (intro track_ok_put) (auto simp: m2p_keys_set simp del: set_map)
    then show ?thesis using h' None \<open>me_dpid ?e = ?d\<close> \<open>me_port ?e = ?p\<close> \<open>me_macaddr ?e = src\<close> by (simp add: m2p_set_def)
  next
    case (Some e)
    have e: "mac_entry_ok src e" "me_macaddr e = src" using ok Some unfolding track_ok_def mac_entry_ok_def by force+
    show ?thesis
    proof (cases "entry_eq e (?d, ?p, src)")
      case True
      let ?e = "learn_ip clk ?ps e"
      have h': "h' = h\<lparr>ht_mac_to_port := ?t, entry_by_mac := dict_set src ?e (entry_by_mac h)\<rparr>" "err = None"
        using r g Some True by (simp_all add: track_packet_in_def Let_def)
      have d: "me_dpid e = ?d" "me_port e = ?p" using True by (simp_all add: entry_eq_def)
      have "m' \<in> set (dict_keys (m2p_at d' ?t)) \<longleftrightarrow> (d' = ?d \<and> m' = src) \<or> (m' \<noteq> src \<and> m' \<in> set (dict_keys (m2p_at d' ?t)))" for d' m'
        using inv[of d'] Some d by (auto simp del: set_map)
      then have "track_ok h'" unfolding h' using ok conn d e by (intro track_ok_put mac_entry_ok_learn) simp_all
      then show ?thesis using h' d e Some by simp
    next
      case False
      let ?e = "learn_ip clk ?ps (e\<lparr>me_dpid := ?d, me_inport := Some ?p\<rparr>)"
      let ?t1 = "fst (m2p_del (me_dpid e) src ?t)"
      have "src \<in> set (dict_keys (m2p_at (me_dpid e) ?t))" using inv Some by blast
      note del = m2p_del_eq(1)[OF this]
      have h': "h' = h\<lparr>ht_mac_to_port := m2p_set ?d src ?p ?t1, entry_by_mac := dict_set src ?e (entry_by_mac h)\<rparr>" "err = None"
        using r g Some False by (simp_all add: track_packet_in_def Let_def) (subst (asm) del, simp)+
      have "mac_entry_ok src ?e" using e by (intro mac_entry_ok_learn) (simp_all add: mac_entry_ok_def)
      moreover have "m' \<in> set (dict_keys (m2p_at d' (m2p_set ?d src ?p ?t1))) \<longleftrightarrow> (d' = ?d \<and> m' = src) \<or> (m' \<noteq> src \<and> m' \<in> set (dict_keys (m2p_at d' ?t)))" for d' m'
        unfolding m2p_keys_set m2p_del_eq(2) using inv[of d'] Some by (auto simp del: set_map)
      ultimately have "track_ok h'" unfolding h' using ok conn by (intro track_ok_put) simp_all
      then show ?thesis using h' e Some by (simp add: m2p_set_def)
    qed
  qed
  then show "err = None" "track_ok h'" "ht_datapaths h' = ht_datapaths h"
    "dict_get (m2p_at ?d (ht_mac_to_port h')) src = Some ?p \<or> (\<exists>e. dict_get (entry_by_mac h) src = Some e \<and> me_dpid e = ?d \<and> me_port e = ?p)"
    "\<exists>e'. dict_get (entry_by_mac h') src = Some e' \<and> me_dpid e' = ?d \<and> me_macaddr e' = src \<and>
       me_port e' = (case dict_get (entry_by_mac h) src of Some e \<Rightarrow> me_port e | None \<Rightarrow> ?p)"
    by blast+
qed


section \<open>A round of the timer\<close>

text \<open>What a round does to the address \<open>ip\<close> of the entry of \<open>m\<close>.\<close>

definition ip_expired :: "clock \<Rightarrow> string \<Rightarrow> string \<Rightarrow> ip_entry \<Rightarrow> bool" where
  "ip_expired clk m ip ie \<longleftrightarrow> expired (clk (IpExpired m ip)) (ie_seen ie) (ie_interval ie)"

definition check_one :: "clock \<Rightarrow> string \<Rightarrow> string \<Rightarrow> ip_entry \<Rightarrow> ip_entry option" where
  "check_one clk m ip ie =
     (if \<not> ip_expired clk m ip ie then Some ie
      else if ping_failed (ie_pings ie) then None
      else Some (ie\<lparr>ie_pings := ping_sent (clk (PingSent m ip)) (ie_pings ie)\<rparr>))"

definition pings_ip :: "clock \<Rightarrow> string \<Rightarrow> string \<Rightarrow> ip_entry \<Rightarrow> bool" where
  "pings_ip clk m ip ie \<longleftrightarrow> ip_expired clk m ip ie \<and> \<not> ping_failed (ie_pings ie)"

lemma check_ips_effect:
  assumes "dict_get (ht_datapaths h) (me_dpid e) = Some (Some dp)" "dict_ok ips"
    and "\<And>ip ie. (ip, ie) \<in> set ips \<Longrightarrow> dict_get (me_ipaddrs e) ip = Some ie"
  shows "\<exists>X outs. check_ips clk h ips e = (e\<lparr>me_ipaddrs := X\<rparr>, outs, list_ex (\<lambda>(ip, ie). pings_ip clk (me_macaddr e) ip ie) ips, None) \<and>
    (\<forall>m. HostLeave m \<notin> set outs) \<and> (dict_ok (me_ipaddrs e) \<longrightarrow> dict_ok X) \<and>
    (\<forall>ip. dict_get X ip = (case dict_get ips ip of Some ie \<Rightarrow> check_one clk (me_macaddr e) ip ie | None \<Rightarrow> dict_get (me_ipaddrs e) ip))"
  using assms
proof (induction ips arbitrary: e)
  case Nil
  then show ?case by (intro exI[of _ "me_ipaddrs e"] exI[of _ "[]"]) simp
next
  case (Cons x ips)
  obtain ip ie where x: "x = (ip, ie)" by fastforce
  have notin: "ip \<notin> set (dict_keys ips)" "dict_ok ips" using Cons.prems(2) x by simp_all
  have at_ip: "dict_get (me_ipaddrs e) ip = Some ie" using Cons.prems(3) x by simp
  define X0 where "X0 = (case check_one clk (me_macaddr e) ip ie of Some v \<Rightarrow> dict_set ip v (me_ipaddrs e) | None \<Rightarrow> dict_del ip (me_ipaddrs e))"
  have X0: "dict_get X0 i = (if i = ip then check_one clk (me_macaddr e) ip ie else dict_get (me_ipaddrs e) i)" "dict_ok (me_ipaddrs e) \<longrightarrow> dict_ok X0" for i
    by (simp_all add: X0_def split: option.splits)
  have rest: "dict_get X0 i = Some v" if "(i, v) \<in> set ips" for i v
    using that notin(1) Cons.prems(3)[of i v] x X0(1) by force
  have none: "dict_get ips ip = None" using notin(1) by (simp only: dict_get_None_iff not_False_eq_True)
  have step: "\<exists>outs0. (\<forall>m. HostLeave m \<notin> set outs0) \<and> check_ips clk h (x # ips) e =
      (case check_ips clk h ips (e\<lparr>me_ipaddrs := X0\<rparr>) of (e3, outs', pinged, err) \<Rightarrow> (e3, outs0 @ outs', pings_ip clk (me_macaddr e) ip ie \<or> pinged, err))"
  proof (cases "pings_ip clk (me_macaddr e) ip ie")
    case True
    then have "X0 = dict_set ip (ie\<lparr>ie_pings := ping_sent (clk (PingSent (me_macaddr e) ip)) (ie_pings ie)\<rparr>) (me_ipaddrs e)"
      by (simp add: X0_def check_one_def pings_ip_def ip_expired_def)
    then show ?thesis using True at_ip Cons.prems(1)
      by (intro exI[of _ "fst (snd (send_ping h e ip))"]) (simp add: x send_ping_def pings_ip_def ip_expired_def Let_def split: prod.splits)
  next
    case False
    have "dict_set ip ie (me_ipaddrs e) = me_ipaddrs e" using at_ip by (simp add: update_triv)
    then have "check_ips clk h (x # ips) e = check_ips clk h ips (e\<lparr>me_ipaddrs := X0\<rparr>)"
      using False by (auto simp: x X0_def check_one_def pings_ip_def ip_expired_def)
    then show ?thesis using False by (intro exI[of _ "[]"]) (simp split: prod.splits)
  qed
  have sel: "me_ipaddrs (e\<lparr>me_ipaddrs := X0\<rparr>) = X0" "me_macaddr (e\<lparr>me_ipaddrs := X0\<rparr>) = me_macaddr e" by simp_all
  obtain X outs where IH: "check_ips clk h ips (e\<lparr>me_ipaddrs := X0\<rparr>) = (e\<lparr>me_ipaddrs := X0\<rparr>\<lparr>me_ipaddrs := X\<rparr>, outs, list_ex (\<lambda>(ip, ie). pings_ip clk (me_macaddr e) ip ie) ips, None)"
      "\<forall>m. HostLeave m \<notin> set outs" "dict_ok X0 \<longrightarrow> dict_ok X"
      "\<And>i. dict_get X i = (case dict_get ips i of Some ie \<Rightarrow> check_one clk (me_macaddr e) i ie | None \<Rightarrow> dict_get X0 i)"
    using Cons.IH[of "e\<lparr>me_ipaddrs := X0\<rparr>", unfolded sel] Cons.prems(1) notin(2) rest by auto
  obtain outs0 where s: "\<forall>m. HostLeave m \<notin> set outs0"
      "check_ips clk h (x # ips) e = (e\<lparr>me_ipaddrs := X\<rparr>, outs0 @ outs, pings_ip clk (me_macaddr e) ip ie \<or> list_ex (\<lambda>(ip, ie). pings_ip clk (me_macaddr e) ip ie) ips, None)"
    using step IH(1) by auto
  have "dict_get X i = (case dict_get (x # ips) i of Some ie \<Rightarrow> check_one clk (me_macaddr e) i ie | None \<Rightarrow> dict_get (me_ipaddrs e) i)" for i
    using IH(4)[of i] X0(1)[of i] none x by (auto split: option.splits)
  then show ?case using s IH(2,3) X0(2) by (intro exI[of _ X] exI[of _ "outs0 @ outs"]) (auto simp: x)
qed

text \<open>
  The entry is dropped when it has expired at its own reading of the clock and no ping was sent. Then all
  its addresses had failed, or had not yet expired when they were tested: the clock has \<open>overtaken\<close> those.
\<close>

definition drops :: "clock \<Rightarrow> mac_entry \<Rightarrow> bool" where
  "drops clk e \<longleftrightarrow> expired (clk (MacExpired (me_macaddr e))) (me_seen e) (me_interval e) \<and>
     \<not> list_ex (\<lambda>(ip, ie). pings_ip clk (me_macaddr e) ip ie) (me_ipaddrs e)"

definition overtaken :: "clock \<Rightarrow> mac_entry \<Rightarrow> bool" where
  "overtaken clk e \<longleftrightarrow> drops clk e \<and> list_ex (\<lambda>(ip, ie). \<not> ip_expired clk (me_macaddr e) ip ie) (me_ipaddrs e)"

text \<open>The entry that a round leaves.\<close>

definition entry_after :: "clock \<Rightarrow> mac_entry \<Rightarrow> mac_entry option \<Rightarrow> bool" where
  "entry_after clk e r \<longleftrightarrow>
     (if drops clk e then r = None
      else \<exists>X. r = Some (e\<lparr>me_ipaddrs := X\<rparr>) \<and> (\<forall>ip. dict_get X ip = Option.bind (dict_get (me_ipaddrs e) ip) (check_one clk (me_macaddr e) ip)))"

lemma del_left_result:
  "del_left a ks d = (d', r) \<Longrightarrow> (r = None \<or> r = Some KeyError \<and> ks \<noteq> []) \<and> (dict_ok d \<longrightarrow> dict_ok d') \<and>
     (\<forall>ip v. dict_get d' ip = Some v \<longrightarrow> dict_get d ip = Some v)"
proof (induction a ks d rule: del_left.induct)
  case (2 a ip ips d)
  show ?case
  proof (cases "a \<in> set (dict_keys d)")
    case True
    then have "del_left a ips (dict_del a d) = (d', r)" using "2.prems" by (simp del: set_map)
    note IH = "2.IH"[OF True this]
    have "dict_get d ip = Some v" if "dict_get (dict_del a d) ip = Some v" for ip v using that by (simp split: if_splits)
    then show ?thesis using IH by (meson dict_ok_del list.distinct)
  next
    case False
    then show ?thesis using "2.prems" by (simp del: set_map)
  qed
qed simp

lemma track_ok_readdress:
  assumes ok: "track_ok h" and e: "dict_get (entry_by_mac h) m = Some e" and Y: "dict_ok Y" "\<And>ip v. dict_get Y ip = Some v \<Longrightarrow> ie_interval v \<le> arpSilent"
  shows "track_ok (h\<lparr>entry_by_mac := dict_set m (e\<lparr>me_ipaddrs := Y\<rparr>) (entry_by_mac h)\<rparr>)"
proof -
  have eok: "mac_entry_ok m e" and "\<exists>dp. dict_get (ht_datapaths h) (me_dpid e) = Some (Some dp)" using ok e unfolding track_ok_def by blast+
  then obtain dp where dp: "dict_get (ht_datapaths h) (me_dpid e) = Some (Some dp)" by blast
  have inv: "m' \<in> set (dict_keys (m2p_at d' (ht_mac_to_port h))) \<longleftrightarrow> (\<exists>e. dict_get (entry_by_mac h) m' = Some e \<and> me_dpid e = d')" for d' m'
    using ok by (simp add: track_ok_def del: set_map)
  have "track_ok (h\<lparr>ht_mac_to_port := ht_mac_to_port h, entry_by_mac := dict_set m (e\<lparr>me_ipaddrs := Y\<rparr>) (entry_by_mac h)\<rparr>)"
    using ok eok dp e inv Y by (intro track_ok_put) (auto simp: mac_entry_ok_def simp del: set_map)
  then show ?thesis by simp
qed

lemma track_ok_forget:
  assumes ok: "track_ok h" and e: "dict_get (entry_by_mac h) m = Some e"
  shows "track_ok (h\<lparr>ht_mac_to_port := fst (m2p_del (me_dpid e) m (ht_mac_to_port h)), entry_by_mac := dict_del m (entry_by_mac h)\<rparr>)" (is "track_ok ?h'")
  unfolding track_ok_def
proof (intro conjI allI impI)
  show "dict_ok (entry_by_mac ?h')" using ok by (simp add: track_ok_def)
  have "m' \<in> set (dict_keys (m2p_at d' (ht_mac_to_port h))) \<longleftrightarrow> (\<exists>e. dict_get (entry_by_mac h) m' = Some e \<and> me_dpid e = d')" for d' m'
    using ok by (simp add: track_ok_def del: set_map)
  then show "m' \<in> set (dict_keys (m2p_at d' (ht_mac_to_port ?h'))) \<longleftrightarrow> (\<exists>e'. dict_get (entry_by_mac ?h') m' = Some e' \<and> me_dpid e' = d')" for d' m'
    using m2p_del_eq(2)[of m' d' "me_dpid e" m "ht_mac_to_port h"] e by (auto simp del: set_map)
  show "mac_entry_ok m' e'" "\<exists>dp. dict_get (ht_datapaths ?h') (me_dpid e') = Some (Some dp)"
    if "dict_get (entry_by_mac ?h') m' = Some e'" for m' e'
    using ok that by (auto simp: track_ok_def split: if_splits)
qed

text \<open>
  A round on one entry ends without an exception, or with \<open>KeyError\<close> from the deletion of the addresses left,
  when the clock has overtaken one.
\<close>

lemma check_entry_effect:
  assumes ok: "track_ok h" and e: "dict_get (entry_by_mac h) m = Some e"
  shows "\<exists>h' outs err. check_entry clk e h = (h', outs, err) \<and> track_ok h' \<and> ht_datapaths h' = ht_datapaths h \<and>
    (\<forall>m'. m' \<noteq> m \<longrightarrow> dict_get (entry_by_mac h') m' = dict_get (entry_by_mac h) m') \<and>
    (err = None \<and> (\<forall>m'. HostLeave m' \<in> set outs \<longleftrightarrow> m' = m \<and> drops clk e) \<and> entry_after clk e (dict_get (entry_by_mac h') m) \<or>
     err = Some KeyError \<and> overtaken clk e)"
proof -
  have eok: "mac_entry_ok m e" and "\<exists>dp. dict_get (ht_datapaths h) (me_dpid e) = Some (Some dp)"
    using ok e unfolding track_ok_def by blast+
  then obtain dp where dp: "dict_get (ht_datapaths h) (me_dpid e) = Some (Some dp)" by blast
  have mac: "me_macaddr e = m" "dict_ok (me_ipaddrs e)" using eok by (simp_all add: mac_entry_ok_def)
  obtain X outs where c: "check_ips clk h (me_ipaddrs e) e = (e\<lparr>me_ipaddrs := X\<rparr>, outs, list_ex (\<lambda>(ip, ie). pings_ip clk m ip ie) (me_ipaddrs e), None)"
      "\<forall>m. HostLeave m \<notin> set outs" "dict_ok X"
      "\<And>ip. dict_get X ip = (case dict_get (me_ipaddrs e) ip of Some ie \<Rightarrow> check_one clk m ip ie | None \<Rightarrow> dict_get (me_ipaddrs e) ip)"
    using check_ips_effect[OF dp mac(2), of clk, unfolded mac(1)] mac(2) by (auto simp: dict_get_Some_iff)
  have X: "dict_get X ip = Option.bind (dict_get (me_ipaddrs e) ip) (check_one clk m ip)" for ip
    using c(4)[of ip] by (simp split: option.splits)
  have low: "ie_interval v \<le> arpSilent" if v: "dict_get X ip = Some v" for ip v
  proof -
    obtain ie where "dict_get (me_ipaddrs e) ip = Some ie" "check_one clk m ip ie = Some v" using v X by (auto simp: bind_eq_Some_conv)
    then show ?thesis using eok by (auto simp: mac_entry_ok_def check_one_def split: if_splits)
  qed
  let ?e = "e\<lparr>me_ipaddrs := X\<rparr>" and ?h = "h\<lparr>entry_by_mac := dict_set m (e\<lparr>me_ipaddrs := X\<rparr>) (entry_by_mac h)\<rparr>"
  have okh: "track_ok ?h" by (rule track_ok_readdress[OF ok e c(3) low])
  have eh: "dict_get (entry_by_mac ?h) m = Some ?e" by simp
  show ?thesis
  proof (cases "drops clk e")
    case False
    then have "check_entry clk e h = (?h, outs, None)" using c(1) mac by (auto simp: check_entry_def Let_def drops_def)
    then show ?thesis using okh c(2) False X mac(1) by (intro exI[of _ ?h] exI[of _ outs] exI[of _ None]) (auto simp: entry_after_def)
  next
    case True
    define a where "a = last ([] # dict_keys (me_ipaddrs e))"
    obtain d r where d: "del_left a (dict_keys X) X = (d, r)" by fastforce
    note dl = del_left_result[OF d]
    have ce: "check_entry clk e h = (case expire_entry a ?e ?h of (h'', outs', err) \<Rightarrow> (h'', outs @ outs', err))"
      using c(1) mac True by (simp add: check_entry_def Let_def drops_def a_def)
    show ?thesis
    proof (cases r)
      case None
      let ?t = "fst (m2p_del (me_dpid e) m (ht_mac_to_port h))"
      let ?h' = "?h\<lparr>ht_mac_to_port := ?t, entry_by_mac := dict_del m (entry_by_mac ?h)\<rparr>"
      have "m \<in> set (dict_keys (m2p_at (me_dpid e) (ht_mac_to_port h)))" using ok e unfolding track_ok_def by blast
      note del = m2p_del_eq(1)[OF this]
      have "expire_entry a ?e ?h = (?h', [HostLeave m], None)"
        using mac d None del by (cases "m2p_del (me_dpid e) m (ht_mac_to_port h)") (simp add: expire_entry_def)
      then have "check_entry clk e h = (?h', outs @ [HostLeave m], None)" using ce by simp
      moreover have "track_ok ?h'" using track_ok_forget[OF okh eh] by simp
      ultimately show ?thesis using c(2) True by (intro exI[of _ ?h'] exI[of _ "outs @ [HostLeave m]"] exI[of _ None]) (auto simp: entry_after_def)
    next
      case (Some er)
      then have er: "er = KeyError" "X \<noteq> []" "dict_ok d" using dl c(3) by auto
      let ?h' = "?h\<lparr>entry_by_mac := dict_set m (?e\<lparr>me_ipaddrs := d\<rparr>) (entry_by_mac ?h)\<rparr>"
      have "expire_entry a ?e ?h = (?h', [], Some KeyError)" using mac d Some er by (simp add: expire_entry_def)
      then have "check_entry clk e h = (?h', outs, Some KeyError)" using ce by simp
      moreover have "track_ok ?h'" by (rule track_ok_readdress[OF okh eh er(3)]) (use dl low in blast)
      moreover have "overtaken clk e"
      proof -
        obtain ip v where "dict_get X ip = Some v" using er(2) that[of "fst (hd X)" "snd (hd X)"] by (cases X) auto
        then obtain ie where ie: "dict_get (me_ipaddrs e) ip = Some ie" "check_one clk m ip ie = Some v" using X by (auto simp: bind_eq_Some_conv)
        have mem: "(ip, ie) \<in> set (me_ipaddrs e)" by (rule map_of_SomeD[OF ie(1)])
        then have "\<not> pings_ip clk m ip ie" using True mac(1) by (auto simp: drops_def list_ex_iff)
        then have "\<not> ip_expired clk m ip ie" using ie(2) by (auto simp: check_one_def pings_ip_def split: if_splits)
        then show ?thesis using True mem mac(1) by (auto simp: overtaken_def list_ex_iff)
      qed
      ultimately show ?thesis by (intro exI[of _ ?h'] exI[of _ outs] exI[of _ "Some KeyError"]) simp
    qed
  qed
qed

lemma check_entries_effect:
  assumes "track_ok h" "distinct (map me_macaddr es)" "\<And>e. e \<in> set es \<Longrightarrow> dict_get (entry_by_mac h) (me_macaddr e) = Some e"
  shows "\<exists>h' outs err. check_entries clk es h = (h', outs, err) \<and> track_ok h' \<and> ht_datapaths h' = ht_datapaths h \<and>
    (\<forall>m. m \<notin> set (map me_macaddr es) \<longrightarrow> dict_get (entry_by_mac h') m = dict_get (entry_by_mac h) m) \<and>
    (err = None \<and> (\<forall>m. HostLeave m \<in> set outs \<longleftrightarrow> (\<exists>e \<in> set es. me_macaddr e = m \<and> drops clk e)) \<and>
       (\<forall>e \<in> set es. entry_after clk e (dict_get (entry_by_mac h') (me_macaddr e))) \<or>
     err = Some KeyError \<and> (\<exists>e \<in> set es. overtaken clk e))"
  using assms
proof (induction es arbitrary: h)
  case (Cons e es)
  let ?m = "me_macaddr e"
  have "dict_get (entry_by_mac h) ?m = Some e" using Cons.prems(3) by simp
  from check_entry_effect[OF Cons.prems(1) this, of clk] obtain h1 outs1 err1 where 1:
    "check_entry clk e h = (h1, outs1, err1)" "track_ok h1" "ht_datapaths h1 = ht_datapaths h"
    "\<And>m'. m' \<noteq> ?m \<Longrightarrow> dict_get (entry_by_mac h1) m' = dict_get (entry_by_mac h) m'"
    and r1: "err1 = None \<and> (\<forall>m'. HostLeave m' \<in> set outs1 \<longleftrightarrow> m' = ?m \<and> drops clk e) \<and> entry_after clk e (dict_get (entry_by_mac h1) ?m) \<or>
      err1 = Some KeyError \<and> overtaken clk e" by blast
  show ?case
  proof (cases err1)
    case (Some x)
    then have "check_entries clk (e # es) h = (h1, outs1, Some KeyError)" "overtaken clk e" using 1(1) r1 by auto
    then show ?thesis using 1(2-4) by (intro exI[of _ h1] exI[of _ outs1] exI[of _ "Some KeyError"]) auto
  next
    case None
    then have r1': "\<And>m'. HostLeave m' \<in> set outs1 \<longleftrightarrow> m' = ?m \<and> drops clk e" "entry_after clk e (dict_get (entry_by_mac h1) ?m)" using r1 by auto
    have es: "dict_get (entry_by_mac h1) (me_macaddr e') = Some e'" if h: "e' \<in> set es" for e'
    proof -
      have "me_macaddr e' \<noteq> ?m" using Cons.prems(2) h by (metis distinct.simps(2) imageI list.set_map list.simps(9))
      then show ?thesis using 1(4) Cons.prems(3)[of e'] h by simp
    qed
    have d: "distinct (map me_macaddr es)" using Cons.prems(2) by simp
    obtain h2 outs2 err2 where 2:
      "check_entries clk es h1 = (h2, outs2, err2)" "track_ok h2" "ht_datapaths h2 = ht_datapaths h1"
      "\<And>m. m \<notin> set (map me_macaddr es) \<Longrightarrow> dict_get (entry_by_mac h2) m = dict_get (entry_by_mac h1) m"
      and r2: "err2 = None \<and> (\<forall>m. HostLeave m \<in> set outs2 \<longleftrightarrow> (\<exists>e \<in> set es. me_macaddr e = m \<and> drops clk e)) \<and>
         (\<forall>e \<in> set es. entry_after clk e (dict_get (entry_by_mac h2) (me_macaddr e))) \<or>
       err2 = Some KeyError \<and> (\<exists>e \<in> set es. overtaken clk e)"
      using Cons.IH[OF 1(2) d es] by blast
    have m: "dict_get (entry_by_mac h2) ?m = dict_get (entry_by_mac h1) ?m" using 2(4) Cons.prems(2) by simp
    have "check_entries clk (e # es) h = (h2, outs1 @ outs2, err2)" using 1(1) 2(1) None by simp
    moreover have "dict_get (entry_by_mac h2) m' = dict_get (entry_by_mac h) m'" if "m' \<notin> set (map me_macaddr (e # es))" for m'
      using 1(4)[of m'] 2(4)[of m'] that by simp
    moreover have "ht_datapaths h2 = ht_datapaths h" using 1(3) 2(3) by simp
    moreover have "err2 = None \<and> (\<forall>m. HostLeave m \<in> set (outs1 @ outs2) \<longleftrightarrow> (\<exists>e \<in> set (e # es). me_macaddr e = m \<and> drops clk e)) \<and>
       (\<forall>e \<in> set (e # es). entry_after clk e (dict_get (entry_by_mac h2) (me_macaddr e))) \<or>
       err2 = Some KeyError \<and> (\<exists>e \<in> set (e # es). overtaken clk e)"
    proof (cases err2)
      case None
      then have r2': "\<And>m. HostLeave m \<in> set outs2 \<longleftrightarrow> (\<exists>e \<in> set es. me_macaddr e = m \<and> drops clk e)"
        "\<And>e. e \<in> set es \<Longrightarrow> entry_after clk e (dict_get (entry_by_mac h2) (me_macaddr e))" using r2 by auto
      have "HostLeave m' \<in> set (outs1 @ outs2) \<longleftrightarrow> (\<exists>e \<in> set (e # es). me_macaddr e = m' \<and> drops clk e)" for m'
        using r1'(1) r2'(1) by auto
      moreover have "entry_after clk e' (dict_get (entry_by_mac h2) (me_macaddr e'))" if "e' \<in> set (e # es)" for e'
        using that r1'(2) r2'(2)[of e'] m by (cases "e' = e") simp_all
      ultimately show ?thesis using None by blast
    qed (use r2 in auto)
    ultimately show ?thesis using 2(2) by (intro exI[of _ h2] exI[of _ "outs1 @ outs2"] exI[of _ err2]) blast
  qed
qed simp

text \<open>A whole round, by address.\<close>

lemma check_timeouts_effect:
  assumes ok: "track_ok h"
  shows "\<exists>h' outs err. check_timeouts clk h = (h', outs, err) \<and> track_ok h' \<and> ht_datapaths h' = ht_datapaths h \<and>
    (err = None \<and> (\<forall>m. HostLeave m \<in> set outs \<longleftrightarrow> (\<exists>e. dict_get (entry_by_mac h) m = Some e \<and> drops clk e)) \<and>
       (\<forall>m. case dict_get (entry_by_mac h) m of
          None \<Rightarrow> dict_get (entry_by_mac h') m = None
        | Some e \<Rightarrow> entry_after clk e (dict_get (entry_by_mac h') m)) \<or>
     err = Some KeyError \<and> (\<exists>e \<in> set (dict_values (entry_by_mac h)). overtaken clk e))"
proof -
  let ?es = "dict_values (entry_by_mac h)"
  have dok: "dict_ok (entry_by_mac h)" using ok by (simp add: track_ok_def)
  have mac: "me_macaddr e = m" if "(m, e) \<in> set (entry_by_mac h)" for m e
    using ok that dok unfolding track_ok_def mac_entry_ok_def by force
  then have macs: "map me_macaddr ?es = dict_keys (entry_by_mac h)" by auto
  have mem: "e \<in> set ?es \<longleftrightarrow> dict_get (entry_by_mac h) (me_macaddr e) = Some e" for e
    using dok mac by (force simp: dict_get_Some_iff)
  have dist: "distinct (map me_macaddr ?es)" unfolding macs by (rule dok)
  obtain h' outs err where r: "check_entries clk ?es h = (h', outs, err)" "track_ok h'" "ht_datapaths h' = ht_datapaths h"
    "\<And>m. m \<notin> set (map me_macaddr ?es) \<Longrightarrow> dict_get (entry_by_mac h') m = dict_get (entry_by_mac h) m"
    and rr: "err = None \<and> (\<forall>m. HostLeave m \<in> set outs \<longleftrightarrow> (\<exists>e \<in> set ?es. me_macaddr e = m \<and> drops clk e)) \<and>
       (\<forall>e \<in> set ?es. entry_after clk e (dict_get (entry_by_mac h') (me_macaddr e))) \<or> err = Some KeyError \<and> (\<exists>e \<in> set ?es. overtaken clk e)"
    using check_entries_effect[OF ok dist mem[THEN iffD1], of clk] by blast
  show ?thesis
  proof (cases err)
    case (Some x)
    then show ?thesis using r(1-3) rr unfolding check_timeouts_def by blast
  next
    case None
    then have r': "\<And>m. HostLeave m \<in> set outs \<longleftrightarrow> (\<exists>e \<in> set ?es. me_macaddr e = m \<and> drops clk e)"
      "\<And>e. e \<in> set ?es \<Longrightarrow> entry_after clk e (dict_get (entry_by_mac h') (me_macaddr e))" using rr by auto
  have mac': "me_macaddr e = m" if "dict_get (entry_by_mac h) m = Some e" for m e using mac map_of_SomeD[OF that] by blast
  have "HostLeave m \<in> set outs \<longleftrightarrow> (\<exists>e. dict_get (entry_by_mac h) m = Some e \<and> drops clk e)" for m
    unfolding r'(1) using mem mac' by metis
  moreover have "case dict_get (entry_by_mac h) m of
       None \<Rightarrow> dict_get (entry_by_mac h') m = None
     | Some e \<Rightarrow> entry_after clk e (dict_get (entry_by_mac h') m)" for m
  proof (cases "dict_get (entry_by_mac h) m")
    case None
    then have "m \<notin> set (map me_macaddr ?es)" unfolding macs by (simp only: dict_get_None_iff not_False_eq_True)
    then show ?thesis using r(4) None by simp
  next
    case (Some e)
    have "e \<in> set ?es" using mem[of e] mac'[OF Some] Some by simp
    then show ?thesis using r'(2)[of e] Some mac'[OF Some] by simp
  qed
  ultimately show ?thesis using r(1-3) None unfolding check_timeouts_def by blast
  qed
qed


section \<open>Runs of the tracker\<close>

text \<open>
  The tracker after any events: switches connect, connected switches send packets, the timer fires. The clock may
  have any value at any reading.
\<close>

inductive host_reach :: "host_track \<Rightarrow> bool" where
  start: "host_reach new_host_track"
| features: "host_reach h \<Longrightarrow> host_reach (fst (arp_response_flow_entry dp h))"
| packet: "host_reach h \<Longrightarrow> pi_dpid msg \<in> set (dict_keys (ht_datapaths h)) \<Longrightarrow> host_reach (fst (track_packet_in clk links msg h))"
| timer: "host_reach h \<Longrightarrow> host_reach (fst (check_timeouts clk h))"

lemma track_other_packet:
  "\<nexists>src. host_packet links msg src \<Longrightarrow>
   track_packet_in clk links msg h = (h, [], if pi_in_port msg \<le> OFPP_MAX \<and> parse_ethernet (pi_protocols msg) = None then Some IndexError else None)"
  by (auto simp: track_packet_in_def host_packet_def Let_def split: option.splits)

definition connected_ok :: "host_track \<Rightarrow> bool" where
  "connected_ok h \<longleftrightarrow> (\<forall>d \<in> set (dict_keys (ht_datapaths h)). \<exists>dp. dict_get (ht_datapaths h) d = Some (Some dp))"

lemma host_reach_ok: "host_reach h \<Longrightarrow> track_ok h \<and> connected_ok h"
proof (induction rule: host_reach.induct)
  case start
  show ?case using track_ok_start by (simp add: connected_ok_def new_host_track_def)
next
  case (features h dp)
  have "connected_ok (fst (arp_response_flow_entry dp h))" using features.IH
    by (auto simp: connected_ok_def arp_response_flow_entry_def keys_dict_set simp del: set_map)
  then show ?case using features track_ok_features by blast
next
  case (packet h msg clk links)
  obtain dp where dp: "dict_get (ht_datapaths h) (pi_dpid msg) = Some (Some dp)" using packet unfolding connected_ok_def by blast
  obtain h' outs err where r: "track_packet_in clk links msg h = (h', outs, err)" by (cases "track_packet_in clk links msg h")
  show ?case
  proof (cases "\<exists>src. host_packet links msg src")
    case True
    then obtain src where "host_packet links msg src" by blast
    note t = track_host_packet(2,3)[OF conjunct1[OF packet.IH] this dp r]
    then show ?thesis using packet.IH r by (simp add: connected_ok_def)
  next
    case False
    have "fst (track_packet_in clk links msg h) = h" by (simp add: track_other_packet[OF False])
    then show ?thesis using packet by auto
  qed
next
  case (timer h clk)
  obtain h' outs err where t: "check_timeouts clk h = (h', outs, err)" "track_ok h'" "ht_datapaths h' = ht_datapaths h"
    using check_timeouts_effect[OF conjunct1[OF timer.IH], of clk] by blast
  have "connected_ok h'" using timer.IH t(3) by (simp add: connected_ok_def)
  then show ?case using t by simp
qed

text \<open>
  C23. The two tables of the tracker agree: in every run, whatever the clock shows, \<open>mac_to_port\<close> has an address at a switch exactly
  when the entry of the address is at that switch. So the handler of packets never raises on a
  packet with an Ethernet layer from a connected switch. A round of the timer ends, without an exception unless
  the clock has overtaken an address of an entry: it had not expired when it was tested, but the entry has, a moment
  later. Then the loop over the addresses left is entered, which deletes the wrong address, and may raise \<open>KeyError\<close>; the tables agree
  also after that. In the witness, an entry whose two addresses are overtaken ends the round.
\<close>

theorem tracker_tables_agree:
  assumes "host_reach h"
  shows "(m \<in> set (dict_keys (m2p_at d (ht_mac_to_port h))) \<longleftrightarrow> (\<exists>e. dict_get (entry_by_mac h) m = Some e \<and> me_dpid e = d)) \<and>
    (pi_dpid msg \<in> set (dict_keys (ht_datapaths h)) \<and> parse_ethernet (pi_protocols msg) \<noteq> None \<longrightarrow>
       snd (snd (track_packet_in clk links msg h)) = None) \<and>
    (snd (snd (check_timeouts clk h)) = None \<or>
     snd (snd (check_timeouts clk h)) = Some KeyError \<and> (\<exists>e \<in> set (dict_values (entry_by_mac h)). overtaken clk e))"
proof (intro conjI impI)
  have ok: "track_ok h" "connected_ok h" using host_reach_ok[OF assms(1)] by simp_all
  show "m \<in> set (dict_keys (m2p_at d (ht_mac_to_port h))) \<longleftrightarrow> (\<exists>e. dict_get (entry_by_mac h) m = Some e \<and> me_dpid e = d)"
    using ok(1) by (simp add: track_ok_def del: set_map)
  show "snd (snd (check_timeouts clk h)) = None \<or>
     snd (snd (check_timeouts clk h)) = Some KeyError \<and> (\<exists>e \<in> set (dict_values (entry_by_mac h)). overtaken clk e)"
    using check_timeouts_effect[OF ok(1), of clk] by (elim exE conjE) (simp only: snd_conv, blast)
  assume a: "pi_dpid msg \<in> set (dict_keys (ht_datapaths h)) \<and> parse_ethernet (pi_protocols msg) \<noteq> None"
  then obtain dp where dp: "dict_get (ht_datapaths h) (pi_dpid msg) = Some (Some dp)" using ok(2) unfolding connected_ok_def by blast
  show "snd (snd (track_packet_in clk links msg h)) = None"
  proof (cases "\<exists>src. host_packet links msg src")
    case True
    then obtain src where p: "host_packet links msg src" by blast
    obtain h' outs err where r: "track_packet_in clk links msg h = (h', outs, err)" by (cases "track_packet_in clk links msg h")
    show ?thesis using track_host_packet(1)[OF ok(1) p dp r] r by simp
  qed (use a in \<open>simp add: track_other_packet\<close>)
qed

definition wit_track_dp :: datapath where "wit_track_dp = \<lparr>dp_id = 1, dp_address = [], dp_ports = []\<rparr>"

definition wit_packet :: "nat \<Rightarrow> string \<Rightarrow> packet_in" where
  "wit_packet p ip = \<lparr>pi_dpid = 1, pi_in_port = p, pi_buffer_id = 0, pi_data = [], pi_protocols = [Ethernet ''00:01'' ''00:02'', Ipv4 \<lparr>ipp_src = ip, ipp_dst = ''10.0.0.2'', ipp_proto = 6\<rparr>]\<rparr>"

definition wit_track :: host_track where
  "wit_track = fst (track_packet_in (\<lambda>_. 0) [] (wit_packet 3 ''10.0.0.1'') (fst (arp_response_flow_entry wit_track_dp new_host_track)))"

definition wit_track2 :: host_track where
  "wit_track2 = fst (track_packet_in (\<lambda>_. 0) [] (wit_packet 3 ''10.0.0.9'') wit_track)"

text \<open>The addresses are tested at 200, the entry at 201.\<close>

definition wit_clock :: clock where
  "wit_clock r = (case r of MacExpired _ \<Rightarrow> 201 | _ \<Rightarrow> 200)"

lemmas wit_track_eval = wit_track_def track_packet_in_def arp_response_flow_entry_def new_host_track_def wit_packet_def wit_track_dp_def
  parse_ethernet_def is_link_port_def m2p_set_def m2p_at_def learn_ip_def get_src_ip_and_arp_def update_ip_info_def MacEntry_def IpEntry_def PingCtrl_def OFPP_MAX_def

lemma wit_track_reach: "host_reach wit_track" "host_reach wit_track2"
proof -
  show 1: "host_reach wit_track" unfolding wit_track_def
    by (intro host_reach.packet host_reach.features host_reach.start) (simp add: arp_response_flow_entry_def new_host_track_def wit_packet_def wit_track_dp_def)
  show "host_reach wit_track2" unfolding wit_track2_def
    by (rule host_reach.packet[OF 1]) (simp add: wit_track_eval)
qed

lemma wit_overtaken: "snd (snd (check_timeouts wit_clock wit_track2)) = Some KeyError"
  by (simp add: check_timeouts_def wit_track2_def wit_track_eval entry_eq_def check_entry_def expired_def arpSilent_def wit_clock_def expire_entry_def)

theorem tracker_tables_agree_witness:
  "''00:01'' \<in> set (dict_keys (m2p_at 1 (ht_mac_to_port wit_track))) \<and>
   snd (snd (track_packet_in (\<lambda>_. 7) [] (wit_packet 5 ''10.0.0.1'') wit_track)) = None \<and>
   snd (snd (check_timeouts wit_clock wit_track2)) = Some KeyError \<and>
   (\<exists>e \<in> set (dict_values (entry_by_mac wit_track2)). overtaken wit_clock e)"
proof -
  have "\<exists>e. dict_get (entry_by_mac wit_track) ''00:01'' = Some e \<and> me_dpid e = 1" by (simp add: wit_track_eval)
  moreover have "pi_dpid (wit_packet 5 ''10.0.0.1'') \<in> set (dict_keys (ht_datapaths wit_track))" "parse_ethernet (pi_protocols (wit_packet 5 ''10.0.0.1'')) \<noteq> None"
    by (simp_all add: wit_track_eval)
  ultimately show ?thesis
    using tracker_tables_agree[OF wit_track_reach(1), of "''00:01''" 1 "wit_packet 5 ''10.0.0.1''" "\<lambda>_. 7" "[]"]
      tracker_tables_agree[OF wit_track_reach(2), of "''00:01''" 1 "wit_packet 5 ''10.0.0.1''" wit_clock "[]"] wit_overtaken
    by (metis option.distinct(1))
qed

section \<open>Hosts that are silent\<close>

text \<open>Rounds of the timer; an exception ends its thread.\<close>

fun timer_runs :: "clock list \<Rightarrow> host_track \<Rightarrow> host_track \<times> host_out list" where
  "timer_runs [] h = (h, [])"
| "timer_runs (clk # ts) h =
     (case check_timeouts clk h of
        (h', outs, Some err) \<Rightarrow> (h', outs)
      | (h', outs, None) \<Rightarrow> (case timer_runs ts h' of (h'', outs') \<Rightarrow> (h'', outs @ outs')))"

text \<open>At the time \<open>t\<close> the tracker has not seen a host, or an address of one, for the time \<open>arpSilent\<close>.\<close>

definition quiet :: "real \<Rightarrow> host_track \<Rightarrow> bool" where
  "quiet t h \<longleftrightarrow> (\<forall>m e. dict_get (entry_by_mac h) m = Some e \<longrightarrow> expired t (me_seen e) arpSilent \<and>
     (\<forall>ip ie. dict_get (me_ipaddrs e) ip = Some ie \<longrightarrow> expired t (ie_seen ie) arpSilent))"

definition tried :: "nat \<Rightarrow> host_track \<Rightarrow> bool" where
  "tried k h \<longleftrightarrow> (\<forall>m e ip ie. dict_get (entry_by_mac h) m = Some e \<longrightarrow> dict_get (me_ipaddrs e) ip = Some ie \<longrightarrow> k \<le> pending (ie_pings ie))"

text \<open>When everything is quiet, a round pings every address it keeps, and after four pings it keeps none.\<close>

lemma quiet_round:
  assumes ok: "track_ok h" and q: "\<forall>r. quiet (clk r) h" and k: "tried k h" and r: "check_timeouts clk h = (h', outs, err)"
  shows "err = None" "track_ok h'" "tried (Suc k) h'" "\<And>t. quiet t h \<Longrightarrow> quiet t h'" "4 \<le> k \<Longrightarrow> entry_by_mac h' = []"
    "HostLeave m \<in> set outs \<longleftrightarrow> dict_get (entry_by_mac h) m \<noteq> None \<and> dict_get (entry_by_mac h') m = None"
    "dict_get (entry_by_mac h) m = None \<Longrightarrow> dict_get (entry_by_mac h') m = None"
proof -
  have exp: "ip_expired clk m ip ie" if h: "dict_get (entry_by_mac h) m' = Some e" "dict_get (me_ipaddrs e) ip = Some ie" for m m' e ip ie
  proof -
    have "ie_interval ie \<le> arpSilent" using ok h unfolding track_ok_def mac_entry_ok_def by blast
    moreover have "expired (clk (IpExpired m ip)) (ie_seen ie) arpSilent" using q h unfolding quiet_def by blast
    ultimately show ?thesis by (simp add: expired_def ip_expired_def)
  qed
  have dok: "dict_ok (entry_by_mac h)" "\<And>m e. dict_get (entry_by_mac h) m = Some e \<Longrightarrow> dict_ok (me_ipaddrs e)"
    using ok unfolding track_ok_def mac_entry_ok_def by blast+
  have "\<not> overtaken clk e" if e: "e \<in> set (dict_values (entry_by_mac h))" for e
  proof -
    obtain m where "dict_get (entry_by_mac h) m = Some e" using e dok(1) by (auto simp: dict_get_Some_iff)
    then show ?thesis using exp dok(2) by (auto simp: overtaken_def list_ex_iff dict_get_Some_iff)
  qed
  then have err: "err = None" and ok': "track_ok h'"
    and lv: "\<And>m. HostLeave m \<in> set outs \<longleftrightarrow> (\<exists>e. dict_get (entry_by_mac h) m = Some e \<and> drops clk e)"
    and af: "\<And>m. case dict_get (entry_by_mac h) m of None \<Rightarrow> dict_get (entry_by_mac h') m = None
       | Some e \<Rightarrow> entry_after clk e (dict_get (entry_by_mac h') m)" using check_timeouts_effect[OF ok, of clk] r by auto
  show "err = None" "track_ok h'" by (rule err, rule ok')
  have from_old: "\<exists>e X. dict_get (entry_by_mac h) m = Some e \<and> \<not> drops clk e \<and> e' = e\<lparr>me_ipaddrs := X\<rparr> \<and>
      (\<forall>ip. dict_get X ip = Option.bind (dict_get (me_ipaddrs e) ip) (check_one clk (me_macaddr e) ip))" if h: "dict_get (entry_by_mac h') m = Some e'" for m e'
    using af[of m] h by (auto simp: entry_after_def split: option.splits if_splits)
  show "tried (Suc k) h'"
    unfolding tried_def
  proof (intro allI impI)
    fix m e' ip ie' assume a: "dict_get (entry_by_mac h') m = Some e'" "dict_get (me_ipaddrs e') ip = Some ie'"
    obtain e ie where e: "dict_get (entry_by_mac h) m = Some e" "dict_get (me_ipaddrs e) ip = Some ie" "check_one clk (me_macaddr e) ip ie = Some ie'"
      using from_old[OF a(1)] a(2) by (auto simp: bind_eq_Some_conv)
    have "k \<le> pending (ie_pings ie)" using k e(1,2) unfolding tried_def by blast
    then show "Suc k \<le> pending (ie_pings ie')" using e(3) exp[OF e(1,2)] by (auto simp: check_one_def ping_sent_def split: if_splits)
  qed
  show "quiet t h'" if qt: "quiet t h" for t
    unfolding quiet_def
  proof (intro allI impI conjI)
    fix m e' assume a: "dict_get (entry_by_mac h') m = Some e'"
    obtain e X where e: "dict_get (entry_by_mac h) m = Some e" "e' = e\<lparr>me_ipaddrs := X\<rparr>"
      "\<And>ip. dict_get X ip = Option.bind (dict_get (me_ipaddrs e) ip) (check_one clk (me_macaddr e) ip)" using from_old[OF a] by blast
    show "expired t (me_seen e') arpSilent" using qt e(1,2) by (simp add: quiet_def)
    fix ip ie' assume "dict_get (me_ipaddrs e') ip = Some ie'"
    then obtain ie where ie: "dict_get (me_ipaddrs e) ip = Some ie" "check_one clk (me_macaddr e) ip ie = Some ie'" using e(2,3) by (auto simp: bind_eq_Some_conv)
    then have "ie_seen ie' = ie_seen ie" by (auto simp: check_one_def split: if_splits)
    then show "expired t (ie_seen ie') arpSilent" using qt e(1) ie(1) unfolding quiet_def by metis
  qed
  show "entry_by_mac h' = []" if "4 \<le> k"
  proof -
    have "dict_get (entry_by_mac h') m = None" for m
    proof (rule ccontr)
      assume "dict_get (entry_by_mac h') m \<noteq> None"
      then obtain e where e: "dict_get (entry_by_mac h) m = Some e" "\<not> drops clk e" using from_old by blast
      have "me_interval e = arpSilent" "dict_ok (me_ipaddrs e)" using ok e(1) unfolding track_ok_def mac_entry_ok_def by blast+
      moreover have "expired (clk (MacExpired (me_macaddr e))) (me_seen e) arpSilent" using q e unfolding quiet_def by blast
      ultimately obtain ip ie where "dict_get (me_ipaddrs e) ip = Some ie" "pings_ip clk (me_macaddr e) ip ie"
        using e(2) by (auto simp: drops_def list_ex_iff dict_get_Some_iff)
      moreover from this have "k \<le> pending (ie_pings ie)" using k e unfolding tried_def by blast
      ultimately show False using \<open>4 \<le> k\<close> by (simp add: pings_ip_def ping_failed_def pingLim_def)
    qed
    then show ?thesis using map_of_eq_empty_iff[of "entry_by_mac h'"] by presburger
  qed
  show "HostLeave m \<in> set outs \<longleftrightarrow> dict_get (entry_by_mac h) m \<noteq> None \<and> dict_get (entry_by_mac h') m = None"
    using lv[of m] af[of m] by (auto simp: entry_after_def split: option.splits if_splits)
  show "dict_get (entry_by_mac h) m = None \<Longrightarrow> dict_get (entry_by_mac h') m = None" using af[of m] by simp
qed

lemma timer_runs_quiet:
  assumes "track_ok h" "\<forall>clk \<in> set ts. \<forall>r. quiet (clk r) h" "tried k h" "5 \<le> k \<Longrightarrow> entry_by_mac h = []" "5 \<le> k + length ts"
  shows "track_ok (fst (timer_runs ts h)) \<and> entry_by_mac (fst (timer_runs ts h)) = [] \<and>
    (\<forall>m. HostLeave m \<in> set (snd (timer_runs ts h)) \<longleftrightarrow> dict_get (entry_by_mac h) m \<noteq> None)"
  using assms
proof (induction ts arbitrary: h k)
  case (Cons clk ts)
  obtain h' outs err where r: "check_timeouts clk h = (h', outs, err)" by (cases "check_timeouts clk h")
  have "\<forall>r. quiet (clk r) h" using Cons.prems(2) by simp
  note q = quiet_round[OF Cons.prems(1) this Cons.prems(3) r]
  have "\<forall>clk \<in> set ts. \<forall>r. quiet (clk r) h'" using Cons.prems(2) q(4) by simp
  moreover have "5 \<le> Suc k \<Longrightarrow> entry_by_mac h' = []" using q(5) by simp
  moreover have "5 \<le> Suc k + length ts" using Cons.prems(5) by simp
  ultimately have IH: "track_ok (fst (timer_runs ts h')) \<and> entry_by_mac (fst (timer_runs ts h')) = [] \<and>
    (\<forall>m. HostLeave m \<in> set (snd (timer_runs ts h')) \<longleftrightarrow> dict_get (entry_by_mac h') m \<noteq> None)"
    using Cons.IH[OF q(2) _ q(3)] by blast
  have "timer_runs (clk # ts) h = (fst (timer_runs ts h'), outs @ snd (timer_runs ts h'))" using r q(1) by (simp add: case_prod_beta)
  then show ?case using IH q(6,7) by (metis Un_iff fst_conv set_append snd_conv)
qed simp

text \<open>
  C24. Hosts that fall silent are forgotten: when at every reading of the clock no packet of the hosts has come for the time
  \<open>arpSilent\<close>, then after five rounds of the timer (four pings of each address, and the round that
  gives up) the tracker has forgotten every host, in both tables, and exactly the hosts it knew have
  been announced as left.
\<close>

theorem silent_hosts_leave:
  assumes "host_reach h" "5 \<le> length ts" "\<forall>clk \<in> set ts. \<forall>r. quiet (clk r) h"
  shows "entry_by_mac (fst (timer_runs ts h)) = [] \<and>
    m2p_at d (ht_mac_to_port (fst (timer_runs ts h))) = [] \<and>
    (HostLeave m \<in> set (snd (timer_runs ts h)) \<longleftrightarrow> m \<in> set (dict_keys (entry_by_mac h)))"
proof (intro conjI)
  have ok: "track_ok h" using host_reach_ok[OF assms(1)] by simp
  have "tried 0 h" by (simp add: tried_def)
  then have t: "track_ok (fst (timer_runs ts h))" "entry_by_mac (fst (timer_runs ts h)) = []"
    "\<And>m. HostLeave m \<in> set (snd (timer_runs ts h)) \<longleftrightarrow> dict_get (entry_by_mac h) m \<noteq> None"
    using timer_runs_quiet[OF ok assms(3), of 0] assms(2) by auto
  show "entry_by_mac (fst (timer_runs ts h)) = []" by (rule t(2))
  have "set (dict_keys (m2p_at d (ht_mac_to_port (fst (timer_runs ts h))))) = {}"
    using t(1,2) by (auto simp: track_ok_def simp del: set_map)
  then show "m2p_at d (ht_mac_to_port (fst (timer_runs ts h))) = []" by simp
  show "HostLeave m \<in> set (snd (timer_runs ts h)) \<longleftrightarrow> m \<in> set (dict_keys (entry_by_mac h))"
    unfolding t(3) dict_get_None_iff by simp
qed

definition wit_rounds :: "clock list" where
  "wit_rounds = map (\<lambda>t r. t) [201, 206, 211, 216, 221]"

theorem silent_hosts_leave_witness:
  "entry_by_mac (fst (timer_runs wit_rounds wit_track)) = [] \<and> HostLeave ''00:01'' \<in> set (snd (timer_runs wit_rounds wit_track))"
proof -
  have "\<forall>clk \<in> set wit_rounds. \<forall>r. quiet (clk r) wit_track"
    by (simp add: wit_rounds_def quiet_def wit_track_eval expired_def arpSilent_def)
  moreover have "5 \<le> length wit_rounds" by (simp add: wit_rounds_def)
  moreover have "''00:01'' \<in> set (dict_keys (entry_by_mac wit_track))" by (simp add: wit_track_eval)
  ultimately show ?thesis using silent_hosts_leave[OF wit_track_reach(1), of wit_rounds] by blast
qed

section \<open>Hosts that move\<close>

text \<open>
  The port of a host that moves stays the old one: after a packet of a known host from another place,
  the entry is at the new switch but still has the port of before, since the handler sets another
  attribute. A ping of the host goes out of the old port number on the new switch.
\<close>

theorem moved_host_pinged_at_old_port:
  assumes "host_reach h" "host_packet links msg src" "pi_dpid msg \<in> set (dict_keys (ht_datapaths h))"
    and "dict_get (entry_by_mac h) src = Some e" "(me_dpid e, me_port e) \<noteq> (pi_dpid msg, pi_in_port msg)"
  shows "\<exists>h' e' (dp :: datapath). track_packet_in clk links msg h = (h', [HostMove src (pi_dpid msg) (pi_in_port msg)], None) \<and>
    dict_get (m2p_at (pi_dpid msg) (ht_mac_to_port h')) src = Some (pi_in_port msg) \<and>
    dict_get (entry_by_mac h') src = Some e' \<and> me_dpid e' = pi_dpid msg \<and> me_port e' = me_port e \<and>
    send_ping h' e' ip = (e', [HostSends (PacketOut (dp_id dp) OFP_NO_BUFFER OFPP_CONTROLLER [Output (me_port e)]
      (ping_frame (ht_ping_src_mac h') src ip))], None)"
proof -
  have ok: "track_ok h" "connected_ok h" using host_reach_ok[OF assms(1)] by simp_all
  obtain dp where dp: "dict_get (ht_datapaths h) (pi_dpid msg) = Some (Some dp)" using ok(2) assms(3) unfolding connected_ok_def by blast
  obtain h' outs err where r: "track_packet_in clk links msg h = (h', outs, err)" by (cases "track_packet_in clk links msg h")
  note t = track_host_packet[OF ok(1) assms(2) dp r]
  obtain e' where e': "dict_get (entry_by_mac h') src = Some e'" "me_dpid e' = pi_dpid msg" "me_macaddr e' = src" "me_port e' = me_port e"
    using t(5) assms(4) by auto
  have "dict_get (m2p_at (pi_dpid msg) (ht_mac_to_port h')) src = Some (pi_in_port msg)" using t(4) assms(4,5) by auto
  moreover have "outs = [HostMove src (pi_dpid msg) (pi_in_port msg)]"
    using r t(1) assms(2,4,5) by (auto simp: track_packet_in_def host_packet_def Let_def entry_eq_def split: if_splits prod.splits option.splits)
  moreover have "send_ping h' e' ip = (e', [HostSends (PacketOut (dp_id dp) OFP_NO_BUFFER OFPP_CONTROLLER [Output (me_port e)]
      (ping_frame (ht_ping_src_mac h') src ip))], None)" using dp t(3) e' by (simp add: send_ping_def)
  ultimately show ?thesis using r t(1) e' by (intro exI[of _ h'] exI[of _ e'] exI[of _ dp]) simp
qed

theorem moved_host_pinged_at_old_port_witness:
  "\<exists>h' e' (dp :: datapath). track_packet_in (\<lambda>_. 7) [] (wit_packet 5 ''10.0.0.1'') wit_track = (h', [HostMove ''00:01'' 1 5], None) \<and>
     dict_get (entry_by_mac h') ''00:01'' = Some e' \<and> me_port e' = 3 \<and>
     send_ping h' e' ''10.0.0.1'' = (e', [HostSends (PacketOut (dp_id dp) OFP_NO_BUFFER OFPP_CONTROLLER [Output 3]
       (ping_frame (ht_ping_src_mac h') ''00:01'' ''10.0.0.1''))], None)"
proof -
  obtain e where e: "dict_get (entry_by_mac wit_track) ''00:01'' = Some e" "me_dpid e = 1" "me_port e = 3" by (simp add: wit_track_eval)
  have p: "host_packet [] (wit_packet 5 ''10.0.0.1'') ''00:01''" by (simp add: host_packet_def wit_packet_def parse_ethernet_def is_link_port_def OFPP_MAX_def)
  have d: "pi_dpid (wit_packet 5 ''10.0.0.1'') \<in> set (dict_keys (ht_datapaths wit_track))" by (simp add: wit_track_eval)
  have n: "(me_dpid e, me_port e) \<noteq> (pi_dpid (wit_packet 5 ''10.0.0.1''), pi_in_port (wit_packet 5 ''10.0.0.1''))" using e by (simp add: wit_packet_def)
  have w: "pi_dpid (wit_packet 5 ''10.0.0.1'') = 1" "pi_in_port (wit_packet 5 ''10.0.0.1'') = 5" by (simp_all add: wit_packet_def)
  show ?thesis using moved_host_pinged_at_old_port[OF wit_track_reach(1) p d e(1) n, of "\<lambda>_. 7" "''10.0.0.1''"] unfolding e(3) w by auto
qed

end
