(* ===== verification/Igmp_Querier.thy ===== *)
theory Igmp_Querier
  imports OpenFlow Switch_Table
begin

text \<open>
  The IGMP querier of \<open>multicast/igmplib.py\<close>: \<open>IgmpVirtualQuerier\<close> with the flow entries of
  \<open>IgmpBase\<close> for OpenFlow 1.3. All edge switches share one table of groups, by group, switch and port.
  The handlers that sleep are split at the sleep: \<open>query_start\<close> and \<open>query_expire\<close> are the two halves of
  a round of \<open>_send_general_query\<close>, and \<open>leave_timeout\<close> is what \<open>_do_leave\<close> spawns, so that other
  messages come in between.
\<close>

record port_state =
  ps_replied :: bool
  ps_leave :: bool
  ps_member :: nat
  ps_out :: bool
  ps_in :: bool

type_synonym group_table = "(string, (nat, (nat, port_state) pydict) pydict) pydict"

record querier =
  q_groups :: "(string, datapath) pydict"
  q_datapath :: datapath
  q_query_src :: string

record igmp =
  queriers :: "(nat, querier) pydict"
  groups :: group_table
  querier_thread :: bool

datatype igmp_out = ToSwitch out_msg | GroupAdded string | MemberChanged string string | GroupRemoved string

abbreviation OFPP_ANY :: nat where "OFPP_ANY \<equiv> 0xffffffff"

section \<open>Flow entries and queries\<close>

definition set_flow_entry :: "nat \<Rightarrow> of_action list \<Rightarrow> nat \<Rightarrow> string \<Rightarrow> out_msg" where
  "set_flow_entry dpid actions in_port dst =
     FlowAdd \<lparr>fm_dpid = dpid, fm_priority = 65535, fm_idle_timeout = 0, fm_hard_timeout = 0, fm_flags = 0,
       fm_match = [EthType ETH_TYPE_IP, InPort in_port, Ipv4Dst dst], fm_actions = actions\<rparr>"

definition del_flow_entry :: "nat \<Rightarrow> nat \<Rightarrow> string \<Rightarrow> out_msg" where
  "del_flow_entry dpid in_port dst = FlowDelete dpid [EthType ETH_TYPE_IP, InPort in_port, Ipv4Dst dst]"

definition do_packet_out :: "nat \<Rightarrow> frame \<Rightarrow> nat \<Rightarrow> of_action list \<Rightarrow> out_msg" where
  "do_packet_out dpid data in_port actions = PacketOut dpid OFP_NO_BUFFER in_port actions data"

definition igmp_general_query :: "string \<Rightarrow> frame" where
  "igmp_general_query eth_src = IgmpQuery eth_src ''0.0.0.0'' 100"

definition igmp_specific_query :: "string \<Rightarrow> string \<Rightarrow> frame" where
  "igmp_specific_query eth_src group_ip = IgmpQuery eth_src group_ip 10"

section \<open>The group table\<close>

definition switches_of :: "group_table \<Rightarrow> string \<Rightarrow> (nat, (nat, port_state) pydict) pydict" where
  "switches_of gs g = (case dict_get gs g of None \<Rightarrow> [] | Some sws \<Rightarrow> sws)"

definition ports_at :: "group_table \<Rightarrow> string \<Rightarrow> nat \<Rightarrow> (nat, port_state) pydict" where
  "ports_at gs g d = (case dict_get (switches_of gs g) d of None \<Rightarrow> [] | Some ps \<Rightarrow> ps)"

definition port_at :: "group_table \<Rightarrow> string \<Rightarrow> nat \<Rightarrow> nat \<Rightarrow> port_state option" where
  "port_at gs g d p = dict_get (ports_at gs g d) p"

definition put_port :: "string \<Rightarrow> nat \<Rightarrow> nat \<Rightarrow> port_state \<Rightarrow> group_table \<Rightarrow> group_table" where
  "put_port g d p s gs = dict_set g (dict_set d (dict_set p s (ports_at gs g d)) (switches_of gs g)) gs"

section \<open>Operations\<close>

text \<open>Every edge switch becomes a querier; a running thread is killed.\<close>

fun add_queriers :: "switch list \<Rightarrow> (nat, querier) pydict \<Rightarrow> (nat, querier) pydict \<times> pyerr option" where
  "add_queriers [] qs = (qs, None)"
| "add_queriers (sw # sws) qs =
     (if sw_attribute sw = ''edge'' then
        (case dict_get (dp_ports (sw_dp sw)) OFPP_LOCAL of
           None \<Rightarrow> (qs, Some KeyError)
         | Some port \<Rightarrow>
             add_queriers sws
               (case dict_get qs (dp_id (sw_dp sw)) of
                  Some _ \<Rightarrow> qs
                | None \<Rightarrow> dict_set (dp_id (sw_dp sw)) \<lparr>q_groups = [], q_datapath = sw_dp sw, q_query_src = ofp_hw_addr port\<rparr> qs))
      else add_queriers sws qs)"

definition set_querier_mode :: "switch_table \<Rightarrow> igmp \<Rightarrow> igmp \<times> pyerr option" where
  "set_querier_mode st m =
     (case add_queriers (dict_values st) (queriers m) of
        (qs, Some e) \<Rightarrow> (m\<lparr>queriers := qs\<rparr>, Some e)
      | (qs, None) \<Rightarrow> (m\<lparr>queriers := qs, querier_thread := False\<rparr>, None))"

text \<open>The thread of the query loop; only whether there is one is kept.\<close>

definition start_loop :: "igmp \<Rightarrow> igmp" where
  "start_loop m = m\<lparr>querier_thread := True\<rparr>"

definition stop_loop :: "igmp \<Rightarrow> igmp" where
  "stop_loop m = m\<lparr>querier_thread := False\<rparr>"

definition query_start :: "igmp \<Rightarrow> igmp \<times> igmp_out list" where
  "query_start m =
     (m\<lparr>groups := map (\<lambda>(g, sws). (g, map (\<lambda>(d, ps). (d, map (\<lambda>(p, s). (p, s\<lparr>ps_replied := False\<rparr>)) ps)) sws)) (groups m)\<rparr>,
      map (\<lambda>q. ToSwitch (do_packet_out (dp_id (q_datapath q)) (igmp_general_query (q_query_src q)) OFPP_ANY [Output OFPP_FLOOD]))
        (dict_values (queriers m)))"

definition alive_ports :: "(nat, port_state) pydict \<Rightarrow> (nat, port_state) pydict" where
  "alive_ports ps = filter (\<lambda>(p, s). ps_replied s) ps"

definition alive_switches :: "(nat, (nat, port_state) pydict) pydict \<Rightarrow> (nat, (nat, port_state) pydict) pydict" where
  "alive_switches sws = filter (\<lambda>(d, ps). ps \<noteq> []) (map (\<lambda>(d, ps). (d, alive_ports ps)) sws)"

definition dead_switches :: "(nat, (nat, port_state) pydict) pydict \<Rightarrow> nat list" where
  "dead_switches sws = [d. (d, ps) \<leftarrow> sws, alive_ports ps = []]"

fun forget_group :: "string \<Rightarrow> nat list \<Rightarrow> (nat, querier) pydict \<Rightarrow> (nat, querier) pydict \<times> pyerr option" where
  "forget_group g [] qs = (qs, None)"
| "forget_group g (d # ds) qs =
     (case dict_get qs d of
        None \<Rightarrow> (qs, Some KeyError)
      | Some q \<Rightarrow>
          (if g \<in> set (dict_keys (q_groups q)) then forget_group g ds (dict_set d (q\<lparr>q_groups := dict_del g (q_groups q)\<rparr>) qs)
           else (qs, Some KeyError)))"

fun remove_groups :: "(string \<times> nat list) list \<Rightarrow> igmp \<Rightarrow> igmp \<times> igmp_out list \<times> pyerr option" where
  "remove_groups [] m = (m, [], None)"
| "remove_groups ((g, ds) # rest) m =
     (case forget_group g ds (queriers m) of
        (qs, Some e) \<Rightarrow> (m\<lparr>groups := dict_del g (groups m), queriers := qs\<rparr>, [], Some e)
      | (qs, None) \<Rightarrow>
          (case remove_groups rest (m\<lparr>groups := dict_del g (groups m), queriers := qs\<rparr>) of
             (m', outs, e) \<Rightarrow> (m', GroupRemoved g # outs, e)))"

definition query_expire :: "igmp \<Rightarrow> igmp \<times> igmp_out list \<times> pyerr option" where
  "query_expire m =
     (let gs = map (\<lambda>(g, sws). (g, alive_switches sws)) (groups m);
          dels = [(g, dead_switches sws). (g, sws) \<leftarrow> groups m, alive_switches sws = []]
      in remove_groups dels (m\<lparr>groups := gs\<rparr>))"

text \<open>
  \<open>src\<close> is the source address of the packet. The last test of \<open>_do_report\<close> sets the flag \<open>leave\<close> to false
  only when it is false already, so that it has no effect.
\<close>

definition do_report :: "datapath \<Rightarrow> string \<Rightarrow> nat \<Rightarrow> string option \<Rightarrow> igmp \<Rightarrow> igmp \<times> igmp_out list \<times> pyerr option" where
  "do_report dp g in_port src m =
     (case dict_get (queriers m) (dp_id dp) of
        None \<Rightarrow> (m, [], Some KeyError)
      | Some q \<Rightarrow>
          (let m1 = (if g \<in> set (dict_keys (q_groups q)) then m
                     else m\<lparr>queriers := dict_set (dp_id dp) (q\<lparr>q_groups := dict_set g dp (q_groups q)\<rparr>) (queriers m)\<rparr>);
               added = (if switches_of (groups m) g = [] then [GroupAdded g] else [])
           in case port_at (groups m) g (dp_id dp) in_port of
                None \<Rightarrow>
                  (let m2 = m1\<lparr>groups := put_port g (dp_id dp) in_port
                              \<lparr>ps_replied = True, ps_leave = False, ps_member = 1, ps_out = False, ps_in = False\<rparr> (groups m)\<rparr>
                   in case src of
                        None \<Rightarrow> (m2, added, Some AttributeError)
                      | Some ip \<Rightarrow>
                          (m2, added @ [MemberChanged g ip, ToSwitch (set_flow_entry (dp_id dp) [Output OFPP_CONTROLLER] in_port g)], None))
              | Some s \<Rightarrow> (m1\<lparr>groups := put_port g (dp_id dp) in_port (s\<lparr>ps_replied := True\<rparr>) (groups m)\<rparr>, added, None)))"

definition do_leave :: "nat \<Rightarrow> string \<Rightarrow> nat \<Rightarrow> igmp \<Rightarrow> igmp \<times> igmp_out list \<times> pyerr option" where
  "do_leave dpid g in_port m =
     (case port_at (groups m) g dpid in_port of
        None \<Rightarrow> (m, [], None)
      | Some s \<Rightarrow>
          (let m1 = m\<lparr>groups := put_port g dpid in_port (s\<lparr>ps_leave := True\<rparr>) (groups m)\<rparr>
           in case dict_get (queriers m) dpid of
                None \<Rightarrow> (m1, [], Some KeyError)
              | Some q \<Rightarrow>
                  (case dict_get (dp_ports (q_datapath q)) in_port of
                     None \<Rightarrow> (m1, [], Some KeyError)
                   | Some port \<Rightarrow>
                       (m1, [ToSwitch (do_packet_out (dp_id (q_datapath q)) (igmp_specific_query (ofp_hw_addr port) g) OFPP_ANY [Output in_port])], None))))"

text \<open>After the timeout of a leave message.\<close>

definition leave_timeout :: "nat \<Rightarrow> string \<Rightarrow> nat \<Rightarrow> igmp \<Rightarrow> igmp \<times> igmp_out list \<times> pyerr option" where
  "leave_timeout dpid g in_port m =
     (case port_at (groups m) g dpid in_port of
        None \<Rightarrow> (m, [], Some KeyError)
      | Some s \<Rightarrow>
          (if \<not> ps_leave s then (m, [], None)
           else
             (let ps = dict_del in_port (ports_at (groups m) g dpid);
                  sws = (if ps = [] then dict_del dpid (switches_of (groups m) g) else dict_set dpid ps (switches_of (groups m) g));
                  outs = [ToSwitch (del_flow_entry dpid in_port g), MemberChanged g ''leave'']
              in if sws \<noteq> [] then (m\<lparr>groups := dict_set g sws (groups m)\<rparr>, outs, None)
                 else
                   (case forget_group g [dpid] (queriers m) of
                      (qs, Some e) \<Rightarrow> (m\<lparr>groups := dict_del g (groups m), queriers := qs\<rparr>, outs, Some e)
                    | (qs, None) \<Rightarrow> (m\<lparr>groups := dict_del g (groups m), queriers := qs\<rparr>, outs @ [GroupRemoved g], None)))))"

definition IGMP_TYPE_REPORT_V1 :: nat where "IGMP_TYPE_REPORT_V1 = 0x12"
definition IGMP_TYPE_REPORT_V2 :: nat where "IGMP_TYPE_REPORT_V2 = 0x16"
definition IGMP_TYPE_LEAVE :: nat where "IGMP_TYPE_LEAVE = 0x17"

definition igmp_packet_in :: "datapath \<Rightarrow> nat \<Rightarrow> string \<Rightarrow> nat \<Rightarrow> string option \<Rightarrow> igmp \<Rightarrow> igmp \<times> igmp_out list \<times> pyerr option" where
  "igmp_packet_in dp msgtype g in_port src m =
     (if dp_id dp \<notin> set (dict_keys (queriers m)) then (m, [], None)
      else if msgtype = IGMP_TYPE_REPORT_V1 \<or> msgtype = IGMP_TYPE_REPORT_V2 then do_report dp g in_port src m
      else if msgtype = IGMP_TYPE_LEAVE then do_leave (dp_id dp) g in_port m
      else (m, [], None))"

section \<open>Lookups in the group table\<close>

lemma port_at_put [simp]:
  "port_at (put_port g d p s gs) g' d' p' = (if g' = g \<and> d' = d \<and> p' = p then Some s else port_at gs g' d' p')"
  by (auto simp: port_at_def put_port_def ports_at_def switches_of_def split: option.splits)

lemma map_of_values: "dict_get (map (\<lambda>(k, v). (k, f v)) d) k = map_option f (dict_get d k)"
  by (induction d) auto

lemma port_at_start:
  "port_at (groups (fst (query_start m))) g d p = map_option (\<lambda>s. s\<lparr>ps_replied := False\<rparr>) (port_at (groups m) g d p)"
proof -
  let ?P = "map (\<lambda>(p, s). (p, s\<lparr>ps_replied := False\<rparr>))"
  let ?S = "map (\<lambda>(d, ps). (d, ?P ps))"
  have sw: "switches_of (groups (fst (query_start m))) g = ?S (switches_of (groups m) g)"
    by (simp add: query_start_def switches_of_def map_of_values split: option.splits)
  have "ports_at (groups (fst (query_start m))) g d = ?P (ports_at (groups m) g d)"
    unfolding ports_at_def sw by (simp add: map_of_values split: option.splits)
  then show ?thesis by (simp add: port_at_def map_of_values)
qed

definition groups_ok :: "group_table \<Rightarrow> bool" where
  "groups_ok gs \<longleftrightarrow> dict_ok gs \<and> (\<forall>g. dict_ok (switches_of gs g)) \<and> (\<forall>g d. dict_ok (ports_at gs g d))"

lemma dict_get_filter: "dict_ok d \<Longrightarrow> dict_get (filter (\<lambda>(k, v). P v) d) k = (case dict_get d k of Some v \<Rightarrow> (if P v then Some v else None) | None \<Rightarrow> None)"
proof (induction d)
  case (Cons x d)
  obtain k' v where x: "x = (k', v)" by fastforce
  have "dict_get d k = None" if "k' = k" using Cons.prems x that by (simp add: map_of_eq_None_iff)
  then show ?case using Cons x by auto
qed simp

lemma switches_of_put: "switches_of (put_port g d p s gs) g' = (if g' = g then dict_set d (dict_set p s (ports_at gs g d)) (switches_of gs g) else switches_of gs g')"
  by (simp add: switches_of_def put_port_def)

lemma ports_at_put: "ports_at (put_port g d p s gs) g' d' = (if g' = g \<and> d' = d then dict_set p s (ports_at gs g d) else ports_at gs g' d')"
  by (simp add: ports_at_def switches_of_put)

lemma groups_ok_put [ok_intros]: "groups_ok gs \<Longrightarrow> groups_ok (put_port g d p s gs)"
  unfolding groups_ok_def switches_of_put ports_at_put by (simp add: put_port_def)

lemma keys_map_values: "map fst (map (\<lambda>(k, v). (k, f v)) d) = map fst d"
  by (induction d) auto

lemma groups_ok_start:
  assumes "groups_ok (groups m)" shows "groups_ok (groups (fst (query_start m)))"
proof -
  let ?P = "map (\<lambda>(p, s). (p, s\<lparr>ps_replied := False\<rparr>))"
  let ?S = "map (\<lambda>(d, ps). (d, ?P ps))"
  have sw: "switches_of (groups (fst (query_start m))) g = ?S (switches_of (groups m) g)" for g
    by (simp add: query_start_def switches_of_def map_of_values split: option.splits)
  have pt: "ports_at (groups (fst (query_start m))) g d = ?P (ports_at (groups m) g d)" for g d
    unfolding ports_at_def sw by (simp add: map_of_values split: option.splits)
  have "dict_keys (groups (fst (query_start m))) = dict_keys (groups m)"
    unfolding query_start_def fst_conv by (simp add: keys_map_values del: map_map)
  then show ?thesis using assms unfolding groups_ok_def sw pt by (simp add: keys_map_values del: map_map)
qed

lemma port_at_remove_groups:
  "\<forall>(g, ds) \<in> set dels. switches_of (groups m) g = [] \<Longrightarrow> port_at (groups (fst (remove_groups dels m))) g d p = port_at (groups m) g d p"
proof (induction dels m rule: remove_groups.induct)
  case (2 g' ds rest m)
  let ?gs = "dict_del g' (groups m)"
  have sw: "switches_of ?gs h = switches_of (groups m) h" for h using 2(2) by (auto simp: switches_of_def split: option.splits)
  have same: "port_at ?gs g d p = port_at (groups m) g d p" by (simp add: port_at_def ports_at_def sw)
  obtain qs e where f: "forget_group g' ds (queriers m) = (qs, e)" by fastforce
  show ?case
  proof (cases e)
    case (Some x)
    then show ?thesis using f same by simp
  next
    case None
    have "port_at (groups (fst (remove_groups rest (m\<lparr>groups := ?gs, queriers := qs\<rparr>)))) g d p = port_at ?gs g d p"
      using 2(1)[OF f[symmetric] None] 2(2) by (simp add: sw)
    moreover have "fst (remove_groups ((g', ds) # rest) m) = fst (remove_groups rest (m\<lparr>groups := ?gs, queriers := qs\<rparr>))"
      using f None by (simp add: case_prod_beta)
    ultimately show ?thesis using same by simp
  qed
qed simp

lemma port_at_expire:
  assumes ok: "groups_ok (groups m)"
  shows "port_at (groups (fst (query_expire m))) g d p =
    (case port_at (groups m) g d p of Some s \<Rightarrow> (if ps_replied s then Some s else None) | None \<Rightarrow> None)"
proof -
  let ?gs = "map (\<lambda>(g, sws). (g, alive_switches sws)) (groups m)"
  let ?dels = "[(g, dead_switches sws). (g, sws) \<leftarrow> groups m, alive_switches sws = []]"
  have sw: "switches_of ?gs h = alive_switches (switches_of (groups m) h)" for h
    by (simp add: switches_of_def map_of_values alive_switches_def split: option.splits)
  have "switches_of ?gs h = []" if h: "(h, ds) \<in> set ?dels" for h ds
  proof -
    obtain x where x: "x \<in> set (groups m)" "(h, ds) \<in> set (case x of (g, sws) \<Rightarrow> (if alive_switches sws = [] then [(g, dead_switches sws)] else []))"
      using h by auto
    obtain g0 sws where "x = (g0, sws)" by fastforce
    with x have "(h, sws) \<in> set (groups m)" "alive_switches sws = []" by (simp_all split: if_splits)
    then have "switches_of (groups m) h = sws" using ok by (simp add: switches_of_def groups_ok_def)
    then show ?thesis using sw \<open>alive_switches sws = []\<close> by simp
  qed
  then have "port_at (groups (fst (query_expire m))) g d p = port_at ?gs g d p"
    unfolding query_expire_def Let_def by (subst port_at_remove_groups) auto
  also have "\<dots> = dict_get (alive_ports (ports_at (groups m) g d)) p"
  proof -
    have dok: "dict_ok (map (\<lambda>(d, ps). (d, alive_ports ps)) (switches_of (groups m) g))"
      using ok by (simp add: keys_map_values groups_ok_def del: map_map)
    have "dict_get (alive_switches (switches_of (groups m) g)) d =
        (case map_option alive_ports (dict_get (switches_of (groups m) g) d) of Some ps \<Rightarrow> (if ps \<noteq> [] then Some ps else None) | None \<Rightarrow> None)"
      unfolding alive_switches_def dict_get_filter[OF dok] map_of_values ..
    moreover have "alive_ports [] = []" by (simp add: alive_ports_def)
    ultimately show ?thesis unfolding port_at_def ports_at_def sw by (auto split: option.splits)
  qed
  also have "\<dots> = (case port_at (groups m) g d p of Some s \<Rightarrow> (if ps_replied s then Some s else None) | None \<Rightarrow> None)"
    unfolding alive_ports_def port_at_def using ok by (intro dict_get_filter) (simp add: groups_ok_def)
  finally show ?thesis .
qed

section \<open>A query round\<close>

text \<open>
  What happens between the query and its timeout: messages of hosts (the type, the group, and where it came in), and the
  timeouts of the leave messages that came in at this time or before.
\<close>

type_synonym igmp_msg = "datapath \<times> nat \<times> string \<times> nat \<times> string option"

datatype igmp_event = Message igmp_msg | LeaveTimeout nat string nat

fun igmp_step :: "igmp_event \<Rightarrow> igmp \<Rightarrow> igmp" where
  "igmp_step (Message (dp, ty, g, p, src)) m = fst (igmp_packet_in dp ty g p src m)"
| "igmp_step (LeaveTimeout d g p) m = fst (leave_timeout d g p m)"

definition igmp_events :: "igmp_event list \<Rightarrow> igmp \<Rightarrow> igmp" where
  "igmp_events evs m = fold igmp_step evs m"

definition reports :: "igmp_msg \<Rightarrow> string \<Rightarrow> nat \<Rightarrow> nat \<Rightarrow> bool" where
  "reports msg g d p \<longleftrightarrow> (case msg of (dp, ty, g', p', src) \<Rightarrow> dp_id dp = d \<and> g' = g \<and> p' = p \<and> (ty = IGMP_TYPE_REPORT_V1 \<or> ty = IGMP_TYPE_REPORT_V2))"

definition leaves :: "igmp_msg \<Rightarrow> string \<Rightarrow> nat \<Rightarrow> nat \<Rightarrow> bool" where
  "leaves msg g d p \<longleftrightarrow> (case msg of (dp, ty, g', p', src) \<Rightarrow> dp_id dp = d \<and> g' = g \<and> p' = p \<and> ty = IGMP_TYPE_LEAVE)"

text \<open>
  The life of one port of a group as the protocol has it: \<^term>\<open>None\<close> while it is no member, else whether it has replied
  to the query and whether a leave message waits for its timeout.
\<close>

type_synonym life = "(bool \<times> bool) option"

fun life_step :: "string \<Rightarrow> nat \<Rightarrow> nat \<Rightarrow> igmp_event \<Rightarrow> life \<Rightarrow> life" where
  "life_step g d p (Message msg) x =
     (if reports msg g d p then Some (True, case x of None \<Rightarrow> False | Some (replied, leave) \<Rightarrow> leave)
      else if leaves msg g d p then map_option (\<lambda>(replied, leave). (replied, True)) x else x)"
| "life_step g d p (LeaveTimeout d' g' p') x =
     (if d' = d \<and> g' = g \<and> p' = p then (case x of Some (replied, True) \<Rightarrow> None | _ \<Rightarrow> x) else x)"

definition life_of :: "igmp \<Rightarrow> string \<Rightarrow> nat \<Rightarrow> nat \<Rightarrow> life" where
  "life_of m g d p = map_option (\<lambda>s. (ps_replied s, ps_leave s)) (port_at (groups m) g d p)"

lemma do_report_effect:
  assumes "dp_id dp \<in> set (dict_keys (queriers m))"
  shows "life_of (fst (do_report dp g p src m)) g' d' p' =
      (if g' = g \<and> d' = dp_id dp \<and> p' = p then Some (True, case life_of m g' d' p' of None \<Rightarrow> False | Some (r, l) \<Rightarrow> l) else life_of m g' d' p')"
    "groups_ok (groups m) \<Longrightarrow> groups_ok (groups (fst (do_report dp g p src m)))"
    "set (dict_keys (queriers (fst (do_report dp g p src m)))) = set (dict_keys (queriers m))"
proof -
  obtain q where q: "dict_get (queriers m) (dp_id dp) = Some q" using assms dict_get_None_iff[of "queriers m" "dp_id dp"] by auto
  obtain s where s: "groups (fst (do_report dp g p src m)) = put_port g (dp_id dp) p s (groups m)" "ps_replied s"
    "ps_leave s = (case port_at (groups m) g (dp_id dp) p of None \<Rightarrow> False | Some s \<Rightarrow> ps_leave s)"
    using q by (cases "port_at (groups m) g (dp_id dp) p"; cases src) (auto simp: do_report_def Let_def)
  show "life_of (fst (do_report dp g p src m)) g' d' p' =
      (if g' = g \<and> d' = dp_id dp \<and> p' = p then Some (True, case life_of m g' d' p' of None \<Rightarrow> False | Some (r, l) \<Rightarrow> l) else life_of m g' d' p')"
    unfolding life_of_def s(1) using s(2,3) by (simp split: option.splits)
  show "groups_ok (groups m) \<Longrightarrow> groups_ok (groups (fst (do_report dp g p src m)))" unfolding s(1) by (rule groups_ok_put)
  have "queriers (fst (do_report dp g p src m)) = queriers m \<or>
      (\<exists>q'. queriers (fst (do_report dp g p src m)) = dict_set (dp_id dp) q' (queriers m))"
    using q by (cases "port_at (groups m) g (dp_id dp) p"; cases src) (auto simp: do_report_def Let_def)
  then show "set (dict_keys (queriers (fst (do_report dp g p src m)))) = set (dict_keys (queriers m))"
    using assms by (auto simp: keys_dict_set simp del: set_map)
qed

lemma do_leave_effect:
  "life_of (fst (do_leave d g p m)) g' d' p' = (if g' = g \<and> d' = d \<and> p' = p then map_option (\<lambda>(r, l). (r, True)) (life_of m g' d' p') else life_of m g' d' p')"
  "groups_ok (groups m) \<Longrightarrow> groups_ok (groups (fst (do_leave d g p m)))"
  "queriers (fst (do_leave d g p m)) = queriers m"
proof -
  have eq: "groups (fst (do_leave d g p m)) =
      (case port_at (groups m) g d p of None \<Rightarrow> groups m | Some s \<Rightarrow> put_port g d p (s\<lparr>ps_leave := True\<rparr>) (groups m))"
    by (auto simp: do_leave_def Let_def split: option.splits)
  show "life_of (fst (do_leave d g p m)) g' d' p' = (if g' = g \<and> d' = d \<and> p' = p then map_option (\<lambda>(r, l). (r, True)) (life_of m g' d' p') else life_of m g' d' p')"
    "groups_ok (groups m) \<Longrightarrow> groups_ok (groups (fst (do_leave d g p m)))"
    unfolding life_of_def eq by (auto split: option.splits intro: groups_ok_put)
  show "queriers (fst (do_leave d g p m)) = queriers m" by (auto simp: do_leave_def Let_def split: option.splits)
qed

text \<open>The table without a port, with the empty switches and groups cleared away.\<close>

definition cut_port :: "string \<Rightarrow> nat \<Rightarrow> nat \<Rightarrow> group_table \<Rightarrow> group_table" where
  "cut_port g d p gs =
     (let ps = dict_del p (ports_at gs g d);
          sws = (if ps = [] then dict_del d (switches_of gs g) else dict_set d ps (switches_of gs g))
      in if sws = [] then dict_del g gs else dict_set g sws gs)"

lemma switches_of_cut:
  "switches_of (cut_port g d p gs) g' =
     (if g' = g then (if dict_del p (ports_at gs g d) = [] then dict_del d (switches_of gs g) else dict_set d (dict_del p (ports_at gs g d)) (switches_of gs g))
      else switches_of gs g')"
  unfolding switches_of_def[of "cut_port g d p gs"] by (simp add: cut_port_def Let_def switches_of_def)

lemma ports_at_cut: "ports_at (cut_port g d p gs) g' d' = (if g' = g \<and> d' = d then dict_del p (ports_at gs g d) else ports_at gs g' d')"
  by (simp add: ports_at_def switches_of_cut)

lemma port_at_cut: "port_at (cut_port g d p gs) g' d' p' = (if g' = g \<and> d' = d \<and> p' = p then None else port_at gs g' d' p')"
  by (simp add: port_at_def ports_at_cut)

lemma groups_ok_cut: "groups_ok gs \<Longrightarrow> groups_ok (cut_port g d p gs)"
  unfolding groups_ok_def switches_of_cut ports_at_cut by (simp add: cut_port_def Let_def)

lemma forget_group_keys: "forget_group g ds qs = (qs', e) \<Longrightarrow> set (dict_keys qs') = set (dict_keys qs)"
proof (induction g ds qs rule: forget_group.induct)
  case (2 g d ds qs)
  show ?case
  proof (cases "dict_get qs d")
    case (Some q)
    then have d: "d \<in> set (dict_keys qs)" using dict_get_None_iff[of qs d] by (auto simp del: set_map)
    show ?thesis
    proof (cases "g \<in> set (dict_keys (q_groups q))")
      case True
      then have "forget_group g ds (dict_set d (q\<lparr>q_groups := dict_del g (q_groups q)\<rparr>) qs) = (qs', e)" using "2.prems" Some by (simp del: set_map)
      then show ?thesis using "2.IH"[OF Some True] d by (auto simp: keys_dict_set simp del: set_map)
    qed (use "2.prems" Some in \<open>simp del: set_map\<close>)
  qed (use "2.prems" in simp)
qed simp

lemma leave_timeout_effect:
  "groups (fst (leave_timeout d g p m)) = (case port_at (groups m) g d p of Some s \<Rightarrow> if ps_leave s then cut_port g d p (groups m) else groups m | None \<Rightarrow> groups m)"
  "set (dict_keys (queriers (fst (leave_timeout d g p m)))) = set (dict_keys (queriers m))"
proof -
  show "groups (fst (leave_timeout d g p m)) = (case port_at (groups m) g d p of Some s \<Rightarrow> if ps_leave s then cut_port g d p (groups m) else groups m | None \<Rightarrow> groups m)"
    by (simp add: leave_timeout_def cut_port_def Let_def split: option.splits prod.splits)
  obtain qs e where f: "forget_group g [d] (queriers m) = (qs, e)" by fastforce
  show "set (dict_keys (queriers (fst (leave_timeout d g p m)))) = set (dict_keys (queriers m))"
    using forget_group_keys[OF f] by (simp add: leave_timeout_def Let_def f split: option.splits del: set_map forget_group.simps)
qed

lemma igmp_step_keeps:
  "groups_ok (groups m) \<Longrightarrow> groups_ok (groups (igmp_step ev m))" "set (dict_keys (queriers (igmp_step ev m))) = set (dict_keys (queriers m))"
proof -
  have "(groups_ok (groups m) \<longrightarrow> groups_ok (groups (igmp_step ev m))) \<and> set (dict_keys (queriers (igmp_step ev m))) = set (dict_keys (queriers m))"
  proof (cases ev)
    case (Message msg)
    obtain dp ty g p src where msg: "msg = (dp, ty, g, p, src)" by (cases msg)
    show ?thesis
    proof (cases "dp_id dp \<in> set (dict_keys (queriers m))")
      case True
      then show ?thesis using do_report_effect(2,3)[OF True, of g p src] do_leave_effect(2)[of m "dp_id dp" g p] do_leave_effect(3)[of "dp_id dp" g p m]
        by (simp add: Message msg igmp_packet_in_def del: set_map)
    qed (simp add: Message msg igmp_packet_in_def del: set_map)
  next
    case (LeaveTimeout d g p)
    show ?thesis using leave_timeout_effect(2)[of d g p m] groups_ok_cut
      by (simp add: LeaveTimeout leave_timeout_effect(1) split: option.splits del: set_map)
  qed
  then show "groups_ok (groups m) \<Longrightarrow> groups_ok (groups (igmp_step ev m))" "set (dict_keys (queriers (igmp_step ev m))) = set (dict_keys (queriers m))"
    by blast+
qed

lemma igmp_step_life:
  "life_of (igmp_step ev m) g d p = (if d \<in> set (dict_keys (queriers m)) then life_step g d p ev (life_of m g d p)
     else case ev of Message _ \<Rightarrow> life_of m g d p | LeaveTimeout _ _ _ \<Rightarrow> life_step g d p ev (life_of m g d p))"
proof (cases ev)
  case (Message msg)
  obtain dp ty g' p' src where msg: "msg = (dp, ty, g', p', src)" by (cases msg)
  show ?thesis
  proof (cases "dp_id dp \<in> set (dict_keys (queriers m))")
    case True
    then show ?thesis using do_report_effect(1)[OF True, of g' p' src g d p] do_leave_effect(1)[of "dp_id dp" g' p' m g d p]
      by (auto simp: Message msg igmp_packet_in_def reports_def leaves_def IGMP_TYPE_REPORT_V1_def IGMP_TYPE_REPORT_V2_def IGMP_TYPE_LEAVE_def simp del: set_map)
  next
    case False
    then show ?thesis by (auto simp: Message msg igmp_packet_in_def reports_def leaves_def simp del: set_map)
  qed
next
  case (LeaveTimeout d' g' p')
  show ?thesis
    by (auto simp: LeaveTimeout life_of_def leave_timeout_effect(1) port_at_cut simp del: set_map split: option.splits bool.splits)
qed

lemma igmp_events_keeps:
  "groups_ok (groups m) \<Longrightarrow> groups_ok (groups (igmp_events evs m))"
proof (induction evs arbitrary: m)
  case (Cons ev evs)
  then show ?case using igmp_step_keeps(1)[of m ev] by (simp add: igmp_events_def)
qed (simp add: igmp_events_def)

lemma igmp_events_life:
  "d \<in> set (dict_keys (queriers m)) \<Longrightarrow> life_of (igmp_events evs m) g d p = fold (life_step g d p) evs (life_of m g d p)"
proof (induction evs arbitrary: m)
  case (Cons ev evs)
  have "d \<in> set (dict_keys (queriers (igmp_step ev m)))" using Cons.prems igmp_step_keeps(2)[of ev m] by (simp only:)
  from Cons.IH[OF this] show ?case using Cons.prems by (simp add: igmp_events_def igmp_step_life del: set_map)
qed (simp add: igmp_events_def)

text \<open>A port of a switch that is no querier never replies.\<close>

lemma life_step_timeout: "life_step g d p (LeaveTimeout d' g' p') x = None \<or> life_step g d p (LeaveTimeout d' g' p') x = x"
  by (cases x) (auto split: bool.splits)

lemma igmp_events_foreign:
  "d \<notin> set (dict_keys (queriers m)) \<Longrightarrow> (\<forall>l. life_of m g d p \<noteq> Some (True, l)) \<Longrightarrow> life_of (igmp_events evs m) g d p \<noteq> Some (True, l)"
proof (induction evs arbitrary: m)
  case (Cons ev evs)
  have "d \<notin> set (dict_keys (queriers (igmp_step ev m)))" using Cons.prems(1) igmp_step_keeps(2)[of ev m] by (simp only: not_False_eq_True)
  moreover have "life_of (igmp_step ev m) g d p \<noteq> Some (True, l)" for l
  proof (cases ev)
    case (Message msg)
    then show ?thesis using Cons.prems by (simp add: igmp_step_life del: set_map)
  next
    case (LeaveTimeout d' g' p')
    have eq: "life_of (igmp_step ev m) g d p = life_step g d p (LeaveTimeout d' g' p') (life_of m g d p)"
      unfolding LeaveTimeout igmp_step_life by (simp del: life_step.simps set_map)
    show ?thesis using life_step_timeout[of g d p d' g' p' "life_of m g d p"] Cons.prems(2)
      by (elim disjE) (simp_all only: eq option.distinct not_False_eq_True)
  qed
  ultimately show ?case using Cons.IH[of "igmp_step ev m"] by (simp add: igmp_events_def)
qed (simp add: igmp_events_def)

lemma life_without_timeouts:
  "LeaveTimeout d g p \<notin> set evs \<Longrightarrow> (\<exists>l. fold (life_step g d p) evs x = Some (True, l)) \<longleftrightarrow>
     (\<exists>msg. Message msg \<in> set evs \<and> reports msg g d p) \<or> (\<exists>l. x = Some (True, l))"
proof (induction evs arbitrary: x)
  case (Cons ev evs)
  have IH: "(\<exists>l. fold (life_step g d p) evs (life_step g d p ev x) = Some (True, l)) \<longleftrightarrow>
     (\<exists>msg. Message msg \<in> set evs \<and> reports msg g d p) \<or> (\<exists>l. life_step g d p ev x = Some (True, l))" using Cons by simp
  have "(\<exists>l. life_step g d p ev x = Some (True, l)) \<longleftrightarrow> (\<exists>msg. ev = Message msg \<and> reports msg g d p) \<or> (\<exists>l. x = Some (True, l))"
    using Cons.prems by (cases ev; cases x) (auto split: bool.splits)
  moreover have "(\<exists>msg. Message msg \<in> set (ev # evs) \<and> reports msg g d p) \<longleftrightarrow>
     (\<exists>msg. ev = Message msg \<and> reports msg g d p) \<or> (\<exists>msg. Message msg \<in> set evs \<and> reports msg g d p)" unfolding list.set by blast
  ultimately show ?case unfolding fold_Cons comp_def IH by blast
qed simp

text \<open>
  C33. A round of general queries: whatever reports, leave messages and timeouts of leave messages come between the query and
  its timeout, and in whatever order, a port is a member afterwards exactly if its switch is a
  querier and the life of the port, run from not having replied and with the leave messages still open at the query, ends with a reply: a report
  makes it a member that has replied, a leave message marks it, and the timeout of a leave message takes a marked port out, also when it has
  reported again since. If no leave message times out for the port in this time, it is a member exactly if it has reported.
\<close>

theorem query_round_keeps_repliers:
  assumes "groups_ok (groups m)"
  shows "(port_at (groups (fst (query_expire (igmp_events evs (fst (query_start m)))))) g d p \<noteq> None \<longleftrightarrow>
      d \<in> set (dict_keys (queriers m)) \<and>
      (\<exists>l. fold (life_step g d p) evs (map_option (\<lambda>s. (False, ps_leave s)) (port_at (groups m) g d p)) = Some (True, l))) \<and>
    (LeaveTimeout d g p \<notin> set evs \<longrightarrow>
      (port_at (groups (fst (query_expire (igmp_events evs (fst (query_start m)))))) g d p \<noteq> None \<longleftrightarrow>
        d \<in> set (dict_keys (queriers m)) \<and> (\<exists>msg. Message msg \<in> set evs \<and> reports msg g d p)))"
proof -
  let ?m1 = "fst (query_start m)"
  let ?m2 = "igmp_events evs ?m1" and ?x = "map_option (\<lambda>s. (False, ps_leave s)) (port_at (groups m) g d p)"
  have x: "life_of ?m1 g d p = ?x" by (simp add: life_of_def port_at_start option.map_comp comp_def)
  have q: "queriers ?m1 = queriers m" by (simp add: query_start_def)
  have "groups_ok (groups ?m2)" by (rule igmp_events_keeps[OF groups_ok_start[OF assms(1)]])
  from port_at_expire[OF this, of g d p] have e: "port_at (groups (fst (query_expire (igmp_events evs (fst (query_start m)))))) g d p \<noteq> None \<longleftrightarrow> (\<exists>l. life_of ?m2 g d p = Some (True, l))"
    by (auto simp: life_of_def split: option.splits)
  have n: "\<forall>l. ?x \<noteq> Some (True, l)" by auto
  show ?thesis
  proof (cases "d \<in> set (dict_keys (queriers m))")
    case True
    then have "life_of ?m2 g d p = fold (life_step g d p) evs ?x" using igmp_events_life[of d ?m1 evs g p] unfolding q x by blast
    then show ?thesis using True e n life_without_timeouts[of d g p evs ?x] by (simp del: set_map)
  next
    case False
    then have "life_of ?m2 g d p \<noteq> Some (True, l)" for l using igmp_events_foreign[of d ?m1 g p evs] n unfolding q x by blast
    then show ?thesis using False e by (simp del: set_map)
  qed
qed

definition wit_igmp_dp :: datapath where
  "wit_igmp_dp = \<lparr>dp_id = 1, dp_address = [], dp_ports = [(3, \<lparr>ofp_port_no = 3, ofp_hw_addr = [], ofp_name = [], ofp_config = 0, ofp_state = 0\<rparr>)]\<rparr>"

definition wit_igmp :: igmp where
  "wit_igmp = \<lparr>queriers = [(1, \<lparr>q_groups = [(''225.0.0.1'', wit_igmp_dp)], q_datapath = wit_igmp_dp, q_query_src = []\<rparr>)],
     groups = [(''225.0.0.1'', [(1, [(3, \<lparr>ps_replied = True, ps_leave = False, ps_member = 1, ps_out = False, ps_in = False\<rparr>)])])], querier_thread = True\<rparr>"

text \<open>Port 4 reports; a host of port 3 leaves, another one reports, and the leave message times out.\<close>

definition wit_round :: "igmp_event list" where
  "wit_round = [Message (wit_igmp_dp, IGMP_TYPE_REPORT_V2, ''225.0.0.1'', 4, None), Message (wit_igmp_dp, IGMP_TYPE_LEAVE, ''225.0.0.1'', 3, None),
     Message (wit_igmp_dp, IGMP_TYPE_REPORT_V2, ''225.0.0.1'', 3, None), LeaveTimeout 1 ''225.0.0.1'' 3]"

theorem query_round_keeps_repliers_witness:
  "port_at (groups (fst (query_expire (igmp_events wit_round (fst (query_start wit_igmp)))))) ''225.0.0.1'' 1 4 \<noteq> None \<and>
   port_at (groups (fst (query_expire (igmp_events wit_round (fst (query_start wit_igmp)))))) ''225.0.0.1'' 1 3 = None"
proof -
  have "groups_ok (groups wit_igmp)" by (auto simp: groups_ok_def wit_igmp_def switches_of_def ports_at_def)
  note r = query_round_keeps_repliers[OF this, of wit_round "''225.0.0.1''" 1]
  have "1 \<in> set (dict_keys (queriers wit_igmp))" by (simp add: wit_igmp_def)
  moreover have "fold (life_step ''225.0.0.1'' 1 3) wit_round (map_option (\<lambda>s. (False, ps_leave s)) (port_at (groups wit_igmp) ''225.0.0.1'' 1 3)) \<noteq> Some (True, l)" for l
    by (simp add: wit_igmp_def port_at_def ports_at_def switches_of_def wit_round_def reports_def leaves_def wit_igmp_dp_def IGMP_TYPE_REPORT_V1_def IGMP_TYPE_REPORT_V2_def IGMP_TYPE_LEAVE_def)
  moreover have "LeaveTimeout 1 ''225.0.0.1'' 4 \<notin> set wit_round" by (simp add: wit_round_def)
  moreover have "\<exists>msg. Message msg \<in> set wit_round \<and> reports msg ''225.0.0.1'' 1 4"
    by (intro exI[of _ "(wit_igmp_dp, IGMP_TYPE_REPORT_V2, ''225.0.0.1'', 4, None)"]) (simp add: wit_round_def reports_def wit_igmp_dp_def)
  ultimately show ?thesis using r[of 4] r[of 3] by blast
qed

text \<open>
  A report does not cancel a leave: when one host of a port leaves a group and another host on the
  same port answers the query in time, the port is removed from the group all the same when the
  timeout of the leave message comes, and its flow entry is deleted.
\<close>

theorem report_does_not_cancel_leave:
  assumes "port_at (groups m) g (dp_id dp) p = Some s" "dp_id dp \<in> set (dict_keys (queriers m))"
    and "m1 = fst (do_leave (dp_id dp) g p m)" "m2 = fst (do_report dp g p src m1)"
  shows "case leave_timeout (dp_id dp) g p m2 of
    (m3, outs, e) \<Rightarrow> port_at (groups m3) g (dp_id dp) p = None \<and> ToSwitch (del_flow_entry (dp_id dp) p g) \<in> set outs"
proof -
  have q1: "queriers m1 = queriers m" by (simp add: assms(3) do_leave_effect)
  have "port_at (groups m1) g (dp_id dp) p = Some (s\<lparr>ps_leave := True\<rparr>)"
    using assms(1,3) by (auto simp: do_leave_def Let_def split: option.splits)
  moreover obtain q where "dict_get (queriers m1) (dp_id dp) = Some q" using assms(2) q1 dict_get_None_iff[of "queriers m1" "dp_id dp"] by auto
  ultimately have s2: "port_at (groups m2) g (dp_id dp) p = Some (s\<lparr>ps_leave := True, ps_replied := True\<rparr>)"
    by (simp add: assms(4) do_report_def Let_def)
  let ?d = "dp_id dp" and ?gs = "groups m2"
  let ?ps = "dict_del p (ports_at ?gs g ?d)"
  let ?sws = "if ?ps = [] then dict_del ?d (switches_of ?gs g) else dict_set ?d ?ps (switches_of ?gs g)"
  have "port_at (dict_set g ?sws ?gs) g ?d p = None" by (simp add: port_at_def ports_at_def switches_of_def)
  moreover have "port_at (dict_del g ?gs) g ?d p = None" by (simp add: port_at_def ports_at_def switches_of_def)
  ultimately show ?thesis using s2 by (auto simp: leave_timeout_def Let_def split: prod.splits option.splits)
qed

theorem report_does_not_cancel_leave_witness:
  "case leave_timeout 1 ''225.0.0.1'' 3 (fst (do_report wit_igmp_dp ''225.0.0.1'' 3 (Some ''10.0.0.7'') (fst (do_leave 1 ''225.0.0.1'' 3 wit_igmp)))) of
     (m3, outs, e) \<Rightarrow> port_at (groups m3) ''225.0.0.1'' 1 3 = None \<and> ToSwitch (del_flow_entry 1 3 ''225.0.0.1'') \<in> set outs"
  using report_does_not_cancel_leave[of wit_igmp "''225.0.0.1''" wit_igmp_dp 3]
  by (simp add: wit_igmp_dp_def wit_igmp_def port_at_def ports_at_def switches_of_def)

end
