(* ===== verification/Route_Graph.thy ===== *)
theory Route_Graph
  imports Switch_Table
begin

text \<open>
  The graph the route algorithms of \<open>route_manage/route_algorithm/RouteAlgorithm.py\<close> work on:
  the state of the base class \<open>Algorithm\<close>, its construction by \<open>init_algorithm\<close> from the switch
  and link tables and its refresh by \<open>update_link_status\<close>, which \<open>Dijkstra\<close> and
  \<open>GAPopulation\<close> share. Switches are numbered by their position in \<open>switch_queue\<close>.

  The keys of \<open>switch_neighbors\<close> are the numbers from 0 on, entered in order, and the loop over it
  visits them in that order. The outcome of \<open>init_algorithm\<close> is modelled, not the half-built
  object an exception leaves behind.
\<close>

section \<open>State\<close>

record edge =
  e_src :: nat
  e_dst :: nat
  e_delay :: real
  e_cost :: real
  e_avail :: "real option"
  e_total :: real
  e_loss :: "real option"

record vertex =
  v_degree :: nat
  v_neighbors :: "nat list"
  v_edges :: "nat list"

record algo =
  switch_queue :: "nat list"
  edge_queue :: "(nat \<times> nat) list"
  switch_neighbors :: "(nat, nat list) pydict"
  edge_collection :: "(nat \<times> nat, link) pydict"
  vertexs :: "vertex list"
  edges :: "edge list"
  links :: "nat list list"
  fitness :: "real list"
  link_cache :: "(nat \<times> nat, nat list) pydict"

definition check_link_logic :: "'a algo_scheme \<Rightarrow> nat list \<Rightarrow> pyerr + nat list" where
  "check_link_logic a link_list =
     res_bind (res_fold (\<lambda>_ i.
         res_bind (py_nth (vertexs a) (link_list ! i)) (\<lambda>v.
         if link_list ! Suc i \<in> set (v_neighbors v) then Inr () else Inl AssertionError))
       () [0..<length link_list - 1])
     (\<lambda>_. Inr link_list)"

section \<open>Construction\<close>

definition number_neighbors :: "nat list \<Rightarrow> nat \<times> switch \<Rightarrow> pyerr + (nat \<times> nat list)" where
  "number_neighbors queue e =
     (case e of (dpid, sw) \<Rightarrow>
        res_bind (py_index queue dpid) (\<lambda>num.
        res_bind (res_map (py_index queue) (dict_keys (sw_neighbors sw))) (\<lambda>ns.
        Inr (num, ns))))"

text \<open>
  One iteration of the loop over the link table: the numbers of the ends, the first parallel link,
  and the edge built from it. \<open>float(ev.available_band)\<close> is taken by \<open>update_link_status\<close> only.
\<close>

definition make_edge :: "nat list \<Rightarrow> (nat \<times> nat) \<times> (nat \<times> nat, link) pydict \<Rightarrow>
    pyerr + ((nat \<times> nat) \<times> link \<times> edge)" where
  "make_edge queue e =
     (case e of ((sd, dd), parallel) \<Rightarrow>
        res_bind (py_index queue sd) (\<lambda>src_num.
        res_bind (py_index queue dd) (\<lambda>dst_num.
        res_bind (py_nth (dict_values parallel) 0) (\<lambda>ev.
        res_bind (py_float (link_delay ev)) (\<lambda>delay.
        res_bind (py_float (link_cost ev)) (\<lambda>cost.
        res_bind (py_float (link_total_band ev)) (\<lambda>total.
        Inr ((src_num, dst_num), ev,
          \<lparr>e_src = src_num, e_dst = dst_num, e_delay = delay, e_cost = cost,
           e_avail = link_available_band ev, e_total = total, e_loss = link_pkt_loss ev\<rparr>))))))))"

definition joins :: "edge \<Rightarrow> nat \<Rightarrow> nat \<Rightarrow> bool" where
  "joins e u v \<longleftrightarrow> (e_src e, e_dst e) = (u, v) \<or> (e_src e, e_dst e) = (v, u)"

definition matching_edges :: "edge list \<Rightarrow> nat \<Rightarrow> nat \<Rightarrow> nat list" where
  "matching_edges es src dst = filter (\<lambda>num. joins (es ! num) src dst) [0..<length es]"

fun add_vertices :: "edge list \<Rightarrow> (nat \<times> nat list) list \<Rightarrow> vertex list \<Rightarrow> pyerr + vertex list" where
  "add_vertices es [] vs = Inr vs"
| "add_vertices es ((src_num, ns) # rest) vs =
     (let vs' = vs @ [\<lparr>v_degree = length ns, v_neighbors = ns, v_edges = []\<rparr>];
          hits = concat (map (matching_edges es src_num) ns)
      in if hits = [] then add_vertices es rest vs'
         else if src_num < length vs'
         then add_vertices es rest (vs'[src_num := (vs' ! src_num)\<lparr>v_edges := v_edges (vs' ! src_num) @ hits\<rparr>])
         else Inl IndexError)"

definition init_algorithm :: "switch_table \<Rightarrow> link_table_api \<Rightarrow> 'a algo_scheme \<Rightarrow> pyerr + 'a algo_scheme" where
  "init_algorithm switches lnks a =
     (let queue = dict_keys switches
      in res_bind (res_map (number_neighbors queue) switches) (\<lambda>nbs.
         let sn = foldl (\<lambda>d (num, ns). dict_set num ns d) [] nbs
         in res_bind (res_map (make_edge queue) lnks) (\<lambda>es.
            res_bind (add_vertices (map (snd \<circ> snd) es) sn []) (\<lambda>vs.
            Inr (a\<lparr>switch_queue := queue, edge_queue := dict_keys lnks, switch_neighbors := sn,
                   edge_collection := foldl (\<lambda>d (k, ev, _). dict_set k ev d) [] es,
                   vertexs := vs, edges := map (snd \<circ> snd) es, links := [], fitness := [], link_cache := []\<rparr>)))))"

section \<open>Refresh\<close>

text \<open>
  The debug message of \<open>update_link_status\<close> divides by the total bandwidth: a link whose total
  bandwidth is 0 raises there.
\<close>

definition refresh_edge :: "nat list \<Rightarrow> (nat \<times> nat) \<times> (nat \<times> nat, link) pydict \<Rightarrow>
    pyerr + ((nat \<times> nat) \<times> link \<times> edge)" where
  "refresh_edge queue e =
     res_bind (make_edge queue e) (\<lambda>(k, ev, ed).
     res_bind (py_float (e_avail ed)) (\<lambda>avail.
     if e_total ed = 0 then Inl ZeroDivisionError else Inr (k, ev, ed)))"

definition update_link_status :: "link_table_api \<Rightarrow> 'a algo_scheme \<Rightarrow> pyerr + 'a algo_scheme" where
  "update_link_status lnks a =
     res_bind (res_map (refresh_edge (switch_queue a)) lnks) (\<lambda>es.
     Inr (a\<lparr>edges := map (snd \<circ> snd) es,
            edge_collection := foldl (\<lambda>d (k, ev, _). dict_set k ev d) (edge_collection a) es\<rparr>))"


section \<open>What the construction builds\<close>

text \<open>
  The tables the algorithms need: every neighbour of a switch is a switch, both ends of a link
  are switches, and the first of the parallel links has a delay, a cost and a total bandwidth.
\<close>

definition measured :: "link \<Rightarrow> bool" where
  "measured l \<longleftrightarrow> link_delay l \<noteq> None \<and> link_cost l \<noteq> None \<and> link_total_band l \<noteq> None"

definition graph_input_ok :: "switch_table \<Rightarrow> link_table_api \<Rightarrow> bool" where
  "graph_input_ok switches lnks \<longleftrightarrow> dict_ok switches \<and>
     (\<forall>(d, sw) \<in> set switches. set (dict_keys (sw_neighbors sw)) \<subseteq> set (dict_keys switches)) \<and>
     (\<forall>((a, b), par) \<in> set lnks. a \<in> set (dict_keys switches) \<and> b \<in> set (dict_keys switches) \<and>
        par \<noteq> [] \<and> measured (snd (hd par)))"

lemma graph_input_keys: "graph_input_ok switches lnks \<Longrightarrow> dict_ok switches"
  unfolding graph_input_ok_def by (elim conjE)

lemma graph_input_nbs:
  assumes "graph_input_ok switches lnks" "e \<in> set switches"
  shows "set (dict_keys (sw_neighbors (snd e))) \<subseteq> set (dict_keys switches)"
proof -
  have "\<forall>(d, sw) \<in> set switches. set (dict_keys (sw_neighbors sw)) \<subseteq> set (dict_keys switches)"
    using assms(1) unfolding graph_input_ok_def by (elim conjE)
  from bspec[OF this assms(2)] show ?thesis unfolding case_prod_unfold .
qed

definition edge_of :: "nat list \<Rightarrow> (nat \<times> nat) \<times> (nat \<times> nat, link) pydict \<Rightarrow> edge" where
  "edge_of queue e =
     (case e of ((a, b), par) \<Rightarrow>
        let ev = snd (hd par)
        in \<lparr>e_src = pos queue a, e_dst = pos queue b, e_delay = the (link_delay ev), e_cost = the (link_cost ev),
            e_avail = link_available_band ev, e_total = the (link_total_band ev), e_loss = link_pkt_loss ev\<rparr>)"

definition vertex_of :: "nat list \<Rightarrow> edge list \<Rightarrow> nat \<times> switch \<Rightarrow> vertex" where
  "vertex_of queue es e =
     (let ns = map (pos queue) (dict_keys (sw_neighbors (snd e)))
      in \<lparr>v_degree = length ns, v_neighbors = ns,
          v_edges = concat (map (matching_edges es (pos queue (fst e))) ns)\<rparr>)"

lemma make_edge_ok:
  "graph_input_ok switches lnks \<Longrightarrow> e \<in> set lnks \<Longrightarrow>
     make_edge (dict_keys switches) e =
       Inr ((pos (dict_keys switches) (fst (fst e)), pos (dict_keys switches) (snd (fst e))), snd (hd (snd e)),
            edge_of (dict_keys switches) e)"
  by (cases e; cases "snd e")
     (auto simp: graph_input_ok_def make_edge_def edge_of_def py_index_mem py_nth_def py_float_def measured_def
      simp del: set_map)

lemma number_neighbors_ok:
  "graph_input_ok switches lnks \<Longrightarrow> e \<in> set switches \<Longrightarrow>
     number_neighbors (dict_keys switches) e =
       Inr (pos (dict_keys switches) (fst e), map (pos (dict_keys switches)) (dict_keys (sw_neighbors (snd e))))"
proof -
  assume ok: "graph_input_ok switches lnks" and e: "e \<in> set switches"
  have "fst e \<in> set (dict_keys switches)" using e by simp
  moreover have "n \<in> set (dict_keys switches)" if "n \<in> set (dict_keys (sw_neighbors (snd e)))" for n
    using graph_input_nbs[OF ok e] that by (rule subsetD)
  then have "res_map (py_index (dict_keys switches)) (dict_keys (sw_neighbors (snd e))) =
      Inr (map (pos (dict_keys switches)) (dict_keys (sw_neighbors (snd e))))"
    by (intro res_map_total py_index_mem)
  ultimately show ?thesis
    unfolding number_neighbors_def by (simp add: py_index_mem case_prod_unfold del: set_map map_map)
qed

lemma add_vertices_eval:
  "length vs = k \<Longrightarrow> map fst items = [k..<k + length items] \<Longrightarrow>
     add_vertices es items vs =
       Inr (vs @ map (\<lambda>(i, ns). \<lparr>v_degree = length ns, v_neighbors = ns,
          v_edges = concat (map (matching_edges es i) ns)\<rparr>) items)"
proof (induction items arbitrary: vs k)
  case (Cons it items)
  obtain i ns where it: "it = (i, ns)" by fastforce
  have i: "i = k" and rest: "map fst items = [Suc k..<Suc k + length items]"
    using Cons.prems(2) upt_conv_Cons[of k "k + length (it # items)"] by (auto simp: it simp del: upt_Suc)
  show ?case
    using Cons.IH[of _ "Suc k"] Cons.prems(1) rest
    by (auto simp: it i Let_def nth_append list_update_append)
qed simp

lemma map_fst_pos: "distinct xs \<Longrightarrow> map (pos xs) xs = [0..<length xs]"
  by (rule nth_equalityI) (auto simp: pos_nth)

lemma init_algorithm_eval:
  assumes ok: "graph_input_ok switches lnks"
  defines "q \<equiv> dict_keys switches"
  shows "\<exists>sn ec. init_algorithm switches lnks a =
    Inr (a\<lparr>switch_queue := q, edge_queue := dict_keys lnks, switch_neighbors := sn, edge_collection := ec,
      vertexs := map (vertex_of q (map (edge_of q) lnks)) switches, edges := map (edge_of q) lnks,
      links := [], fitness := [], link_cache := []\<rparr>)"
proof -
  let ?nb = "\<lambda>e. (pos q (fst e), map (pos q) (dict_keys (sw_neighbors (snd e))))"
  have d: "distinct q" using ok by (simp add: graph_input_ok_def q_def)
  have nbs: "res_map (number_neighbors q) switches = Inr (map ?nb switches)"
    unfolding q_def by (intro res_map_total number_neighbors_ok[OF ok])
  have keys: "map fst (map ?nb switches) = [0..<length switches]"
    using map_fst_pos[OF d] by (simp add: q_def comp_def)
  then have sn: "foldl (\<lambda>d (num, ns). dict_set num ns d) [] (map ?nb switches) = map ?nb switches"
    by (subst foldl_dict_set) (simp_all only: list.map append_Nil distinct_upt)
  obtain es where es: "res_map (make_edge q) lnks = Inr es" and em: "map (snd \<circ> snd) es = map (edge_of q) lnks"
    using res_map_total[OF make_edge_ok[OF ok], of lnks] by (auto simp: q_def comp_def)
  have vs: "add_vertices (map (edge_of q) lnks) (map ?nb switches) [] =
      Inr (map (vertex_of q (map (edge_of q) lnks)) switches)"
    using add_vertices_eval[of "[]" 0 "map ?nb switches"] keys
    by (simp add: vertex_of_def Let_def comp_def)
  show ?thesis
    unfolding init_algorithm_def Let_def q_def[symmetric] nbs es res_bind_simps sn em vs by blast
qed

lemma init_algorithm_raises:
  assumes "e \<in> set lnks" "\<And>k ev. make_edge (dict_keys switches) e \<noteq> Inr (k, ev)"
  shows "\<exists>err. init_algorithm switches lnks a = Inl err"
proof -
  obtain err where "make_edge (dict_keys switches) e = Inl err"
    using assms(2) by (cases "make_edge (dict_keys switches) e") auto
  then have "\<exists>err'. res_map (make_edge (dict_keys switches)) lnks = Inl err'"
    using res_map_Inl[OF assms(1)] by blast
  then show ?thesis
    by (cases "res_map (number_neighbors (dict_keys switches)) switches") (auto simp: init_algorithm_def Let_def)
qed

end
