(* ===== verification/Search_Tree.thy ===== *)
theory Search_Tree
  imports Prelude
begin

text \<open>
  What the two implementations of Dijkstra's algorithm in the code share: the local arrays of the search, the
  reconstruction of a path from the predecessors, and the invariant of the loop with the lemmas that
  carry it. \<open>Dijkstra_Route\<close> (all vertices, one weight per pair of neighbours) and \<open>Mg_Route\<close> (the vertices
  that a chromosome selects, parallel edges) are its clients.
\<close>

section \<open>Arrays and paths\<close>

text \<open>The entry -1 of \<open>previous_vertex\<close> is \<^term>\<open>None\<close>.\<close>

record search =
  tag :: "bool list"
  previous_vertex :: "nat option list"
  paths_length :: "real list"

text \<open>
  The path to a vertex follows \<open>previous_vertex\<close> to the front; nothing in the code bounds
  this loop, so it is \<^term>\<open>None\<close> if it does not end.
\<close>

partial_function (option) walk_back :: "nat option list \<Rightarrow> nat \<Rightarrow> nat list \<Rightarrow> nat list option" where
  [code]: "walk_back prev j path =
     (case prev ! j of None \<Rightarrow> Some path | Some i \<Rightarrow> walk_back prev i (i # path))"

lemma walk_back_step:
  "walk_back prev j path = (case prev ! j of None \<Rightarrow> Some path | Some i \<Rightarrow> walk_back prev i (i # path))"
  by (rule walk_back.simps)

text \<open>
  A graph is given by its arcs: \<open>A u\<close> holds the pairs of a vertex next to \<open>u\<close> and the cost of going there. The
  search runs on the vertices \<open>V\<close>, from \<open>s\<close>, with arrays of length \<open>n\<close>; \<open>B\<close> is the length it starts from.
\<close>

definition search_graph :: "nat \<Rightarrow> nat set \<Rightarrow> (nat \<Rightarrow> (nat \<times> real) set) \<Rightarrow> nat \<Rightarrow> real \<Rightarrow> bool" where
  "search_graph n V A s B \<longleftrightarrow> V \<subseteq> {..<n} \<and> s \<in> V \<and> 0 < B \<and> (\<forall>u \<in> V. \<forall>(y, c) \<in> A u. y \<in> V \<and> 0 \<le> c)"

lemma search_graphD:
  assumes "search_graph n V A s B"
  shows "v \<in> V \<Longrightarrow> v < n" "s \<in> V" "0 < B" "u \<in> V \<Longrightarrow> (y, c) \<in> A u \<Longrightarrow> y \<in> V" "u \<in> V \<Longrightarrow> (y, c) \<in> A u \<Longrightarrow> 0 \<le> c"
  using assms by (auto simp: search_graph_def)

inductive arc_path :: "(nat \<Rightarrow> (nat \<times> real) set) \<Rightarrow> nat list \<Rightarrow> real \<Rightarrow> bool" for A where
  arc_path_single: "arc_path A [v] 0"
| arc_path_snoc: "arc_path A p k \<Longrightarrow> (y, c) \<in> A (last p) \<Longrightarrow> arc_path A (p @ [y]) (k + c)"

lemma arc_path_nonempty: "arc_path A p k \<Longrightarrow> p \<noteq> []"
  by (induction rule: arc_path.induct) auto

lemma arc_path_cost:
  assumes "\<And>u y c. (y, c) \<in> A u \<Longrightarrow> 0 \<le> c"
  shows "arc_path A p k \<Longrightarrow> 0 \<le> k"
proof (induction rule: arc_path.induct)
  case (arc_path_snoc p k y c)
  then show ?case using assms[OF arc_path_snoc.hyps(2)] by simp
qed simp

lemma arc_path_adjacent:
  assumes pos: "\<And>u y c. (y, c) \<in> A u \<Longrightarrow> 0 \<le> c"
  shows "arc_path A p k \<Longrightarrow> Suc i < length p \<Longrightarrow> \<exists>c \<le> k. (p ! Suc i, c) \<in> A (p ! i)"
proof (induction rule: arc_path.induct)
  case (arc_path_snoc p k y c)
  have k: "0 \<le> k" by (rule arc_path_cost[OF pos arc_path_snoc.hyps(1)])
  have c: "0 \<le> c" by (rule pos[OF arc_path_snoc.hyps(2)])
  show ?case
  proof (cases "Suc i < length p")
    case True
    with arc_path_snoc.IH obtain c' where "c' \<le> k" "(p ! Suc i, c') \<in> A (p ! i)" by blast
    then show ?thesis using True c by (intro exI[of _ c']) (simp add: nth_append)
  next
    case False
    then have i: "length p = Suc i" using arc_path_snoc.prems by simp
    then have "p ! i = last p" using arc_path_nonempty[OF arc_path_snoc.hyps(1)] by (simp add: last_conv_nth)
    then show ?thesis using arc_path_snoc.hyps(2) i k by (intro exI[of _ c]) (simp add: nth_append)
  qed
qed simp

text \<open>
  A path read off the predecessors: every vertex is the predecessor of the next one and the first one has none. Two
  such paths that meet in a vertex are the same up to there, so all of them together form a tree.
\<close>

definition prev_linked :: "nat option list \<Rightarrow> nat list \<Rightarrow> bool" where
  "prev_linked prev p \<longleftrightarrow> (\<forall>i. Suc i < length p \<longrightarrow> prev ! (p ! Suc i) = Some (p ! i))"

definition back_path :: "nat option list \<Rightarrow> nat list \<Rightarrow> bool" where
  "back_path prev p \<longleftrightarrow> p \<noteq> [] \<and> prev ! hd p = None \<and> prev_linked prev p"

lemma back_path_snoc: "back_path prev (p @ [u]) \<Longrightarrow> prev ! v = Some u \<Longrightarrow> back_path prev ((p @ [u]) @ [v])"
  unfolding back_path_def prev_linked_def
proof (elim conjE, intro conjI allI impI)
  fix i assume l: "\<forall>i. Suc i < length (p @ [u]) \<longrightarrow> prev ! ((p @ [u]) ! Suc i) = Some ((p @ [u]) ! i)"
    and v: "prev ! v = Some u" and i: "Suc i < length ((p @ [u]) @ [v])"
  show "prev ! (((p @ [u]) @ [v]) ! Suc i) = Some (((p @ [u]) @ [v]) ! i)"
  proof (cases "Suc i < length (p @ [u])")
    case True
    with l have "prev ! ((p @ [u]) ! Suc i) = Some ((p @ [u]) ! i)" by blast
    then show ?thesis using True by (simp only: nth_append[of "p @ [u]"] if_True Suc_lessD)
  next
    case False
    then have "i = length p" using i by simp
    then show ?thesis using v by (simp add: nth_append)
  qed
qed (cases p; simp)+

lemma back_path_prefix:
  assumes p: "back_path prev p" "back_path prev q"
  shows "i < length p \<Longrightarrow> j < length q \<Longrightarrow> p ! i = q ! j \<Longrightarrow> take (Suc i) p = take (Suc j) q"
proof (induction i arbitrary: j)
  case 0
  have "prev ! (q ! j) = None" using 0 p(1) by (auto simp: back_path_def hd_conv_nth)
  then have "j = 0" using 0(2) p(2) by (cases j) (auto simp: back_path_def prev_linked_def)
  then show ?case using 0 by (simp add: take_Suc_conv_app_nth)
next
  case (Suc i)
  have pi: "prev ! (p ! Suc i) = Some (p ! i)" using Suc.prems(1) p(1) by (simp add: back_path_def prev_linked_def)
  obtain j' where j: "j = Suc j'"
  proof (cases j)
    case 0
    then have "prev ! (q ! j) = None" using p(2) by (auto simp: back_path_def hd_conv_nth)
    then show ?thesis using pi Suc.prems(3) by simp
  qed
  have "prev ! (q ! Suc j') = Some (q ! j')" using Suc.prems(2) p(2) j by (simp add: back_path_def prev_linked_def)
  then have "p ! i = q ! j'" using pi Suc.prems(3) j by simp
  then have "take (Suc i) p = take (Suc j') q" using Suc.IH[of j'] Suc.prems(1,2) j by simp
  then show ?case using Suc.prems j by (simp add: take_Suc_conv_app_nth)
qed

section \<open>The invariant\<close>

text \<open>
  The invariant at the head of an iteration, on the arrays read as functions: \<open>D\<close> the lengths,
  \<open>P\<close> the predecessors. \<open>L\<close> lists the tagged vertices in the order of their selection, \<open>R\<close> are
  those whose neighbours have been relaxed.
\<close>

definition relaxed :: "(nat \<Rightarrow> (nat \<times> real) set) \<Rightarrow> nat set \<Rightarrow> (nat \<Rightarrow> real) \<Rightarrow> bool" where
  "relaxed A R D \<longleftrightarrow> (\<forall>x \<in> R. \<forall>(y, c) \<in> A x. D y \<le> D x + c)"

definition layered :: "nat set \<Rightarrow> nat list \<Rightarrow> (nat \<Rightarrow> real) \<Rightarrow> bool" where
  "layered V L D \<longleftrightarrow> (\<forall>x \<in> set L. D x \<le> D (last L)) \<and> (\<forall>x \<in> set L. \<forall>y \<in> V. y \<notin> set L \<longrightarrow> D x \<le> D y)"

definition hooked :: "(nat \<Rightarrow> (nat \<times> real) set) \<Rightarrow> real \<Rightarrow> nat \<Rightarrow> nat list \<Rightarrow> (nat \<Rightarrow> real) \<Rightarrow>
    (nat \<Rightarrow> nat option) \<Rightarrow> nat \<Rightarrow> bool" where
  "hooked A B s L D P v \<longleftrightarrow> D v \<le> B \<and>
     (case P v of Some p \<Rightarrow> p \<in> set L \<and> (v, D v - D p) \<in> A p \<and> D v < B
      | None \<Rightarrow> v = s \<or> D v = B)"

definition tree :: "nat set \<Rightarrow> (nat \<Rightarrow> (nat \<times> real) set) \<Rightarrow> real \<Rightarrow> nat \<Rightarrow> nat list \<Rightarrow> (nat \<Rightarrow> real) \<Rightarrow>
    (nat \<Rightarrow> nat option) \<Rightarrow> bool" where
  "tree V A B s L D P \<longleftrightarrow> D s = 0 \<and> P s = None \<and> (\<forall>v \<in> V. hooked A B s L D P v) \<and>
     (\<forall>i < length L. \<forall>p. P (L ! i) = Some p \<longrightarrow> p \<in> set (take i L))"

definition shape :: "nat \<Rightarrow> nat set \<Rightarrow> nat \<Rightarrow> nat list \<Rightarrow> nat set \<Rightarrow> search \<Rightarrow> bool" where
  "shape n V s L R d \<longleftrightarrow> length (tag d) = n \<and> length (previous_vertex d) = n \<and> length (paths_length d) = n \<and>
     L \<noteq> [] \<and> distinct L \<and> (\<forall>v \<in> V. v \<in> set L \<longleftrightarrow> tag d ! v) \<and> set L \<subseteq> V \<and> s \<in> set L \<and> R \<subseteq> set L \<and>
     (\<forall>v < n. v \<notin> V \<longrightarrow> previous_vertex d ! v = None)"

definition search_inv :: "nat \<Rightarrow> nat set \<Rightarrow> (nat \<Rightarrow> (nat \<times> real) set) \<Rightarrow> real \<Rightarrow> nat \<Rightarrow> nat list \<Rightarrow> nat set \<Rightarrow> search \<Rightarrow> bool" where
  "search_inv n V A B s L R d \<longleftrightarrow> shape n V s L R d \<and> relaxed A R (nth (paths_length d)) \<and>
     layered V L (nth (paths_length d)) \<and> tree V A B s L (nth (paths_length d)) (nth (previous_vertex d))"

lemma search_inv_shape: "search_inv n V A B s L R d \<Longrightarrow> shape n V s L R d"
  by (simp add: search_inv_def)

lemma shape_lengths: "shape n V s L R d \<Longrightarrow> length (tag d) = n \<and> length (previous_vertex d) = n \<and> length (paths_length d) = n"
  by (simp add: shape_def)

lemma shape_last: "shape n V s L R d \<Longrightarrow> last L \<in> set L \<and> last L \<in> V \<and> tag d ! last L"
  using last_in_set[of L] unfolding shape_def by blast

lemma relaxed_upd:
  assumes "relaxed A R D" "j \<notin> R" "c \<le> D j"
  shows "relaxed A R (D(j := c))"
  unfolding relaxed_def
proof (intro ballI, clarify)
  fix x y k assume x: "x \<in> R" "(y, k) \<in> A x"
  then have "D y \<le> D x + k" using assms(1) by (auto simp: relaxed_def)
  moreover have "x \<noteq> j" using x(1) assms(2) by metis
  ultimately show "(D(j := c)) y \<le> (D(j := c)) x + k" using assms(3) by auto
qed

lemma layered_upd:
  "layered V L D \<Longrightarrow> L \<noteq> [] \<Longrightarrow> j \<notin> set L \<Longrightarrow> D (last L) \<le> c \<Longrightarrow> layered V L (D(j := c))"
  unfolding layered_def using last_in_set[of L] by (auto intro: order_trans)

lemma hooked_other:
  "hooked A B s L D P v \<Longrightarrow> v \<noteq> j \<Longrightarrow> j \<notin> set L \<Longrightarrow> hooked A B s L (D(j := c)) (P(j := q)) v"
  unfolding hooked_def by (auto split: option.splits)

lemma tree_upd:
  assumes t: "tree V A B s L D P" and j: "j \<notin> set L" "j \<in> V" and L: "s \<in> set L" "u \<in> set L"
    and c: "(j, k) \<in> A u" "c = D u + k" "c < D j"
  shows "tree V A B s L (D(j := c)) (P(j := Some u))"
proof -
  have "hooked A B s L (D(j := c)) (P(j := Some u)) v" if "v \<in> V" for v
  proof (cases "v = j")
    case True
    have "D j \<le> B" using t j(2) by (simp add: tree_def hooked_def)
    moreover have "u \<noteq> j" using L(2) j(1) by metis
    ultimately show ?thesis using True L j c by (simp add: hooked_def)
  next
    case False
    then show ?thesis using t that j by (intro hooked_other) (auto simp: tree_def)
  qed
  moreover have "L ! i \<noteq> j" if "i < length L" for i using that j(1) nth_mem by blast
  ultimately show ?thesis using t j L(1) by (auto simp: tree_def)
qed

lemma nth_upd_fun: "j < length xs \<Longrightarrow> nth (xs[j := c]) = (nth xs)(j := c)"
  by (auto simp: fun_eq_iff nth_list_update)

section \<open>Steps of the search\<close>

text \<open>A neighbour of the selected vertex gets a shorter path.\<close>

lemma search_inv_update:
  assumes g: "search_graph n V A s B" and inv: "search_inv n V A B s L R d"
    and j: "\<not> tag d ! j" "(j, k) \<in> A (last L)"
    and c: "c = paths_length d ! last L + k" "c < paths_length d ! j"
  shows "search_inv n V A B s L R
    (d\<lparr>paths_length := (paths_length d)[j := c], previous_vertex := (previous_vertex d)[j := Some (last L)]\<rparr>)"
proof -
  have sh: "shape n V s L R d" by (rule search_inv_shape[OF inv])
  have V: "j \<in> V" "0 \<le> k" using search_graphD(4,5)[OF g _ j(2)] shape_last[OF sh] by simp_all
  then have jn: "j < n" using search_graphD(1)[OF g] by simp
  from sh have L: "j \<notin> set L" "j \<notin> R" "s \<in> set L" "L \<noteq> []" "last L \<in> set L"
    and len: "length (previous_vertex d) = n" "length (paths_length d) = n"
    using j(1) V(1) by (auto simp: shape_def)
  have "j \<noteq> v" if "v \<notin> V" for v using that V(1) by metis
  then have "shape n V s L R (d\<lparr>paths_length := (paths_length d)[j := c], previous_vertex := (previous_vertex d)[j := Some (last L)]\<rparr>)"
    using sh unfolding shape_def by simp
  then show ?thesis
    using inv c L j V jn relaxed_upd[of A R _ j c] layered_upd[of V L _ j c] tree_upd[of V A B s L _ _ j "last L" k c]
    by (simp add: search_inv_def nth_upd_fun len)
qed

lemma layered_select:
  "layered V L D \<Longrightarrow> r \<in> V \<Longrightarrow> r \<notin> set L \<Longrightarrow> (\<And>v. v \<in> V \<Longrightarrow> v \<notin> set L \<Longrightarrow> D r \<le> D v) \<Longrightarrow> layered V (L @ [r]) D"
  unfolding layered_def by simp

lemma tree_select: "tree V A B s L D P \<Longrightarrow> r \<in> V \<Longrightarrow> tree V A B s (L @ [r]) D P"
  unfolding tree_def hooked_def by (auto simp: less_Suc_eq nth_append split: option.splits)

text \<open>The nearest open vertex is selected.\<close>

lemma search_inv_select:
  assumes g: "search_graph n V A s B" and inv: "search_inv n V A B s L (set L) d" and r: "r \<in> V" "\<not> tag d ! r"
    and near: "\<And>v. v \<in> V \<Longrightarrow> \<not> tag d ! v \<Longrightarrow> paths_length d ! r \<le> paths_length d ! v"
  shows "search_inv n V A B s (L @ [r]) (set L) (d\<lparr>tag := (tag d)[r := True]\<rparr>)"
proof -
  have sh: "shape n V s L (set L) d" by (rule search_inv_shape[OF inv])
  have "r < n" using search_graphD(1)[OF g] r(1) by simp
  then have "shape n V s (L @ [r]) (set L) (d\<lparr>tag := (tag d)[r := True]\<rparr>)"
    using sh r by (auto simp: shape_def nth_list_update)
  moreover have "layered V (L @ [r]) (nth (paths_length d))"
    using inv sh r near by (intro layered_select) (auto simp: search_inv_def shape_def)
  ultimately show ?thesis using inv r tree_select[of V A B s L _ _ r] by (simp add: search_inv_def)
qed

text \<open>All arcs of the selected vertex have been looked at.\<close>

lemma search_inv_relaxed:
  assumes g: "search_graph n V A s B" and inv: "search_inv n V A B s L R d" and R: "set L \<subseteq> insert (last L) R"
    and new: "\<And>y c. (y, c) \<in> A (last L) \<Longrightarrow> \<not> tag d ! y \<Longrightarrow> paths_length d ! y \<le> paths_length d ! last L + c"
  shows "search_inv n V A B s L (set L) d"
proof -
  have l: "last L \<in> V" using shape_last[OF search_inv_shape[OF inv]] by simp
  have "paths_length d ! y \<le> paths_length d ! last L + c" if y: "(y, c) \<in> A (last L)" for y c
  proof (cases "tag d ! y")
    case True
    have yc: "y \<in> V" "0 \<le> c" by (rule search_graphD(4)[OF g l y], rule search_graphD(5)[OF g l y])
    with True have "paths_length d ! y \<le> paths_length d ! last L"
      using inv by (auto simp: search_inv_def shape_def layered_def)
    then show ?thesis using yc(2) by simp
  qed (rule new[OF y])
  then have "relaxed A (set L) (nth (paths_length d))"
    using inv R unfolding search_inv_def relaxed_def by blast
  then show ?thesis using inv unfolding search_inv_def shape_def by blast
qed

lemma shape_card:
  assumes "search_graph n V A s B" "shape n V s L R d"
  shows "length L \<le> card V" "length L = card V \<Longrightarrow> set L = V" "length L < card V \<Longrightarrow> \<exists>v \<in> V. \<not> tag d ! v"
proof -
  have fin: "finite V" using assms(1) finite_subset[of V "{..<n}"] by (auto simp: search_graph_def)
  have sub: "set L \<subseteq> V" and card: "card (set L) = length L"
    using assms(2) by (auto simp: shape_def distinct_card)
  show "length L \<le> card V" using card_mono[OF fin sub] card by simp
  show "set L = V" if "length L = card V"
    using card_subset_eq[OF fin sub] card that by simp
  show "\<exists>v \<in> V. \<not> tag d ! v" if "length L < card V"
  proof (rule ccontr)
    assume "\<not> ?thesis"
    then have "V \<subseteq> set L" using assms(2) by (auto simp: shape_def)
    then show False using card_mono[of "set L" V] card that by simp
  qed
qed

text \<open>The choice of the nearest open vertex: a fold that starts from some open vertex.\<close>

lemma foldl_nearest:
  assumes "foldl (\<lambda>(m, r) j. if Q j \<and> D j < m then (D j, j) else (m, r)) (m, r) [0..<n] = (m', r')"
    and "r < n" "Q r" "D r \<le> (m :: real)"
  shows "r' < n \<and> Q r' \<and> (\<forall>v < n. Q v \<longrightarrow> D r' \<le> D v)"
proof -
  let ?f = "\<lambda>(m, r) j. if Q j \<and> D j < m then (D j, j) else (m, r)"
  have "case foldl ?f (m, r) [0..<k] of (m', r') \<Rightarrow> r' < n \<and> Q r' \<and> D r' \<le> m' \<and> (\<forall>v < k. Q v \<longrightarrow> m' \<le> D v)"
    if "k \<le> n" for k
    using that
  proof (induction k)
    case (Suc k)
    then show ?case by (auto simp: less_Suc_eq split: prod.splits if_splits)
  qed (use assms(2-4) in simp)
  from this[OF order_refl, unfolded assms(1)] show ?thesis by (auto intro: order_trans)
qed

section \<open>The start and the end\<close>

lemma search_start:
  assumes g: "search_graph n V A s B"
  shows "search_inv n V A B s [s] {} \<lparr>tag = (replicate n False)[s := True], previous_vertex = replicate n None,
      paths_length = (replicate n B)[s := 0]\<rparr>" (is "search_inv n V A B s [s] {} ?d")
proof -
  note n = search_graphD(1)[OF g] and s = search_graphD(2)[OF g]
  have D: "(replicate n B)[s := 0] ! v = (if v = s then 0 else B)" if "v \<in> V" for v
    using n[OF that] n[OF s] by (simp add: nth_list_update)
  have "shape n V s [s] {} ?d" using n s by (auto simp: shape_def nth_list_update)
  moreover have "layered V [s] (nth (paths_length ?d))" using D s n search_graphD(3)[OF g] by (simp add: layered_def)
  moreover have "tree V A B s [s] (nth (paths_length ?d)) (nth (previous_vertex ?d))"
    using D s n search_graphD(3)[OF g] by (simp add: tree_def hooked_def)
  ultimately show ?thesis by (simp add: search_inv_def relaxed_def)
qed

lemma path_lower_bound:
  assumes g: "search_graph n V A s B" and rel: "relaxed A V D" and s: "D s = 0"
  shows "arc_path A p k \<Longrightarrow> hd p = s \<Longrightarrow> last p \<in> V \<and> D (last p) \<le> k"
proof (induction rule: arc_path.induct)
  case (arc_path_single v)
  then show ?case using s search_graphD(2)[OF g] by simp
next
  case (arc_path_snoc p k y c)
  then have ih: "last p \<in> V" "D (last p) \<le> k" using arc_path_nonempty by fastforce+
  then have "D y \<le> D (last p) + c" using rel arc_path_snoc.hyps(2) by (auto simp: relaxed_def)
  then show ?case using ih search_graphD(4)[OF g ih(1) arc_path_snoc.hyps(2)] by simp
qed

text \<open>
  The paths of a finished search. For a tagged vertex the reconstruction ends; it gives a path from
  the source that repeats no vertex and costs \<open>D v\<close>, or the vertex alone if that length was never improved.
\<close>

definition traced :: "(nat \<Rightarrow> (nat \<times> real) set) \<Rightarrow> real \<Rightarrow> nat \<Rightarrow> nat option list \<Rightarrow> real list \<Rightarrow> nat \<Rightarrow> nat list \<Rightarrow> bool" where
  "traced A B s prev D v pre \<longleftrightarrow>
     (\<forall>rest. walk_back prev v (v # rest) = Some (pre @ v # rest)) \<and> distinct (pre @ [v]) \<and> back_path prev (pre @ [v]) \<and>
     (if D ! v < B \<or> v = s then hd (pre @ [v]) = s \<and> arc_path A (pre @ [v]) (D ! v) else pre = [] \<and> D ! v = B \<and> prev ! v = None)"

lemma walk_back_traced:
  assumes g: "search_graph n V A s B" and t: "tree V A B s L (nth D) (nth prev)" and L: "distinct L" "set L \<subseteq> V"
  shows "i < length L \<Longrightarrow> \<exists>pre. set pre \<subseteq> set (take i L) \<and> traced A B s prev D (L ! i) pre"
proof (induction i rule: less_induct)
  case (less i)
  let ?v = "L ! i"
  have v: "?v \<in> V" using less.prems L(2) nth_mem by blast
  have hook: "hooked A B s L (nth D) (nth prev) ?v" using t v by (simp add: tree_def)
  have fresh: "?v \<notin> set (take i L)" using less.prems L(1) by (auto simp: in_set_conv_nth nth_eq_iff_index_eq)
  show ?case
  proof (cases "prev ! ?v")
    case None
    then have "walk_back prev ?v (?v # rest) = Some ([] @ ?v # rest)" for rest
      by (subst walk_back_step) simp
    moreover have "D ! s = 0" using t by (simp add: tree_def)
    moreover have "?v = s \<or> D ! ?v = B" using hook None by (simp add: hooked_def)
    ultimately have "traced A B s prev D ?v []"
      using None arc_path_single[of A ?v] search_graphD(3)[OF g] by (auto simp: traced_def back_path_def prev_linked_def)
    then show ?thesis by (intro exI[of _ "[]"]) simp
  next
    case (Some p)
    then have p: "p \<in> set L" "(?v, D ! ?v - D ! p) \<in> A p" "D ! ?v < B"
      using hook by (simp_all add: hooked_def)
    have pi: "p \<in> set (take i L)" using t Some less.prems by (simp add: tree_def)
    then obtain j where j: "j < i" "p = L ! j" by (auto simp: in_set_conv_nth)
    with less.prems have "j < length L" by simp
    from less.IH[OF j(1) this] obtain pre where pre: "set pre \<subseteq> set (take j L)" "traced A B s prev D p pre"
      using j(2) by blast
    have "p \<in> V" using p(1) L(2) by blast
    then have "D ! p < B" using search_graphD(5)[OF g _ p(2)] p(3) by simp
    with pre(2) have w: "hd (pre @ [p]) = s" "arc_path A (pre @ [p]) (D ! p)" "distinct (pre @ [p])" "back_path prev (pre @ [p])"
      "walk_back prev p (p # rest) = Some (pre @ p # rest)" for rest by (simp_all add: traced_def)
    have "arc_path A ((pre @ [p]) @ [?v]) (D ! p + (D ! ?v - D ! p))"
      using p(2) by (intro arc_path_snoc[OF w(2)]) simp
    moreover have "hd ((pre @ [p]) @ [?v]) = s" using w(1) by (cases pre) simp_all
    moreover have "walk_back prev ?v (?v # rest) = Some ((pre @ [p]) @ ?v # rest)" for rest
      using w(5) Some by (subst walk_back_step) simp
    moreover have "back_path prev ((pre @ [p]) @ [?v])" by (rule back_path_snoc[OF w(4) Some])
    moreover have sub: "set (pre @ [p]) \<subseteq> set (take i L)"
      using pre(1) pi set_take_subset_set_take[of j i L] j(1) by auto
    moreover have "distinct ((pre @ [p]) @ [?v])" using w(3) sub fresh by auto
    ultimately show ?thesis using p(3) by (intro exI[of _ "pre @ [p]"]) (simp add: traced_def)
  qed
qed

text \<open>What a finished search knows about a vertex.\<close>

lemma search_end:
  assumes g: "search_graph n V A s B" and inv: "search_inv n V A B s L (set L) d" and L: "set L = V" and v: "v \<in> V"
  shows "\<exists>pre. traced A B s (previous_vertex d) (paths_length d) v pre \<and> set pre \<subseteq> V"
    and "arc_path A p k \<Longrightarrow> hd p = s \<Longrightarrow> last p = v \<Longrightarrow> paths_length d ! v \<le> k"
    and "previous_vertex d ! v = None \<longleftrightarrow> v = s \<or> paths_length d ! v = B"
proof -
  have dL: "distinct L" using search_inv_shape[OF inv] by (simp add: shape_def)
  have t: "tree V A B s L (nth (paths_length d)) (nth (previous_vertex d))" using inv by (simp add: search_inv_def)
  from v L obtain i where i: "i < length L" "L ! i = v" by (metis in_set_conv_nth)
  from walk_back_traced[OF g t dL _ i(1)] L obtain pre where
    "set pre \<subseteq> set (take i L)" "traced A B s (previous_vertex d) (paths_length d) v pre" using i(2) by auto
  then show "\<exists>pre. traced A B s (previous_vertex d) (paths_length d) v pre \<and> set pre \<subseteq> V"
    using set_take_subset[of i L] L by blast
  have "hooked A B s L (nth (paths_length d)) (nth (previous_vertex d)) v" using t v by (simp add: tree_def)
  moreover have "previous_vertex d ! s = None" using t by (simp add: tree_def)
  ultimately show "previous_vertex d ! v = None \<longleftrightarrow> v = s \<or> paths_length d ! v = B"
    by (auto simp: hooked_def split: option.splits)
  have "relaxed A V (nth (paths_length d))" "paths_length d ! s = 0"
    using inv t L by (simp_all add: search_inv_def tree_def)
  from path_lower_bound[OF g this] show "paths_length d ! v \<le> k" if "arc_path A p k" "hd p = s" "last p = v"
    using that by blast
qed

end
