(* ===== verification/Dijkstra_Route.thy ===== *)
theory Dijkstra_Route
  imports Route_Graph Search_Tree
begin

text \<open>
  The class \<open>Dijkstra\<close> of \<open>route_manage/route_algorithm/RouteAlgorithm.py\<close>: the weight of an
  edge, the shortest-path computation \<open>calculate\<close>, \<open>run\<close> and \<open>get_link\<close>, and the proof that
  the computed paths are shortest. The entry -1 of \<open>previous_vertex\<close> is \<^term>\<open>None\<close>.
\<close>

section \<open>State and weights\<close>

record dijkstra = algo +
  delay_coefficient :: real
  cost_coefficient :: real
  bw_load_coefficient :: real

definition edge_weight :: "dijkstra \<Rightarrow> edge \<Rightarrow> pyerr + real" where
  "edge_weight a e =
     (case e_avail e of
        None \<Rightarrow> Inl TypeError
      | Some av \<Rightarrow>
          (if e_total e = 0 then Inl ZeroDivisionError
           else Inr (delay_coefficient a * e_delay e + cost_coefficient a * e_cost e +
                     bw_load_coefficient a * (1 - av / e_total e))))"

fun use_available_bandwidth_mark_weight :: "dijkstra \<Rightarrow> nat \<Rightarrow> nat \<Rightarrow> edge list \<Rightarrow> pyerr + real" where
  "use_available_bandwidth_mark_weight a vertex1 vertex2 [] =
     Inr (2 * (delay_coefficient a * 1 + cost_coefficient a * 100 + bw_load_coefficient a * 1))"
| "use_available_bandwidth_mark_weight a vertex1 vertex2 (e # es) =
     (if vertex1 = e_src e \<and> vertex2 = e_dst e then edge_weight a e
      else if vertex2 = e_src e \<and> vertex1 = e_dst e then edge_weight a e
      else use_available_bandwidth_mark_weight a vertex1 vertex2 es)"

section \<open>The shortest-path loop\<close>

text \<open>
  The local arrays of \<open>calculate\<close> are the record \<open>search\<close>, the reconstruction of a path is \<open>walk_back\<close>.

  The second loop of an iteration: the neighbours \<open>js\<close> of the selected vertex \<open>u\<close>. The weight is
  a parameter here, the method above in \<open>calculate\<close>.
\<close>

fun relax :: "(nat \<Rightarrow> nat \<Rightarrow> pyerr + real) \<Rightarrow> nat \<Rightarrow> nat list \<Rightarrow> search \<Rightarrow> pyerr + search" where
  "relax w u [] d = Inr d"
| "relax w u (j # js) d =
     (if j \<ge> length (tag d) then Inl IndexError
      else if tag d ! j then relax w u js d
      else res_bind (w u j) (\<lambda>temp.
        relax w u js
          (if paths_length d ! u + temp < paths_length d ! j
           then d\<lparr>paths_length := (paths_length d)[j := paths_length d ! u + temp],
                  previous_vertex := (previous_vertex d)[j := Some u]\<rparr>
           else d)))"

text \<open>
  The first loop finds the first vertex without a tag, the third one the nearest of them. The
  variables \<open>min_length\<close> and \<open>record\<close> survive from one iteration to the next and are unbound
  before the first assignment.
\<close>

definition first_open :: "search \<Rightarrow> (real \<times> nat) option \<Rightarrow> (real \<times> nat) option" where
  "first_open d mr =
     (case find (\<lambda>j. \<not> tag d ! j) [0..<length (tag d)] of
        Some j \<Rightarrow> Some (paths_length d ! j, j)
      | None \<Rightarrow> mr)"

definition nearest_open :: "search \<Rightarrow> real \<times> nat \<Rightarrow> real \<times> nat" where
  "nearest_open d mr =
     foldl (\<lambda>(min_length, record) j.
        if \<not> tag d ! j \<and> paths_length d ! j < min_length then (paths_length d ! j, j) else (min_length, record))
       mr [0..<length (tag d)]"

definition dij_iteration :: "(nat \<Rightarrow> nat \<Rightarrow> pyerr + real) \<Rightarrow> vertex list \<Rightarrow>
    search \<times> nat \<times> (real \<times> nat) option \<Rightarrow> pyerr + (search \<times> nat \<times> (real \<times> nat) option)" where
  "dij_iteration w vs st =
     (case st of (d, u, mr) \<Rightarrow>
        let mr1 = first_open d mr
        in res_bind (py_nth vs u) (\<lambda>v.
           res_bind (relax w u (v_neighbors v) d) (\<lambda>d1.
           case mr1 of
             None \<Rightarrow> Inl UnboundLocalError
           | Some m \<Rightarrow>
               (let (min_length, record) = nearest_open d1 m
                in Inr (d1\<lparr>tag := (tag d1)[record := True]\<rparr>, record, Some (min_length, record))))))"

fun dij_loop :: "nat \<Rightarrow> (nat \<Rightarrow> nat \<Rightarrow> pyerr + real) \<Rightarrow> vertex list \<Rightarrow>
    search \<times> nat \<times> (real \<times> nat) option \<Rightarrow> pyerr + (search \<times> nat \<times> (real \<times> nat) option)" where
  "dij_loop 0 w vs st = Inr st"
| "dij_loop (Suc k) w vs st = res_bind (dij_iteration w vs st) (dij_loop k w vs)"

definition search_init :: "nat \<Rightarrow> nat \<Rightarrow> search" where
  "search_init n s =
     \<lparr>tag = (replicate n False)[s := True], previous_vertex = replicate n None,
      paths_length = (replicate n 10000)[s := 0]\<rparr>"

definition shortest_paths :: "(nat \<Rightarrow> nat \<Rightarrow> pyerr + real) \<Rightarrow> nat \<Rightarrow> vertex list \<Rightarrow>
    (pyerr + nat list list) option" where
  "shortest_paths w s vs =
     (if s \<ge> length vs then Some (Inl IndexError)
      else case dij_loop (length vs - 1) w vs (search_init (length vs) s, s, None) of
             Inl e \<Rightarrow> Some (Inl e)
           | Inr (d, _, _) \<Rightarrow>
               map_option Inr (those (map (\<lambda>i. walk_back (previous_vertex d) i [i]) [0..<length vs])))"

definition calculate :: "dijkstra \<Rightarrow> nat \<Rightarrow> vertex list \<Rightarrow> edge list \<Rightarrow> (pyerr + nat list list) option" where
  "calculate a sou_vertex vs es =
     shortest_paths (\<lambda>u v. use_available_bandwidth_mark_weight a u v es) sou_vertex vs"

definition dij_run :: "nat \<Rightarrow> dijkstra \<Rightarrow> (pyerr + dijkstra) option" where
  "dij_run src_dpid a =
     (case py_index (switch_queue a) src_dpid of
        Inl e \<Rightarrow> Some (Inl e)
      | Inr src_num \<Rightarrow>
          map_option (\<lambda>r. res_bind r (\<lambda>ps. Inr (a\<lparr>links := ps\<rparr>))) (calculate a src_num (vertexs a) (edges a)))"

section \<open>Reading a route\<close>

definition hop_cost :: "edge list \<Rightarrow> nat \<Rightarrow> nat \<Rightarrow> real" where
  "hop_cost es u v = (case find (\<lambda>e. joins e u v) es of None \<Rightarrow> 0 | Some e \<Rightarrow> e_cost e)"

definition link_cost_of :: "edge list \<Rightarrow> nat list \<Rightarrow> real" where
  "link_cost_of es p = sum_list (map (\<lambda>i. hop_cost es (p ! i) (p ! Suc i)) [0..<length p - 1])"

text \<open>\<open>(None, None)\<close> when there is no route, the dpids of the route and its cost otherwise.\<close>

definition dij_get_link :: "nat \<Rightarrow> nat \<Rightarrow> dijkstra \<Rightarrow> pyerr + (dijkstra \<times> (nat list \<times> real) option)" where
  "dij_get_link src dst a =
     res_bind (py_index (switch_queue a) dst) (\<lambda>dst_num.
     case find (\<lambda>l. last l = dst_num) (links a) of
       None \<Rightarrow> Inr (a, None)
     | Some p \<Rightarrow>
         (if length p < 2 then Inr (a, None)
          else res_bind (res_map (py_nth (switch_queue a)) p) (\<lambda>dpids.
            Inr (a\<lparr>link_cache := dict_set (p ! 0, p ! 1) p (link_cache a)\<rparr>,
                 Some (dpids, link_cost_of (edges a) p)))))"

section \<open>Parameters\<close>

definition update_coefficient :: "real \<Rightarrow> string \<Rightarrow> (string, real) pydict \<Rightarrow> real" where
  "update_coefficient s k p = (case dict_get p k of Some x \<Rightarrow> x | None \<Rightarrow> s)"

definition dij_update_param :: "string option \<Rightarrow> (string, real) pydict \<Rightarrow> dijkstra \<Rightarrow> pyerr + (dijkstra \<times> bool)" where
  "dij_update_param algorithm_type data a =
     (case algorithm_type of
        None \<Rightarrow> Inl KeyError
      | Some t \<Rightarrow>
          (if t \<noteq> ''Dij'' then Inr (a, False)
           else Inr (a\<lparr>delay_coefficient := update_coefficient (delay_coefficient a) ''delay_coefficient'' data,
                       cost_coefficient := update_coefficient (cost_coefficient a) ''cost_coefficient'' data,
                       bw_load_coefficient := update_coefficient (bw_load_coefficient a) ''bw_load_coefficient'' data\<rparr>, True)))"

section \<open>Walks\<close>

fun walk :: "(nat \<Rightarrow> nat list) \<Rightarrow> nat list \<Rightarrow> bool" where
  "walk nb [] = False"
| "walk nb [x] = True"
| "walk nb (x # y # xs) = (y \<in> set (nb x) \<and> walk nb (y # xs))"

fun walk_weight :: "(nat \<Rightarrow> nat \<Rightarrow> real) \<Rightarrow> nat list \<Rightarrow> real" where
  "walk_weight W (x # y # xs) = W x y + walk_weight W (y # xs)"
| "walk_weight W xs = 0"

lemma walk_snoc: "xs \<noteq> [] \<Longrightarrow> walk nb (xs @ [y]) \<longleftrightarrow> walk nb xs \<and> y \<in> set (nb (last xs))"
proof (induction nb xs rule: walk.induct)
  case (3 nb x y xs)
  then show ?case by auto
qed auto

lemma walk_weight_snoc: "xs \<noteq> [] \<Longrightarrow> walk_weight W (xs @ [y]) = walk_weight W xs + W (last xs) y"
  by (induction W xs rule: walk_weight.induct) auto

section \<open>Correctness of the loop\<close>

text \<open>The graph the loop may run on: neighbours are vertices, weights are defined and not negative.\<close>

definition weights_ok :: "(nat \<Rightarrow> nat \<Rightarrow> pyerr + real) \<Rightarrow> (nat \<Rightarrow> nat \<Rightarrow> real) \<Rightarrow> vertex list \<Rightarrow> bool" where
  "weights_ok w W vs \<longleftrightarrow> (\<forall>u < length vs. \<forall>v \<in> set (v_neighbors (vs ! u)).
     v < length vs \<and> w u v = Inr (W u v) \<and> 0 \<le> W u v)"

abbreviation nbs_of :: "vertex list \<Rightarrow> nat \<Rightarrow> nat list" where
  "nbs_of vs u \<equiv> v_neighbors (vs ! u)"

definition weighted_arcs :: "(nat \<Rightarrow> nat list) \<Rightarrow> (nat \<Rightarrow> nat \<Rightarrow> real) \<Rightarrow> nat \<Rightarrow> (nat \<times> real) set" where
  "weighted_arcs nb W u = (\<lambda>y. (y, W u y)) ` set (nb u)"

text \<open>The invariant of the search, on all vertices and with the length 10000 to start from.\<close>

abbreviation dij_inv :: "nat \<Rightarrow> (nat \<Rightarrow> nat list) \<Rightarrow> (nat \<Rightarrow> nat \<Rightarrow> real) \<Rightarrow> nat \<Rightarrow> nat list \<Rightarrow> nat set \<Rightarrow> search \<Rightarrow> bool" where
  "dij_inv n nb W s L R d \<equiv> search_inv n {..<n} (weighted_arcs nb W) 10000 s L R d"

lemma weights_graph:
  "weights_ok w W vs \<Longrightarrow> s < length vs \<Longrightarrow> search_graph (length vs) {..<length vs} (weighted_arcs (nbs_of vs) W) s 10000"
  by (auto simp: search_graph_def weighted_arcs_def weights_ok_def)

lemma relax_spec:
  assumes ok: "weights_ok w W vs" and g: "search_graph n {..<n} (weighted_arcs (nbs_of vs) W) s 10000" and n: "n = length vs"
    and inv: "dij_inv n (nbs_of vs) W s L R d" and js: "set js \<subseteq> set (nbs_of vs (last L))"
  shows "\<exists>d'. relax w (last L) js d = Inr d' \<and> dij_inv n (nbs_of vs) W s L R d' \<and> tag d' = tag d \<and>
    (\<forall>v < n. paths_length d' ! v \<le> paths_length d ! v) \<and>
    paths_length d' ! last L = paths_length d ! last L \<and>
    (\<forall>j \<in> set js. \<not> tag d ! j \<longrightarrow> paths_length d' ! j \<le> paths_length d ! last L + W (last L) j)"
  using inv js
proof (induction js arbitrary: d)
  case (Cons j js)
  let ?u = "last L" and ?inv = "dij_inv n (nbs_of vs) W s L R"
  note sh = search_inv_shape[OF Cons.prems(1)]
  have len: "length (tag d) = n" "length (paths_length d) = n" and u: "tag d ! ?u" "?u < n"
    using shape_lengths[OF sh] shape_last[OF sh] by simp_all
  have wj: "j < n" "w ?u j = Inr (W ?u j)" using ok u(2) Cons.prems(2) by (auto simp: weights_ok_def n)
  have arc: "(j, W ?u j) \<in> weighted_arcs (nbs_of vs) W ?u" using Cons.prems(2) by (simp add: weighted_arcs_def)
  show ?case
  proof (cases "tag d ! j")
    case True
    then show ?thesis using Cons.IH[OF Cons.prems(1)] Cons.prems(2) wj(1) len by auto
  next
    case False
    let ?c = "paths_length d ! ?u + W ?u j"
    define d1 where "d1 = (if ?c < paths_length d ! j
        then d\<lparr>paths_length := (paths_length d)[j := ?c], previous_vertex := (previous_vertex d)[j := Some ?u]\<rparr> else d)"
    have "?inv d1"
      using search_inv_update[OF g Cons.prems(1) False arc refl] Cons.prems(1) by (simp add: d1_def)
    from Cons.IH[OF this] Cons.prems(2) obtain d' where d':
      "relax w ?u js d1 = Inr d'" "?inv d'" "tag d' = tag d1"
      "\<forall>v < n. paths_length d' ! v \<le> paths_length d1 ! v" "paths_length d' ! ?u = paths_length d1 ! ?u"
      "\<forall>j \<in> set js. \<not> tag d1 ! j \<longrightarrow> paths_length d' ! j \<le> paths_length d1 ! ?u + W ?u j" by auto
    have ne: "?u \<noteq> j" using u(1) False by metis
    have t: "tag d1 = tag d" by (simp add: d1_def)
    have pu: "paths_length d1 ! ?u = paths_length d ! ?u" using ne by (simp add: d1_def)
    have le: "paths_length d1 ! v \<le> paths_length d ! v" for v
      using len wj(1) by (cases "v = j") (simp_all add: d1_def)
    have "paths_length d1 ! j \<le> ?c" using len wj(1) by (simp add: d1_def)
    then have "paths_length d' ! j \<le> ?c" using d'(4) wj(1) order_trans by blast
    moreover have "relax w ?u (j # js) d = Inr d'"
      using False wj len d'(1) by (simp add: d1_def)
    moreover have "\<forall>v < n. paths_length d' ! v \<le> paths_length d ! v" using d'(4) le order_trans by blast
    ultimately show ?thesis using d'(2,3,5,6) t pu by (intro exI[of _ d']) simp
  qed
qed simp

lemma first_open_spec:
  assumes "\<exists>v < length (tag d). \<not> tag d ! v"
  shows "\<exists>j. first_open d mr = Some (paths_length d ! j, j) \<and> j < length (tag d) \<and> \<not> tag d ! j"
proof (cases "find (\<lambda>j. \<not> tag d ! j) [0..<length (tag d)]")
  case None
  then show ?thesis using assms by (auto simp: find_None_iff)
next
  case (Some j)
  then have "j < length (tag d) \<and> \<not> tag d ! j" by (auto simp: find_Some_iff)
  with Some show ?thesis by (simp add: first_open_def)
qed

lemma dij_iteration_spec:
  assumes ok: "weights_ok w W vs" and n: "n = length vs" and s: "s < n"
    and inv: "dij_inv n (nbs_of vs) W s L R d" and R: "set L \<subseteq> insert (last L) R"
    and open_v: "length L < n"
  shows "\<exists>d' r mr'. dij_iteration w vs (d, last L, mr) = Inr (d', r, mr') \<and>
    dij_inv n (nbs_of vs) W s (L @ [r]) (set L) d'"
proof -
  note g = weights_graph[OF ok s[unfolded n], folded n] and sh = search_inv_shape[OF inv]
  have len: "length (tag d) = n" and u: "last L < n" using shape_lengths[OF sh] shape_last[OF sh] by simp_all
  obtain j where j: "first_open d mr = Some (paths_length d ! j, j)" "j < n" "\<not> tag d ! j"
    using first_open_spec[of d mr] shape_card(3)[OF g sh] open_v len by auto
  obtain d1 where d1: "relax w (last L) (nbs_of vs (last L)) d = Inr d1" "dij_inv n (nbs_of vs) W s L R d1"
      "tag d1 = tag d" "\<forall>v < n. paths_length d1 ! v \<le> paths_length d ! v"
      "paths_length d1 ! last L = paths_length d ! last L"
      "\<forall>j \<in> set (nbs_of vs (last L)). \<not> tag d ! j \<longrightarrow> paths_length d1 ! j \<le> paths_length d ! last L + W (last L) j"
    using relax_spec[OF ok g n inv order_refl] by blast
  have inv1: "dij_inv n (nbs_of vs) W s L (set L) d1"
    using d1(3,5,6) by (intro search_inv_relaxed[OF g d1(2) R]) (auto simp: weighted_arcs_def)
  obtain m r where nr: "nearest_open d1 (paths_length d ! j, j) = (m, r)" by fastforce
  have near: "r < n \<and> \<not> tag d1 ! r \<and> (\<forall>v < n. \<not> tag d1 ! v \<longrightarrow> paths_length d1 ! r \<le> paths_length d1 ! v)"
    using nr j(2,3) d1(3,4) len by (intro foldl_nearest) (auto simp: nearest_open_def)
  then have "dij_inv n (nbs_of vs) W s (L @ [r]) (set L) (d1\<lparr>tag := (tag d1)[r := True]\<rparr>)"
    by (intro search_inv_select[OF g inv1]) auto
  moreover have "dij_iteration w vs (d, last L, mr) = Inr (d1\<lparr>tag := (tag d1)[r := True]\<rparr>, r, Some (m, r))"
    using u j(1) d1(1) nr by (simp add: dij_iteration_def py_nth_def n)
  ultimately show ?thesis by blast
qed

lemma dij_loop_spec:
  assumes ok: "weights_ok w W vs" and n: "n = length vs" and s: "s < n"
    and inv: "dij_inv n (nbs_of vs) W s L R d" and R: "set L \<subseteq> insert (last L) R"
    and k: "length L + k = n"
  shows "\<exists>d' u mr' L'. dij_loop k w vs (d, last L, mr) = Inr (d', u, mr') \<and> set L' = {..<n} \<and>
    dij_inv n (nbs_of vs) W s L' (set L') d'"
  using inv R k
proof (induction k arbitrary: L R d mr)
  case 0
  note g = weights_graph[OF ok s[unfolded n], folded n] and sh = search_inv_shape[OF "0.prems"(1)]
  have all: "set L = {..<n}" using shape_card(2)[OF g sh] "0.prems"(3) by simp
  have "dij_inv n (nbs_of vs) W s L (set L) d"
  proof (rule search_inv_relaxed[OF g "0.prems"(1,2)])
    fix y c assume "(y, c) \<in> weighted_arcs (nbs_of vs) W (last L)" "\<not> tag d ! y"
    moreover from this have "y \<in> {..<n}" using search_graphD(4)[OF g] shape_last[OF sh] by blast
    ultimately show "paths_length d ! y \<le> paths_length d ! last L + c" using sh all by (auto simp: shape_def)
  qed
  then show ?case using all by auto
next
  case (Suc k)
  from dij_iteration_spec[OF ok n s Suc.prems(1,2)] Suc.prems(3)
  obtain d' r mr' where it: "dij_iteration w vs (d, last L, mr) = Inr (d', r, mr')"
    and inv': "dij_inv n (nbs_of vs) W s (L @ [r]) (set L) d'" by fastforce
  from Suc.IH[OF inv'] Suc.prems(3) it show ?case by simp
qed

section \<open>Correctness of the paths\<close>

definition walk_from_to :: "(nat \<Rightarrow> nat list) \<Rightarrow> nat \<Rightarrow> nat \<Rightarrow> nat list \<Rightarrow> bool" where
  "walk_from_to nb s v p \<longleftrightarrow> walk nb p \<and> hd p = s \<and> last p = v"

text \<open>
  What the code returns for \<open>v\<close>: a shortest walk from \<open>s\<close>, without repetition and lighter than the 10000 that
  the code starts from, or \<open>[v]\<close> when every walk from \<open>s\<close> weighs at least that.
\<close>

definition route_to :: "(nat \<Rightarrow> nat list) \<Rightarrow> (nat \<Rightarrow> nat \<Rightarrow> real) \<Rightarrow> nat \<Rightarrow> nat \<Rightarrow> nat list \<Rightarrow> bool" where
  "route_to nb W s v p \<longleftrightarrow>
     (walk_from_to nb s v p \<and> distinct p \<and> walk_weight W p < 10000 \<and> (\<forall>q. walk_from_to nb s v q \<longrightarrow> walk_weight W p \<le> walk_weight W q)) \<or>
     (v \<noteq> s \<and> p = [v] \<and> (\<forall>q. walk_from_to nb s v q \<longrightarrow> 10000 \<le> walk_weight W q))"

lemma arc_path_walk: "arc_path (weighted_arcs nb W) p k \<Longrightarrow> walk nb p \<and> k = walk_weight W p"
proof (induction rule: arc_path.induct)
  case (arc_path_snoc p k y c)
  then show ?case
    using arc_path_nonempty[OF arc_path_snoc.hyps(1)] by (auto simp: walk_snoc walk_weight_snoc weighted_arcs_def)
qed simp

lemma walk_arc_path: "walk nb p \<Longrightarrow> arc_path (weighted_arcs nb W) p (walk_weight W p)"
proof (induction p rule: rev_induct)
  case (snoc y p)
  show ?case
  proof (cases "p = []")
    case False
    then have "walk nb p" "y \<in> set (nb (last p))" using snoc.prems by (simp_all add: walk_snoc)
    then show ?thesis
      unfolding walk_weight_snoc[OF False] by (intro arc_path_snoc snoc.IH) (simp_all add: weighted_arcs_def)
  qed (simp add: arc_path_single)
qed simp

lemma those_total: "(\<And>x. x \<in> set xs \<Longrightarrow> f x = Some (g x)) \<Longrightarrow> those (map f xs) = Some (map g xs)"
  by (induction xs) auto

lemma shortest_paths_spec:
  assumes ok: "weights_ok w W vs" and s: "s < length vs"
  shows "\<exists>ps. shortest_paths w s vs = Some (Inr ps) \<and> length ps = length vs \<and>
    (\<forall>v < length vs. route_to (nbs_of vs) W s v (ps ! v))"
proof -
  let ?n = "length vs" and ?nb = "nbs_of vs" and ?A = "weighted_arcs (nbs_of vs) W"
  note g = weights_graph[OF ok s]
  have "dij_inv ?n ?nb W s [s] {} (search_init ?n s)" using search_start[OF g] by (simp add: search_init_def)
  moreover have "length [s] + (?n - 1) = ?n" using s by simp
  ultimately obtain d u mr L where loop: "dij_loop (?n - 1) w vs (search_init ?n s, s, None) = Inr (d, u, mr)"
    and L: "set L = {..<?n}" "dij_inv ?n ?nb W s L (set L) d"
    using dij_loop_spec[OF ok refl s, of "[s]" "{}" "search_init ?n s" "?n - 1" None] by auto
  have "\<exists>p. walk_back (previous_vertex d) v [v] = Some p \<and> route_to ?nb W s v p" if v: "v < ?n" for v
  proof -
    have vV: "v \<in> {..<?n}" using v by simp
    note fin = search_end[OF g L(2,1) vV]
    obtain pre where t: "traced ?A 10000 s (previous_vertex d) (paths_length d) v pre" using fin(1) by blast
    then have wb: "walk_back (previous_vertex d) v [v] = Some (pre @ [v])" "distinct (pre @ [v])"
      by (simp_all add: traced_def)
    have low: "paths_length d ! v \<le> walk_weight W q" if "walk_from_to ?nb s v q" for q
      using that fin(2)[OF walk_arc_path] by (simp add: walk_from_to_def)
    have "route_to ?nb W s v (pre @ [v])"
    proof (cases "paths_length d ! v < 10000 \<or> v = s")
      case True
      with t have "hd (pre @ [v]) = s" "arc_path ?A (pre @ [v]) (paths_length d ! v)" by (simp_all add: traced_def)
      then have p: "walk_from_to ?nb s v (pre @ [v])" and k: "walk_weight W (pre @ [v]) = paths_length d ! v"
        using arc_path_walk by (fastforce simp: walk_from_to_def)+
      have "paths_length d ! v < 10000"
        using True low[of "[s]"] by (cases "v = s") (auto simp: walk_from_to_def)
      then show ?thesis using p k wb(2) low by (simp add: route_to_def)
    next
      case False
      with t have "pre = []" "paths_length d ! v = 10000" by (simp_all add: traced_def)
      then show ?thesis using False low by (auto simp: route_to_def)
    qed
    then show ?thesis using wb(1) by blast
  qed
  then obtain g where g: "\<And>v. v < ?n \<Longrightarrow> walk_back (previous_vertex d) v [v] = Some (g v) \<and> route_to ?nb W s v (g v)"
    by metis
  then have "those (map (\<lambda>i. walk_back (previous_vertex d) i [i]) [0..<?n]) = Some (map g [0..<?n])"
    by (intro those_total) simp
  then have "shortest_paths w s vs = Some (Inr (map g [0..<?n]))"
    using s loop by (simp add: shortest_paths_def)
  then show ?thesis using g by simp
qed

section \<open>The weights of the code\<close>

definition weight_value :: "dijkstra \<Rightarrow> edge list \<Rightarrow> nat \<Rightarrow> nat \<Rightarrow> real" where
  "weight_value a es u v = (case use_available_bandwidth_mark_weight a u v es of Inl _ \<Rightarrow> 0 | Inr r \<Rightarrow> r)"

text \<open>
  Measured edges: the available bandwidth is known and at most the total one, which is positive;
  delay and cost are not negative. The coefficients are not negative either.
\<close>

definition edge_ok :: "edge \<Rightarrow> bool" where
  "edge_ok e \<longleftrightarrow> 0 < e_total e \<and> 0 \<le> e_delay e \<and> 0 \<le> e_cost e \<and>
     (case e_avail e of None \<Rightarrow> False | Some av \<Rightarrow> av \<le> e_total e)"

definition coefficients_ok :: "dijkstra \<Rightarrow> bool" where
  "coefficients_ok a \<longleftrightarrow> 0 \<le> delay_coefficient a \<and> 0 \<le> cost_coefficient a \<and> 0 \<le> bw_load_coefficient a"

lemma edge_weight_ok:
  assumes "coefficients_ok a" "edge_ok e"
  shows "\<exists>r. edge_weight a e = Inr r \<and> 0 \<le> r"
proof -
  obtain av where av: "e_avail e = Some av" "av \<le> e_total e" "0 < e_total e"
    using assms(2) by (auto simp: edge_ok_def split: option.splits)
  then have "0 \<le> 1 - av / e_total e" by simp
  then have "0 \<le> delay_coefficient a * e_delay e + cost_coefficient a * e_cost e +
      bw_load_coefficient a * (1 - av / e_total e)"
    using assms by (auto simp: coefficients_ok_def edge_ok_def intro!: add_nonneg_nonneg mult_nonneg_nonneg)
  then show ?thesis using av by (simp add: edge_weight_def)
qed

lemma weight_defined:
  "coefficients_ok a \<Longrightarrow> \<forall>e \<in> set es. edge_ok e \<Longrightarrow>
     use_available_bandwidth_mark_weight a u v es = Inr (weight_value a es u v) \<and> 0 \<le> weight_value a es u v"
proof (induction a u v es rule: use_available_bandwidth_mark_weight.induct)
  case (1 a u v)
  then show ?case by (simp add: weight_value_def coefficients_ok_def)
next
  case (2 a u v e es)
  obtain r where "edge_weight a e = Inr r" "0 \<le> r" using edge_weight_ok "2.prems" by force
  then show ?case using 2 by (auto simp: weight_value_def)
qed

lemma weight_value_cong:
  assumes "delay_coefficient b = delay_coefficient a" "cost_coefficient b = cost_coefficient a"
    "bw_load_coefficient b = bw_load_coefficient a"
  shows "weight_value b es = weight_value a es"
proof -
  have "edge_weight b e = edge_weight a e" for e unfolding edge_weight_def assms by (rule refl)
  then have "use_available_bandwidth_mark_weight b u v es = use_available_bandwidth_mark_weight a u v es" for u v
    using assms by (induction es) simp_all
  then show ?thesis by (simp add: weight_value_def fun_eq_iff)
qed

definition vertexs_ok :: "vertex list \<Rightarrow> bool" where
  "vertexs_ok vs \<longleftrightarrow> (\<forall>v \<in> set vs. \<forall>u \<in> set (v_neighbors v). u < length vs)"

text \<open>
  C4. On measured edges and coefficients that are not negative, \<open>calculate\<close> returns for every
  vertex: no exception is raised, every path reconstruction ends, and the path it returns for a
  vertex is a walk from the source along neighbours, visits no vertex twice and has the smallest
  total weight among all walks, provided that some walk is lighter than 10000, the length that the code
  takes for infinite. A vertex that only heavier walks reach is returned alone, as if there were no way to
  it: in the witness, the delay of the only link, times the default coefficient, is 15000.
\<close>

theorem calculate_shortest:
  assumes "coefficients_ok a" "\<forall>e \<in> set es. edge_ok e" "vertexs_ok vs" "s < length vs"
  shows "\<exists>ps. calculate a s vs es = Some (Inr ps) \<and> length ps = length vs \<and>
    (\<forall>v < length vs. route_to (nbs_of vs) (weight_value a es) s v (ps ! v))"
proof -
  have "weights_ok (\<lambda>u v. use_available_bandwidth_mark_weight a u v es) (weight_value a es) vs"
    using weight_defined[OF assms(1,2)] assms(3) nth_mem[of _ vs] unfolding weights_ok_def vertexs_ok_def by blast
  from shortest_paths_spec[OF this assms(4)] show ?thesis by (simp add: calculate_def)
qed

definition wit_dijkstra :: dijkstra where
  "wit_dijkstra = \<lparr>switch_queue = [], edge_queue = [], switch_neighbors = [], edge_collection = [], vertexs = [],
     edges = [], links = [], fitness = [], link_cache = [],
     delay_coefficient = 5000, cost_coefficient = 2 / 100, bw_load_coefficient = 50\<rparr>"

definition wit_edge :: "nat \<Rightarrow> nat \<Rightarrow> real \<Rightarrow> edge" where
  "wit_edge u v delay = \<lparr>e_src = u, e_dst = v, e_delay = delay, e_cost = 0, e_avail = Some 1, e_total = 1, e_loss = None\<rparr>"

definition wit_vertexs :: "vertex list" where
  "wit_vertexs = [\<lparr>v_degree = 2, v_neighbors = [1, 2], v_edges = [0, 1]\<rparr>,
     \<lparr>v_degree = 2, v_neighbors = [0, 2], v_edges = [0, 2]\<rparr>, \<lparr>v_degree = 2, v_neighbors = [0, 1], v_edges = [1, 2]\<rparr>]"

text \<open>A triangle whose direct edge from 0 to 2 is slower than the detour over 1.\<close>

definition wit_edges :: "edge list" where
  "wit_edges = [wit_edge 0 1 (1 / 10), wit_edge 0 2 1, wit_edge 1 2 (1 / 10)]"

text \<open>Two vertexes joined by one link with a delay of 3.\<close>

definition wit_pair :: "vertex list" where
  "wit_pair = [\<lparr>v_degree = 1, v_neighbors = [1], v_edges = [0]\<rparr>, \<lparr>v_degree = 1, v_neighbors = [0], v_edges = [0]\<rparr>]"

lemma wit_pair_heavy:
  assumes "walk_from_to (nbs_of wit_pair) 0 1 q"
  shows "15000 \<le> walk_weight (weight_value wit_dijkstra [wit_edge 0 1 3]) q"
proof -
  let ?W = "weight_value wit_dijkstra [wit_edge 0 1 3]"
  obtain y r where q: "q = 0 # y # r" "y \<in> set (nbs_of wit_pair 0)" "walk (nbs_of wit_pair) (y # r)"
    using assms by (cases q rule: remdups_adj.cases) (auto simp: walk_from_to_def)
  have W: "0 \<le> ?W u v" for u v by (simp add: weight_value_def wit_edge_def edge_weight_def wit_dijkstra_def)
  have "0 \<le> walk_weight W p" if "\<And>u v. 0 \<le> W u v" for W p using that by (induction W p rule: walk_weight.induct) simp_all
  then have "0 \<le> walk_weight ?W p" for p using W by blast
  moreover have "y = 1" using q(2) by (simp add: wit_pair_def)
  ultimately show ?thesis using q(1) by (simp add: weight_value_def wit_edge_def edge_weight_def wit_dijkstra_def)
qed

theorem calculate_shortest_witness:
  "(\<exists>ps. calculate wit_dijkstra 0 wit_vertexs wit_edges = Some (Inr ps) \<and>
     walk_weight (weight_value wit_dijkstra wit_edges) (ps ! 2) \<le> 1000) \<and>
   (\<exists>ps. calculate wit_dijkstra 0 wit_pair [wit_edge 0 1 3] = Some (Inr ps) \<and> ps ! 1 = [1])"
proof (rule conjI)
  have ok: "coefficients_ok wit_dijkstra" "\<forall>e \<in> set wit_edges. edge_ok e" "vertexs_ok wit_vertexs" "0 < length wit_vertexs"
    by (simp_all add: coefficients_ok_def wit_dijkstra_def wit_edges_def wit_edge_def edge_ok_def wit_vertexs_def vertexs_ok_def)
  obtain ps where ps: "calculate wit_dijkstra 0 wit_vertexs wit_edges = Some (Inr ps)"
    "\<forall>v < length wit_vertexs. route_to (nbs_of wit_vertexs) (weight_value wit_dijkstra wit_edges) 0 v (ps ! v)"
    using calculate_shortest[OF ok] by blast
  have w: "walk_weight (weight_value wit_dijkstra wit_edges) [0, 1, 2] = 1000"
    by (simp add: weight_value_def wit_edges_def wit_edge_def edge_weight_def wit_dijkstra_def)
  have q: "walk_from_to (nbs_of wit_vertexs) 0 2 [0, 1, 2]" by (simp add: walk_from_to_def wit_vertexs_def)
  have "route_to (nbs_of wit_vertexs) (weight_value wit_dijkstra wit_edges) 0 2 (ps ! 2)"
    using ps(2) by (simp add: wit_vertexs_def)
  then have "walk_weight (weight_value wit_dijkstra wit_edges) (ps ! 2) \<le> 1000"
    using q w unfolding route_to_def by auto
  then show "\<exists>ps. calculate wit_dijkstra 0 wit_vertexs wit_edges = Some (Inr ps) \<and>
     walk_weight (weight_value wit_dijkstra wit_edges) (ps ! 2) \<le> 1000" using ps(1) by blast
next
  have ok: "coefficients_ok wit_dijkstra" "\<forall>e \<in> set [wit_edge 0 1 3]. edge_ok e" "vertexs_ok wit_pair" "0 < length wit_pair"
    by (simp_all add: coefficients_ok_def wit_dijkstra_def wit_edge_def edge_ok_def wit_pair_def vertexs_ok_def)
  obtain ps where ps: "calculate wit_dijkstra 0 wit_pair [wit_edge 0 1 3] = Some (Inr ps)"
    "\<forall>v < length wit_pair. route_to (nbs_of wit_pair) (weight_value wit_dijkstra [wit_edge 0 1 3]) 0 v (ps ! v)"
    using calculate_shortest[OF ok] by blast
  have "15000 \<le> walk_weight (weight_value wit_dijkstra [wit_edge 0 1 3]) q" if "walk_from_to (nbs_of wit_pair) 0 1 q" for q
    using that by (rule wit_pair_heavy)
  moreover have "route_to (nbs_of wit_pair) (weight_value wit_dijkstra [wit_edge 0 1 3]) 0 1 (ps ! 1)" using ps(2) by (simp add: wit_pair_def)
  ultimately have "ps ! 1 = [1]" unfolding route_to_def by force
  then show "\<exists>ps. calculate wit_dijkstra 0 wit_pair [wit_edge 0 1 3] = Some (Inr ps) \<and> ps ! 1 = [1]" using ps(1) by blast
qed

section \<open>From the tables to a route\<close>

lemma dij_get_link_walk:
  assumes "find (\<lambda>l. last l = pos (switch_queue a) dst) (links a) = Some p"
    and "dst \<in> set (switch_queue a)" "2 \<le> length p" "\<forall>i \<in> set p. i < length (switch_queue a)"
  shows "dij_get_link src dst a =
    Inr (a\<lparr>link_cache := dict_set (p ! 0, p ! 1) p (link_cache a)\<rparr>,
      Some (map (nth (switch_queue a)) p, link_cost_of (edges a) p))"
proof -
  have "res_map (py_nth (switch_queue a)) p = Inr (map (nth (switch_queue a)) p)"
    using assms(4) by (intro res_map_total) (simp add: py_nth_def)
  then show ?thesis using assms(1-3) by (simp add: dij_get_link_def py_index_mem)
qed

text \<open>Neighbours, walks and weights in terms of dpids.\<close>

definition dpid_nbs :: "switch_table \<Rightarrow> nat \<Rightarrow> nat list" where
  "dpid_nbs switches d = (case dict_get switches d of None \<Rightarrow> [] | Some sw \<Rightarrow> dict_keys (sw_neighbors sw))"

definition dpid_weight :: "dijkstra \<Rightarrow> switch_table \<Rightarrow> link_table_api \<Rightarrow> nat \<Rightarrow> nat \<Rightarrow> real" where
  "dpid_weight a switches lnks d d' =
     (let q = dict_keys switches in weight_value a (map (edge_of q) lnks) (pos q d) (pos q d'))"

lemma walk_map:
  "walk nb p \<Longrightarrow> (\<And>u v. u \<in> set p \<Longrightarrow> v \<in> set (nb u) \<Longrightarrow> f v \<in> set (nb' (f u))) \<Longrightarrow> walk nb' (map f p)"
  by (induction nb p rule: walk.induct) auto

lemma walk_weight_map:
  "(\<And>u v. u \<in> set p \<Longrightarrow> v \<in> set p \<Longrightarrow> W' (f u) (f v) = W u v) \<Longrightarrow> walk_weight W' (map f p) = walk_weight W p"
  by (induction W p rule: walk_weight.induct) auto

lemma walk_closed:
  "walk nb p \<Longrightarrow> hd p \<in> S \<Longrightarrow> (\<And>u v. u \<in> S \<Longrightarrow> v \<in> set (nb u) \<Longrightarrow> v \<in> S) \<Longrightarrow> set p \<subseteq> S"
proof (induction nb p rule: walk.induct)
  case (3 nb x y xs)
  have "y \<in> S" using "3.prems"(3)[of x y] "3.prems"(1,2) by simp
  moreover have "set (y # xs) \<subseteq> S" using "3.prems"(1,3) calculation by (intro "3.IH") auto
  ultimately show ?case using "3.prems"(2) by simp
qed simp_all

lemma find_last:
  assumes "\<And>v. v < length ps \<Longrightarrow> ps ! v \<noteq> [] \<and> last (ps ! v) = v" "d < length ps"
  shows "find (\<lambda>l. last l = d) ps = Some (ps ! d)"
proof -
  have "\<exists>l. find (\<lambda>l. last l = d) ps = Some l"
    using nth_mem[OF assms(2)] assms(1)[OF assms(2)]
    by (cases "find (\<lambda>l. last l = d) ps") (auto simp: find_None_iff)
  then show ?thesis using assms by (auto simp: find_Some_iff)
qed

lemma number_dpid_nbs:
  assumes ok: "graph_input_ok switches lnks" and i: "i < length switches"
  defines "q \<equiv> dict_keys switches"
  shows "v_neighbors (map (vertex_of q es) switches ! i) = map (pos q) (dpid_nbs switches (q ! i))"
    and "set (dpid_nbs switches (q ! i)) \<subseteq> set q"
proof -
  obtain sw where sw: "switches ! i = (q ! i, sw)" using i by (cases "switches ! i") (simp add: q_def)
  have mem: "(q ! i, sw) \<in> set switches" using i sw nth_mem by metis
  then have "dict_get switches (q ! i) = Some sw" using graph_input_keys[OF ok] by (simp only: dict_get_Some_iff)
  then have nb: "dpid_nbs switches (q ! i) = dict_keys (sw_neighbors sw)" by (simp add: dpid_nbs_def)
  then show "v_neighbors (map (vertex_of q es) switches ! i) = map (pos q) (dpid_nbs switches (q ! i))"
    using i sw by (simp add: vertex_of_def Let_def comp_def)
  show "set (dpid_nbs switches (q ! i)) \<subseteq> set q" using graph_input_nbs[OF ok mem] nb by (simp only: snd_conv q_def)
qed

definition bands_ok :: "link_table_api \<Rightarrow> bool" where
  "bands_ok lnks \<longleftrightarrow> (\<forall>(k, par) \<in> set lnks. \<exists>av. link_available_band (snd (hd par)) = Some av \<and>
     av \<le> the (link_total_band (snd (hd par))) \<and> 0 < the (link_total_band (snd (hd par))) \<and>
     0 \<le> the (link_delay (snd (hd par))) \<and> 0 \<le> the (link_cost (snd (hd par))))"

lemma bands_edges_ok: "bands_ok lnks \<Longrightarrow> \<forall>e \<in> set (map (edge_of q) lnks). edge_ok e"
  by (fastforce simp: bands_ok_def edge_of_def edge_ok_def Let_def)

text \<open>
  What a route between two switches is: without repetition, along recorded neighbours, and of the
  smallest weight among all walks between them.
\<close>

definition best_route :: "dijkstra \<Rightarrow> switch_table \<Rightarrow> link_table_api \<Rightarrow> nat \<Rightarrow> nat \<Rightarrow> nat list \<Rightarrow> bool" where
  "best_route a switches lnks src dst ds \<longleftrightarrow> walk_from_to (dpid_nbs switches) src dst ds \<and> distinct ds \<and>
     (\<forall>q. walk_from_to (dpid_nbs switches) src dst q \<longrightarrow>
        walk_weight (dpid_weight a switches lnks) ds \<le> walk_weight (dpid_weight a switches lnks) q)"

lemma hd_last_map: "p \<noteq> [] \<Longrightarrow> hd (map f p) = f (hd p) \<and> last (map f p) = f (last p)"
  by (cases p) (simp_all add: last_map)

lemma walk_nonempty: "walk nb p \<Longrightarrow> p \<noteq> []"
  by auto

text \<open>Walks over numbers and walks over dpids correspond.\<close>

lemma walk_number_dpid:
  fixes es :: "edge list"
  assumes ok: "graph_input_ok switches lnks"
  defines "q \<equiv> dict_keys switches" and "nb \<equiv> nbs_of (map (vertex_of (dict_keys switches) es) switches)"
  shows "u < length q \<Longrightarrow> v \<in> set (nb u) \<Longrightarrow> v < length q \<and> q ! v \<in> set (dpid_nbs switches (q ! u))"
    and "d \<in> set q \<Longrightarrow> d' \<in> set (dpid_nbs switches d) \<Longrightarrow> d' \<in> set q \<and> pos q d' \<in> set (nb (pos q d))"
proof -
  have nb: "nb u = map (pos q) (dpid_nbs switches (q ! u))" and sub: "set (dpid_nbs switches (q ! u)) \<subseteq> set q"
    if "u < length q" for u
    using number_dpid_nbs(1)[OF ok, of u es] number_dpid_nbs(2)[OF ok, of u] that by (simp_all add: nb_def q_def)
  show "v < length q \<and> q ! v \<in> set (dpid_nbs switches (q ! u))" if "u < length q" "v \<in> set (nb u)"
    using nb[OF that(1)] sub[OF that(1)] that(2) pos_mem[of _ q] by auto
  show "d' \<in> set q \<and> pos q d' \<in> set (nb (pos q d))" if "d \<in> set q" "d' \<in> set (dpid_nbs switches d)"
    using nb[of "pos q d"] sub[of "pos q d"] pos_mem[OF that(1)] that(2) by auto
qed

lemma walk_to_dpid:
  fixes es :: "edge list"
  assumes ok: "graph_input_ok switches lnks" and src: "src \<in> set (dict_keys switches)" and dst: "dst \<in> set (dict_keys switches)"
  defines "q \<equiv> dict_keys switches"
  assumes p: "walk_from_to (nbs_of (map (vertex_of q es) switches)) (pos q src) (pos q dst) p"
  shows "\<forall>i \<in> set p. i < length q" and "walk_from_to (dpid_nbs switches) src dst (map (nth q) p)"
    and "distinct p \<Longrightarrow> distinct (map (nth q) p)"
proof -
  let ?nb = "nbs_of (map (vertex_of q es) switches)"
  note corr = walk_number_dpid[OF ok, of _ _ es, folded q_def]
  have src': "pos q src < length q" "q ! pos q src = src" "q ! pos q dst = dst"
    using pos_mem[of src q] pos_mem[of dst q] src dst by (simp_all add: q_def)
  have wk: "walk ?nb p" "p \<noteq> []" "hd p = pos q src" "last p = pos q dst"
    using p walk_nonempty by (auto simp: walk_from_to_def)
  have "set p \<subseteq> {..<length q}"
    by (rule walk_closed[OF wk(1)]) (use corr(1) src'(1) wk(3) in \<open>simp, blast\<close>)
  then show mem: "\<forall>i \<in> set p. i < length q" by auto
  have "walk (dpid_nbs switches) (map (nth q) p)"
    by (rule walk_map[OF wk(1)]) (use mem corr(1) in blast)
  then show "walk_from_to (dpid_nbs switches) src dst (map (nth q) p)"
    using hd_last_map[OF wk(2), of "nth q"] wk(3,4) src' by (simp add: walk_from_to_def)
  have "distinct q" using graph_input_keys[OF ok] by (simp add: q_def)
  then show "distinct p \<Longrightarrow> distinct (map (nth q) p)"
    using mem by (auto simp: distinct_map inj_on_def nth_eq_iff_index_eq)
qed

lemma route_number_dpid:
  assumes ok: "graph_input_ok switches lnks" and src: "src \<in> set (dict_keys switches)" and dst: "dst \<in> set (dict_keys switches)"
    and ne: "src \<noteq> dst"
  defines "q \<equiv> dict_keys switches" and "es \<equiv> map (edge_of (dict_keys switches)) lnks"
  assumes r: "route_to (nbs_of (map (vertex_of q es) switches)) (weight_value a es) (pos q src) (pos q dst) p"
  shows "if length p < 2
    then \<forall>ds. walk_from_to (dpid_nbs switches) src dst ds \<longrightarrow> 10000 \<le> walk_weight (dpid_weight a switches lnks) ds
    else best_route a switches lnks src dst (map (nth q) p) \<and> (\<forall>i \<in> set p. i < length q)"
proof -
  let ?nb = "nbs_of (map (vertex_of q es) switches)" and ?W = "weight_value a es"
  let ?dn = "dpid_nbs switches" and ?dw = "dpid_weight a switches lnks"
  note corr = walk_number_dpid[OF ok, of _ _ es, folded q_def]
  have src': "src \<in> set q" "pos q src < length q" "q ! pos q src = src" "q ! pos q dst = dst"
    using pos_mem[of src q] pos_mem[of dst q] src dst by (simp_all add: q_def)
  have dq: "distinct q" using graph_input_keys[OF ok] by (simp add: q_def)
  have w: "?dw (q ! u) (q ! v) = ?W u v" if "u < length q" "v < length q" for u v
    using that dq by (simp only: dpid_weight_def Let_def q_def[symmetric] es_def pos_nth)
  have to_number: "walk_from_to ?nb (pos q src) (pos q dst) (map (pos q) ds) \<and> walk_weight ?W (map (pos q) ds) = walk_weight ?dw ds"
    if d: "walk_from_to ?dn src dst ds" for ds
  proof -
    have nn: "ds \<noteq> []" and wk: "walk ?dn ds" and hl: "hd ds = src" "last ds = dst"
      using d walk_nonempty by (auto simp: walk_from_to_def)
    have mem: "set ds \<subseteq> set q"
      by (rule walk_closed[OF wk]) (use src'(1) hl(1) corr(2) in \<open>simp, blast\<close>)
    have "walk ?nb (map (pos q) ds)"
      by (rule walk_map[OF wk]) (use mem corr(2) in blast)
    moreover have "walk_weight ?W (map (pos q) ds) = walk_weight ?dw ds"
      by (intro walk_weight_map) (simp add: dpid_weight_def Let_def q_def es_def)
    ultimately show ?thesis using hd_last_map[OF nn, of "pos q"] hl by (simp add: walk_from_to_def)
  qed
  show ?thesis
  proof (cases "length p < 2")
    case True
    have "\<not> walk_from_to ?nb (pos q src) (pos q dst) p"
    proof
      assume "walk_from_to ?nb (pos q src) (pos q dst) p"
      then have "pos q src = pos q dst" using True by (cases p) (auto simp: walk_from_to_def)
      then show False using src'(3,4) ne by simp
    qed
    then show ?thesis using r True to_number unfolding route_to_def by force
  next
    case False
    then have p: "walk_from_to ?nb (pos q src) (pos q dst) p" "distinct p"
      "\<forall>q'. walk_from_to ?nb (pos q src) (pos q dst) q' \<longrightarrow> walk_weight ?W p \<le> walk_weight ?W q'"
      using r by (auto simp: route_to_def)
    note d = walk_to_dpid[OF ok src dst, folded q_def, OF p(1)]
    have "walk_weight ?dw (map (nth q) p) = walk_weight ?W p"
      using w d(1) by (intro walk_weight_map) blast
    moreover have "walk_weight ?W p \<le> walk_weight ?dw ds" if "walk_from_to ?dn src dst ds" for ds
      using p(3) to_number[OF that] by metis
    ultimately show ?thesis using False d(1,2) d(3)[OF p(2)] by (simp add: best_route_def)
  qed
qed

lemma vertexs_ok_init:
  assumes ok: "graph_input_ok switches lnks"
  shows "vertexs_ok (map (vertex_of (dict_keys switches) es) switches)"
  unfolding vertexs_ok_def
proof (intro ballI)
  fix v u
  assume v: "v \<in> set (map (vertex_of (dict_keys switches) es) switches)" and u: "u \<in> set (v_neighbors v)"
  obtain i where "i < length (map (vertex_of (dict_keys switches) es) switches)"
    "map (vertex_of (dict_keys switches) es) switches ! i = v"
    using v unfolding in_set_conv_nth by blast
  with u have i: "i < length switches" "u \<in> set (nbs_of (map (vertex_of (dict_keys switches) es) switches) i)"
    by simp_all
  then show "u < length (map (vertex_of (dict_keys switches) es) switches)"
    using walk_number_dpid(1)[OF ok, of i u es] by simp
qed

lemma init_run_get:
  assumes ok: "graph_input_ok switches lnks" and bands: "bands_ok lnks" and co: "coefficients_ok a"
    and src: "src \<in> set (dict_keys switches)" and dst: "dst \<in> set (dict_keys switches)" and ne: "src \<noteq> dst"
  shows "\<exists>a1 a2 a3 r. init_algorithm switches lnks a = Inr a1 \<and> dij_run src a1 = Some (Inr a2) \<and>
    dij_get_link src dst a2 = Inr (a3, r) \<and>
    (case r of
       Some (ds, cost) \<Rightarrow> best_route a switches lnks src dst ds
     | None \<Rightarrow> \<forall>ds. walk_from_to (dpid_nbs switches) src dst ds \<longrightarrow> 10000 \<le> walk_weight (dpid_weight a switches lnks) ds)"
proof -
  let ?q = "dict_keys switches" and ?es = "map (edge_of (dict_keys switches)) lnks"
  let ?vs = "map (vertex_of ?q ?es) switches"
  obtain a1 where a1: "init_algorithm switches lnks a = Inr a1" "switch_queue a1 = ?q" "vertexs a1 = ?vs" "edges a1 = ?es"
    "delay_coefficient a1 = delay_coefficient a" "cost_coefficient a1 = cost_coefficient a"
    "bw_load_coefficient a1 = bw_load_coefficient a"
    using init_algorithm_eval[OF ok, of a] by (elim exE) auto
  have wv: "weight_value a1 ?es = weight_value a ?es" by (rule weight_value_cong[OF a1(5-7)])
  have s: "pos ?q src < length ?vs" and d: "pos ?q dst < length ?vs" using pos_mem[OF src] pos_mem[OF dst] by simp_all
  have "coefficients_ok a1" using co by (simp add: coefficients_ok_def a1)
  note wd = weight_defined[OF this bands_edges_ok[OF bands]]
  have w: "weights_ok (\<lambda>u v. use_available_bandwidth_mark_weight a1 u v ?es) (weight_value a ?es) ?vs"
    using wd[where q1 = ?q] vertexs_ok_init[OF ok, of ?es] nth_mem[of _ ?vs]
    unfolding weights_ok_def vertexs_ok_def wv by blast
  from shortest_paths_spec[OF this s]
  obtain ps where ps: "calculate a1 (pos ?q src) ?vs ?es = Some (Inr ps)" "length ps = length ?vs"
    "\<And>v. v < length ?vs \<Longrightarrow> route_to (nbs_of ?vs) (weight_value a ?es) (pos ?q src) v (ps ! v)"
    unfolding calculate_def by blast
  let ?a2 = "a1\<lparr>links := ps\<rparr>"
  have run: "dij_run src a1 = Some (Inr ?a2)" using ps(1) by (simp add: dij_run_def a1 py_index_mem src del: set_map)
  let ?p = "ps ! pos ?q dst"
  have "ps ! v \<noteq> [] \<and> last (ps ! v) = v" if "v < length ps" for v
    using ps(3)[of v] that ps(2) walk_nonempty by (auto simp: route_to_def walk_from_to_def)
  then have find: "find (\<lambda>l. last l = pos ?q dst) ps = Some ?p" using d ps(2) by (intro find_last) auto
  have route: "if length ?p < 2
    then \<forall>ds. walk_from_to (dpid_nbs switches) src dst ds \<longrightarrow> 10000 \<le> walk_weight (dpid_weight a switches lnks) ds
    else best_route a switches lnks src dst (map (nth ?q) ?p) \<and> (\<forall>i \<in> set ?p. i < length ?q)"
    by (rule route_number_dpid[OF ok src dst ne ps(3)[OF d]])
  show ?thesis
  proof (cases "length ?p < 2")
    case True
    then have "dij_get_link src dst ?a2 = Inr (?a2, None)"
      using find by (simp add: dij_get_link_def a1 py_index_mem dst del: set_map)
    then show ?thesis using a1(1) run route True by fastforce
  next
    case False
    then have "\<exists>a3. dij_get_link src dst ?a2 = Inr (a3, Some (map (nth ?q) ?p, link_cost_of ?es ?p))"
      using dij_get_link_walk[of ?a2 dst ?p src] find route dst by (simp add: a1 del: set_map)
    then show ?thesis using a1(1) run route False by fastforce
  qed
qed

text \<open>
  C5. From tables whose links are measured, for two different switches, initialising, running and
  reading the algorithm never raises and always ends. The answer is a route from the source to the
  destination over recorded neighbours, without repetition and of the smallest weight, or no
  route, which happens only when every walk between them weighs 10000 or more.
\<close>

theorem dijkstra_route_correct:
  assumes "graph_input_ok switches lnks" "bands_ok lnks" "coefficients_ok a"
    and "src \<in> set (dict_keys switches)" "dst \<in> set (dict_keys switches)" "src \<noteq> dst"
  shows "\<exists>a1 a2 a3 r. init_algorithm switches lnks a = Inr a1 \<and> dij_run src a1 = Some (Inr a2) \<and>
    dij_get_link src dst a2 = Inr (a3, r) \<and>
    (case r of
       Some (ds, cost) \<Rightarrow> best_route a switches lnks src dst ds
     | None \<Rightarrow> \<forall>ds. walk_from_to (dpid_nbs switches) src dst ds \<longrightarrow> 10000 \<le> walk_weight (dpid_weight a switches lnks) ds)"
  using init_run_get[OF assms] .

definition wit_switch :: "nat \<Rightarrow> nat list \<Rightarrow> nat \<times> switch" where
  "wit_switch d ns = (d, (new_switch \<lparr>dp_id = d, dp_address = [], dp_ports = []\<rparr>)\<lparr>sw_neighbors := map (\<lambda>n. (n, [n])) ns\<rparr>)"

definition wit_cable :: "nat \<Rightarrow> nat \<Rightarrow> real \<Rightarrow> (nat \<times> nat) \<times> (nat \<times> nat, link) pydict" where
  "wit_cable s d delay = ((s, d), [((d, s), (wit_link s d d s)\<lparr>link_delay := Some delay, link_cost := Some 0,
     link_total_band := Some 1, link_available_band := Some 1\<rparr>)])"

definition wit_switches :: switch_table where
  "wit_switches = [wit_switch 11 [12, 13], wit_switch 12 [11, 13], wit_switch 13 [11, 12]]"

definition wit_cables :: link_table_api where
  "wit_cables = [wit_cable 11 12 0, wit_cable 11 13 1, wit_cable 12 13 0]"

lemma wit_tables_ok: "graph_input_ok wit_switches wit_cables" "bands_ok wit_cables" "coefficients_ok wit_dijkstra"
  by (simp_all add: graph_input_ok_def wit_switches_def wit_switch_def new_switch_def wit_cables_def wit_cable_def
      measured_def bands_ok_def coefficients_ok_def wit_dijkstra_def)

theorem dijkstra_route_correct_witness:
  "\<exists>a1 a2. init_algorithm wit_switches wit_cables wit_dijkstra = Inr a1 \<and> dij_run 11 a1 = Some (Inr a2) \<and>
     (\<exists>a3 r. dij_get_link 11 13 a2 = Inr (a3, r))"
  using dijkstra_route_correct[OF wit_tables_ok, of 11 13]
  by (fastforce simp: wit_switches_def wit_switch_def)

end
