(* ===== verification/Nx_Route.thy ===== *)
theory Nx_Route
  imports Dijkstra_Route
begin

text \<open>
  The route algorithm the program starts with: class \<open>RouteAlgorithm\<close> of
  \<open>route_manage/route_algorithm/RouteAlgorithm.py\<close>. It builds a graph of the package networkx from the
  link table, lets the package find a path that is shortest in delay or in loss, as a coin falls, and
  adds up the path. The package is not part of the program: its four functions are the argument \<open>nx\<close>,
  and the locale \<open>networkx_laws\<close> states what its documentation promises of them.
\<close>

section \<open>The package networkx\<close>

record nx_attr =
  a_delay :: real
  a_band :: real
  a_loss :: real

text \<open>
  \<open>nx_edge g u v\<close> is \<open>graph.edge[u][v]\<close>, \<^term>\<open>None\<close> when that raises \<open>KeyError\<close>; a path search that
  raises gives \<^term>\<open>None\<close>.
\<close>

record 'g networkx =
  nx_Graph :: 'g
  nx_add_edge :: "nat \<Rightarrow> nat \<Rightarrow> nx_attr \<Rightarrow> 'g \<Rightarrow> 'g"
  nx_edge :: "'g \<Rightarrow> nat \<Rightarrow> nat \<Rightarrow> nx_attr option"
  nx_dijkstra_path :: "'g \<Rightarrow> (nx_attr \<Rightarrow> real) \<Rightarrow> nat \<Rightarrow> nat \<Rightarrow> nat list option"

section \<open>State\<close>

record ra_node =
  n_id :: nat
  n_degree :: nat
  n_connect_node :: "nat list"

record ra_edge =
  re_id :: nat
  re_src :: nat
  re_dst :: nat
  re_delay :: real
  re_band :: real
  re_loss :: real

record route_algo =
  ra_switch_queue :: "nat list"
  ra_link_queue :: "(nat \<times> nat) list"
  ra_nodes :: "ra_node list"
  ra_edges :: "ra_edge list"
  ra_num_nodes :: nat
  ra_num_edges :: nat
  ra_src_node :: "nat option"
  ra_dst_node :: "nat option"
  ra_min_available_bandwidth :: real
  ra_loss :: real
  ra_delay :: real
  ra_band :: real
  ra_path :: "nat list option"

definition RouteAlgorithm :: route_algo where
  "RouteAlgorithm = \<lparr>ra_switch_queue = [], ra_link_queue = [], ra_nodes = [], ra_edges = [], ra_num_nodes = 0, ra_num_edges = 0,
     ra_src_node = None, ra_dst_node = None, ra_min_available_bandwidth = 0, ra_loss = 0, ra_delay = 0, ra_band = 0, ra_path = None\<rparr>"

section \<open>Tables\<close>

definition ra_node_of :: "nat list \<Rightarrow> nat \<times> switch \<Rightarrow> pyerr + ra_node" where
  "ra_node_of queue e =
     res_bind (py_index queue (fst e)) (\<lambda>index.
     res_bind (res_map (py_index queue) (dict_keys (sw_neighbors (snd e)))) (\<lambda>ns.
     Inr \<lparr>n_id = index, n_degree = length ns, n_connect_node = ns\<rparr>))"

definition ra_edge_of :: "(nat \<times> nat) list \<Rightarrow> (nat \<times> nat) \<times> (nat \<times> nat, link) pydict \<Rightarrow> pyerr + ra_edge" where
  "ra_edge_of queue e =
     res_bind (py_index queue (fst e)) (\<lambda>index.
     res_bind (py_nth (dict_values (snd e)) 0) (\<lambda>value.
     res_bind (py_float (link_pkt_loss value)) (\<lambda>loss.
     res_bind (py_float (link_delay value)) (\<lambda>delay.
     res_bind (py_float (link_total_band value)) (\<lambda>band.
     Inr \<lparr>re_id = index, re_src = fst (fst e), re_dst = snd (fst e), re_delay = delay, re_band = band, re_loss = loss / 100\<rparr>)))))"

text \<open>A loop that appends what its body builds, up to the first exception.\<close>

fun append_each :: "('a \<Rightarrow> pyerr + 'b) \<Rightarrow> 'a list \<Rightarrow> 'b list \<Rightarrow> 'b list \<times> pyerr option" where
  "append_each f [] acc = (acc, None)"
| "append_each f (x # xs) acc = (case f x of Inl e \<Rightarrow> (acc, Some e) | Inr y \<Rightarrow> append_each f xs (acc @ [y]))"

definition ra_init_algorithm :: "switch_table \<Rightarrow> link_table_api \<Rightarrow> route_algo \<Rightarrow> route_algo \<times> pyerr option" where
  "ra_init_algorithm switches lnks s =
     (let s1 = s\<lparr>ra_switch_queue := dict_keys switches, ra_link_queue := dict_keys lnks\<rparr>
      in case append_each (ra_node_of (dict_keys switches)) switches (ra_nodes s) of
           (ns, Some e) \<Rightarrow> (s1\<lparr>ra_nodes := ns\<rparr>, Some e)
         | (ns, None) \<Rightarrow>
             (case append_each (ra_edge_of (dict_keys lnks)) lnks (ra_edges s) of
                (es, Some e) \<Rightarrow> (s1\<lparr>ra_nodes := ns, ra_edges := es\<rparr>, Some e)
              | (es, None) \<Rightarrow> (s1\<lparr>ra_nodes := ns, ra_edges := es, ra_num_nodes := length ns, ra_num_edges := length es\<rparr>, None)))"

text \<open>
  \<open>update_link_status\<close> appends the edge and then evaluates the arguments of its log message, which
  divide the available bandwidth by the total one.
\<close>

definition ra_log_usage :: "link \<Rightarrow> pyerr + unit" where
  "ra_log_usage value =
     res_bind (py_float (link_available_band value)) (\<lambda>avail.
     res_bind (py_float (link_total_band value)) (\<lambda>total_band.
     if total_band = 0 then Inl ZeroDivisionError else Inr ()))"

fun ra_refresh :: "(nat \<times> nat) list \<Rightarrow> link_table_api \<Rightarrow> ra_edge list \<Rightarrow> ra_edge list \<times> pyerr option" where
  "ra_refresh queue [] acc = (acc, None)"
| "ra_refresh queue (e # lnks) acc =
     (case ra_edge_of queue e of
        Inl err \<Rightarrow> (acc, Some err)
      | Inr ed \<Rightarrow>
          (case ra_log_usage (snd (hd (snd e))) of
             Inl err \<Rightarrow> (acc @ [ed], Some err)
           | Inr _ \<Rightarrow> ra_refresh queue lnks (acc @ [ed])))"

definition ra_update_link_status :: "link_table_api \<Rightarrow> route_algo \<Rightarrow> route_algo \<times> pyerr option" where
  "ra_update_link_status lnks s =
     (case ra_refresh (ra_link_queue s) lnks [] of
        (es, Some e) \<Rightarrow> (s\<lparr>ra_edges := es\<rparr>, Some e)
      | (es, None) \<Rightarrow> (s\<lparr>ra_edges := es, ra_num_edges := length es\<rparr>, None))"

section \<open>Routes\<close>

definition ra_graph :: "'g networkx \<Rightarrow> ra_edge list \<Rightarrow> 'g" where
  "ra_graph nx es =
     foldl (\<lambda>g e. nx_add_edge nx (re_src e) (re_dst e) \<lparr>a_delay = re_delay e, a_band = re_band e, a_loss = re_loss e\<rparr> g) (nx_Graph nx) es"

text \<open>The sums along the path: the delay, the share of packets that get through, the smallest bandwidth.\<close>

fun ra_sums :: "'g networkx \<Rightarrow> 'g \<Rightarrow> nat list \<Rightarrow> real \<times> real \<times> real \<Rightarrow> pyerr + (real \<times> real \<times> real)" where
  "ra_sums nx g (x # y # p) (delay, loss, band) =
     (case nx_edge nx g x y of
        None \<Rightarrow> Inl KeyError
      | Some a \<Rightarrow> ra_sums nx g (y # p) (delay + a_delay a, loss * (1 - a_loss a), if band > a_band a then a_band a else band))"
| "ra_sums nx g p acc = Inr acc"

definition NO_BAND :: real where "NO_BAND = 99999999999999999 / 10"

definition ra_main :: "'g networkx \<Rightarrow> draws \<Rightarrow> route_algo \<Rightarrow> route_algo \<times> draws \<times> pyerr option" where
  "ra_main nx us s =
     (case (ra_src_node s, ra_dst_node s) of
        (Some src, Some dst) \<Rightarrow>
          (let g = ra_graph nx (ra_edges s)
           in case next_draw us of (u, us') \<Rightarrow>
                (case nx_dijkstra_path nx g (if u < 1 / 2 then a_delay else a_loss) src dst of
                   None \<Rightarrow> (s, us', Some NetworkXNoPath)
                 | Some p \<Rightarrow>
                     (case ra_sums nx g p (0, 1, NO_BAND) of
                        Inl e \<Rightarrow> (s\<lparr>ra_path := Some p\<rparr>, us', Some e)
                      | Inr (delay, loss, band) \<Rightarrow>
                          (s\<lparr>ra_path := Some p, ra_delay := delay, ra_loss := 1 - loss, ra_band := band\<rparr>, us', None))))
      | _ \<Rightarrow> (s, us, Some NetworkXNoPath))"

definition ra_run :: "'g networkx \<Rightarrow> nat \<Rightarrow> nat \<Rightarrow> real \<Rightarrow> draws \<Rightarrow> route_algo \<Rightarrow> route_algo \<times> draws \<times> pyerr option" where
  "ra_run nx src dst bw us s = ra_main nx us (s\<lparr>ra_src_node := Some src, ra_dst_node := Some dst, ra_min_available_bandwidth := bw\<rparr>)"

definition ra_get_link :: "route_algo \<Rightarrow> nat list option \<times> real" where
  "ra_get_link s = (ra_path s, ra_delay s)"

section \<open>What networkx promises\<close>

text \<open>Walks over the edges of a graph.\<close>

fun nx_walk :: "(nat \<Rightarrow> nat \<Rightarrow> nx_attr option) \<Rightarrow> nat list \<Rightarrow> bool" where
  "nx_walk E [] = False"
| "nx_walk E [x] = True"
| "nx_walk E (x # y # p) = (E x y \<noteq> None \<and> nx_walk E (y # p))"

abbreviation nx_weight :: "(nat \<Rightarrow> nat \<Rightarrow> nx_attr option) \<Rightarrow> (nx_attr \<Rightarrow> real) \<Rightarrow> nat list \<Rightarrow> real" where
  "nx_weight E w \<equiv> walk_weight (\<lambda>x y. w (the (E x y)))"

definition nx_path :: "(nat \<Rightarrow> nat \<Rightarrow> nx_attr option) \<Rightarrow> nat \<Rightarrow> nat \<Rightarrow> nat list \<Rightarrow> bool" where
  "nx_path E s d p \<longleftrightarrow> nx_walk E p \<and> hd p = s \<and> last p = d"

locale networkx_laws =
  fixes nx :: "'g networkx"
  assumes edge_empty: "nx_edge nx (nx_Graph nx) x y = None"
    and edge_add: "nx_edge nx (nx_add_edge nx u v a g) x y = (if (x, y) = (u, v) \<or> (x, y) = (v, u) then Some a else nx_edge nx g x y)"
    and path_found: "(\<And>x y a. nx_edge nx g x y = Some a \<Longrightarrow> 0 \<le> w a) \<Longrightarrow> s \<noteq> d \<Longrightarrow> nx_path (nx_edge nx g) s d q \<Longrightarrow>
      \<exists>p. nx_dijkstra_path nx g w s d = Some p \<and> nx_path (nx_edge nx g) s d p \<and> nx_weight (nx_edge nx g) w p \<le> nx_weight (nx_edge nx g) w q"
    and path_simple: "nx_dijkstra_path nx g w s d = Some p \<Longrightarrow> nx_path (nx_edge nx g) s d p \<and> distinct p"
begin

text \<open>The edges of the graph the program builds: of the edges between two switches the latest counts.\<close>

lemma ra_graph_edge:
  "nx_edge nx (ra_graph nx es) x y =
    map_option (\<lambda>e. \<lparr>a_delay = re_delay e, a_band = re_band e, a_loss = re_loss e\<rparr>)
      (find (\<lambda>e. (x, y) = (re_src e, re_dst e) \<or> (x, y) = (re_dst e, re_src e)) (rev es))"
proof -
  have "ra_graph nx (rev fs) = foldr (\<lambda>e g. nx_add_edge nx (re_src e) (re_dst e) \<lparr>a_delay = re_delay e, a_band = re_band e, a_loss = re_loss e\<rparr> g) fs (nx_Graph nx)" for fs
    by (simp add: ra_graph_def foldl_conv_foldr)
  moreover have "nx_edge nx (foldr (\<lambda>e g. nx_add_edge nx (re_src e) (re_dst e) \<lparr>a_delay = re_delay e, a_band = re_band e, a_loss = re_loss e\<rparr> g) fs (nx_Graph nx)) x y =
    map_option (\<lambda>e. \<lparr>a_delay = re_delay e, a_band = re_band e, a_loss = re_loss e\<rparr>)
      (find (\<lambda>e. (x, y) = (re_src e, re_dst e) \<or> (x, y) = (re_dst e, re_src e)) fs)" for fs
    by (induction fs) (simp_all add: edge_empty edge_add)
  ultimately show ?thesis by (metis rev_rev_ident)
qed

end


section \<open>A reference implementation of the package\<close>

text \<open>
  The laws can be met: a graph is the list of its edges, the latest first, and the path search tries all
  walks without repetition.
\<close>

type_synonym edge_list = "(nat \<times> nat \<times> nx_attr) list"

definition ref_edge :: "edge_list \<Rightarrow> nat \<Rightarrow> nat \<Rightarrow> nx_attr option" where
  "ref_edge g x y = map_option (snd \<circ> snd) (find (\<lambda>(u, v, a). (x, y) = (u, v) \<or> (x, y) = (v, u)) g)"

definition ref_nbs :: "edge_list \<Rightarrow> nat \<Rightarrow> nat list" where
  "ref_nbs g x = filter (\<lambda>y. ref_edge g x y \<noteq> None) (concat (map (\<lambda>(u, v, a). [u, v]) g))"

fun ref_walks :: "edge_list \<Rightarrow> nat \<Rightarrow> nat \<Rightarrow> nat list list" where
  "ref_walks g 0 s = [[s]]"
| "ref_walks g (Suc n) s = [s] # concat (map (\<lambda>v. map ((#) s) (ref_walks g n v)) (ref_nbs g s))"

definition ref_path :: "edge_list \<Rightarrow> (nx_attr \<Rightarrow> real) \<Rightarrow> nat \<Rightarrow> nat \<Rightarrow> nat list option" where
  "ref_path g w s d =
     (case filter (\<lambda>p. last p = d \<and> distinct p) (ref_walks g (2 * length g) s) of
        [] \<Rightarrow> None
      | ps \<Rightarrow> Some (arg_min_list (nx_weight (ref_edge g) w) ps))"

definition ref_networkx :: "edge_list networkx" where
  "ref_networkx = \<lparr>nx_Graph = [], nx_add_edge = (\<lambda>u v a g. (u, v, a) # g), nx_edge = ref_edge, nx_dijkstra_path = ref_path\<rparr>"

lemma ref_nbs_iff: "y \<in> set (ref_nbs g x) \<longleftrightarrow> ref_edge g x y \<noteq> None"
proof
  assume "ref_edge g x y \<noteq> None"
  then obtain u v a where "(u, v, a) \<in> set g" "(x, y) = (u, v) \<or> (x, y) = (v, u)"
    unfolding ref_edge_def find_None_iff option.map_disc_iff by auto
  then show "y \<in> set (ref_nbs g x)" using \<open>ref_edge g x y \<noteq> None\<close> by (force simp: ref_nbs_def)
qed (simp add: ref_nbs_def)

lemma ref_walks_iff: "p \<in> set (ref_walks g n s) \<longleftrightarrow> nx_walk (ref_edge g) p \<and> hd p = s \<and> length p \<le> Suc n"
proof (induction n arbitrary: p s)
  case 0
  show ?case by (cases "(ref_edge g, p)" rule: nx_walk.cases) auto
next
  case (Suc n)
  show ?case
  proof (cases "(ref_edge g, p)" rule: nx_walk.cases)
    case (3 E x y q)
    then show ?thesis using Suc.IH[of "y # q" y] by (auto simp: ref_nbs_iff image_iff) (metis Suc.IH list.sel(1))+
  qed (auto simp: image_iff Suc.IH)
qed

lemma nx_walk_append: "nx_walk E (xs @ y # zs) \<longleftrightarrow> nx_walk E (xs @ [y]) \<and> nx_walk E (y # zs)"
proof (induction E "xs @ [y]" arbitrary: xs rule: nx_walk.induct)
  case (2 E x)
  then show ?case by (cases xs) auto
next
  case (3 E a b p)
  then show ?case by (cases xs rule: remdups_adj.cases) auto
qed simp

lemma walk_weight_append: "walk_weight W (xs @ y # zs) = walk_weight W (xs @ [y]) + walk_weight W (y # zs)"
  by (induction xs rule: remdups_adj.induct) auto

lemma walk_weight_nonneg: "nx_walk E p \<Longrightarrow> (\<And>x y. E x y \<noteq> None \<Longrightarrow> 0 \<le> W x y) \<Longrightarrow> 0 \<le> walk_weight W p"
  by (induction E p rule: nx_walk.induct) auto

text \<open>Cutting the loops out of a walk makes it no heavier.\<close>

lemma nx_walk_distinct:
  assumes "nx_walk E p" "\<And>x y. E x y \<noteq> None \<Longrightarrow> 0 \<le> W x y"
  shows "\<exists>q. nx_walk E q \<and> hd q = hd p \<and> last q = last p \<and> distinct q \<and> walk_weight W q \<le> walk_weight W p"
  using assms(1)
proof (induction "length p" arbitrary: p rule: less_induct)
  case less
  show ?case
  proof (cases "distinct p")
    case False
    then obtain xs ys zs y where p: "p = xs @ [y] @ ys @ [y] @ zs" using not_distinct_decomp by blast
    let ?p = "xs @ y # zs"
    have w: "nx_walk E (xs @ [y])" "nx_walk E (y # ys @ [y])" "nx_walk E (y # zs)"
      using less.prems nx_walk_append[of E xs y "ys @ y # zs"] nx_walk_append[of E "y # ys" y zs] unfolding p by simp_all
    then have "nx_walk E ?p" using nx_walk_append by blast
    moreover have "walk_weight W ?p \<le> walk_weight W p"
      using walk_weight_append[of W xs y "ys @ y # zs"] walk_weight_append[of W "y # ys" y zs] walk_weight_append[of W xs y zs]
        walk_weight_nonneg[OF w(2) assms(2)] unfolding p by simp
    moreover have "hd ?p = hd p" "last ?p = last p" "length ?p < length p" unfolding p by (cases xs; simp)+
    ultimately show ?thesis using less.hyps[of ?p] by fastforce
  qed (use less.prems in blast)
qed

lemma nx_walk_nodes: "nx_walk (ref_edge g) p \<Longrightarrow> set (tl p) \<subseteq> fst ` set g \<union> (fst \<circ> snd) ` set g"
proof (induction "ref_edge g" p rule: nx_walk.induct)
  case (3 x y p)
  then have "y \<in> set (ref_nbs g x)" by (simp add: ref_nbs_iff)
  then have "y \<in> fst ` set g \<union> (fst \<circ> snd) ` set g" by (force simp: ref_nbs_def)
  then show ?case using 3 by (cases p) auto
qed auto

lemma distinct_walk_short:
  assumes "nx_walk (ref_edge g) p" "distinct p"
  shows "length p \<le> Suc (2 * length g)"
proof -
  have "length (tl p) = card (set (tl p))" using assms(2) by (simp add: distinct_card distinct_tl)
  also have "\<dots> \<le> card (fst ` set g \<union> (fst \<circ> snd) ` set g)" by (intro card_mono nx_walk_nodes assms) simp
  also have "\<dots> \<le> card (fst ` set g) + card ((fst \<circ> snd) ` set g)" by (rule card_Un_le)
  also have "\<dots> \<le> length g + length g" by (intro add_mono order_trans[OF card_image_le card_length]) simp_all
  finally show ?thesis by simp
qed

lemma ref_path_Some:
  assumes p: "ref_path g w x y = Some p"
  shows "nx_path (ref_edge g) x y p" "distinct p"
proof -
  let ?ps = "filter (\<lambda>p. last p = y \<and> distinct p) (ref_walks g (2 * length g) x)"
  have ne: "?ps \<noteq> []" using p by (auto simp: ref_path_def split: list.splits)
  then have "p = arg_min_list (nx_weight (ref_edge g) w) ?ps" using p by (auto simp: ref_path_def split: list.splits)
  then have "p \<in> set ?ps" using arg_min_list_in[OF ne] by simp
  then show "nx_path (ref_edge g) x y p" "distinct p" by (simp_all add: nx_path_def ref_walks_iff)
qed

interpretation ref: networkx_laws ref_networkx
proof (unfold_locales, goal_cases)
  case (1 x y)
  show ?case by (simp add: ref_networkx_def ref_edge_def)
next
  case (2 u v a g x y)
  show ?case by (simp add: ref_networkx_def ref_edge_def)
next
  case (3 g w s d q)
  let ?E = "ref_edge g" and ?ps = "filter (\<lambda>p. last p = d \<and> distinct p) (ref_walks g (2 * length g) s)"
  have E: "nx_edge ref_networkx g = ?E" "nx_dijkstra_path ref_networkx = ref_path" by (simp_all add: ref_networkx_def)
  have q: "nx_walk ?E q" "hd q = s" "last q = d" using 3(3) by (simp_all add: nx_path_def E)
  have nn: "0 \<le> w (the (?E x y))" if "?E x y \<noteq> None" for x y using 3(1)[of x y] that unfolding E by auto
  obtain r where r: "nx_walk ?E r" "hd r = s" "last r = d" "distinct r" "nx_weight ?E w r \<le> nx_weight ?E w q"
    using nx_walk_distinct[where W = "\<lambda>x y. w (the (?E x y))", OF q(1) nn] unfolding q(2,3) by blast
  have mem: "r \<in> set ?ps" using r distinct_walk_short[OF r(1,4)] by (simp add: ref_walks_iff)
  then have ne: "?ps \<noteq> []" by (metis empty_iff list.set(1))
  let ?p = "arg_min_list (nx_weight ?E w) ?ps"
  have "nx_weight ?E w ?p \<le> nx_weight ?E w r" using f_arg_min_list_f[OF ne, of "nx_weight ?E w"] mem by (simp add: Min_le)
  moreover have "?p \<in> set ?ps" using ne by (rule arg_min_list_in)
  moreover have "ref_path g w s d = Some ?p" using ne by (auto simp: ref_path_def split: list.splits)
  ultimately show ?case using r(5) unfolding E nx_path_def by (auto simp: ref_walks_iff)
next
  case (4 g w s d p)
  then have p: "ref_path g w s d = Some p" by (simp add: ref_networkx_def)
  show ?case using ref_path_Some[OF p] by (simp add: ref_networkx_def)
qed


section \<open>Routes of the program\<close>

text \<open>The links as the route algorithm sees them: the first of the links between two switches, all measured.\<close>

definition nx_input_ok :: "link_table_api \<Rightarrow> bool" where
  "nx_input_ok lnks \<longleftrightarrow> dict_ok lnks \<and>
     (\<forall>(k, par) \<in> set lnks. par \<noteq> [] \<and>
        (\<exists>loss delay band avail. link_pkt_loss (snd (hd par)) = Some loss \<and> link_delay (snd (hd par)) = Some delay \<and>
           link_total_band (snd (hd par)) = Some band \<and> link_available_band (snd (hd par)) = Some avail \<and>
           0 \<le> loss \<and> loss \<le> 100 \<and> 0 \<le> delay \<and> 0 < band))"

definition link_edge :: "(nat \<times> nat) \<times> (nat \<times> nat, link) pydict \<Rightarrow> (nat \<times> nat) list \<Rightarrow> ra_edge" where
  "link_edge e queue = \<lparr>re_id = pos queue (fst e), re_src = fst (fst e), re_dst = snd (fst e), re_delay = the (link_delay (snd (hd (snd e)))),
     re_band = the (link_total_band (snd (hd (snd e)))), re_loss = the (link_pkt_loss (snd (hd (snd e)))) / 100\<rparr>"

lemma ra_edge_of_ok:
  assumes "nx_input_ok lnks" "e \<in> set lnks" "fst e \<in> set queue"
  shows "ra_edge_of queue e = Inr (link_edge e queue)" "ra_log_usage (snd (hd (snd e))) = Inr ()"
proof -
  obtain k par where e: "e = (k, par)" by (cases e)
  have p: "par \<noteq> []" "\<exists>loss delay band avail. link_pkt_loss (snd (hd par)) = Some loss \<and> link_delay (snd (hd par)) = Some delay \<and>
           link_total_band (snd (hd par)) = Some band \<and> link_available_band (snd (hd par)) = Some avail \<and>
           0 \<le> loss \<and> loss \<le> 100 \<and> 0 \<le> delay \<and> 0 < band" using assms(1,2) unfolding nx_input_ok_def e by auto
  have "map snd par ! 0 = snd (hd par)" using p(1) by (cases par) auto
  then show "ra_edge_of queue e = Inr (link_edge e queue)" using p assms(3) unfolding e
    by (auto simp: ra_edge_of_def link_edge_def py_index_mem py_nth_def py_float_def)
  show "ra_log_usage (snd (hd (snd e))) = Inr ()" using p(2) unfolding e by (auto simp: ra_log_usage_def py_float_def)
qed

lemma ra_refresh_ok:
  assumes "nx_input_ok all" "set lnks \<subseteq> set all" "set (dict_keys lnks) \<subseteq> set queue"
  shows "ra_refresh queue lnks acc = (acc @ map (\<lambda>e. link_edge e queue) lnks, None)"
  using assms(2,3)
proof (induction lnks arbitrary: acc)
  case (Cons e lnks)
  then have "e \<in> set all" "fst e \<in> set queue" by auto
  from ra_edge_of_ok[OF assms(1) this] show ?case using Cons by simp
qed simp

text \<open>The graph of the link table, undirected.\<close>

definition table_edge :: "link_table_api \<Rightarrow> nat \<Rightarrow> nat \<Rightarrow> nx_attr option" where
  "table_edge lnks x y =
     map_option (\<lambda>e. \<lparr>a_delay = the (link_delay (snd (hd (snd e)))), a_band = the (link_total_band (snd (hd (snd e)))),
        a_loss = the (link_pkt_loss (snd (hd (snd e)))) / 100\<rparr>)
       (find (\<lambda>e. fst e = (x, y) \<or> fst e = (y, x)) (rev lnks))"

definition get_through :: "(nat \<Rightarrow> nat \<Rightarrow> nx_attr option) \<Rightarrow> nat list \<Rightarrow> real" where
  "get_through E p = prod_list (map (\<lambda>(x, y). 1 - a_loss (the (E x y))) (zip p (tl p)))"

context networkx_laws
begin

lemma ra_graph_table: "nx_edge nx (ra_graph nx (map (\<lambda>e. link_edge e q) lnks)) = table_edge lnks"
proof (intro ext)
  fix x y
  have "(\<lambda>e :: (nat \<times> nat) \<times> (nat \<times> nat, link) pydict. (x = fst (fst e) \<and> y = snd (fst e)) \<or> (x = snd (fst e) \<and> y = fst (fst e))) =
      (\<lambda>e. fst e = (x, y) \<or> fst e = (y, x))" by (auto simp: fun_eq_iff)
  moreover have "find P (map f xs) = map_option f (find (P \<circ> f) xs)" for P :: "ra_edge \<Rightarrow> bool" and f :: "(nat \<times> nat) \<times> (nat \<times> nat, link) pydict \<Rightarrow> ra_edge" and xs
    by (induction xs) auto
  ultimately show "nx_edge nx (ra_graph nx (map (\<lambda>e. link_edge e q) lnks)) x y = table_edge lnks x y"
    unfolding ra_graph_edge rev_map table_edge_def by (simp add: o_def option.map_comp link_edge_def)
qed

lemma ra_sums_walk:
  "nx_walk (nx_edge nx g) p \<Longrightarrow> \<exists>b. ra_sums nx g p (delay, loss, band) =
     Inr (delay + nx_weight (nx_edge nx g) a_delay p, loss * get_through (nx_edge nx g) p, b)"
proof (induction "nx_edge nx g" p arbitrary: delay loss band rule: nx_walk.induct)
  case (3 x y p)
  then obtain a where a: "nx_edge nx g x y = Some a" by auto
  have "nx_walk (nx_edge nx g) (y # p)" using 3 by simp
  from 3(1)[OF this, of "delay + a_delay a" "loss * (1 - a_loss a)"] obtain b where
    "ra_sums nx g (y # p) (delay + a_delay a, loss * (1 - a_loss a), if band > a_band a then a_band a else band) =
      Inr (delay + a_delay a + nx_weight (nx_edge nx g) a_delay (y # p), loss * (1 - a_loss a) * get_through (nx_edge nx g) (y # p), b)" by blast
  then show ?case using a by (simp add: get_through_def algebra_simps)
qed (auto simp: get_through_def)

end


lemma find_member: "find P xs = Some x \<Longrightarrow> x \<in> set xs"
  by (induction xs) (auto split: if_splits)

lemma table_edge_nonneg:
  assumes "nx_input_ok lnks" "table_edge lnks x y = Some a"
  shows "0 \<le> a_delay a" "0 \<le> a_loss a"
proof -
  obtain e where e: "find (\<lambda>e. fst e = (x, y) \<or> fst e = (y, x)) (rev lnks) = Some e"
    "a = \<lparr>a_delay = the (link_delay (snd (hd (snd e)))), a_band = the (link_total_band (snd (hd (snd e)))), a_loss = the (link_pkt_loss (snd (hd (snd e)))) / 100\<rparr>"
    using assms(2) by (auto simp: table_edge_def)
  have "e \<in> set (rev lnks)" using e(1) by (rule find_member)
  then have "e \<in> set lnks" by simp
  obtain k par where kp: "e = (k, par)" by (cases e)
  have "\<exists>loss delay. link_pkt_loss (snd (hd par)) = Some loss \<and> link_delay (snd (hd par)) = Some delay \<and> 0 \<le> loss \<and> 0 \<le> delay"
    using assms(1) \<open>e \<in> set lnks\<close> unfolding nx_input_ok_def kp by auto
  then show "0 \<le> a_delay a" "0 \<le> a_loss a" unfolding e(2) kp by auto
qed

lemma networkx_route:
  assumes nx: "networkx_laws nx" and ok: "nx_input_ok lnks" and q: "set (dict_keys lnks) \<subseteq> set (ra_link_queue s)"
    and sd: "src \<noteq> dst" and p: "nx_path (table_edge lnks) src dst p"
    and w_def: "w = (if fst (next_draw us) < 1 / 2 then a_delay else a_loss)"
  shows "\<exists>s1 s2 us' r. ra_update_link_status lnks s = (s1, None) \<and> ra_run nx src dst bw us s1 = (s2, us', None) \<and>
    ra_get_link s2 = (Some r, nx_weight (table_edge lnks) a_delay r) \<and> nx_path (table_edge lnks) src dst r \<and>
    nx_weight (table_edge lnks) w r \<le> nx_weight (table_edge lnks) w p \<and> ra_loss s2 = 1 - get_through (table_edge lnks) r \<and> distinct r"
proof -
  let ?es = "map (\<lambda>e. link_edge e (ra_link_queue s)) lnks"
  let ?s1 = "s\<lparr>ra_edges := ?es, ra_num_edges := length ?es\<rparr>"
  let ?g = "ra_graph nx ?es"
  obtain u us' where u: "next_draw us = (u, us')" by fastforce
  have u1: "ra_update_link_status lnks s = (?s1, None)"
    using ra_refresh_ok[OF ok subset_refl q, of "[]"] by (simp add: ra_update_link_status_def)
  have E: "nx_edge nx ?g = table_edge lnks" by (rule networkx_laws.ra_graph_table[OF nx])
  have nn: "0 \<le> w a" if "nx_edge nx ?g x y = Some a" for x y a
    using table_edge_nonneg[OF ok, of x y a] that unfolding E w_def by simp
  have "\<exists>r. nx_dijkstra_path nx ?g w src dst = Some r \<and> nx_path (nx_edge nx ?g) src dst r \<and> nx_weight (nx_edge nx ?g) w r \<le> nx_weight (nx_edge nx ?g) w p"
    by (rule networkx_laws.path_found[OF nx]) (use nn sd p in \<open>simp_all add: E\<close>)
  then obtain r where r: "nx_dijkstra_path nx ?g w src dst = Some r"
    "nx_path (table_edge lnks) src dst r" "nx_weight (table_edge lnks) w r \<le> nx_weight (table_edge lnks) w p" unfolding E by blast
  have wk: "nx_walk (nx_edge nx ?g) r" using r(2) unfolding nx_path_def E by blast
  obtain b where b: "ra_sums nx ?g r (0, 1, NO_BAND) = Inr (nx_weight (table_edge lnks) a_delay r, get_through (table_edge lnks) r, b)"
    using networkx_laws.ra_sums_walk[OF nx wk, of 0 1 NO_BAND] unfolding E by auto
  let ?s2 = "?s1\<lparr>ra_src_node := Some src, ra_dst_node := Some dst, ra_min_available_bandwidth := bw, ra_path := Some r,
    ra_delay := nx_weight (table_edge lnks) a_delay r, ra_loss := 1 - get_through (table_edge lnks) r, ra_band := b\<rparr>"
  have "ra_run nx src dst bw us ?s1 = (?s2, us', None)"
    using r(1) b by (simp add: ra_run_def ra_main_def Let_def u w_def)
  then show ?thesis using u1 r(2,3) networkx_laws.path_simple[OF nx r(1)] by (intro exI[of _ ?s1] exI[of _ ?s2] exI[of _ us'] exI[of _ r]) (simp add: ra_get_link_def)
qed

text \<open>
  C7. The route of the default algorithm: when networkx keeps its promises and the links are measured, then
  for two connected switches of the link table the refresh and the run raise nothing, and the answer
  is a route of the table's graph from one to the other whose total delay, or else whose sum of losses,
  is the smallest of all, as the coin fell. The number that goes with it is the delay of the route, and
  the loss recorded is the share of packets that some link of the route loses.
\<close>

theorem default_route_shortest:
  assumes "networkx_laws nx" "nx_input_ok lnks" "set (dict_keys lnks) \<subseteq> set (ra_link_queue s)"
    and "src \<noteq> dst" "nx_path (table_edge lnks) src dst p"
  shows "\<exists>s1 s2 us' r. ra_update_link_status lnks s = (s1, None) \<and> ra_run nx src dst bw us s1 = (s2, us', None) \<and>
    ra_get_link s2 = (Some r, nx_weight (table_edge lnks) a_delay r) \<and> nx_path (table_edge lnks) src dst r \<and>
    nx_weight (table_edge lnks) (if fst (next_draw us) < 1 / 2 then a_delay else a_loss) r \<le>
      nx_weight (table_edge lnks) (if fst (next_draw us) < 1 / 2 then a_delay else a_loss) p \<and>
    ra_loss s2 = 1 - get_through (table_edge lnks) r"
  using networkx_route[OF assms refl, of bw] by blast

definition wit_measured :: link_table_api where
  "wit_measured = [((11, 12), [((1, 2), (wit_link 11 1 12 2)\<lparr>link_delay := Some 3, link_pkt_loss := Some 1, link_total_band := Some 10, link_available_band := Some 5\<rparr>)])]"

lemma wit_measured_ok: "nx_input_ok wit_measured" "nx_path (table_edge wit_measured) 12 11 [12, 11]"
  by (simp_all add: nx_input_ok_def wit_measured_def nx_path_def table_edge_def)

theorem default_route_shortest_witness:
  "\<exists>s1 s2 us' r. ra_update_link_status wit_measured (RouteAlgorithm\<lparr>ra_link_queue := [(11, 12)]\<rparr>) = (s1, None) \<and>
     ra_run ref_networkx 12 11 0 [] s1 = (s2, us', None) \<and> nx_path (table_edge wit_measured) 12 11 r \<and> fst (ra_get_link s2) = Some r"
proof -
  have q: "set (dict_keys wit_measured) \<subseteq> set (ra_link_queue (RouteAlgorithm\<lparr>ra_link_queue := [(11, 12)]\<rparr>))" by (simp add: wit_measured_def)
  have ne: "12 \<noteq> (11 :: nat)" by simp
  from default_route_shortest[OF ref.networkx_laws_axioms wit_measured_ok(1) q ne wit_measured_ok(2), of 0 "[]"]
  show ?thesis by force
qed

section \<open>A link table with a link the algorithm does not know\<close>

lemma ra_refresh_unknown:
  assumes "nx_input_ok all" "set lnks \<subseteq> set all" "k \<in> set (dict_keys lnks)" "k \<notin> set queue"
  shows "snd (ra_refresh queue lnks acc) = Some ValueError"
  using assms(2,3)
proof (induction lnks arbitrary: acc)
  case (Cons e lnks)
  show ?case
  proof (cases "fst e \<in> set queue")
    case True
    have e: "e \<in> set all" using Cons.prems(1) by simp
    have "k \<in> set (dict_keys lnks)" using Cons.prems(2) assms(4) True by auto
    then show ?thesis using Cons ra_edge_of_ok[OF assms(1) e True] by simp
  next
    case False
    then show ?thesis by (simp add: ra_edge_of_def py_index_not_mem)
  qed
qed simp

lemma ra_init_link_queue: "ra_link_queue (fst (ra_init_algorithm switches lnks s)) = dict_keys lnks"
  by (simp add: ra_init_algorithm_def Let_def split: prod.splits option.splits)

end
