(* ===== verification/Moea_Individual.thy ===== *)
theory Moea_Individual
  imports Nx_Route
begin

text \<open>
  The individuals of the multicast algorithm: class \<open>Individual\<close> of
  \<open>route_manage/route_algorithm/MOEARouteAlgorithm.py\<close>. An individual selects edges of the network by a
  list of booleans and finds a path to each member of the group in the graph of the selected edges.

  \<open>copy.copy\<close> of an individual shares its list of booleans and its graph with the original, and the
  crossover changes both in place. So the individuals, the lists and the graphs live in a store and refer
  to each other by number. The lists of paths and of dominated individuals are bound to new lists before
  they are filled and are values here, as is the list of edges, which does not change while the algorithm
  runs. The attributes \<open>fitness\<close>, \<open>edge_list\<close>, \<open>dominated\<close> and \<open>location\<close> are never read and left out.
  After an exception the thread that ran the algorithm is dead: the outcome is modelled, not the store
  left behind.
\<close>

section \<open>Graphs\<close>

text \<open>Two more functions of networkx: whether a node is in \<open>graph.node\<close>, and \<open>nx.is_connected\<close>.\<close>

record 'g nx_graphs =
  ng_base :: "'g networkx"
  ng_node :: "'g \<Rightarrow> nat \<Rightarrow> bool"
  ng_is_connected :: "'g \<Rightarrow> bool"

locale nx_graph_laws = networkx_laws "ng_base ng" for ng :: "'g nx_graphs" +
  assumes node_empty: "\<not> ng_node ng (nx_Graph (ng_base ng)) x"
    and node_add: "ng_node ng (nx_add_edge (ng_base ng) u v a g) x \<longleftrightarrow> x = u \<or> x = v \<or> ng_node ng g x"
    and connected: "ng_is_connected ng g \<Longrightarrow> ng_node ng g x \<Longrightarrow> ng_node ng g y \<Longrightarrow> \<exists>p. nx_path (nx_edge (ng_base ng) g) x y p"

definition edge_attr :: "ra_edge \<Rightarrow> nx_attr" where
  "edge_attr e = \<lparr>a_delay = re_delay e, a_band = re_band e, a_loss = re_loss e\<rparr>"

definition add_edges :: "'g networkx \<Rightarrow> ra_edge list \<Rightarrow> 'g \<Rightarrow> 'g" where
  "add_edges nx es g = foldl (\<lambda>g e. nx_add_edge nx (re_src e) (re_dst e) (edge_attr e) g) g es"

section \<open>State\<close>

text \<open>The bandwidth \<^term>\<open>None\<close> is \<open>float('Infinity')\<close>.\<close>

record individual =
  i_src :: "nat option"
  i_dst :: "nat list"
  i_edges :: "ra_edge list"
  i_chrom :: nat
  i_graph :: nat
  i_paths :: "nat list list"
  i_delay :: real
  i_loss :: real
  i_band :: "real option"
  i_rank :: nat
  i_crowd :: real
  i_ndom :: int
  i_dominating :: "nat list"

record 'g store =
  st_inds :: "individual list"
  st_chroms :: "bool list list"
  st_graphs :: "'g list"

definition MOEA_INF :: real where "MOEA_INF = 999999999999 / 10"

definition new_individual :: "'g networkx \<Rightarrow> 'g store \<Rightarrow> 'g store \<times> nat" where
  "new_individual nx h =
     (h\<lparr>st_inds := st_inds h @ [\<lparr>i_src = None, i_dst = [], i_edges = [], i_chrom = length (st_chroms h), i_graph = length (st_graphs h),
          i_paths = [], i_delay = 0, i_loss = 0, i_band = None, i_rank = 0, i_crowd = 0, i_ndom = 0, i_dominating = []\<rparr>],
        st_chroms := st_chroms h @ [[]], st_graphs := st_graphs h @ [nx_Graph nx]\<rparr>,
      length (st_inds h))"

definition copy_individual :: "nat \<Rightarrow> 'g store \<Rightarrow> 'g store \<times> nat" where
  "copy_individual r h = (h\<lparr>st_inds := st_inds h @ [st_inds h ! r]\<rparr>, length (st_inds h))"

definition upd_ind :: "nat \<Rightarrow> (individual \<Rightarrow> individual) \<Rightarrow> 'g store \<Rightarrow> 'g store" where
  "upd_ind r f h = h\<lparr>st_inds := (st_inds h)[r := f (st_inds h ! r)]\<rparr>"

definition clear_property :: "individual \<Rightarrow> individual" where
  "clear_property i = i\<lparr>i_rank := 0, i_crowd := 0, i_ndom := 0, i_dominating := []\<rparr>"

section \<open>Evaluation\<close>

definition edge_select :: "bool list \<Rightarrow> ra_edge list \<Rightarrow> pyerr + ra_edge list" where
  "edge_select chrom es = res_map (py_nth es) (filter (\<lambda>x. chrom ! x) [0..<length chrom])"

fun init_tree :: "'g networkx \<Rightarrow> 'g \<Rightarrow> nat \<Rightarrow> nat list \<Rightarrow> draws \<Rightarrow> pyerr + (nat list list \<times> draws)" where
  "init_tree nx g src [] us = Inr ([], us)"
| "init_tree nx g src (dst # dsts) us =
     (case next_draw us of (u, us1) \<Rightarrow>
        (case nx_dijkstra_path nx g (if u < 1 / 2 then a_delay else a_loss) src dst of
           None \<Rightarrow> Inl NetworkXNoPath
         | Some p \<Rightarrow> res_bind (init_tree nx g src dsts us1) (\<lambda>(ps, us2). Inr (p # ps, us2))))"

fun path_figures :: "'g networkx \<Rightarrow> 'g \<Rightarrow> nat list \<Rightarrow> real \<times> real \<times> real option \<Rightarrow> pyerr + (real \<times> real \<times> real option)" where
  "path_figures nx g (x # y # p) (delay, loss, band) =
     (case nx_edge nx g x y of
        None \<Rightarrow> Inl KeyError
      | Some a \<Rightarrow>
          path_figures nx g (y # p) (delay + a_delay a, loss * (1 - a_loss a),
            case band of None \<Rightarrow> Some (a_band a) | Some b \<Rightarrow> if b > a_band a then Some (a_band a) else Some b))"
| "path_figures nx g p acc = Inr acc"

fun tree_figures :: "'g networkx \<Rightarrow> 'g \<Rightarrow> nat list list \<Rightarrow> real \<times> real \<times> real option \<Rightarrow> pyerr + (real \<times> real \<times> real option)" where
  "tree_figures nx g [] acc = Inr acc"
| "tree_figures nx g (p # ps) (max_delay, max_loss, band) =
     res_bind (path_figures nx g p (0, 1, band)) (\<lambda>(delay, loss, band').
     tree_figures nx g ps (max_delay + delay, max_loss + (1 - loss), band'))"

definition cal_fitness :: "'g networkx \<Rightarrow> 'g \<Rightarrow> individual \<Rightarrow> pyerr + individual" where
  "cal_fitness nx g i =
     res_bind (tree_figures nx g (i_paths i) (0, 0, i_band i)) (\<lambda>(max_delay, max_loss, band).
     if i_dst i = [] then Inl ZeroDivisionError
     else Inr (i\<lparr>i_delay := max_delay / real (length (i_dst i)), i_loss := max_loss / real (length (i_dst i)), i_band := band\<rparr>))"

text \<open>
  \<open>ind_fitness_evaluate\<close> with the two methods it leads to. The selected edges are added to the graph that is
  there. A source \<open>None\<close> is not in the graph.
\<close>

definition ind_fitness_evaluate :: "'g nx_graphs \<Rightarrow> nat \<Rightarrow> 'g store \<times> draws \<Rightarrow> pyerr + ('g store \<times> draws)" where
  "ind_fitness_evaluate ng r hus =
     (case hus of (h, us) \<Rightarrow>
        let i = st_inds h ! r
        in res_bind (edge_select (st_chroms h ! i_chrom i) (i_edges i)) (\<lambda>es.
           let g = add_edges (ng_base ng) es (st_graphs h ! i_graph i);
               h1 = h\<lparr>st_graphs := (st_graphs h)[i_graph i := g]\<rparr>;
               infeasible = Inr (upd_ind r (\<lambda>i. i\<lparr>i_delay := MOEA_INF, i_loss := MOEA_INF\<rparr>) h1, us)
           in case i_src i of
                None \<Rightarrow> infeasible
              | Some src \<Rightarrow>
                  (if ng_node ng g src \<and> (\<forall>d \<in> set (i_dst i). ng_node ng g d) \<and> ng_is_connected ng g
                   then res_bind (init_tree (ng_base ng) g src (i_dst i) us) (\<lambda>(ps, us').
                        res_bind (cal_fitness (ng_base ng) g (i\<lparr>i_paths := ps\<rparr>)) (\<lambda>i'.
                        Inr (upd_ind r (\<lambda>_. i') h1, us')))
                   else infeasible)))"

fun draw_bits :: "nat \<Rightarrow> draws \<Rightarrow> bool list \<times> draws" where
  "draw_bits 0 us = ([], us)"
| "draw_bits (Suc n) us =
     (case next_draw us of (u, us1) \<Rightarrow> case draw_bits n us1 of (bs, us2) \<Rightarrow> ((u < 1 / 2) # bs, us2))"

definition initialize :: "'g nx_graphs \<Rightarrow> nat \<Rightarrow> ra_edge list \<Rightarrow> nat option \<Rightarrow> nat list \<Rightarrow> nat \<Rightarrow> 'g store \<times> draws \<Rightarrow> pyerr + ('g store \<times> draws)" where
  "initialize ng len_chrom es src dst r hus =
     (case hus of (h, us) \<Rightarrow>
        case draw_bits len_chrom us of (bs, us') \<Rightarrow>
          let c = i_chrom (st_inds h ! r);
              h1 = h\<lparr>st_chroms := (st_chroms h)[c := st_chroms h ! c @ bs]\<rparr>
          in ind_fitness_evaluate ng r (upd_ind r (\<lambda>i. i\<lparr>i_edges := es, i_src := src, i_dst := dst\<rparr>) h1, us'))"

section \<open>Comparison\<close>

definition is_better_than :: "individual \<Rightarrow> individual \<Rightarrow> bool" where
  "is_better_than a b \<longleftrightarrow>
     (if i_loss a \<le> i_loss b \<and> i_delay a < i_delay b then True else i_loss a < i_loss b \<and> i_delay a \<le> i_delay b)"

definition is_same_to :: "individual \<Rightarrow> individual \<Rightarrow> bool" where
  "is_same_to a b \<longleftrightarrow> i_delay a = i_delay b \<and> i_loss a = i_loss b"

section \<open>Crossover\<close>

text \<open>
  The loop over the genes of two lists \<open>a\<close> and \<open>b\<close>, which may be the same list. \<open>swap i us\<close> decides
  whether the genes at \<open>i\<close> are exchanged; then one draw decides whether both are flipped.
\<close>

fun cross_genes :: "(nat \<Rightarrow> draws \<Rightarrow> bool \<times> draws) \<Rightarrow> nat \<Rightarrow> nat \<Rightarrow> bool list \<Rightarrow> nat list \<Rightarrow> bool list list \<Rightarrow> draws \<Rightarrow>
    pyerr + (bool list list \<times> draws)" where
  "cross_genes swap a b chrom_copy [] cs us = Inr (cs, us)"
| "cross_genes swap a b chrom_copy (i # is) cs us =
     (case swap i us of (sw, us1) \<Rightarrow>
      case next_draw us1 of (u, us2) \<Rightarrow>
        if (sw \<or> u < 2 / 25) \<and> length (cs ! b) \<le> i then Inl IndexError
        else
          let cs1 = (if sw then cs[a := (cs ! a)[i := cs ! b ! i]] else cs);
              cs2 = (if sw then cs1[b := (cs1 ! b)[i := chrom_copy ! i]] else cs1);
              cs3 = (if u < 2 / 25 then cs2[a := (cs2 ! a)[i := \<not> cs2 ! a ! i]] else cs2);
              cs4 = (if u < 2 / 25 then cs3[b := (cs3 ! b)[i := \<not> cs3 ! b ! i]] else cs3)
          in cross_genes swap a b chrom_copy is cs4 us2)"

definition crossover :: "'g nx_graphs \<Rightarrow> (nat \<Rightarrow> draws \<Rightarrow> bool \<times> draws) \<Rightarrow> nat \<Rightarrow> nat \<Rightarrow> 'g store \<Rightarrow> draws \<Rightarrow> pyerr + ('g store \<times> draws)" where
  "crossover ng swap r r' h us =
     (let a = i_chrom (st_inds h ! r); b = i_chrom (st_inds h ! r'); chrom = st_chroms h ! a
      in res_bind (cross_genes swap a b chrom [0..<length chrom] (st_chroms h) us) (\<lambda>(cs, us').
         res_bind (ind_fitness_evaluate ng r (h\<lparr>st_chroms := cs\<rparr>, us')) (ind_fitness_evaluate ng r')))"

definition single_point_crossover :: "'g nx_graphs \<Rightarrow> nat \<Rightarrow> nat \<Rightarrow> 'g store \<times> draws \<Rightarrow> pyerr + ('g store \<times> draws)" where
  "single_point_crossover ng r r' hus =
     (case hus of (h, us) \<Rightarrow>
        res_bind (randint 0 (length (st_chroms h ! i_chrom (st_inds h ! r))) us) (\<lambda>(pos, us').
        crossover ng (\<lambda>i us. (pos < i, us)) r r' h us'))"

definition uniform_crossover :: "'g nx_graphs \<Rightarrow> nat \<Rightarrow> nat \<Rightarrow> 'g store \<times> draws \<Rightarrow> pyerr + ('g store \<times> draws)" where
  "uniform_crossover ng r r' hus =
     (case hus of (h, us) \<Rightarrow> crossover ng (\<lambda>i us. case next_draw us of (u, us') \<Rightarrow> (u < 1 / 2, us')) r r' h us)"

section \<open>Draws\<close>

text \<open>\<open>uses n us us'\<close>: at most \<open>n\<close> draws were taken from \<open>us\<close>, and \<open>us'\<close> is left.\<close>

definition uses :: "nat \<Rightarrow> draws \<Rightarrow> draws \<Rightarrow> bool" where
  "uses n us us' \<longleftrightarrow> (\<exists>k \<le> n. us' = drop k us)"

lemma uses_refl [simp]: "uses n us us"
  unfolding uses_def by (rule exI[of _ 0]) simp

lemma uses_next [simp]: "uses (Suc n) us (snd (next_draw us))"
  unfolding uses_def next_draw_def by (rule exI[of _ 1]) (simp split: list.splits)

lemma uses_trans: "uses m us us1 \<Longrightarrow> uses n us1 us2 \<Longrightarrow> m + n \<le> k \<Longrightarrow> uses k us us2"
  unfolding uses_def by (metis add.commute add_mono drop_drop order_trans)

lemma uses_mono: "uses m us us1 \<Longrightarrow> m \<le> n \<Longrightarrow> uses n us us1"
  using uses_trans[OF _ uses_refl[of 0]] by simp

lemma uses_next': "next_draw us = (u, us1) \<Longrightarrow> uses n us1 us2 \<Longrightarrow> uses (Suc n) us us2"
  using uses_trans[OF uses_next[of 0 us]] by simp

lemma draw_bits_uses: "draw_bits n us = (bs, us') \<Longrightarrow> uses n us us' \<and> length bs = n"
proof (induction n arbitrary: us bs us')
  case (Suc n)
  obtain u us1 where u: "next_draw us = (u, us1)" by fastforce
  obtain cs us2 where c: "draw_bits n us1 = (cs, us2)" by fastforce
  show ?case using Suc.prems Suc.IH[OF c] uses_next'[OF u] by (auto simp: u c)
qed simp

section \<open>What an individual promises\<close>

text \<open>
  The network as the individuals see it: \<open>E\<close> gives the attributes of the edge between two switches, the
  edges \<open>es\<close> agree with it, no edge is free of delay, and losses are shares.
\<close>

definition edges_ok :: "(nat \<Rightarrow> nat \<Rightarrow> nx_attr option) \<Rightarrow> ra_edge list \<Rightarrow> bool" where
  "edges_ok E es \<longleftrightarrow>
     (\<forall>e \<in> set es. E (re_src e) (re_dst e) = Some (edge_attr e) \<and> E (re_dst e) (re_src e) = Some (edge_attr e)) \<and>
     (\<forall>x y a. E x y = Some a \<longrightarrow> 0 < a_delay a \<and> 0 \<le> a_loss a \<and> a_loss a \<le> 1)"

definition ind_shape :: "(nat \<Rightarrow> nat \<Rightarrow> nx_attr option) \<Rightarrow> ra_edge list \<Rightarrow> nat \<Rightarrow> nat list \<Rightarrow> nat \<Rightarrow> nat \<Rightarrow> individual \<Rightarrow> bool" where
  "ind_shape E es src dst nc ng i \<longleftrightarrow> i_src i = Some src \<and> i_dst i = dst \<and> i_edges i = es \<and> i_chrom i < nc \<and> i_graph i < ng \<and>
     (i_paths i = [] \<or> list_all2 (nx_path E src) dst (i_paths i))"

definition figures_ok :: "individual \<Rightarrow> bool" where
  "figures_ok i \<longleftrightarrow> 0 < i_delay i \<and> 0 \<le> i_loss i"

definition store_shape :: "'g networkx \<Rightarrow> (nat \<Rightarrow> nat \<Rightarrow> nx_attr option) \<Rightarrow> ra_edge list \<Rightarrow> nat \<Rightarrow> nat list \<Rightarrow> 'g store \<Rightarrow> bool" where
  "store_shape nx E es src dst h \<longleftrightarrow>
     (\<forall>i \<in> set (st_inds h). ind_shape E es src dst (length (st_chroms h)) (length (st_graphs h)) i) \<and>
     (\<forall>c \<in> set (st_chroms h). length c = length es) \<and>
     (\<forall>g \<in> set (st_graphs h). \<forall>x y a. nx_edge nx g x y = Some a \<longrightarrow> E x y = Some a)"

definition store_ok :: "'g networkx \<Rightarrow> (nat \<Rightarrow> nat \<Rightarrow> nx_attr option) \<Rightarrow> ra_edge list \<Rightarrow> nat \<Rightarrow> nat list \<Rightarrow> 'g store \<Rightarrow> bool" where
  "store_ok nx E es src dst h \<longleftrightarrow> store_shape nx E es src dst h \<and> (\<forall>i \<in> set (st_inds h). figures_ok i)"

lemma edge_select_ok: "length c = length es \<Longrightarrow> edge_select c es = Inr (map ((!) es) (filter (\<lambda>x. c ! x) [0..<length c]))"
  unfolding edge_select_def by (rule res_map_total) (simp add: py_nth_def)

lemma edge_select_subset: "length c = length es \<Longrightarrow> edge_select c es = Inr fs \<Longrightarrow> set fs \<subseteq> set es"
  by (auto simp: edge_select_ok)

lemma nx_path_mono:
  assumes "\<And>x y a. E x y = Some a \<Longrightarrow> F x y = Some a" "nx_path E s d p"
  shows "nx_path F s d p"
proof -
  have "nx_walk E p \<Longrightarrow> nx_walk F p" using assms(1) by (induction E p rule: nx_walk.induct) fastforce+
  then show ?thesis using assms(2) by (simp add: nx_path_def)
qed

lemma path_delay_pos:
  assumes "nx_walk E p" "\<And>x y a. E x y = Some a \<Longrightarrow> 0 < a_delay a \<and> 0 \<le> a_loss a \<and> a_loss a \<le> 1" "hd p \<noteq> last p"
  shows "0 < nx_weight E a_delay p"
proof -
  obtain x y q where p: "p = x # y # q" using assms(1,3) by (cases "(E, p)" rule: nx_walk.cases) auto
  then obtain a where a: "E x y = Some a" "nx_walk E (y # q)" using assms(1) by auto
  have "0 \<le> nx_weight E a_delay (y # q)" using walk_weight_nonneg[OF a(2), of "\<lambda>x y. a_delay (the (E x y))"] assms(2) by fastforce
  then show ?thesis using a assms(2)[of x y a] p by simp
qed

lemma get_through_range:
  assumes "nx_walk E p" "\<And>x y a. E x y = Some a \<Longrightarrow> 0 \<le> a_loss a \<and> a_loss a \<le> 1"
  shows "0 \<le> get_through E p \<and> get_through E p \<le> 1"
  using assms
proof (induction E p rule: nx_walk.induct)
  case (3 E x y p)
  then obtain a where a: "E x y = Some a" "nx_walk E (y # p)" by auto
  have "0 \<le> get_through E (y # p) \<and> get_through E (y # p) \<le> 1" using 3 a by blast
  then show ?case using 3(3)[OF a(1)] a by (simp add: get_through_def mult_le_one)
qed (auto simp: get_through_def)

context networkx_laws
begin

lemma add_edges_edge:
  "nx_edge nx (add_edges nx es g) x y = Some a \<Longrightarrow>
   nx_edge nx g x y = Some a \<or> (\<exists>e \<in> set es. ((x, y) = (re_src e, re_dst e) \<or> (x, y) = (re_dst e, re_src e)) \<and> a = edge_attr e)"
proof (induction es arbitrary: g)
  case (Cons e es)
  let ?g = "nx_add_edge nx (re_src e) (re_dst e) (edge_attr e) g"
  from Cons.IH[of ?g] Cons.prems have
    "nx_edge nx ?g x y = Some a \<or> (\<exists>e \<in> set es. ((x, y) = (re_src e, re_dst e) \<or> (x, y) = (re_dst e, re_src e)) \<and> a = edge_attr e)"
    by (simp add: add_edges_def)
  then show ?case unfolding edge_add by (auto split: if_splits)
qed (simp add: add_edges_def)

lemma add_edges_within:
  assumes "edges_ok E all" "set es \<subseteq> set all" "\<And>x y a. nx_edge nx g x y = Some a \<Longrightarrow> E x y = Some a"
    "nx_edge nx (add_edges nx es g) x y = Some a"
  shows "E x y = Some a"
  using add_edges_edge[OF assms(4)] assms(1,2,3) unfolding edges_ok_def by blast

lemma path_figures_walk:
  "nx_walk (nx_edge nx g) p \<Longrightarrow> \<exists>b. path_figures nx g p (delay, loss, band) =
     Inr (delay + nx_weight (nx_edge nx g) a_delay p, loss * get_through (nx_edge nx g) p, b)"
proof (induction "nx_edge nx g" p arbitrary: delay loss band rule: nx_walk.induct)
  case (3 x y p)
  then obtain a where a: "nx_edge nx g x y = Some a" by auto
  have w: "nx_walk (nx_edge nx g) (y # p)" using 3 by simp
  from 3(1)[OF w, of "delay + a_delay a" "loss * (1 - a_loss a)"] obtain b where
    "path_figures nx g (y # p) (delay + a_delay a, loss * (1 - a_loss a),
       case band of None \<Rightarrow> Some (a_band a) | Some b \<Rightarrow> if b > a_band a then Some (a_band a) else Some b) =
      Inr (delay + a_delay a + nx_weight (nx_edge nx g) a_delay (y # p), loss * (1 - a_loss a) * get_through (nx_edge nx g) (y # p), b)" by blast
  then show ?case using a by (simp add: get_through_def algebra_simps)
qed (auto simp: get_through_def)

lemma tree_figures_ok:
  assumes "\<And>x y a. nx_edge nx g x y = Some a \<Longrightarrow> 0 < a_delay a \<and> 0 \<le> a_loss a \<and> a_loss a \<le> 1"
    "\<And>p. p \<in> set ps \<Longrightarrow> nx_walk (nx_edge nx g) p \<and> hd p \<noteq> last p" "0 \<le> D" "0 \<le> L"
  shows "\<exists>D' L' b'. tree_figures nx g ps (D, L, b) = Inr (D', L', b') \<and> D \<le> D' \<and> L \<le> L' \<and> (ps \<noteq> [] \<longrightarrow> D < D')"
  using assms(2-4)
proof (induction ps arbitrary: D L b)
  case (Cons p ps)
  have w: "nx_walk (nx_edge nx g) p" "hd p \<noteq> last p" using Cons.prems(1) by simp_all
  let ?d = "nx_weight (nx_edge nx g) a_delay p" and ?l = "get_through (nx_edge nx g) p"
  obtain b1 where b1: "path_figures nx g p (0, 1, b) = Inr (?d, ?l, b1)" using path_figures_walk[OF w(1), of 0 1 b] by auto
  have d: "0 < ?d" using path_delay_pos[OF w(1) _ w(2)] assms(1) by blast
  have l: "?l \<le> 1" using get_through_range[OF w(1)] assms(1) by blast
  obtain D' L' b' where r: "tree_figures nx g ps (D + ?d, L + (1 - ?l), b1) = Inr (D', L', b')" "D + ?d \<le> D'" "L + (1 - ?l) \<le> L'"
    using Cons.IH[of "D + ?d" "L + (1 - ?l)" b1] Cons.prems d l by auto
  have "tree_figures nx g (p # ps) (D, L, b) = Inr (D', L', b')" using b1 r(1) by simp
  then show ?case using r(2,3) d l by fastforce
qed simp

end

context nx_graph_laws
begin

abbreviation NX :: "'g networkx" where "NX \<equiv> ng_base ng"

lemma init_tree_ok:
  assumes "\<And>x y a. nx_edge NX g x y = Some a \<Longrightarrow> 0 < a_delay a \<and> 0 \<le> a_loss a"
    "ng_is_connected ng g" "ng_node ng g src" "\<And>d. d \<in> set dst \<Longrightarrow> ng_node ng g d \<and> d \<noteq> src"
  shows "\<exists>ps us'. init_tree NX g src dst us = Inr (ps, us') \<and> list_all2 (nx_path (nx_edge NX g) src) dst ps \<and> uses (length dst) us us'"
  using assms(4)
proof (induction dst arbitrary: us)
  case (Cons d dst)
  obtain u us1 where u: "next_draw us = (u, us1)" by fastforce
  define w :: "nx_attr \<Rightarrow> real" where "w = (if u < 1 / 2 then a_delay else a_loss)"
  have d: "ng_node ng g d" "src \<noteq> d" using Cons.prems[of d] by auto
  obtain q where q: "nx_path (nx_edge NX g) src d q" using connected[OF assms(2,3) d(1)] by blast
  have nn: "0 \<le> w a" if "nx_edge NX g x y = Some a" for x y a using assms(1)[OF that] by (auto simp: w_def)
  obtain p where p: "nx_dijkstra_path NX g w src d = Some p" "nx_path (nx_edge NX g) src d p"
  proof -
    have "\<exists>p. nx_dijkstra_path NX g w src d = Some p \<and> nx_path (nx_edge NX g) src d p \<and> nx_weight (nx_edge NX g) w p \<le> nx_weight (nx_edge NX g) w q"
      by (rule path_found[OF _ d(2) q]) (rule nn)
    then show thesis using that by blast
  qed
  obtain ps us' where r: "init_tree NX g src dst us1 = Inr (ps, us')" "list_all2 (nx_path (nx_edge NX g) src) dst ps" "uses (length dst) us1 us'"
    using Cons.IH[of us1] Cons.prems by auto
  show ?case using u p r uses_next'[OF u r(3)] by (simp add: w_def)
qed simp

lemma ind_fitness_evaluate_ok:
  assumes E: "edges_ok E es" and sh: "store_shape NX E es src dst h" and r: "r < length (st_inds h)"
    and fig: "\<And>k. k < length (st_inds h) \<Longrightarrow> k \<noteq> r \<Longrightarrow> figures_ok (st_inds h ! k)" and dst: "dst \<noteq> []" "src \<notin> set dst"
  shows "\<exists>h' us'. ind_fitness_evaluate ng r (h, us) = Inr (h', us') \<and> store_ok NX E es src dst h' \<and>
    length (st_inds h') = length (st_inds h) \<and> uses (length dst) us us'"
proof -
  let ?i = "st_inds h ! r"
  have shape: "ind_shape E es src dst (length (st_chroms h)) (length (st_graphs h)) i" if "i \<in> set (st_inds h)" for i
    using sh that by (auto simp: store_shape_def)
  have i: "i_src ?i = Some src" "i_dst ?i = dst" "i_edges ?i = es" "i_chrom ?i < length (st_chroms h)" "i_graph ?i < length (st_graphs h)"
    using shape[of ?i] r by (auto simp: ind_shape_def)
  have len: "length (st_chroms h ! i_chrom ?i) = length es" using sh i(4) by (auto simp: store_shape_def)
  obtain fs where fs: "edge_select (st_chroms h ! i_chrom ?i) es = Inr fs" using edge_select_ok[OF len] by blast
  let ?old = "st_graphs h ! i_graph ?i" and ?g = "add_edges NX fs (st_graphs h ! i_graph ?i)"
  let ?h1 = "h\<lparr>st_graphs := (st_graphs h)[i_graph ?i := ?g]\<rparr>"
  have g0: "E x y = Some a" if "nx_edge NX ?old x y = Some a" for x y a using sh i(5) nth_mem[OF i(5)] that unfolding store_shape_def by blast
  have g: "E x y = Some a" if "nx_edge NX ?g x y = Some a" for x y a
    using add_edges_within[OF E edge_select_subset[OF len fs] g0 that] .
  have gs: "E x y = Some a" if "g' \<in> set ((st_graphs h)[i_graph ?i := ?g])" "nx_edge NX g' x y = Some a" for g' x y a
    using set_update_subset_insert[of "st_graphs h" "i_graph ?i" ?g] that g sh unfolding store_shape_def by blast
  have upd: "store_ok NX E es src dst (upd_ind r f ?h1) \<and> length (st_inds (upd_ind r f ?h1)) = length (st_inds h)"
    if f: "ind_shape E es src dst (length (st_chroms h)) (length (st_graphs h)) (f ?i)" "figures_ok (f ?i)" for f
  proof -
    have "figures_ok j \<and> ind_shape E es src dst (length (st_chroms h)) (length (st_graphs h)) j" if j: "j \<in> set ((st_inds h)[r := f ?i])" for j
    proof -
      obtain k where k: "k < length (st_inds h)" "j = (st_inds h)[r := f ?i] ! k" using j unfolding in_set_conv_nth length_list_update by blast
      show ?thesis using k f fig shape by (cases "k = r") auto
    qed
    then show ?thesis using sh gs by (auto simp: store_ok_def store_shape_def upd_ind_def)
  qed
  have e: "0 < a_delay a \<and> 0 \<le> a_loss a \<and> a_loss a \<le> 1" if "nx_edge NX ?g x y = Some a" for x y a
    using E g[OF that] by (auto simp: edges_ok_def)
  show ?thesis
  proof (cases "ng_node ng ?g src \<and> (\<forall>d \<in> set dst. ng_node ng ?g d) \<and> ng_is_connected ng ?g")
    case False
    let ?f = "\<lambda>i :: individual. i\<lparr>i_delay := MOEA_INF, i_loss := MOEA_INF\<rparr>"
    have "ind_fitness_evaluate ng r (h, us) = Inr (upd_ind r ?f ?h1, us)" using fs i False by (auto simp: ind_fitness_evaluate_def Let_def)
    moreover have "ind_shape E es src dst (length (st_chroms h)) (length (st_graphs h)) (?f ?i)" "figures_ok (?f ?i)"
      using shape[of ?i] r by (simp_all add: ind_shape_def figures_ok_def MOEA_INF_def)
    ultimately show ?thesis using upd[of ?f] by simp
  next
    case True
    obtain ps us' where t: "init_tree NX ?g src dst us = Inr (ps, us')" "list_all2 (nx_path (nx_edge NX ?g) src) dst ps" "uses (length dst) us us'"
      using init_tree_ok[of ?g src dst us] e True dst by blast
    have ps: "ps \<noteq> []" using t(2) dst(1) by auto
    have w: "nx_walk (nx_edge NX ?g) p \<and> hd p \<noteq> last p" if p: "p \<in> set ps" for p
    proof -
      obtain k where k: "k < length ps" "p = ps ! k" using p unfolding in_set_conv_nth by blast
      then have "nx_path (nx_edge NX ?g) src (dst ! k) p" "dst ! k \<in> set dst" using list_all2_nthD2[OF t(2) k(1)] list_all2_lengthD[OF t(2)] by auto
      then show ?thesis using dst(2) by (auto simp: nx_path_def)
    qed
    obtain D L b where f: "tree_figures NX ?g ps (0, 0, i_band ?i) = Inr (D, L, b)" "0 < D" "0 \<le> L"
    proof -
      have "\<exists>D' L' b'. tree_figures NX ?g ps (0, 0, i_band ?i) = Inr (D', L', b') \<and> 0 \<le> D' \<and> 0 \<le> L' \<and> (ps \<noteq> [] \<longrightarrow> 0 < D')"
        by (rule tree_figures_ok) (erule e, erule w, simp_all)
      then show thesis using that ps by blast
    qed
    let ?i' = "?i\<lparr>i_paths := ps, i_delay := D / real (length dst), i_loss := L / real (length dst), i_band := b\<rparr>"
    have "ind_fitness_evaluate ng r (h, us) = Inr (upd_ind r (\<lambda>_. ?i') ?h1, us')"
      using fs i True t(1) f(1) dst(1) by (simp add: ind_fitness_evaluate_def Let_def cal_fitness_def)
    moreover have "list_all2 (nx_path E src) dst ps" using t(2) by (rule list_all2_mono) (rule nx_path_mono[OF g])
    then have "ind_shape E es src dst (length (st_chroms h)) (length (st_graphs h)) ?i'" "figures_ok ?i'"
      using shape[of ?i] r f(2,3) dst(1) by (simp_all add: ind_shape_def figures_ok_def)
    ultimately show ?thesis using upd[of "\<lambda>_. ?i'"] t(3) by simp
  qed
qed

end

lemma set_gene_length: "\<forall>c \<in> set cs. length c = n \<Longrightarrow> \<forall>c \<in> set (cs[a := (cs ! a)[i := v]]). length c = n"
proof
  fix c assume cs: "\<forall>c \<in> set cs. length c = n" and c: "c \<in> set (cs[a := (cs ! a)[i := v]])"
  obtain k where k: "k < length cs" "c = cs[a := (cs ! a)[i := v]] ! k" using c unfolding in_set_conv_nth length_list_update by blast
  then show "length c = n" using cs by (cases "k = a") auto
qed

lemma cross_genes_ok:
  assumes "b < length cs" "\<forall>c \<in> set cs. length c = n" "\<forall>i \<in> set is. i < n" "\<And>i us. uses 1 us (snd (swap i us))"
  shows "\<exists>cs' us'. cross_genes swap a b chrom_copy is cs us = Inr (cs', us') \<and> length cs' = length cs \<and>
    (\<forall>c \<in> set cs'. length c = n) \<and> uses (2 * length is) us us'"
  using assms(1-3)
proof (induction "is" arbitrary: cs us)
  case (Cons i "is")
  obtain sw us1 where s: "swap i us = (sw, us1)" by fastforce
  obtain u us2 where u: "next_draw us1 = (u, us2)" by fastforce
  have b: "length (cs ! b) = n" "i < n" using Cons.prems by auto
  define cs1 where "cs1 = (if sw then cs[a := (cs ! a)[i := cs ! b ! i]] else cs)"
  define cs2 where "cs2 = (if sw then cs1[b := (cs1 ! b)[i := chrom_copy ! i]] else cs1)"
  define cs3 where "cs3 = (if u < 2 / 25 then cs2[a := (cs2 ! a)[i := \<not> cs2 ! a ! i]] else cs2)"
  define cs4 where "cs4 = (if u < 2 / 25 then cs3[b := (cs3 ! b)[i := \<not> cs3 ! b ! i]] else cs3)"
  have l: "length cs4 = length cs" by (simp add: cs4_def cs3_def cs2_def cs1_def)
  have "\<forall>c \<in> set cs1. length c = n" using set_gene_length[OF Cons.prems(2)] Cons.prems(2) by (simp add: cs1_def)
  then have "\<forall>c \<in> set cs2. length c = n" using set_gene_length[of cs1 n] by (simp add: cs2_def)
  then have "\<forall>c \<in> set cs3. length c = n" using set_gene_length[of cs2 n] by (simp add: cs3_def)
  then have n: "\<forall>c \<in> set cs4. length c = n" using set_gene_length[of cs3 n] by (simp add: cs4_def)
  obtain cs' us' where r: "cross_genes swap a b chrom_copy is cs4 us2 = Inr (cs', us')" "length cs' = length cs4" "\<forall>c \<in> set cs'. length c = n"
    "uses (2 * length is) us2 us'" using Cons.IH[of cs4 us2] Cons.prems l n by auto
  have "cross_genes swap a b chrom_copy (i # is) cs us = cross_genes swap a b chrom_copy is cs4 us2"
    using s u b by (simp add: cs4_def cs3_def cs2_def cs1_def Let_def)
  moreover have "uses (2 * length (i # is)) us us'"
    using uses_trans[OF assms(4)[of us i, unfolded s snd_conv] uses_next'[OF u r(4)]] by simp
  ultimately show ?case using r l by auto
qed simp

context nx_graph_laws
begin

lemma crossover_ok:
  assumes E: "edges_ok E es" and ok: "store_ok NX E es src dst h" and r: "r < length (st_inds h)" "r' < length (st_inds h)"
    and dst: "dst \<noteq> []" "src \<notin> set dst" and sw: "\<And>i us. uses 1 us (snd (swap i us))"
  shows "\<exists>h' us'. crossover ng swap r r' h us = Inr (h', us') \<and> store_ok NX E es src dst h' \<and>
    length (st_inds h') = length (st_inds h) \<and> uses (2 * length es + 2 * length dst) us us'"
proof -
  let ?a = "i_chrom (st_inds h ! r)" and ?b = "i_chrom (st_inds h ! r')"
  have shape: "ind_shape E es src dst (length (st_chroms h)) (length (st_graphs h)) i" if "i \<in> set (st_inds h)" for i
    using ok that by (auto simp: store_ok_def store_shape_def)
  have ab: "?a < length (st_chroms h)" "?b < length (st_chroms h)" using shape r by (auto simp: ind_shape_def)
  have n: "\<forall>c \<in> set (st_chroms h). length c = length es" using ok by (simp add: store_ok_def store_shape_def)
  have la: "length (st_chroms h ! ?a) = length es" using n ab by auto
  obtain cs us1 where c: "cross_genes swap ?a ?b (st_chroms h ! ?a) [0..<length es] (st_chroms h) us = Inr (cs, us1)" "length cs = length (st_chroms h)"
    "\<forall>c \<in> set cs. length c = length es" "uses (2 * length es) us us1"
    using cross_genes_ok[OF ab(2) n, of "[0..<length es]" swap ?a "st_chroms h ! ?a" us] sw by auto
  let ?h = "h\<lparr>st_chroms := cs\<rparr>"
  have s1: "store_shape NX E es src dst ?h" using ok c(2,3) by (simp add: store_ok_def store_shape_def)
  have f1: "figures_ok (st_inds ?h ! k)" if "k < length (st_inds ?h)" for k using ok that by (simp add: store_ok_def)
  obtain h1 us2 where e1: "ind_fitness_evaluate ng r (?h, us1) = Inr (h1, us2)" "store_ok NX E es src dst h1"
    "length (st_inds h1) = length (st_inds h)" "uses (length dst) us1 us2"
    using ind_fitness_evaluate_ok[OF E s1 _ _ dst, of r us1] r(1) f1 by auto
  have s2: "store_shape NX E es src dst h1" and f2: "figures_ok (st_inds h1 ! k)" if "k < length (st_inds h1)" for k
    using e1(2) that by (simp_all add: store_ok_def)
  obtain h2 us3 where e2: "ind_fitness_evaluate ng r' (h1, us2) = Inr (h2, us3)" "store_ok NX E es src dst h2"
    "length (st_inds h2) = length (st_inds h)" "uses (length dst) us2 us3"
    using ind_fitness_evaluate_ok[OF E _ _ _ dst, of h1 r' us2] r(2) e1 f2 by (auto simp: store_ok_def)
  have "uses (2 * length es + 2 * length dst) us us3" by (rule uses_trans[OF c(4) uses_trans[OF e1(4) e2(4)]]) auto
  then show ?thesis using c(1) e1(1) e2 by (simp add: crossover_def Let_def la)
qed

lemma single_point_crossover_ok:
  assumes "edges_ok E es" "store_ok NX E es src dst h" "r < length (st_inds h)" "r' < length (st_inds h)" "dst \<noteq> []" "src \<notin> set dst"
  shows "\<exists>h' us'. single_point_crossover ng r r' (h, us) = Inr (h', us') \<and> store_ok NX E es src dst h' \<and>
    length (st_inds h') = length (st_inds h) \<and> uses (1 + 2 * length es + 2 * length dst) us us'"
proof -
  obtain u us1 where u: "next_draw us = (u, us1)" by fastforce
  then obtain pos where p: "randint 0 (length (st_chroms h ! i_chrom (st_inds h ! r))) us = Inr (pos, us1)" by (simp add: randint_def)
  obtain h' us' where "crossover ng (\<lambda>i us. (pos < i, us)) r r' h us1 = Inr (h', us')" "store_ok NX E es src dst h'"
    "length (st_inds h') = length (st_inds h)" "uses (2 * length es + 2 * length dst) us1 us'"
    using crossover_ok[OF assms, of "\<lambda>i us. (pos < i, us)" us1] by auto
  then show ?thesis using p uses_next'[OF u] by (auto simp: single_point_crossover_def)
qed

lemma uniform_crossover_ok:
  assumes "edges_ok E es" "store_ok NX E es src dst h" "r < length (st_inds h)" "r' < length (st_inds h)" "dst \<noteq> []" "src \<notin> set dst"
  shows "\<exists>h' us'. uniform_crossover ng r r' (h, us) = Inr (h', us') \<and> store_ok NX E es src dst h' \<and>
    length (st_inds h') = length (st_inds h) \<and> uses (2 * length es + 2 * length dst) us us'"
  using crossover_ok[OF assms, of "\<lambda>i us. case next_draw us of (u, us') \<Rightarrow> (u < 1 / 2, us')" us] uses_next[of 0]
  by (simp add: uniform_crossover_def case_prod_beta)

text \<open>A new individual, initialised.\<close>

lemma new_individual_ok:
  assumes E: "edges_ok E es" and ok: "store_ok NX E es src dst h" and dst: "dst \<noteq> []" "src \<notin> set dst"
    and n: "new_individual NX h = (h1, r)"
  shows "\<exists>h' us'. initialize ng (length es) es (Some src) dst r (h1, us) = Inr (h', us') \<and> store_ok NX E es src dst h' \<and>
    r = length (st_inds h) \<and> length (st_inds h') = Suc (length (st_inds h)) \<and> uses (length es + length dst) us us'"
proof -
  obtain bs us1 where b: "draw_bits (length es) us = (bs, us1)" by fastforce
  note bl = draw_bits_uses[OF b]
  have r: "r = length (st_inds h)" using n by (simp add: new_individual_def)
  define i where "i = \<lparr>i_src = Some src, i_dst = dst, i_edges = es, i_chrom = length (st_chroms h), i_graph = length (st_graphs h),
    i_paths = [], i_delay = 0, i_loss = 0, i_band = None, i_rank = 0, i_crowd = 0, i_ndom = 0, i_dominating = []\<rparr>"
  let ?h = "h\<lparr>st_inds := st_inds h @ [i], st_chroms := st_chroms h @ [bs], st_graphs := st_graphs h @ [nx_Graph NX]\<rparr>"
  have eq: "initialize ng (length es) es (Some src) dst r (h1, us) = ind_fitness_evaluate ng r (?h, us1)"
    using n by (cases h) (auto simp: initialize_def b Let_def new_individual_def upd_ind_def i_def)
  have "store_shape NX E es src dst ?h"
    using ok bl edge_empty by (fastforce simp: store_ok_def store_shape_def ind_shape_def i_def)
  moreover have "figures_ok (st_inds ?h ! k)" if "k < length (st_inds ?h)" "k \<noteq> r" for k
    using ok that by (auto simp: store_ok_def r nth_append)
  moreover have "r < length (st_inds ?h)" by (simp add: r)
  ultimately obtain h' us' where f: "ind_fitness_evaluate ng r (?h, us1) = Inr (h', us')" "store_ok NX E es src dst h'"
    "length (st_inds h') = length (st_inds ?h)" "uses (length dst) us1 us'"
    using ind_fitness_evaluate_ok[OF E _ _ _ dst, of ?h r us1] by blast
  then show ?thesis using eq r uses_trans[OF conjunct1[OF bl] f(4)] by auto
qed

lemma copy_individual_ok:
  assumes "store_ok NX E es src dst h" "r < length (st_inds h)" "copy_individual r h = (h', k)"
  shows "store_ok NX E es src dst h' \<and> k = length (st_inds h) \<and> length (st_inds h') = Suc (length (st_inds h))"
  using assms by (auto simp: copy_individual_def store_ok_def store_shape_def)

end

section \<open>The reference implementation\<close>

definition ref_node :: "edge_list \<Rightarrow> nat \<Rightarrow> bool" where
  "ref_node g x \<longleftrightarrow> (\<exists>(u, v, a) \<in> set g. x = u \<or> x = v)"

definition ref_graphs :: "edge_list nx_graphs" where
  "ref_graphs = \<lparr>ng_base = ref_networkx, ng_node = ref_node,
     ng_is_connected = (\<lambda>g. let ns = concat (map (\<lambda>(u, v, a). [u, v]) g) in \<forall>x \<in> set ns. \<forall>y \<in> set ns. ref_path g a_delay x y \<noteq> None)\<rparr>"

interpretation ref_gs: nx_graph_laws ref_graphs
proof (intro nx_graph_laws.intro nx_graph_laws_axioms.intro, goal_cases)
  case 1
  show ?case using ref.networkx_laws_axioms by (simp add: ref_graphs_def)
next
  case (2 x)
  show ?case by (simp add: ref_graphs_def ref_networkx_def ref_node_def)
next
  case (3 u v a g x)
  show ?case by (simp add: ref_graphs_def ref_networkx_def ref_node_def)
next
  case (4 g x y)
  have "x \<in> set (concat (map (\<lambda>(u, v, a). [u, v]) g))" "y \<in> set (concat (map (\<lambda>(u, v, a). [u, v]) g))"
    using 4(2,3) by (fastforce simp: ref_graphs_def ref_node_def)+
  moreover have "\<forall>x \<in> set (concat (map (\<lambda>(u, v, a). [u, v]) g)). \<forall>y \<in> set (concat (map (\<lambda>(u, v, a). [u, v]) g)). ref_path g a_delay x y \<noteq> None"
    using 4(1) by (simp add: ref_graphs_def Let_def)
  ultimately obtain p where "ref_path g a_delay x y = Some p" by blast
  from ref_path_Some(1)[OF this] show ?case by (auto simp: ref_graphs_def ref_networkx_def)
qed

end
