(* ===== verification/Pareto_Sort.thy ===== *)
theory Pareto_Sort
  imports Moea_Individual
begin

text \<open>
  The sorting functions of \<open>route_manage/route_algorithm/NSGA2.py\<close>: \<open>object_sort\<close>,
  \<open>fast_nondominate_sort\<close> and \<open>crowding_distance_sort\<close>. They work on lists of references to
  individuals; an individual may occur several times in a list. The figures \<open>delay\<close> and \<open>loss\<close> are
  only read.
\<close>

section \<open>Insertion sort\<close>

text \<open>
  The inner loop of \<open>object_sort\<close> for the element \<open>key\<close>, from position \<open>j - 1\<close> down to 0; \<open>gt x key\<close>
  is the comparison. It goes on to position 0 also when \<open>key\<close> has found its place.
\<close>

fun sink :: "('a \<Rightarrow> 'a \<Rightarrow> bool) \<Rightarrow> 'a \<Rightarrow> nat \<Rightarrow> 'a list \<Rightarrow> 'a list" where
  "sink gt key 0 xs = xs"
| "sink gt key (Suc j) xs = sink gt key j (if gt (xs ! j) key then xs[Suc j := xs ! j, j := key] else xs)"

definition object_sort :: "('a \<Rightarrow> 'a \<Rightarrow> bool) \<Rightarrow> 'a list \<Rightarrow> 'a list" where
  "object_sort gt xs = foldl (\<lambda>ys i. sink gt (ys ! i) i ys) xs [1..<length xs]"

abbreviation sort_delay :: "individual list \<Rightarrow> nat list \<Rightarrow> nat list" where
  "sort_delay inds \<equiv> object_sort (\<lambda>a b. i_delay (inds ! a) > i_delay (inds ! b))"

abbreviation sort_loss :: "individual list \<Rightarrow> nat list \<Rightarrow> nat list" where
  "sort_loss inds \<equiv> object_sort (\<lambda>a b. i_loss (inds ! a) > i_loss (inds ! b))"

abbreviation sort_crowd :: "individual list \<Rightarrow> nat list \<Rightarrow> nat list" where
  "sort_crowd inds \<equiv> object_sort (\<lambda>a b. i_crowd (inds ! a) < i_crowd (inds ! b))"

lemma sink_noop: "(\<And>k. k < j \<Longrightarrow> \<not> gt (xs ! k) key) \<Longrightarrow> sink gt key j xs = xs"
  by (induction j) auto

lemma sink_insert:
  fixes f :: "'a \<Rightarrow> 'b :: linorder"
  shows "sorted (map f ys) \<Longrightarrow> sink (\<lambda>a b. f a > f b) key (length ys) (ys @ key # zs) =
    filter (\<lambda>y. f y \<le> f key) ys @ key # filter (\<lambda>y. f y > f key) ys @ zs"
proof (induction ys arbitrary: zs rule: rev_induct)
  case (snoc y ys)
  have s: "sorted (map f ys)" "\<forall>x \<in> set ys. f x \<le> f y" using snoc.prems by (auto simp: sorted_append)
  have at: "(ys @ [y] @ key # zs) ! length ys = y" by simp
  show ?case
  proof (cases "f y > f key")
    case True
    have "(ys @ [y] @ key # zs)[Suc (length ys) := y, length ys := key] = ys @ key # y # zs"
      by (simp add: list_update_append)
    then show ?thesis using True snoc.IH[OF s(1), of "y # zs"] by (simp add: nth_append)
  next
    case False
    have "\<not> f ((ys @ y # key # zs) ! k) > f key" if "k < length ys" for k
      using s(2) False nth_mem[OF that] that by (fastforce simp: nth_append)
    then have "sink (\<lambda>a b. f a > f b) key (length ys) (ys @ y # key # zs) = ys @ y # key # zs" by (rule sink_noop)
    moreover have "filter (\<lambda>y. f y \<le> f key) ys = ys" "filter (\<lambda>y. f y > f key) ys = []"
      using s(2) False by (auto simp: filter_id_conv filter_empty_conv)
    ultimately show ?thesis using False by (simp add: nth_append)
  qed
qed simp

lemma sort_key_snoc:
  fixes f :: "'a \<Rightarrow> 'b :: linorder"
  shows "sort_key f (xs @ [x]) = filter (\<lambda>y. f y \<le> f x) (sort_key f xs) @ x # filter (\<lambda>y. f y > f x) (sort_key f xs)"
    (is "_ = ?ys")
proof (rule properties_for_sort_key)
  show "mset ?ys = mset (xs @ [x])"
    using multiset_partition[of "mset xs" "\<lambda>y. f y \<le> f x"] by (simp add: mset_filter not_le)
  show "sorted (map f ?ys)"
    using sorted_sort_key[of f xs] by (auto simp: sorted_append sorted_filter)
  fix k
  have st: "filter (\<lambda>y. f k = f y) (sort_key f xs) = filter (\<lambda>y. f k = f y) xs" using sort_key_stable[of f "f k" xs] by (simp add: eq_commute)
  have "filter (\<lambda>y. f y \<le> f x \<and> f k = f y) zs = (if f k \<le> f x then filter (\<lambda>y. f k = f y) zs else [])"
    "filter (\<lambda>y. f x < f y \<and> f k = f y) zs = (if f x < f k then filter (\<lambda>y. f k = f y) zs else [])" for zs
    by (auto intro!: filter_cong simp: filter_empty_conv)
  then show "filter (\<lambda>y. f k = f y) ?ys = filter (\<lambda>y. f k = f y) (xs @ [x])" using st by auto
qed

lemma object_sort_prefix:
  fixes f :: "'a \<Rightarrow> 'b :: linorder"
  shows "0 < n \<Longrightarrow> n \<le> length xs \<Longrightarrow>
    foldl (\<lambda>ys i. sink (\<lambda>a b. f a > f b) (ys ! i) i ys) xs [1..<n] = sort_key f (take n xs) @ drop n xs"
proof (induction n)
  case (Suc n)
  show ?case
  proof (cases "n = 0")
    case True
    then show ?thesis using Suc.prems by (cases xs) auto
  next
    case False
    let ?l = "sort_key f (take n xs)"
    have d: "drop n xs = xs ! n # drop (Suc n) xs" using Suc.prems by (simp add: Cons_nth_drop_Suc)
    have len: "length ?l = n" using Suc.prems by simp
    have "foldl (\<lambda>ys i. sink (\<lambda>a b. f a > f b) (ys ! i) i ys) xs [1..<Suc n] =
      sink (\<lambda>a b. f a > f b) ((?l @ xs ! n # drop (Suc n) xs) ! n) n (?l @ xs ! n # drop (Suc n) xs)"
      using Suc False by (simp add: d)
    also have "\<dots> = sink (\<lambda>a b. f a > f b) (xs ! n) (length ?l) (?l @ xs ! n # drop (Suc n) xs)"
      using len by (simp add: nth_append)
    also have "\<dots> = sort_key f (take n xs @ [xs ! n]) @ drop (Suc n) xs"
      using sink_insert[of f ?l "xs ! n" "drop (Suc n) xs"] by (simp add: sort_key_snoc)
    finally show ?thesis using Suc.prems by (simp add: take_Suc_conv_app_nth)
  qed
qed simp

lemma object_sort_sort_key:
  fixes f :: "'a \<Rightarrow> 'b :: linorder"
  shows "object_sort (\<lambda>a b. f a > f b) xs = sort_key f xs"
  using object_sort_prefix[of "length xs" xs f] by (cases xs) (auto simp: object_sort_def)

text \<open>
  C28. The insertion sort, which shifts through to the front of the list for every element, is a stable
  sort: for every key it computes what the library's \<open>sort_key\<close> computes, and in descending order for
  the comparison with the smaller sign.
\<close>

theorem object_sort_stable:
  fixes f g :: "'a \<Rightarrow> real"
  shows "object_sort (\<lambda>a b. f a > f b) xs = sort_key f xs \<and> object_sort (\<lambda>a b. g a < g b) xs = sort_key (\<lambda>x. - g x) xs"
  using object_sort_sort_key[of f xs] object_sort_sort_key[of "\<lambda>x. - g x" xs] by simp

lemma sort_delay_eq: "sort_delay inds rs = sort_key (\<lambda>r. i_delay (inds ! r)) rs"
  by (rule object_sort_sort_key)

lemma sort_loss_eq: "sort_loss inds rs = sort_key (\<lambda>r. i_loss (inds ! r)) rs"
  by (rule object_sort_sort_key)

lemma sort_crowd_eq: "sort_crowd inds rs = sort_key (\<lambda>r. - i_crowd (inds ! r)) rs"
  using object_sort_sort_key[of "\<lambda>r. - i_crowd (inds ! r)" rs] by simp

lemmas sort_eqs = sort_delay_eq sort_loss_eq sort_crowd_eq

section \<open>Non-dominated sorting\<close>

definition dominates :: "individual list \<Rightarrow> nat \<Rightarrow> nat \<Rightarrow> bool" where
  "dominates inds a b \<longleftrightarrow> is_better_than (inds ! a) (inds ! b)"

text \<open>The inner loop for one individual: whom it dominates, and how often it is dominated.\<close>

definition count_dominated :: "nat list \<Rightarrow> nat \<Rightarrow> individual list \<Rightarrow> individual list" where
  "count_dominated union_list r inds =
     inds[r := (inds ! r)\<lparr>
       i_dominating := i_dominating (inds ! r) @ filter (\<lambda>i. dominates inds r i) union_list,
       i_ndom := i_ndom (inds ! r) + int (length (filter (\<lambda>i. \<not> dominates inds r i \<and> dominates inds i r) union_list))\<rparr>]"

fun first_front :: "nat list \<Rightarrow> nat list \<Rightarrow> individual list \<Rightarrow> nat list \<Rightarrow> individual list \<times> nat list" where
  "first_front union_list [] inds front = (inds, front)"
| "first_front union_list (r # rs) inds front =
     (let inds1 = count_dominated union_list r inds
      in if i_ndom (inds1 ! r) = 0 then first_front union_list rs (inds1[r := (inds1 ! r)\<lparr>i_rank := 0\<rparr>]) (front @ [r])
         else first_front union_list rs inds1 front)"

definition release_one :: "individual list \<times> nat list \<Rightarrow> nat \<Rightarrow> individual list \<times> nat list" where
  "release_one s d =
     (case s of (inds, pareto_rank_set) \<Rightarrow>
        let i = (inds ! d)\<lparr>i_ndom := i_ndom (inds ! d) - 1\<rparr>
        in if i_ndom i = 0 then (inds[d := i\<lparr>i_rank := i_rank i + 1\<rparr>], pareto_rank_set @ [d])
           else (inds[d := i], pareto_rank_set))"

definition release :: "individual list \<Rightarrow> nat list \<Rightarrow> individual list \<times> nat list" where
  "release inds front = foldl release_one (inds, []) (concat (map (\<lambda>r. i_dominating (inds ! r)) front))"

partial_function (option) pareto_loop :: "individual list \<Rightarrow> nat list \<Rightarrow> (individual list \<times> nat list list) option" where
  [code]: "pareto_loop inds front =
     (if front = [] then Some (inds, [])
      else case release inds front of (inds1, pareto_rank_set) \<Rightarrow>
        if pareto_rank_set = [] then Some (inds1, [])
        else Option.bind (pareto_loop inds1 pareto_rank_set) (\<lambda>(inds2, rest). Some (inds2, pareto_rank_set # rest)))"

definition clear_all :: "nat list \<Rightarrow> individual list \<Rightarrow> individual list" where
  "clear_all rs inds = foldl (\<lambda>inds r. inds[r := clear_property (inds ! r)]) inds rs"

definition fast_nondominate_sort :: "nat list \<Rightarrow> individual list \<Rightarrow> (individual list \<times> nat list list) option" where
  "fast_nondominate_sort popList inds =
     (case first_front popList popList (clear_all popList inds) [] of (inds1, front) \<Rightarrow>
        Option.bind (pareto_loop inds1 front) (\<lambda>(inds2, rest). Some (inds2, front # rest)))"

section \<open>Crowding distance\<close>

definition crowd_pass :: "(individual \<Rightarrow> real) \<Rightarrow> real \<Rightarrow> nat list \<Rightarrow> individual list \<Rightarrow> individual list" where
  "crowd_pass fig spread rs inds =
     foldl (\<lambda>inds i. inds[rs ! i := (inds ! (rs ! i))\<lparr>i_crowd := i_crowd (inds ! (rs ! i)) +
         \<bar>fig (inds ! (rs ! Suc i)) - fig (inds ! (rs ! (i - 1)))\<bar> / spread\<rparr>])
       inds [1..<length rs - 1]"

definition set_crowd_inf :: "nat \<Rightarrow> individual list \<Rightarrow> individual list" where
  "set_crowd_inf r inds = inds[r := (inds ! r)\<lparr>i_crowd := MOEA_INF\<rparr>]"

definition crowd_front :: "nat list \<Rightarrow> individual list \<Rightarrow> pyerr + (individual list \<times> nat list)" where
  "crowd_front rs inds =
     (let fin = (\<lambda>inds' rs'. Inr (inds', sort_crowd inds' rs'))
      in if length rs = 0 then fin inds rs
         else if length rs = 1 then fin (set_crowd_inf (rs ! 0) inds) rs
         else if length rs = 2 then fin (set_crowd_inf (rs ! 1) (set_crowd_inf (rs ! 0) inds)) rs
         else
           let rs1 = sort_delay inds rs;
               min_delay = i_delay (inds ! (rs1 ! 0));
               max_delay = i_delay (inds ! (rs1 ! (length rs - 1)));
               max_delay = (if min_delay = max_delay then max_delay + min_delay else max_delay)
           in if max_delay - min_delay = 0 then Inl ZeroDivisionError
              else
                let inds1 = crowd_pass i_delay (max_delay - min_delay) rs1 inds;
                    rs2 = sort_loss inds1 rs1;
                    min_loss = i_loss (inds1 ! (rs2 ! 0));
                    max_loss = i_loss (inds1 ! (rs2 ! (length rs - 1)));
                    max_loss = (if min_loss = max_loss then max_loss + min_loss else max_loss);
                    (min_loss, max_loss) = (if min_loss = 0 \<or> max_loss = 0 then (1, 2) else (min_loss, max_loss))
                in if max_loss - min_loss = 0 then Inl ZeroDivisionError
                   else fin (crowd_pass i_loss (max_loss - min_loss) rs2 inds1) rs2)"

fun crowding_distance_sort :: "nat list list \<Rightarrow> individual list \<Rightarrow> pyerr + (individual list \<times> nat list list)" where
  "crowding_distance_sort [] inds = Inr (inds, [])"
| "crowding_distance_sort (rs # rss) inds =
     res_bind (crowd_front rs inds) (\<lambda>(inds1, rs').
     res_bind (crowding_distance_sort rss inds1) (\<lambda>(inds2, rss'). Inr (inds2, rs' # rss')))"

section \<open>What the sorting leaves alone\<close>

text \<open>Two stores of individuals with the same core differ in the attributes of the sorting only.\<close>

abbreviation same_core :: "individual list \<Rightarrow> individual list \<Rightarrow> bool" where
  "same_core inds inds' \<equiv> map clear_property inds' = map clear_property inds"

lemma clear_property_simps [simp]:
  "i_delay (clear_property i) = i_delay i" "i_loss (clear_property i) = i_loss i" "i_paths (clear_property i) = i_paths i"
  "clear_property (clear_property i) = clear_property i" "i_rank (clear_property i) = 0" "i_ndom (clear_property i) = 0"
  "i_dominating (clear_property i) = []" "clear_property (i\<lparr>i_rank := k\<rparr>) = clear_property i"
  "clear_property (i\<lparr>i_crowd := c\<rparr>) = clear_property i" "clear_property (i\<lparr>i_ndom := n\<rparr>) = clear_property i"
  "clear_property (i\<lparr>i_dominating := ds\<rparr>) = clear_property i"
  by (simp_all add: clear_property_def)

lemma same_core_update [simp]: "clear_property v = clear_property (inds ! r) \<Longrightarrow> same_core inds (inds[r := v])"
proof (cases "r < length inds")
  case True
  assume "clear_property v = clear_property (inds ! r)"
  then have "clear_property v = map clear_property inds ! r" using True by simp
  then show ?thesis by (simp add: map_update)
qed (simp add: list_update_beyond)

lemma same_core_length: "same_core inds inds' \<Longrightarrow> length inds' = length inds"
  by (metis length_map)

lemma same_core_nth: "same_core inds inds' \<Longrightarrow> k < length inds \<Longrightarrow> clear_property (inds' ! k) = clear_property (inds ! k)"
  by (metis length_map nth_map)

lemma same_core_figures:
  assumes "same_core inds inds'" "k < length inds"
  shows "i_delay (inds' ! k) = i_delay (inds ! k)" "i_loss (inds' ! k) = i_loss (inds ! k)" "i_paths (inds' ! k) = i_paths (inds ! k)"
  using same_core_nth[OF assms] by (metis clear_property_simps(1), metis clear_property_simps(2), metis clear_property_simps(3))

lemma same_core_dominates:
  assumes "same_core inds inds'" "a < length inds" "b < length inds"
  shows "dominates inds' a b = dominates inds a b"
  using same_core_figures[OF assms(1,2)] same_core_figures[OF assms(1,3)] by (simp add: dominates_def is_better_than_def)

lemma same_core_foldl:
  "(\<And>inds x. x \<in> set xs \<Longrightarrow> same_core inds (f inds x)) \<Longrightarrow> same_core inds (foldl f inds xs)"
  by (induction xs arbitrary: inds) auto

lemma clear_all_core: "same_core inds (clear_all rs inds)"
  unfolding clear_all_def by (rule same_core_foldl) simp

lemma clear_all_cleared:
  "\<forall>r \<in> set rs. r < length inds \<Longrightarrow> r \<in> set rs \<Longrightarrow> clear_all rs inds ! r = clear_property (inds ! r)"
proof (induction rs arbitrary: inds)
  case (Cons a rs)
  let ?inds = "inds[a := clear_property (inds ! a)]"
  have eq: "clear_all (a # rs) inds = clear_all rs ?inds" by (simp add: clear_all_def)
  have stay: "clear_all ss js ! r = js ! r" if "r \<notin> set ss" for ss js
    using that by (induction ss arbitrary: js) (auto simp: clear_all_def)
  show ?case
  proof (cases "r \<in> set rs")
    case True
    then show ?thesis using Cons eq by (cases "r = a") auto
  next
    case False
    then show ?thesis using Cons.prems eq stay by simp
  qed
qed simp

lemma dominates_asym: "dominates inds a b \<Longrightarrow> \<not> dominates inds b a"
  by (auto simp: dominates_def is_better_than_def split: if_splits)

lemma dominates_trans: "dominates inds a b \<Longrightarrow> dominates inds b c \<Longrightarrow> dominates inds a c"
  by (auto simp: dominates_def is_better_than_def split: if_splits)

section \<open>The first front\<close>

text \<open>
  After the entries \<open>P\<close> of the population \<open>U\<close> have been visited: an individual that occurs \<open>c\<close> times in
  \<open>P\<close> has counted its dominators and listed those it dominates \<open>c\<close> times.
\<close>

abbreviation dominators :: "(nat \<Rightarrow> nat \<Rightarrow> bool) \<Rightarrow> nat list \<Rightarrow> nat \<Rightarrow> nat" where
  "dominators B U r \<equiv> length (filter (\<lambda>i. B i r) U)"

definition counted :: "(nat \<Rightarrow> nat \<Rightarrow> bool) \<Rightarrow> nat list \<Rightarrow> nat list \<Rightarrow> individual list \<Rightarrow> bool" where
  "counted B U P inds \<longleftrightarrow>
     (\<forall>r \<in> set U. i_rank (inds ! r) = 0 \<and> i_ndom (inds ! r) = int (count_list P r * dominators B U r) \<and>
        set (i_dominating (inds ! r)) \<subseteq> set U \<and>
        (\<forall>x. count_list (i_dominating (inds ! r)) x = count_list P r * count_list (filter (B r) U) x))"

lemma first_front_ok:
  assumes U: "\<forall>r \<in> set U. r < length inds0"
  shows "same_core inds0 inds \<Longrightarrow> counted (dominates inds0) U P inds \<Longrightarrow> set T \<subseteq> set U \<Longrightarrow>
    first_front U T inds (filter (\<lambda>r. dominators (dominates inds0) U r = 0) P) = (inds', front) \<Longrightarrow>
    same_core inds0 inds' \<and> counted (dominates inds0) U (P @ T) inds' \<and> front = filter (\<lambda>r. dominators (dominates inds0) U r = 0) (P @ T)"
proof (induction T arbitrary: P inds)
  case (Cons r T)
  let ?B = "dominates inds0" and ?inds = "count_dominated U r inds"
  let ?n = "dominators ?B U r"
  have r: "r \<in> set U" "r < length inds" using Cons.prems U same_core_length[OF Cons.prems(1)] by auto
  have B: "dominates inds a b = ?B a b" if "a \<in> set U" "b \<in> set U" for a b
    using same_core_dominates[OF Cons.prems(1)] U that by auto
  have f: "filter (dominates inds r) U = filter (?B r) U" "filter (\<lambda>i. \<not> dominates inds r i \<and> dominates inds i r) U = filter (\<lambda>i. ?B i r) U"
    using B r(1) dominates_asym by (auto intro!: filter_cong)
  have eq: "?inds = inds[r := (inds ! r)\<lparr>i_dominating := i_dominating (inds ! r) @ filter (?B r) U, i_ndom := i_ndom (inds ! r) + int ?n\<rparr>]"
    by (simp add: count_dominated_def f)
  have nd: "i_ndom (?inds ! r) = int (Suc (count_list P r) * ?n)"
    using Cons.prems(2) r by (simp add: eq counted_def algebra_simps)
  have core: "same_core inds0 ?inds" using Cons.prems(1) by (simp add: eq)
  have cnt: "counted ?B U (P @ [r]) ?inds"
    using Cons.prems(2) r unfolding counted_def eq by (auto simp: nth_list_update algebra_simps)
  show ?case
  proof (cases "?n = 0")
    case True
    have "i_rank (?inds ! r) = 0" using cnt r by (simp add: counted_def)
    then have "(?inds ! r)\<lparr>i_rank := 0\<rparr> = ?inds ! r" by (cases "?inds ! r") simp
    then have "?inds[r := (?inds ! r)\<lparr>i_rank := 0\<rparr>] = ?inds" by simp
    then have "first_front U T ?inds (filter (\<lambda>r. dominators ?B U r = 0) (P @ [r])) = (inds', front)"
      using Cons.prems(4) nd True by (simp add: Let_def)
    then show ?thesis using Cons.IH[OF core cnt] Cons.prems(3) by simp
  next
    case False
    have "i_ndom (?inds ! r) \<noteq> 0" unfolding nd using False by (simp only: of_nat_eq_0_iff mult_is_0) simp
    then have "first_front U T ?inds (filter (\<lambda>r. dominators ?B U r = 0) (P @ [r])) = (inds', front)"
      using Cons.prems(4) False by (simp add: Let_def)
    then show ?thesis using Cons.IH[OF core cnt] Cons.prems(3) by simp
  qed
qed simp

section \<open>The later fronts\<close>

lemma count_list_filter: "count_list (filter P xs) x = (if P x then count_list xs x else 0)"
  by (induction xs) auto

text \<open>
  A run of decrements: an individual is released when its counter reaches 0, which happens once if the
  counter starts above 0 and is decremented often enough, and never otherwise.
\<close>

lemma release_foldl:
  assumes "\<forall>d \<in> set ds. d < length inds" "foldl release_one (inds, nxt) ds = (inds', nxt')"
  shows "same_core inds inds' \<and>
    (\<forall>k < length inds. i_ndom (inds' ! k) = i_ndom (inds ! k) - int (count_list ds k) \<and> i_dominating (inds' ! k) = i_dominating (inds ! k)) \<and>
    (\<exists>new. nxt' = nxt @ new \<and> distinct new \<and> set new = {k \<in> set ds. 0 < i_ndom (inds ! k) \<and> i_ndom (inds ! k) \<le> int (count_list ds k)} \<and>
      (\<forall>k < length inds. i_rank (inds' ! k) = i_rank (inds ! k) + (if k \<in> set new then 1 else 0)))"
  using assms
proof (induction ds arbitrary: inds nxt)
  case (Cons d ds)
  let ?i = "(inds ! d)\<lparr>i_ndom := i_ndom (inds ! d) - 1\<rparr>"
  define z where "z \<longleftrightarrow> i_ndom (inds ! d) = 1"
  define inds1 where "inds1 = inds[d := if z then ?i\<lparr>i_rank := i_rank (inds ! d) + 1\<rparr> else ?i]"
  have d: "d < length inds" using Cons.prems(1) by simp
  have len: "length inds1 = length inds" by (simp add: inds1_def)
  have step: "release_one (inds, nxt) d = (inds1, nxt @ (if z then [d] else []))"
    by (simp add: release_one_def inds1_def Let_def z_def)
  have core: "same_core inds inds1" by (simp add: inds1_def)
  have i1: "i_ndom (inds1 ! k) = i_ndom (inds ! k) - (if k = d then 1 else 0) \<and> i_dominating (inds1 ! k) = i_dominating (inds ! k) \<and>
      i_rank (inds1 ! k) = i_rank (inds ! k) + (if k = d \<and> z then 1 else 0)" if "k < length inds" for k
    using that by (simp add: inds1_def nth_list_update)
  have "foldl release_one (inds1, nxt @ (if z then [d] else [])) ds = (inds', nxt')" using Cons.prems(2) step by simp
  from Cons.IH[OF _ this] Cons.prems(1) len have IH: "same_core inds1 inds'"
    "\<forall>k < length inds. i_ndom (inds' ! k) = i_ndom (inds1 ! k) - int (count_list ds k) \<and> i_dominating (inds' ! k) = i_dominating (inds1 ! k)"
    "\<exists>new. nxt' = (nxt @ (if z then [d] else [])) @ new \<and> distinct new \<and> set new = {k \<in> set ds. 0 < i_ndom (inds1 ! k) \<and> i_ndom (inds1 ! k) \<le> int (count_list ds k)} \<and>
      (\<forall>k < length inds. i_rank (inds' ! k) = i_rank (inds1 ! k) + (if k \<in> set new then 1 else 0))" by simp_all
  then obtain new where new: "nxt' = nxt @ (if z then [d] else []) @ new" "distinct new"
    "set new = {k \<in> set ds. 0 < i_ndom (inds1 ! k) \<and> i_ndom (inds1 ! k) \<le> int (count_list ds k)}"
    "\<forall>k < length inds. i_rank (inds' ! k) = i_rank (inds1 ! k) + (if k \<in> set new then 1 else 0)" by auto
  let ?new = "(if z then [d] else []) @ new"
  have dnew: "z \<Longrightarrow> d \<notin> set new" using new(3) i1[OF d] by (simp add: z_def)
  have pos: "0 < count_list ds k" if "k \<in> set ds" for k using that count_list_0_iff[of ds k] by simp
  have "k \<in> set ?new \<longleftrightarrow> k \<in> set (d # ds) \<and> 0 < i_ndom (inds ! k) \<and> i_ndom (inds ! k) \<le> int (count_list (d # ds) k)" for k
  proof (cases "k = d")
    case True
    have "d \<in> set ds \<longleftrightarrow> count_list ds d \<noteq> 0" using count_list_0_iff[of ds d] by simp
    moreover have "d \<in> set new \<longleftrightarrow> d \<in> set ds \<and> 0 < i_ndom (inds ! d) - 1 \<and> i_ndom (inds ! d) - 1 \<le> int (count_list ds d)"
      using i1[OF d] by (simp add: new(3))
    moreover have "d \<in> set ?new \<longleftrightarrow> i_ndom (inds ! d) = 1 \<or> d \<in> set new" by (simp add: z_def)
    moreover have "int (count_list (d # ds) d) = int (count_list ds d) + 1" by simp
    ultimately show ?thesis unfolding True by (cases "d \<in> set ds") (simp_all, linarith+)
  next
    case False
    then have "k \<in> set new \<longleftrightarrow> k \<in> set ds \<and> 0 < i_ndom (inds ! k) \<and> i_ndom (inds ! k) \<le> int (count_list ds k)"
      using new(3) i1[of k] Cons.prems(1) by auto
    then show ?thesis using False by auto
  qed
  then have "set ?new = {k \<in> set (d # ds). 0 < i_ndom (inds ! k) \<and> i_ndom (inds ! k) \<le> int (count_list (d # ds) k)}" by blast
  moreover have "distinct ?new" using new(2) dnew by auto
  moreover have "\<forall>k < length inds. i_rank (inds' ! k) = i_rank (inds ! k) + (if k \<in> set ?new then 1 else 0)" using new(4) i1 dnew by auto
  ultimately have "\<exists>new. nxt' = nxt @ new \<and> distinct new \<and> set new = {k \<in> set (d # ds). 0 < i_ndom (inds ! k) \<and> i_ndom (inds ! k) \<le> int (count_list (d # ds) k)} \<and>
      (\<forall>k < length inds. i_rank (inds' ! k) = i_rank (inds ! k) + (if k \<in> set new then 1 else 0))"
    using new(1) by (intro exI[of _ ?new]) simp
  moreover have "same_core inds inds'" using core IH(1) by simp
  moreover have "\<forall>k < length inds. i_ndom (inds' ! k) = i_ndom (inds ! k) - int (count_list (d # ds) k) \<and> i_dominating (inds' ! k) = i_dominating (inds ! k)"
    using IH(2) i1 by auto
  ultimately show ?case by blast
qed simp

text \<open>
  The fronts after the first: an individual comes into the front after \<open>P @ F\<close> when the decrements
  that the individuals of \<open>P @ F\<close> cause reach its counter \<open>N\<close>, and those of \<open>P\<close> alone did not.
\<close>

definition reached :: "(nat \<Rightarrow> nat) \<Rightarrow> (nat \<Rightarrow> nat list) \<Rightarrow> nat list \<Rightarrow> nat list \<Rightarrow> nat set" where
  "reached N dl U P = {x \<in> set U. N x \<le> count_list (concat (map dl P)) x}"

fun front_chain :: "(nat \<Rightarrow> nat) \<Rightarrow> (nat \<Rightarrow> nat list) \<Rightarrow> nat list \<Rightarrow> nat list \<Rightarrow> nat list \<Rightarrow> nat list list \<Rightarrow> bool" where
  "front_chain N dl U P F [] \<longleftrightarrow> reached N dl U (P @ F) = set (P @ F)"
| "front_chain N dl U P F (G # rest) \<longleftrightarrow>
     distinct G \<and> set G = reached N dl U (P @ F) - set (P @ F) \<and> front_chain N dl U (P @ F) G rest"

lemma reached_mono: "reached N dl U P \<subseteq> reached N dl U (P @ F)"
  by (auto simp: reached_def)

lemma front_chain_disjoint: "front_chain N dl U P F rest \<Longrightarrow> x \<in> set (P @ F) \<Longrightarrow> x \<notin> set (concat rest)"
proof (induction rest arbitrary: P F)
  case (Cons G rest)
  then show ?case using Cons.IH[of "P @ F" G] by auto
qed simp

lemma pareto_loop_ok:
  assumes U: "\<forall>r \<in> set U. r < length inds" and dl: "\<forall>r \<in> set U. i_dominating (inds ! r) = dl r \<and> set (dl r) \<subseteq> set U"
    and nd: "\<forall>x \<in> set U. i_ndom (inds ! x) = int (N x) - int (count_list (concat (map dl P)) x)"
    and mem: "set (P @ F) = reached N dl U P"
  shows "\<exists>inds' rest. pareto_loop inds F = Some (inds', rest) \<and> same_core inds inds' \<and> (F \<noteq> [] \<longrightarrow> front_chain N dl U P F rest) \<and>
    (F = [] \<longrightarrow> rest = []) \<and> (\<forall>x \<in> set U. i_rank (inds' ! x) = i_rank (inds ! x) + (if x \<in> set (concat rest) then 1 else 0))"
  using assms
proof (induction "card (set U - set (P @ F))" arbitrary: inds P F rule: less_induct)
  case less
  show ?case
  proof (cases "F = []")
    case True
    then show ?thesis by (subst pareto_loop.simps) simp
  next
    case False
    let ?ds = "concat (map dl F)"
    have FU: "set F \<subseteq> set U" using less.prems(4) by (auto simp: reached_def)
    have ds: "concat (map (\<lambda>r. i_dominating (inds ! r)) F) = ?ds" using less.prems(2) FU by (auto intro!: arg_cong[where f = concat] map_cong)
    have dsU: "set ?ds \<subseteq> set U" using less.prems(2) FU by auto
    obtain inds1 G where rel: "release inds F = (inds1, G)" by fastforce
    have "foldl release_one (inds, []) ?ds = (inds1, G)" using rel by (simp add: release_def ds)
    note rf = release_foldl[OF _ this]
    have dsl: "\<forall>d \<in> set ?ds. d < length inds" using dsU less.prems(1) by blast
    have core: "same_core inds inds1" using rf[OF dsl] by (rule conjunct1)
    have nd1: "\<forall>k < length inds. i_ndom (inds1 ! k) = i_ndom (inds ! k) - int (count_list ?ds k) \<and> i_dominating (inds1 ! k) = i_dominating (inds ! k)"
      using rf[OF dsl] by (rule conjunct1[OF conjunct2])
    have G: "distinct G" "set G = {k \<in> set ?ds. 0 < i_ndom (inds ! k) \<and> i_ndom (inds ! k) \<le> int (count_list ?ds k)}"
      and rk: "\<forall>k < length inds. i_rank (inds1 ! k) = i_rank (inds ! k) + (if k \<in> set G then 1 else 0)" using conjunct2[OF conjunct2[OF rf[OF dsl]]] by auto
    have GU: "set G \<subseteq> set U" using G(2) dsU by blast
    have new: "set G = reached N dl U (P @ F) - set (P @ F)"
    proof -
      have "x \<in> set ?ds \<and> 0 < i_ndom (inds ! x) \<and> i_ndom (inds ! x) \<le> int (count_list ?ds x) \<longleftrightarrow>
        x \<in> reached N dl U (P @ F) \<and> x \<notin> reached N dl U P" if "x \<in> set U" for x
        using less.prems(3) that count_list_0_iff[of ?ds x] by (auto simp: reached_def)
      then show ?thesis unfolding G(2) less.prems(4) using dsU by (auto simp: reached_def)
    qed
    have len: "length inds1 = length inds" by (rule same_core_length[OF core])
    show ?thesis
    proof (cases "G = []")
      case True
      have "reached N dl U (P @ F) = set (P @ F)" using new True reached_mono[of N dl U P F] less.prems(4) by auto
      moreover have "pareto_loop inds F = Some (inds1, [])" by (subst pareto_loop.simps) (simp add: rel True False)
      ultimately show ?thesis using core rk True less.prems(1) False by auto
    next
      case nempty: False
      let ?P = "P @ F"
      have c: "card (set U - set (?P @ G)) < card (set U - set (P @ F))"
      proof (rule psubset_card_mono)
        obtain g where g: "g \<in> set G" using nempty by (cases G) auto
        then have "g \<in> set U" "g \<notin> set (P @ F)" using GU new by auto
        then show "set U - set (?P @ G) \<subset> set U - set (P @ F)" using g by auto
      qed simp
      have p1: "\<forall>r \<in> set U. r < length inds1" "\<forall>r \<in> set U. i_dominating (inds1 ! r) = dl r \<and> set (dl r) \<subseteq> set U"
        using less.prems(1,2) len nd1 by auto
      have p2: "\<forall>x \<in> set U. i_ndom (inds1 ! x) = int (N x) - int (count_list (concat (map dl ?P)) x)"
        using less.prems(1,3) nd1 by auto
      have p3: "set (?P @ G) = reached N dl U ?P" using new reached_mono[of N dl U P F] less.prems(4) by auto
      from less.hyps[OF c p1 p2 p3] nempty obtain inds' rest where r: "pareto_loop inds1 G = Some (inds', rest)" "same_core inds1 inds'"
        "front_chain N dl U ?P G rest" "\<forall>x \<in> set U. i_rank (inds' ! x) = i_rank (inds1 ! x) + (if x \<in> set (concat rest) then 1 else 0)" by blast
      have disj: "x \<notin> set (concat rest)" if "x \<in> set G" for x by (rule front_chain_disjoint[OF r(3)]) (simp add: that)
      have "pareto_loop inds F = Some (inds', G # rest)" by (subst pareto_loop.simps) (simp add: rel r(1) nempty False)
      moreover have "front_chain N dl U P F (G # rest)" using r(3) G(1) new by simp
      moreover have "\<forall>x \<in> set U. i_rank (inds' ! x) = i_rank (inds ! x) + (if x \<in> set (concat (G # rest)) then 1 else 0)"
      proof
        fix x assume x: "x \<in> set U"
        then have "i_rank (inds1 ! x) = i_rank (inds ! x) + (if x \<in> set G then 1 else 0)" using rk less.prems(1) by blast
        then show "i_rank (inds' ! x) = i_rank (inds ! x) + (if x \<in> set (concat (G # rest)) then 1 else 0)"
          using bspec[OF r(4) x] disj[of x] by (cases "x \<in> set G") simp_all
      qed
      ultimately show ?thesis using core r(2) False by auto
    qed
  qed
qed

section \<open>All individuals are ranked\<close>

text \<open>The counters and the lists of dominated individuals after the first pass over the population \<open>U\<close>.\<close>

definition pareto_counts :: "(nat \<Rightarrow> nat \<Rightarrow> bool) \<Rightarrow> nat list \<Rightarrow> (nat \<Rightarrow> nat) \<Rightarrow> (nat \<Rightarrow> nat list) \<Rightarrow> bool" where
  "pareto_counts B U N dl \<longleftrightarrow>
     (\<forall>r \<in> set U. N r = count_list U r * dominators B U r \<and> set (dl r) \<subseteq> set U \<and>
        (\<forall>x. count_list (dl r) x = count_list U r * count_list (filter (B r) U) x))"

lemma dominators_sum: "dominators B U x = (\<Sum>r | r \<in> set U \<and> B r x. count_list U r)"
proof -
  have "dominators B U x = sum (count_list (filter (\<lambda>i. B i x) U)) {r. r \<in> set U \<and> B r x}"
    by (rule sum_count_set[symmetric]) auto
  also have "\<dots> = (\<Sum>r | r \<in> set U \<and> B r x. count_list U r)" by (rule sum.cong) (auto simp: count_list_filter)
  finally show ?thesis .
qed

lemma count_concat: "count_list (concat (map dl P)) x = (\<Sum>r \<leftarrow> P. count_list (dl r) x)"
  by (induction P) simp_all

lemma counts_reached:
  assumes c: "pareto_counts B U N dl" and Q: "set Q \<subseteq> set U" and x: "x \<in> set U" and doms: "\<And>y. y \<in> set U \<Longrightarrow> B y x \<Longrightarrow> y \<in> set Q"
  shows "x \<in> reached N dl U Q"
proof -
  have "N x = (\<Sum>r | r \<in> set U \<and> B r x. count_list U x * count_list U r)"
    using c x by (simp add: pareto_counts_def dominators_sum sum_distrib_left)
  also have "\<dots> = (\<Sum>r | r \<in> set U \<and> B r x. count_list (dl r) x)"
    by (rule sum.cong) (use c in \<open>auto simp: pareto_counts_def count_list_filter\<close>)
  also have "\<dots> \<le> (\<Sum>r \<in> set Q. count_list (dl r) x)" by (rule sum_mono2) (use doms in auto)
  also have "\<dots> \<le> (\<Sum>r \<in> set Q. count_list Q r * count_list (dl r) x)"
  proof (rule sum_mono)
    fix r assume "r \<in> set Q"
    then have "1 \<le> count_list Q r" using count_list_0_iff[of Q r] by (cases "count_list Q r") auto
    then show "count_list (dl r) x \<le> count_list Q r * count_list (dl r) x" by simp
  qed
  also have "\<dots> = count_list (concat (map dl Q)) x" by (simp add: count_concat sum_list_map_eq_sum_count)
  finally show ?thesis using x by (simp add: reached_def)
qed

lemma minimal_exists:
  assumes "finite S" "S \<noteq> {}" and B: "\<And>x. \<not> B x x" "\<And>x y z. B x y \<Longrightarrow> B y z \<Longrightarrow> B x z"
  shows "\<exists>x \<in> S. \<forall>y \<in> S. \<not> B y x"
proof -
  let ?r = "{(a, b). a \<in> S \<and> b \<in> S \<and> B a b}"
  obtain x0 where x0: "x0 \<in> S" using assms(2) by blast
  have "finite ?r" by (rule finite_subset[of _ "S \<times> S"]) (use assms(1) in auto)
  moreover have "trans ?r" using B(2) unfolding trans_def by blast
  then have "acyclic ?r" using B(1) by (simp add: acyclic_irrefl irrefl_def)
  ultimately have "wf ?r" by (rule finite_acyclic_wf)
  then obtain x where x: "x \<in> S" "\<And>y. (y, x) \<in> ?r \<Longrightarrow> y \<notin> S" using x0 by (rule wfE_min) blast
  have "\<not> B y x" if "y \<in> S" for y using x(1) x(2)[of y] that by auto
  then show ?thesis using x(1) by blast
qed

lemma nondominated_exists: "U \<noteq> [] \<Longrightarrow> filter (\<lambda>r. dominators (dominates inds) U r = 0) U \<noteq> []"
proof -
  assume ne: "U \<noteq> []"
  have irr: "\<not> dominates inds x x" for x using dominates_asym by blast
  have "\<exists>x \<in> set U. \<forall>y \<in> set U. \<not> dominates inds y x"
    by (rule minimal_exists) (simp, use ne in simp, rule irr, rule dominates_trans)
  then show ?thesis by (auto simp: filter_empty_conv)
qed

lemma front_chain_covers:
  assumes c: "pareto_counts B U N dl" and B: "\<And>x. \<not> B x x" "\<And>x y z. B x y \<Longrightarrow> B y z \<Longrightarrow> B x z"
  shows "front_chain N dl U P F rest \<Longrightarrow> set (P @ F) \<subseteq> set U \<Longrightarrow> set (P @ F @ concat rest) = set U"
proof (induction rest arbitrary: P F)
  case Nil
  show ?case
  proof (rule ccontr)
    let ?X = "set U - set (P @ F)"
    assume "set (P @ F @ concat []) \<noteq> set U"
    then have ne: "?X \<noteq> {}" using Nil.prems by auto
    have "\<exists>x \<in> ?X. \<forall>y \<in> ?X. \<not> B y x" by (rule minimal_exists) (simp, rule ne, rule B(1), rule B(2))
    then obtain x where x: "x \<in> ?X" "\<And>y. y \<in> ?X \<Longrightarrow> \<not> B y x" by blast
    have "x \<in> reached N dl U (P @ F)"
    proof (rule counts_reached[OF c Nil.prems(2)])
      show "x \<in> set U" using x(1) by blast
      show "y \<in> set (P @ F)" if "y \<in> set U" "B y x" for y using x(2)[of y] that by blast
    qed
    then show False using Nil.prems(1) x(1) by auto
  qed
next
  case (Cons G rest)
  have G: "set G \<subseteq> set U" "front_chain N dl U (P @ F) G rest" using Cons.prems by (auto simp: reached_def)
  show ?case using Cons.IH[OF G(2)] G(1) Cons.prems(2) by auto
qed

text \<open>
  The whole sort, for a population in which individuals may occur several times.
\<close>

lemma fast_nondominate_sort_ok:
  assumes U: "\<forall>r \<in> set U. r < length inds"
  shows "\<exists>inds' rest N dl. fast_nondominate_sort U inds = Some (inds', filter (\<lambda>r. dominators (dominates inds) U r = 0) U # rest) \<and>
    same_core inds inds' \<and> pareto_counts (dominates inds) U N dl \<and>
    (U \<noteq> [] \<longrightarrow> front_chain N dl U [] (filter (\<lambda>r. dominators (dominates inds) U r = 0) U) rest) \<and> (U = [] \<longrightarrow> rest = []) \<and>
    (\<forall>x \<in> set U. i_rank (inds' ! x) = (if x \<in> set (concat rest) then 1 else 0))"
proof -
  let ?B = "dominates inds" and ?i0 = "clear_all U inds" and ?F = "filter (\<lambda>r. dominators (dominates inds) U r = 0) U"
  have core0: "same_core inds ?i0" by (rule clear_all_core)
  have c0: "counted ?B U [] ?i0" using clear_all_cleared[OF U] by (simp add: counted_def)
  obtain inds1 front where f: "first_front U U ?i0 [] = (inds1, front)" by fastforce
  have ff: "first_front U U ?i0 (filter (\<lambda>r. dominators ?B U r = 0) []) = (inds1, front)" using f by simp
  have r1: "same_core inds inds1" "counted ?B U U inds1" "front = ?F"
    using first_front_ok[OF U core0 c0 subset_refl ff] by simp_all
  define N where "N = (\<lambda>r. count_list U r * dominators ?B U r)"
  define dl where "dl = (\<lambda>r. i_dominating (inds1 ! r))"
  have pc: "pareto_counts ?B U N dl" using r1(2) by (simp add: pareto_counts_def counted_def N_def dl_def)
  have len: "\<forall>r \<in> set U. r < length inds1" using U same_core_length[OF r1(1)] by simp
  have p2: "\<forall>r \<in> set U. i_dominating (inds1 ! r) = dl r \<and> set (dl r) \<subseteq> set U" using pc by (simp add: pareto_counts_def dl_def)
  have p3: "\<forall>x \<in> set U. i_ndom (inds1 ! x) = int (N x) - int (count_list (concat (map dl [])) x)" using r1(2) by (simp add: counted_def N_def)
  have p4: "set ([] @ ?F) = reached N dl U []" using count_list_0_iff[of U] by (auto simp: reached_def N_def)
  from pareto_loop_ok[OF len p2 p3 p4] obtain inds' rest where r: "pareto_loop inds1 ?F = Some (inds', rest)" "same_core inds1 inds'"
    "?F \<noteq> [] \<longrightarrow> front_chain N dl U [] ?F rest" "?F = [] \<longrightarrow> rest = []"
    "\<forall>x \<in> set U. i_rank (inds' ! x) = i_rank (inds1 ! x) + (if x \<in> set (concat rest) then 1 else 0)" by blast
  have "U \<noteq> [] \<longrightarrow> front_chain N dl U [] ?F rest" using r(3) nondominated_exists by blast
  moreover have "fast_nondominate_sort U inds = Some (inds', ?F # rest)" using f r1(3) r(1) by (simp add: fast_nondominate_sort_def)
  moreover have "\<forall>x \<in> set U. i_rank (inds' ! x) = (if x \<in> set (concat rest) then 1 else 0)" using r(5) r1(2) by (simp add: counted_def)
  ultimately show ?thesis using r1(1) r(2,4) pc by (intro exI[of _ inds'] exI[of _ rest] exI[of _ N] exI[of _ dl]) simp
qed

section \<open>The layers of a population without repetition\<close>

text \<open>
  The specification of non-dominated sorting: the first front has the elements that nothing dominates,
  and the other fronts are the layers of the rest.
\<close>

fun pareto_layers :: "(nat \<Rightarrow> nat \<Rightarrow> bool) \<Rightarrow> nat set \<Rightarrow> nat list list \<Rightarrow> bool" where
  "pareto_layers B S [] \<longleftrightarrow> S = {}"
| "pareto_layers B S (F # Fs) \<longleftrightarrow> distinct F \<and> set F = {x \<in> S. \<forall>y \<in> S. \<not> B y x} \<and> pareto_layers B (S - set F) Fs"

lemma distinct_reached:
  assumes c: "pareto_counts B U N dl" and d: "distinct U" "distinct Q" "set Q \<subseteq> set U"
  shows "reached N dl U Q = {x \<in> set U. \<forall>y \<in> set U. B y x \<longrightarrow> y \<in> set Q}"
proof -
  have one: "count_list U r = 1" if "r \<in> set U" for r using d(1) that by (simp add: count_list_eq_length_filter distinct_length_filter)
  have "N x \<le> count_list (concat (map dl Q)) x \<longleftrightarrow> {y \<in> set U. B y x} \<subseteq> {y \<in> set Q. B y x}" if x: "x \<in> set U" for x
  proof -
    have "N x = card {y \<in> set U. B y x}" using c one[OF x] by (simp add: pareto_counts_def x dominators_sum one)
    moreover have "count_list (concat (map dl Q)) x = (\<Sum>r \<in> set Q. count_list (dl r) x)"
      by (simp add: count_concat sum_list_distinct_conv_sum_set d(2))
    moreover have "\<dots> = (\<Sum>r \<in> set Q. if B r x then 1 else 0)"
      by (rule sum.cong) (use c d(3) one x in \<open>auto simp: pareto_counts_def count_list_filter\<close>)
    moreover have "\<dots> = card {y \<in> set Q. B y x}" by (simp add: sum.If_cases Int_def)
    ultimately have e: "N x = card {y \<in> set U. B y x}" "count_list (concat (map dl Q)) x = card {y \<in> set Q. B y x}" by simp_all
    have s: "{y \<in> set Q. B y x} \<subseteq> {y \<in> set U. B y x}" using d(3) by blast
    show ?thesis unfolding e using card_seteq[OF _ s] card_mono[of "{y \<in> set Q. B y x}" "{y \<in> set U. B y x}"] by auto
  qed
  then show ?thesis by (auto simp: reached_def)
qed

lemma front_chain_layers:
  assumes c: "pareto_counts B U N dl" and B: "\<And>x. \<not> B x x" "\<And>x y z. B x y \<Longrightarrow> B y z \<Longrightarrow> B x z" and d: "distinct U"
  shows "front_chain N dl U P F rest \<Longrightarrow> distinct (P @ F) \<Longrightarrow> set (P @ F) \<subseteq> set U \<Longrightarrow> pareto_layers B (set U - set (P @ F)) rest"
proof (induction rest arbitrary: P F)
  case Nil
  show ?case using front_chain_covers[OF c B Nil.prems(1,3)] by auto
next
  case (Cons G rest)
  let ?S = "set U - set (P @ F)"
  have G: "distinct G" "set G = reached N dl U (P @ F) - set (P @ F)" "front_chain N dl U (P @ F) G rest" using Cons.prems by auto
  have "set G = {x \<in> ?S. \<forall>y \<in> ?S. \<not> B y x}" unfolding G(2) distinct_reached[OF c d Cons.prems(2,3)] by auto
  moreover have "pareto_layers B (set U - set ((P @ F) @ G)) rest"
    by (rule Cons.IH[OF G(3)]) (use Cons.prems G(1,2) in \<open>auto simp: reached_def\<close>)
  moreover have "set U - set ((P @ F) @ G) = ?S - set G" by auto
  ultimately show ?case using G(1) by simp
qed

lemma front_chain_distinct: "front_chain N dl U P F rest \<Longrightarrow> distinct (concat rest)"
proof (induction rest arbitrary: P F)
  case (Cons G rest)
  have G: "distinct G" "front_chain N dl U (P @ F) G rest" using Cons.prems by auto
  have "x \<notin> set (concat rest)" if "x \<in> set G" for x by (rule front_chain_disjoint[OF G(2)]) (simp add: that)
  then show ?case using G(1) Cons.IH[OF G(2)] by auto
qed simp

text \<open>
  C9. The sort of the multicast algorithm ends for every population, also one with repetitions: the first list has
  exactly the entries that no individual of the population is better than in delay and loss, every
  other individual is in one of the later lists, once, and the number stored as the rank is 0 for the first list and 1
  for all others, however many there are. For a population without repetition the lists are the layers
  of the dominance relation: the second one has the individuals that only those of the first are better than, and so on. With
  repetitions they need not be: the first call of the program, where the two populations it sorts are the
  same, has them always, and in the witness it puts two individuals into one list of which one is better
  than the other.
\<close>

theorem fast_nondominate_sort_layers:
  assumes "\<forall>r \<in> set U. r < length inds"
  shows "\<exists>inds' front rest. fast_nondominate_sort U inds = Some (inds', front # rest) \<and>
    front = filter (\<lambda>x. \<forall>y \<in> set U. \<not> dominates inds y x) U \<and>
    distinct (concat rest) \<and> set (concat rest) = set U - set front \<and>
    (\<forall>x \<in> set front. i_rank (inds' ! x) = 0) \<and> (\<forall>x \<in> set (concat rest). i_rank (inds' ! x) = 1) \<and>
    (distinct U \<longrightarrow> pareto_layers (dominates inds) (set U) (front # rest))"
proof -
  let ?B = "dominates inds" and ?F = "filter (\<lambda>r. dominators (dominates inds) U r = 0) U"
  obtain inds' rest N dl where f: "fast_nondominate_sort U inds = Some (inds', ?F # rest)" "pareto_counts ?B U N dl"
    "U \<noteq> [] \<longrightarrow> front_chain N dl U [] ?F rest" "U = [] \<longrightarrow> rest = []" "\<forall>x \<in> set U. i_rank (inds' ! x) = (if x \<in> set (concat rest) then 1 else 0)"
    using fast_nondominate_sort_ok[OF assms] by blast
  have irr: "\<not> ?B x x" for x using dominates_asym by blast
  have F: "?F = filter (\<lambda>x. \<forall>y \<in> set U. \<not> ?B y x) U" by (auto simp: filter_empty_conv intro!: filter_cong)
  have rest: "distinct (concat rest) \<and> set (concat rest) = set U - set ?F"
  proof (cases "U = []")
    case False
    then have c: "front_chain N dl U [] ?F rest" using f(3) by blast
    have "set ([] @ ?F @ concat rest) = set U"
      by (rule front_chain_covers[OF f(2) irr _ c]) (erule dominates_trans, assumption, auto)
    then have cover: "set ?F \<union> set (concat rest) = set U" by (simp only: append_Nil set_append)
    have disj: "\<forall>x \<in> set ?F. x \<notin> set (concat rest)" using front_chain_disjoint[OF c] by (simp only: append_Nil) blast
    have "A \<union> B = C \<Longrightarrow> \<forall>x \<in> A. x \<notin> B \<Longrightarrow> B = C - A" for A B C :: "nat set" by blast
    from this[OF cover disj] show ?thesis using front_chain_distinct[OF c] by (rule conjI[rotated])
  qed (use f(4) in simp)
  have "pareto_layers ?B (set U) (?F # rest)" if d: "distinct U"
  proof -
    have "pareto_layers ?B (set U - set ?F) rest"
    proof (cases "U = []")
      case False
      have "pareto_layers ?B (set U - set ([] @ ?F)) rest"
        by (rule front_chain_layers[OF f(2) irr _ d]) (use f(3) False d dominates_trans in \<open>blast | simp\<close>)+
      then show ?thesis by simp
    qed (use f(4) in simp)
    moreover have "set ?F = {x \<in> set U. \<forall>y \<in> set U. \<not> ?B y x}" unfolding F by auto
    ultimately show ?thesis using d by simp
  qed
  moreover have "\<forall>x \<in> set ?F. i_rank (inds' ! x) = 0" "\<forall>x \<in> set (concat rest). i_rank (inds' ! x) = 1"
  proof -
    have g: "(\<forall>x \<in> A. g x = 0) \<and> (\<forall>x \<in> B. g x = 1)" if "\<forall>x \<in> C. g x = (if x \<in> B then 1 else 0)" "B = C - A" "A \<subseteq> C"
      for A B C :: "nat set" and g :: "nat \<Rightarrow> nat" using that by auto
    note g[OF f(5) conjunct2[OF rest] filter_is_subset]
    then show "\<forall>x \<in> set ?F. i_rank (inds' ! x) = 0" "\<forall>x \<in> set (concat rest). i_rank (inds' ! x) = 1" by (rule conjunct1, rule conjunct2)
  qed
  ultimately show ?thesis using f(1) rest unfolding F by (intro exI[of _ inds'] exI[of _ "filter (\<lambda>x. \<forall>y \<in> set U. \<not> ?B y x) U"] exI[of _ rest]) blast
qed

definition wit_individual :: "real \<Rightarrow> real \<Rightarrow> individual" where
  "wit_individual delay loss = \<lparr>i_src = Some 1, i_dst = [2], i_edges = [], i_chrom = 0, i_graph = 0, i_paths = [], i_delay = delay, i_loss = loss,
     i_band = None, i_rank = 5, i_crowd = 0, i_ndom = 0, i_dominating = []\<rparr>"

definition wit_population :: "individual list" where
  "wit_population = [wit_individual 1 1, wit_individual 2 2, wit_individual 3 3]"

lemma wit_population_doubled: "map_option snd (fast_nondominate_sort [0, 1, 2, 0, 1, 2] wit_population) = Some [[0, 0], [1, 2]]"
  by code_simp

theorem fast_nondominate_sort_layers_witness:
  "(\<exists>inds' fronts. fast_nondominate_sort [0, 1, 2] wit_population = Some (inds', fronts) \<and>
     pareto_layers (dominates wit_population) (set [0, 1, 2]) fronts) \<and>
   map_option snd (fast_nondominate_sort [0, 1, 2, 0, 1, 2] wit_population) = Some [[0, 0], [1, 2]] \<and> dominates wit_population 1 2"
proof -
  have d: "\<forall>r \<in> set [0, 1, 2]. r < length wit_population" "distinct [0, 1, 2 :: nat]" by (auto simp: wit_population_def)
  have "dominates wit_population 1 2" by (simp add: dominates_def wit_population_def wit_individual_def is_better_than_def)
  then show ?thesis using fast_nondominate_sort_layers[OF d(1)] d(2) wit_population_doubled by blast
qed

section \<open>The crowding distance is defined\<close>

abbreviation same_ranks :: "individual list \<Rightarrow> individual list \<Rightarrow> bool" where
  "same_ranks inds inds' \<equiv> map i_rank inds' = map i_rank inds"

lemma same_ranks_update [simp]: "i_rank v = i_rank (inds ! r) \<Longrightarrow> same_ranks inds (inds[r := v])"
proof (cases "r < length inds")
  case True
  assume "i_rank v = i_rank (inds ! r)"
  then have "i_rank v = map i_rank inds ! r" using True by simp
  then show ?thesis by (simp add: map_update)
qed (simp add: list_update_beyond)

lemma crowd_pass_core: "same_core inds (crowd_pass fig spread rs inds) \<and> same_ranks inds (crowd_pass fig spread rs inds)"
proof -
  have "same_core inds (foldl f inds xs) \<and> same_ranks inds (foldl f inds xs)"
    if "\<And>inds x. same_core inds (f inds x) \<and> same_ranks inds (f inds x)" for f and xs :: "nat list"
    using that by (induction xs arbitrary: inds) auto
  then show ?thesis unfolding crowd_pass_def by simp
qed

lemma crowd_front_ok:
  assumes "\<forall>r \<in> set rs. r < length inds \<and> i_delay (inds ! r) \<noteq> 0"
  shows "\<exists>inds' rs'. crowd_front rs inds = Inr (inds', rs') \<and> same_core inds inds' \<and> same_ranks inds inds' \<and> mset rs' = mset rs"
proof -
  have fin: "same_core inds inds' \<Longrightarrow> same_ranks inds inds' \<Longrightarrow> mset rs0 = mset rs \<Longrightarrow>
    \<exists>i r. Inr (inds', sort_crowd inds' rs0) = (Inr (i, r) :: pyerr + _) \<and> same_core inds i \<and> same_ranks inds i \<and> mset r = mset rs" for inds' rs0
    by (simp add: sort_eqs)
  consider "length rs = 0" | "length rs = 1" | "length rs = 2" | (long) "length rs \<noteq> 0" "length rs \<noteq> 1" "length rs \<noteq> 2" by blast
  then show ?thesis
  proof cases
    case long
    let ?rs1 = "sort_delay inds rs"
    let ?lo = "i_delay (inds ! (?rs1 ! 0))" and ?hi = "i_delay (inds ! (?rs1 ! (length rs - 1)))"
    define spread where "spread = (if ?lo = ?hi then ?hi + ?lo else ?hi) - ?lo"
    have m: "?rs1 ! 0 \<in> set rs" using long(1) nth_mem[of 0 ?rs1] by (simp add: sort_eqs)
    then have "?lo \<noteq> 0" using assms by blast
    then have sp: "spread \<noteq> 0" by (auto simp: spread_def)
    let ?inds1 = "crowd_pass i_delay spread ?rs1 inds"
    let ?rs2 = "sort_loss ?inds1 ?rs1"
    obtain l h where lh: "(let min_loss = i_loss (?inds1 ! (?rs2 ! 0)); max_loss = i_loss (?inds1 ! (?rs2 ! (length rs - 1)));
        max_loss = (if min_loss = max_loss then max_loss + min_loss else max_loss)
      in if min_loss = 0 \<or> max_loss = 0 then (1, 2) else (min_loss, max_loss)) = (l, h)" by fastforce
    then have "h - l \<noteq> 0" by (auto simp: Let_def split: if_splits)
    then have eq: "crowd_front rs inds = Inr (crowd_pass i_loss (h - l) ?rs2 ?inds1, sort_crowd (crowd_pass i_loss (h - l) ?rs2 ?inds1) ?rs2)"
      using long sp lh unfolding crowd_front_def Let_def spread_def by (simp split: prod.splits)
    show ?thesis unfolding eq by (rule fin) (use crowd_pass_core in \<open>simp_all add: sort_eqs\<close>)
  qed (auto simp: crowd_front_def Let_def set_crowd_inf_def sort_eqs)
qed

lemma crowding_distance_sort_ok:
  "\<forall>r \<in> set (concat rss). r < length inds \<and> i_delay (inds ! r) \<noteq> 0 \<Longrightarrow>
   \<exists>inds' rss'. crowding_distance_sort rss inds = Inr (inds', rss') \<and> same_core inds inds' \<and> same_ranks inds inds' \<and> map mset rss' = map mset rss"
proof (induction rss arbitrary: inds)
  case (Cons rs rss)
  obtain inds1 rs' where c: "crowd_front rs inds = Inr (inds1, rs')" "same_core inds inds1" "same_ranks inds inds1" "mset rs' = mset rs"
    using crowd_front_ok[of rs inds] Cons.prems by auto
  have "\<forall>r \<in> set (concat rss). r < length inds1 \<and> i_delay (inds1 ! r) \<noteq> 0"
    using Cons.prems same_core_length[OF c(2)] same_core_figures(1)[OF c(2)] by auto
  from Cons.IH[OF this] obtain inds2 rss' where "crowding_distance_sort rss inds1 = Inr (inds2, rss')" "same_core inds1 inds2" "same_ranks inds1 inds2"
    "map mset rss' = map mset rss" by blast
  then show ?case using c by simp
qed simp

end
