(* ===== verification/Nsga2.thy ===== *)
theory Nsga2
  imports Pareto_Sort
begin

text \<open>
  The multicast algorithm the program starts with: class \<open>NSGA2\<close> of
  \<open>route_manage/route_algorithm/NSGA2.py\<close> on its base class \<open>MOEA\<close> of \<open>MOEARouteAlgorithm.py\<close>. The
  tables are built and refreshed by the same code as those of \<open>RouteAlgorithm\<close> (theory \<open>Nx_Route\<close>).
  The population holds references into the store of individuals. The file that \<open>write_ps_to_file\<close> writes is
  not modelled.
\<close>

section \<open>State\<close>

record 'g nsga2 =
  mo_state :: nat
  mo_switch_queue :: "nat list"
  mo_link_queue :: "(nat \<times> nat) list"
  mo_nodes :: "ra_node list"
  mo_edges :: "ra_edge list"
  mo_num_nodes :: nat
  mo_num_edges :: nat
  mo_src :: "nat option"
  mo_dst :: "nat list"
  mo_min_available_bandwidth :: real
  mo_current :: "nat list"
  mo_external :: "nat list"
  mo_size :: nat
  mo_gens :: nat
  mo_pc :: real
  mo_pm :: real
  mo_store :: "'g store"

definition NSGA2 :: "'g nsga2" where
  "NSGA2 = \<lparr>mo_state = 0, mo_switch_queue = [], mo_link_queue = [], mo_nodes = [], mo_edges = [], mo_num_nodes = 0, mo_num_edges = 0,
     mo_src = None, mo_dst = [], mo_min_available_bandwidth = 0, mo_current = [], mo_external = [], mo_size = 30, mo_gens = 80,
     mo_pc = 4 / 5, mo_pm = 2 / 25, mo_store = \<lparr>st_inds = [], st_chroms = [], st_graphs = []\<rparr>\<rparr>"

definition moea_init_algorithm :: "switch_table \<Rightarrow> link_table_api \<Rightarrow> 'g nsga2 \<Rightarrow> 'g nsga2 \<times> pyerr option" where
  "moea_init_algorithm switches lnks s =
     (let s1 = s\<lparr>mo_switch_queue := dict_keys switches, mo_link_queue := dict_keys lnks\<rparr>
      in case append_each (ra_node_of (dict_keys switches)) switches (mo_nodes s) of
           (ns, Some e) \<Rightarrow> (s1\<lparr>mo_nodes := ns\<rparr>, Some e)
         | (ns, None) \<Rightarrow>
             (case append_each (ra_edge_of (dict_keys lnks)) lnks (mo_edges s) of
                (es, Some e) \<Rightarrow> (s1\<lparr>mo_nodes := ns, mo_edges := es\<rparr>, Some e)
              | (es, None) \<Rightarrow> (s1\<lparr>mo_nodes := ns, mo_edges := es, mo_num_nodes := length ns, mo_num_edges := length es\<rparr>, None)))"

definition moea_update_link_status :: "link_table_api \<Rightarrow> 'g nsga2 \<Rightarrow> 'g nsga2 \<times> pyerr option" where
  "moea_update_link_status lnks s =
     (case ra_refresh (mo_link_queue s) lnks [] of
        (es, Some e) \<Rightarrow> (s\<lparr>mo_edges := es\<rparr>, Some e)
      | (es, None) \<Rightarrow> (s\<lparr>mo_edges := es, mo_num_edges := length es\<rparr>, None))"

section \<open>Populations\<close>

fun init_individuals :: "'g nx_graphs \<Rightarrow> 'g nsga2 \<Rightarrow> nat \<Rightarrow> 'g store \<Rightarrow> draws \<Rightarrow> nat list \<Rightarrow> pyerr + ('g store \<times> draws \<times> nat list)" where
  "init_individuals ng s 0 h us cur = Inr (h, us, cur)"
| "init_individuals ng s (Suc k) h us cur =
     (case new_individual (ng_base ng) h of (h1, r) \<Rightarrow>
        res_bind (initialize ng (mo_num_edges s) (mo_edges s) (mo_src s) (mo_dst s) r (h1, us)) (\<lambda>(h2, us2).
        init_individuals ng s k h2 us2 (cur @ [r])))"

definition init_population :: "'g nx_graphs \<Rightarrow> draws \<Rightarrow> 'g nsga2 \<Rightarrow> pyerr + ('g nsga2 \<times> draws)" where
  "init_population ng us s =
     res_bind (init_individuals ng s (mo_size s) (mo_store s) us (mo_current s)) (\<lambda>(h, us', cur).
     Inr (s\<lparr>mo_store := h, mo_current := cur\<rparr>, us'))"

definition init_external :: "'g nsga2 \<Rightarrow> 'g nsga2" where
  "init_external s = s\<lparr>mo_external := mo_current s\<rparr>"

definition make_new_population :: "'g nsga2 \<Rightarrow> 'g nsga2 run" where
  "make_new_population s =
     (let union_list = mo_current s @ mo_external s; h = mo_store s
      in case fast_nondominate_sort union_list (clear_all union_list (st_inds h)) of
           None \<Rightarrow> None
         | Some (inds1, fronts) \<Rightarrow>
             run_bind (Some (crowding_distance_sort fronts inds1)) (\<lambda>(inds2, fronts').
             run_bind (Some (res_map (py_nth (concat fronts')) [0..<mo_size s])) (\<lambda>cur.
             Some (Inr (s\<lparr>mo_store := h\<lparr>st_inds := inds2\<rparr>, mo_current := cur\<rparr>)))))"

section \<open>Evolution\<close>

text \<open>Two random positions, drawn until they differ.\<close>

partial_function (option) draw_pair :: "nat \<Rightarrow> draws \<Rightarrow> (nat \<times> nat \<times> draws) option" where
  [code]: "draw_pair n us =
     (case next_draw us of (u, us1) \<Rightarrow> case next_draw us1 of (v, us2) \<Rightarrow>
        if scale_draw u n = scale_draw v n then draw_pair n us2 else Some (scale_draw u n, scale_draw v n, us2))"

definition wins_tournament :: "individual \<Rightarrow> individual \<Rightarrow> bool" where
  "wins_tournament ind1 ind2 \<longleftrightarrow> i_rank ind1 < i_rank ind2 \<or> (i_rank ind1 = i_rank ind2 \<and> i_crowd ind1 > i_crowd ind2)"

text \<open>Of the two copies only the one that is kept is put in the store.\<close>

fun select_loop :: "nat \<Rightarrow> nat \<Rightarrow> nat list \<Rightarrow> 'g store \<Rightarrow> draws \<Rightarrow> nat list \<Rightarrow> ('g store \<times> draws \<times> nat list) run" where
  "select_loop n 0 ext h us cur = Some (Inr (h, us, cur))"
| "select_loop n (Suc k) ext h us cur =
     (case draw_pair n us of
        None \<Rightarrow> None
      | Some (x, y, us') \<Rightarrow>
          run_bind (Some (py_nth ext x)) (\<lambda>r1.
          run_bind (Some (py_nth ext y)) (\<lambda>r2.
          case copy_individual (if wins_tournament (st_inds h ! r1) (st_inds h ! r2) then r1 else r2) h of (h', r) \<Rightarrow>
            select_loop n k ext h' us' (cur @ [r]))))"

text \<open>
  The draws that decide what becomes of a pair; the second condition draws again when the first one
  fails. \<^term>\<open>Some True\<close> is the single-point crossover, \<^term>\<open>Some False\<close> the uniform one.
\<close>

definition cross_choice :: "real \<Rightarrow> draws \<Rightarrow> bool option \<times> draws" where
  "cross_choice pc us =
     (let second = (\<lambda>us. case next_draw us of (u3, us3) \<Rightarrow>
            if u3 < pc then (case next_draw us3 of (u4, us4) \<Rightarrow> (if u4 \<ge> 1 / 2 then Some False else None, us4)) else (None, us3))
      in case next_draw us of (u1, us1) \<Rightarrow>
           if u1 < pc then (case next_draw us1 of (u2, us2) \<Rightarrow> if u2 < 1 / 2 then (Some True, us2) else second us2)
           else second us1)"

fun nsga2_cross_pairs :: "'g nx_graphs \<Rightarrow> nat \<Rightarrow> real \<Rightarrow> nat list \<Rightarrow> nat list \<Rightarrow> 'g store \<times> draws \<Rightarrow> pyerr + ('g store \<times> draws)" where
  "nsga2_cross_pairs ng n pc cur [] hus = Inr hus"
| "nsga2_cross_pairs ng n pc cur (i # is) (h, us) =
     (case cross_choice pc us of
        (None, us1) \<Rightarrow> nsga2_cross_pairs ng n pc cur is (h, us1)
      | (Some single, us1) \<Rightarrow>
          res_bind (py_nth cur i) (\<lambda>r1.
          res_bind (py_nth cur (n - i - 1)) (\<lambda>r2.
          res_bind ((if single then single_point_crossover else uniform_crossover) ng r1 r2 (h, us1)) (\<lambda>hus.
          nsga2_cross_pairs ng n pc cur is hus))))"

definition evolution :: "'g nx_graphs \<Rightarrow> draws \<Rightarrow> 'g nsga2 \<Rightarrow> ('g nsga2 \<times> draws) run" where
  "evolution ng us s =
     run_bind (select_loop (mo_size s) (mo_size s) (mo_external s) (mo_store s) us []) (\<lambda>(h, us1, cur).
     run_bind (Some (nsga2_cross_pairs ng (mo_size s) (mo_pc s) cur [0..<mo_size s div 2] (h, us1))) (\<lambda>(h', us').
     Some (Inr (s\<lparr>mo_store := h', mo_current := cur\<rparr>, us'))))"

section \<open>The main program\<close>

fun generations :: "'g nx_graphs \<Rightarrow> nat \<Rightarrow> draws \<Rightarrow> 'g nsga2 \<Rightarrow> ('g nsga2 \<times> draws) run" where
  "generations ng 0 us s = Some (Inr (s, us))"
| "generations ng (Suc k) us s =
     run_bind (make_new_population s) (\<lambda>s1.
     run_bind (evolution ng us (init_external s1)) (\<lambda>(s2, us'). generations ng k us' s2))"

text \<open>\<open>for ind in list: if ind.pareto_rank > 0: list.remove(ind)\<close>: the loop goes on at the next position of the shorter list.\<close>

function remove_ranked :: "individual list \<Rightarrow> nat \<Rightarrow> nat list \<Rightarrow> nat list" where
  "remove_ranked inds k rs =
     (if k < length rs then remove_ranked inds (Suc k) (if i_rank (inds ! (rs ! k)) > 0 then remove1 (rs ! k) rs else rs) else rs)"
  by pat_completeness auto
termination
  by (relation "measure (\<lambda>(inds, k, rs). length rs - k)") (auto simp: length_remove1)

declare remove_ranked.simps [simp del]

definition nsga2_main :: "'g nx_graphs \<Rightarrow> draws \<Rightarrow> 'g nsga2 \<Rightarrow> ('g nsga2 \<times> draws) run" where
  "nsga2_main ng us s =
     run_bind (Some (init_population ng us s)) (\<lambda>(s1, us1).
     run_bind (generations ng (mo_gens s1) us1 (init_external s1)) (\<lambda>(s2, us2).
     let inds = st_inds (mo_store s2); ext = sort_delay inds (remove_ranked inds 0 (mo_external s2)); s3 = s2\<lparr>mo_external := ext\<rparr>
     in if ext = [] then Some (Inl IndexError) else Some (Inr (s3, us2))))"

definition moea_run :: "'g nx_graphs \<Rightarrow> nat \<Rightarrow> nat list \<Rightarrow> real \<Rightarrow> draws \<Rightarrow> 'g nsga2 \<Rightarrow> ('g nsga2 \<times> draws) run" where
  "moea_run ng src dst bw us s =
     (let s1 = s\<lparr>mo_src := Some src, mo_dst := dst, mo_min_available_bandwidth := bw\<rparr>
      in if mo_state s1 = 0
         then run_bind (nsga2_main ng us s1) (\<lambda>(s2, us'). Some (Inr (s2\<lparr>mo_state := mo_state s2 + 1\<rparr>, us')))
         else Some (Inr (s1\<lparr>mo_state := mo_state s1 + 1\<rparr>, us)))"

definition nsga2_get_link :: "'g nsga2 \<Rightarrow> pyerr + nat list list" where
  "nsga2_get_link s =
     (let inds = st_inds (mo_store s); ext = mo_external s
      in if ext = [] then Inl IndexError
         else if mo_state s mod 2 = 0 then Inr (i_paths (inds ! (ext ! 0))) else Inr (i_paths (inds ! (ext ! (length ext - 1)))))"

section \<open>Draws that keep the selection going\<close>

definition draw_at :: "draws \<Rightarrow> nat \<Rightarrow> real" where
  "draw_at us i = (if i < length us then us ! i else 0)"

text \<open>
  Among the first \<open>k\<close> draws there are nowhere \<open>g\<close> successive pairs of draws that all give the same position of
  a population of \<open>n\<close> twice. Independent draws break this with a probability of at most \<open>k\<close> times \<open>n\<close> to the
  power of \<open>-g\<close>; it is all that the loop in \<open>draw_pair\<close> needs to end.
\<close>

definition lively :: "nat \<Rightarrow> nat \<Rightarrow> nat \<Rightarrow> draws \<Rightarrow> bool" where
  "lively n g k us \<longleftrightarrow> draws_ok us \<and>
     (\<forall>j. j + 2 * g \<le> k \<longrightarrow> (\<exists>i < g. scale_draw (draw_at us (j + 2 * i)) n \<noteq> scale_draw (draw_at us (j + 2 * i + 1)) n))"

lemma next_draw_at: "next_draw us = (draw_at us 0, drop 1 us)"
  by (cases us) (auto simp: next_draw_def draw_at_def)

lemma draw_at_drop: "draw_at (drop k us) i = draw_at us (k + i)"
  by (auto simp: draw_at_def)

lemma draws_ok_drop: "draws_ok us \<Longrightarrow> draws_ok (drop k us)"
  by (auto simp: draws_ok_def dest: in_set_dropD)

lemma draw_at_range: "draws_ok us \<Longrightarrow> 0 \<le> draw_at us i \<and> draw_at us i < 1"
  by (auto simp: draw_at_def draws_ok_def)

lemma lively_uses:
  assumes "lively n g k us" "uses m us us'" "m + k' \<le> k"
  shows "lively n g k' us'"
proof -
  obtain j where j: "j \<le> m" "us' = drop j us" using assms(2) by (auto simp: uses_def)
  have "\<exists>i < g. scale_draw (draw_at us' (i' + 2 * i)) n \<noteq> scale_draw (draw_at us' (i' + 2 * i + 1)) n" if "i' + 2 * g \<le> k'" for i'
  proof -
    have "(j + i') + 2 * g \<le> k" using assms(3) j(1) that by simp
    then obtain i where "i < g" "scale_draw (draw_at us (j + i' + 2 * i)) n \<noteq> scale_draw (draw_at us (j + i' + 2 * i + 1)) n"
      using assms(1) unfolding lively_def by blast
    then show ?thesis by (intro exI[of _ i]) (simp add: j(2) draw_at_drop add.assoc)
  qed
  then show ?thesis using assms(1) by (simp add: lively_def j(2) draws_ok_drop)
qed

lemma draw_pair_finds:
  assumes "scale_draw (draw_at us (2 * i)) n \<noteq> scale_draw (draw_at us (2 * i + 1)) n" "draws_ok us" "0 < n"
  shows "\<exists>x y us'. draw_pair n us = Some (x, y, us') \<and> x < n \<and> y < n \<and> uses (2 * Suc i) us us'"
  using assms(1,2)
proof (induction i arbitrary: us)
  case 0
  have "draw_pair n us = Some (scale_draw (draw_at us 0) n, scale_draw (draw_at us 1) n, drop 2 us)"
    using "0.prems"(1) by (subst draw_pair.simps) (simp add: next_draw_at draw_at_drop numeral_2_eq_2)
  moreover have "scale_draw (draw_at us i) n < n" for i
    using scale_draw_less[of "draw_at us i" n] draw_at_range[of us i] "0.prems"(2) assms(3) by simp
  ultimately show ?case by (auto simp: uses_def)
next
  case (Suc i)
  show ?case
  proof (cases "scale_draw (draw_at us 0) n = scale_draw (draw_at us 1) n")
    case True
    have "draw_pair n us = draw_pair n (drop 2 us)"
      using True by (subst draw_pair.simps) (simp add: next_draw_at draw_at_drop numeral_2_eq_2)
    moreover have "\<exists>x y us'. draw_pair n (drop 2 us) = Some (x, y, us') \<and> x < n \<and> y < n \<and> uses (2 * Suc i) (drop 2 us) us'"
      using Suc.prems by (intro Suc.IH) (simp_all add: draw_at_drop draws_ok_drop)
    moreover have "uses 2 us (drop 2 us)" by (auto simp: uses_def)
    ultimately show ?thesis using uses_trans[of 2 us "drop 2 us" "2 * Suc i" _ "2 * Suc (Suc i)"] by auto
  next
    case False
    have "draw_pair n us = Some (scale_draw (draw_at us 0) n, scale_draw (draw_at us 1) n, drop 2 us)"
      using False by (subst draw_pair.simps) (simp add: next_draw_at draw_at_drop numeral_2_eq_2)
    moreover have "scale_draw (draw_at us i) n < n" for i
      using scale_draw_less[of "draw_at us i" n] draw_at_range[of us i] Suc.prems(2) assms(3) by simp
    moreover have "uses (2 * Suc (Suc i)) us (drop 2 us)" unfolding uses_def by (intro exI[of _ 2]) simp
    ultimately show ?thesis by blast
  qed
qed

lemma draw_pair_ok:
  assumes "lively n g k us" "2 * g \<le> k" "0 < n"
  shows "\<exists>x y us'. draw_pair n us = Some (x, y, us') \<and> x < n \<and> y < n \<and> uses (2 * g) us us'"
proof -
  obtain i where i: "i < g" "scale_draw (draw_at us (2 * i)) n \<noteq> scale_draw (draw_at us (2 * i + 1)) n"
    using assms(1,2) unfolding lively_def by (metis add_0)
  have "draws_ok us" using assms(1) by (simp add: lively_def)
  from draw_pair_finds[OF i(2) this assms(3)] show ?thesis using i(1) uses_mono[of "2 * Suc i" us _ "2 * g"] by auto
qed

section \<open>One generation\<close>

lemma store_ok_core:
  assumes "store_ok nx E es src dst h" "same_core (st_inds h) inds"
  shows "store_ok nx E es src dst (h\<lparr>st_inds := inds\<rparr>)"
proof -
  have "ind_shape E es src dst nc ng i \<and> figures_ok i"
    if i: "i \<in> set inds" and all: "\<forall>j \<in> set (st_inds h). ind_shape E es src dst nc ng j \<and> figures_ok j" for i nc ng
  proof -
    have "clear_property i \<in> clear_property ` set (st_inds h)" using i assms(2) by (metis image_eqI list.set_map)
    then obtain j where j: "j \<in> set (st_inds h)" "clear_property i = clear_property j" by auto
    have "ind_shape E es src dst nc ng (clear_property k) = ind_shape E es src dst nc ng k" "figures_ok (clear_property k) = figures_ok k" for k
      by (simp_all add: ind_shape_def figures_ok_def clear_property_def)
    then show ?thesis using all j by metis
  qed
  from this[of _ "length (st_chroms h)" "length (st_graphs h)"] show ?thesis using assms(1) by (auto simp: store_ok_def store_shape_def)
qed

text \<open>
  The state between two generations: the two populations have the size they should have, and together
  they hold at least that many different individuals.
\<close>

definition pop_ok :: "'g networkx \<Rightarrow> (nat \<Rightarrow> nat \<Rightarrow> nx_attr option) \<Rightarrow> ra_edge list \<Rightarrow> nat \<Rightarrow> nat list \<Rightarrow> nat \<Rightarrow> 'g nsga2 \<Rightarrow> bool" where
  "pop_ok nx E es src dst n s \<longleftrightarrow> store_ok nx E es src dst (mo_store s) \<and> mo_size s = n \<and> length (mo_external s) = n \<and>
     (\<forall>r \<in> set (mo_current s @ mo_external s). r < length (st_inds (mo_store s))) \<and> n \<le> card (set (mo_current s @ mo_external s))"

lemma make_new_population_ok:
  assumes ok: "pop_ok nx E es src dst n s" and n: "0 < n"
  shows "\<exists>s'. make_new_population s = Some (Inr s') \<and> store_ok nx E es src dst (mo_store s') \<and> mo_size s' = n \<and> length (mo_current s') = n \<and>
    (\<forall>r \<in> set (mo_current s'). r < length (st_inds (mo_store s'))) \<and> i_rank (st_inds (mo_store s') ! (mo_current s' ! 0)) = 0 \<and>
    mo_pc s' = mo_pc s"
proof -
  let ?U = "mo_current s @ mo_external s" and ?inds = "st_inds (mo_store s)"
  let ?i0 = "clear_all ?U ?inds"
  have st: "store_ok nx E es src dst (mo_store s)" and sz: "mo_size s = n" and rng: "\<forall>r \<in> set ?U. r < length ?inds" and cd: "n \<le> card (set ?U)"
    using ok unfolding pop_ok_def by blast+
  have core0: "same_core ?inds ?i0" by (rule clear_all_core)
  have rng0: "\<forall>r \<in> set ?U. r < length ?i0" using rng same_core_length[OF core0] by simp
  let ?B = "dominates ?i0" and ?F = "filter (\<lambda>r. dominators (dominates ?i0) ?U r = 0) ?U"
  obtain inds1 rest N dl where f: "fast_nondominate_sort ?U ?i0 = Some (inds1, ?F # rest)" "same_core ?i0 inds1" "pareto_counts ?B ?U N dl"
    "?U \<noteq> [] \<longrightarrow> front_chain N dl ?U [] ?F rest" "\<forall>x \<in> set ?U. i_rank (inds1 ! x) = (if x \<in> set (concat rest) then 1 else 0)"
    using fast_nondominate_sort_ok[OF rng0] by blast
  have ne: "?U \<noteq> []" using cd n by auto
  have irr: "\<not> ?B x x" for x using dominates_asym by blast
  have chain: "front_chain N dl ?U [] ?F rest" using f(4) ne by blast
  have cover: "set ([] @ ?F @ concat rest) = set ?U"
    by (rule front_chain_covers[OF f(3) irr _ chain]) (erule dominates_trans, assumption, auto)
  have F: "?F \<noteq> []" by (rule nondominated_exists[OF ne])
  have len1: "length inds1 = length ?inds" using same_core_length[OF f(2)] same_core_length[OF core0] by simp
  have core1: "same_core ?inds inds1" using f(2) core0 by simp
  have "\<forall>r \<in> set (concat (?F # rest)). r < length inds1 \<and> i_delay (inds1 ! r) \<noteq> 0"
  proof
    fix r assume "r \<in> set (concat (?F # rest))"
    then have "r \<in> set ?U" using cover by auto
    then have r: "r < length ?inds" using rng by blast
    have "figures_ok (?inds ! r)" using st nth_mem[OF r] unfolding store_ok_def by blast
    then show "r < length inds1 \<and> i_delay (inds1 ! r) \<noteq> 0" using r len1 same_core_figures(1)[OF core1 r] by (simp add: figures_ok_def)
  qed
  from crowding_distance_sort_ok[OF this] obtain inds2 fronts where c: "crowding_distance_sort (?F # rest) inds1 = Inr (inds2, fronts)"
    "same_core inds1 inds2" "same_ranks inds1 inds2" "map mset fronts = map mset (?F # rest)" by blast
  obtain F' rest' where fr: "fronts = F' # rest'" "mset F' = mset ?F" using c(4) by (cases fronts) auto
  have "mset (concat xs) = sum_list (map mset xs)" for xs :: "nat list list" by (induction xs) auto
  then have "mset (concat fronts) = mset (concat (?F # rest))" using c(4) by simp
  from mset_eq_setD[OF this] have setc: "set (concat fronts) = set ?U" using cover by simp
  have long: "n \<le> length (concat fronts)" using cd card_length[of "concat fronts"] unfolding setc by linarith
  let ?cur = "map ((!) (concat fronts)) [0..<n]"
  have cur: "res_map (py_nth (concat fronts)) [0..<n] = Inr ?cur" by (rule res_map_total) (use long in \<open>simp add: py_nth_def\<close>)
  have sub: "set ?cur \<subseteq> set ?U"
  proof
    fix r assume "r \<in> set ?cur"
    then obtain k where "k < n" "r = concat fronts ! k" by auto
    then show "r \<in> set ?U" using nth_mem[of k "concat fronts"] long unfolding setc by simp
  qed
  have F': "F' \<noteq> []" using F fr(2) by (metis mset.simps(1) mset_zero_iff)
  then have h: "?cur ! 0 \<in> set ?F" using n fr mset_eq_setD[OF fr(2)] by (cases F') auto
  have x: "?cur ! 0 \<in> set ?U" by (rule subsetD[OF filter_is_subset h])
  have "?cur ! 0 \<notin> set (concat rest)" by (rule front_chain_disjoint[OF chain]) (use h in simp)
  then have "i_rank (inds1 ! (?cur ! 0)) = 0" using bspec[OF f(5) x] by simp
  moreover have lt: "?cur ! 0 < length inds1" using x rng len1 by auto
  ultimately have rk: "i_rank (inds2 ! (?cur ! 0)) = 0" using c(3) by (metis length_map nth_map)
  have core2: "same_core ?inds inds2" using core1 c(2) by simp
  let ?s = "s\<lparr>mo_store := (mo_store s)\<lparr>st_inds := inds2\<rparr>, mo_current := ?cur\<rparr>"
  have "make_new_population s = Some (Inr ?s)" using f(1) c(1) cur by (simp add: make_new_population_def Let_def sz)
  moreover have "\<forall>r \<in> set ?cur. r < length inds2" using sub rng same_core_length[OF core2] by auto
  ultimately show ?thesis using store_ok_core[OF st core2] rk sz n by simp
qed

lemma cross_choice_uses: "uses 4 us (snd (cross_choice pc us))"
proof -
  have d: "drop (Suc k) xs = drop k (drop 1 xs)" for k and xs :: draws by simp
  show ?thesis
    unfolding uses_def cross_choice_def Let_def next_draw_at
    by (auto simp del: One_nat_def intro: exI[of _ 1] exI[of _ 2] exI[of _ 3] exI[of _ 4])
qed

text \<open>The draws of one generation, and of the whole algorithm, for \<open>m\<close> edges and \<open>d\<close> members, at most \<open>g\<close> pairs for each tournament.\<close>

definition gen_draws :: "nat \<Rightarrow> nat \<Rightarrow> nat \<Rightarrow> nat \<Rightarrow> nat" where
  "gen_draws g n m d = 2 * g * n + (n div 2) * (5 + 2 * m + 2 * d)"

definition nsga2_draws :: "nat \<Rightarrow> nat \<Rightarrow> nat \<Rightarrow> nat \<Rightarrow> nat \<Rightarrow> nat" where
  "nsga2_draws g n gens m d = n * (m + d) + gens * gen_draws g n m d"

context nx_graph_laws
begin

lemma select_loop_ok:
  assumes n: "0 < n" and ext: "length ext = n"
  shows "store_ok NX E es src dst h \<Longrightarrow> \<forall>r \<in> set (ext @ cur). r < length (st_inds h) \<Longrightarrow> lively n g (2 * g * k) us \<Longrightarrow> distinct cur \<Longrightarrow>
    \<exists>h' us' cur'. select_loop n k ext h us cur = Some (Inr (h', us', cur')) \<and> store_ok NX E es src dst h' \<and> uses (2 * g * k) us us' \<and>
      (\<forall>r \<in> set (ext @ cur'). r < length (st_inds h')) \<and> length cur' = length cur + k \<and> distinct cur'"
proof (induction k arbitrary: h us cur)
  case (Suc k)
  have al: "2 * g \<le> 2 * g * Suc k" by simp
  obtain x y us1 where p: "draw_pair n us = Some (x, y, us1)" "x < n" "y < n" "uses (2 * g) us us1" using draw_pair_ok[OF Suc.prems(3) al n] by blast
  let ?r = "if wins_tournament (st_inds h ! (ext ! x)) (st_inds h ! (ext ! y)) then ext ! x else ext ! y"
  have r: "?r < length (st_inds h)" using Suc.prems(2) p(2,3) ext by auto
  obtain h1 q where c: "copy_individual ?r h = (h1, q)" by fastforce
  note c1 = copy_individual_ok[OF Suc.prems(1) r c]
  have al1: "lively n g (2 * g * k) us1" by (rule lively_uses[OF Suc.prems(3) p(4)]) simp
  have rng: "\<forall>r \<in> set (ext @ cur @ [q]). r < length (st_inds h1)" using Suc.prems(2) c1 by (auto intro!: less_SucI)
  have "distinct (cur @ [q])" using Suc.prems(2,4) c1 by auto
  from Suc.IH[OF _ _ al1 this, of h1] rng c1 obtain h' us' cur' where
    "select_loop n k ext h1 us1 (cur @ [q]) = Some (Inr (h', us', cur'))" "store_ok NX E es src dst h'" "uses (2 * g * k) us1 us'"
    "\<forall>r \<in> set (ext @ cur'). r < length (st_inds h')" "length cur' = length (cur @ [q]) + k" "distinct cur'" by auto
  moreover have "uses (2 * g * Suc k) us us'" by (rule uses_trans[OF p(4) \<open>uses (2 * g * k) us1 us'\<close>]) simp
  moreover have "select_loop n (Suc k) ext h us cur = select_loop n k ext h1 us1 (cur @ [q])"
    using p(1-3) ext c by (simp add: py_nth_def split del: if_split)
  ultimately show ?case by auto
qed simp

lemma nsga2_cross_pairs_ok:
  assumes E: "edges_ok E es" and dst: "dst \<noteq> []" "src \<notin> set dst" and cur: "length cur = n"
  shows "store_ok NX E es src dst h \<Longrightarrow> \<forall>r \<in> set cur. r < length (st_inds h) \<Longrightarrow> \<forall>i \<in> set is. i < n \<Longrightarrow>
    \<exists>h' us'. nsga2_cross_pairs ng n pc cur is (h, us) = Inr (h', us') \<and> store_ok NX E es src dst h' \<and> length (st_inds h') = length (st_inds h) \<and>
      uses (length is * (5 + 2 * length es + 2 * length dst)) us us'"
proof (induction "is" arbitrary: h us)
  case (Cons i "is")
  let ?K = "5 + 2 * length es + 2 * length dst"
  obtain ch us1 where ch: "cross_choice pc us = (ch, us1)" by fastforce
  have u1: "uses 4 us us1" using cross_choice_uses[of us pc] by (simp add: ch)
  have r: "cur ! i < length (st_inds h)" "cur ! (n - i - 1) < length (st_inds h)" using Cons.prems cur by auto
  have "\<exists>h1 us2. (case ch of None \<Rightarrow> Inr (h, us1) | Some single \<Rightarrow>
      (if single then single_point_crossover else uniform_crossover) ng (cur ! i) (cur ! (n - i - 1)) (h, us1)) = Inr (h1, us2) \<and>
    store_ok NX E es src dst h1 \<and> length (st_inds h1) = length (st_inds h) \<and> uses (1 + 2 * length es + 2 * length dst) us1 us2"
  proof (cases ch)
    case None
    then show ?thesis using Cons.prems(1) by simp
  next
    case (Some single)
    have "\<exists>h1 us2. uniform_crossover ng (cur ! i) (cur ! (n - i - 1)) (h, us1) = Inr (h1, us2) \<and> store_ok NX E es src dst h1 \<and>
      length (st_inds h1) = length (st_inds h) \<and> uses (1 + 2 * length es + 2 * length dst) us1 us2"
      using uniform_crossover_ok[OF E Cons.prems(1) r dst, of us1] uses_mono[where n = "1 + 2 * length es + 2 * length dst"] by fastforce
    then show ?thesis using Some single_point_crossover_ok[OF E Cons.prems(1) r dst, of us1] by (cases single) simp_all
  qed
  then obtain h1 us2 where x: "(case ch of None \<Rightarrow> Inr (h, us1) | Some single \<Rightarrow>
      (if single then single_point_crossover else uniform_crossover) ng (cur ! i) (cur ! (n - i - 1)) (h, us1)) = Inr (h1, us2)"
    "store_ok NX E es src dst h1" "length (st_inds h1) = length (st_inds h)" "uses (1 + 2 * length es + 2 * length dst) us1 us2" by blast
  have rng: "\<forall>r \<in> set cur. r < length (st_inds h1)" using Cons.prems(2) x(3) by simp
  have is': "\<forall>i \<in> set is. i < n" using Cons.prems(3) by simp
  obtain h' us' where r': "nsga2_cross_pairs ng n pc cur is (h1, us2) = Inr (h', us')" "store_ok NX E es src dst h'" "length (st_inds h') = length (st_inds h1)"
    "uses (length is * ?K) us2 us'" using Cons.IH[OF x(2) rng is', of us2] by blast
  have "nsga2_cross_pairs ng n pc cur (i # is) (h, us) = nsga2_cross_pairs ng n pc cur is (h1, us2)"
    using x(1) ch Cons.prems(3) cur by (cases ch) (simp_all add: py_nth_def)
  moreover have "uses (length (i # is) * ?K) us us'" by (rule uses_trans[OF u1 uses_trans[OF x(4) r'(4) order_refl]]) simp
  ultimately show ?case using r' x(3) by auto
qed simp

lemma init_individuals_ok:
  assumes E: "edges_ok E (mo_edges s)" and dst: "mo_dst s \<noteq> []" "src \<notin> set (mo_dst s)" and s: "mo_src s = Some src" "mo_num_edges s = length (mo_edges s)"
  shows "store_ok NX E (mo_edges s) src (mo_dst s) h \<Longrightarrow> distinct cur \<Longrightarrow> \<forall>r \<in> set cur. r < length (st_inds h) \<Longrightarrow>
    \<exists>h' us' cur'. init_individuals ng s k h us cur = Inr (h', us', cur') \<and> store_ok NX E (mo_edges s) src (mo_dst s) h' \<and>
      distinct cur' \<and> length cur' = length cur + k \<and> (\<forall>r \<in> set cur'. r < length (st_inds h')) \<and>
      uses (k * (length (mo_edges s) + length (mo_dst s))) us us'"
proof (induction k arbitrary: h us cur)
  case (Suc k)
  let ?K = "length (mo_edges s) + length (mo_dst s)"
  obtain h1 r where n: "new_individual NX h = (h1, r)" by fastforce
  obtain h2 us2 where i: "initialize ng (length (mo_edges s)) (mo_edges s) (Some src) (mo_dst s) r (h1, us) = Inr (h2, us2)"
    "store_ok NX E (mo_edges s) src (mo_dst s) h2" "r = length (st_inds h)" "length (st_inds h2) = Suc (length (st_inds h))" "uses ?K us us2"
    using new_individual_ok[OF E Suc.prems(1) dst n, of us] by blast
  have d: "distinct (cur @ [r])" and rng: "\<forall>r \<in> set (cur @ [r]). r < length (st_inds h2)" using Suc.prems(2,3) i(3,4) by auto
  obtain h' us' cur' where r: "init_individuals ng s k h2 us2 (cur @ [r]) = Inr (h', us', cur')" "store_ok NX E (mo_edges s) src (mo_dst s) h'"
    "distinct cur'" "length cur' = length (cur @ [r]) + k" "\<forall>r \<in> set cur'. r < length (st_inds h')" "uses (k * ?K) us2 us'"
    using Suc.IH[OF i(2) d rng, of us2] by blast
  have "uses (Suc k * ?K) us us'" by (rule uses_trans[OF i(5) r(6)]) simp
  then show ?case using r n i(1) s by simp
qed simp

lemma evolution_ok:
  assumes E: "edges_ok E es" and dst: "dst \<noteq> []" "src \<notin> set dst" and n: "0 < n" and al: "lively n g (2 * g * n) us"
    and st: "store_ok NX E es src dst (mo_store s)" "mo_size s = n" "length (mo_external s) = n" "\<forall>r \<in> set (mo_external s). r < length (st_inds (mo_store s))"
  shows "\<exists>s' us'. evolution ng us s = Some (Inr (s', us')) \<and> pop_ok NX E es src dst n s' \<and> mo_external s' = mo_external s \<and>
    uses (gen_draws g n (length es) (length dst)) us us'"
proof -
  obtain h us1 cur where l: "select_loop n n (mo_external s) (mo_store s) us [] = Some (Inr (h, us1, cur))" "store_ok NX E es src dst h" "uses (2 * g * n) us us1"
    "\<forall>r \<in> set (mo_external s @ cur). r < length (st_inds h)" "length cur = n" "distinct cur"
    using select_loop_ok[OF n st(3,1), of "[]" g n us] st(4) al by auto
  have cr: "\<forall>r \<in> set cur. r < length (st_inds h)" and is': "\<forall>i \<in> set [0..<n div 2]. i < n" using l(4) by auto
  obtain h' us' where c: "nsga2_cross_pairs ng n (mo_pc s) cur [0..<n div 2] (h, us1) = Inr (h', us')" "store_ok NX E es src dst h'" "length (st_inds h') = length (st_inds h)"
    "uses (length [0..<n div 2] * (5 + 2 * length es + 2 * length dst)) us1 us'"
    using nsga2_cross_pairs_ok[OF E dst l(5,2) cr is', of "mo_pc s" us1] by blast
  let ?s = "s\<lparr>mo_store := h', mo_current := cur\<rparr>"
  have "evolution ng us s = Some (Inr (?s, us'))" using l(1) c(1) st(2) by (simp add: evolution_def)
  moreover have "n \<le> card (set (cur @ mo_external s))"
    using card_mono[of "set (cur @ mo_external s)" "set cur"] distinct_card[OF l(6)] l(5) by simp
  then have "pop_ok NX E es src dst n ?s" using c(2,3) st l(4) by (auto simp: pop_ok_def)
  moreover have "uses (gen_draws g n (length es) (length dst)) us us'"
    by (rule uses_trans[OF l(3) c(4)]) (simp add: gen_draws_def)
  ultimately show ?thesis by auto
qed

lemma generations_ok:
  assumes E: "edges_ok E es" and dst: "dst \<noteq> []" "src \<notin> set dst" and n: "0 < n"
  shows "pop_ok NX E es src dst n s \<Longrightarrow> lively n g (k * gen_draws g n (length es) (length dst)) us \<Longrightarrow>
    \<exists>s' us'. generations ng k us s = Some (Inr (s', us')) \<and> pop_ok NX E es src dst n s' \<and> uses (k * gen_draws g n (length es) (length dst)) us us'"
proof (induction k arbitrary: s us)
  case 0
  then show ?case by simp
next
  case (Suc k)
  let ?G = "gen_draws g n (length es) (length dst)"
  obtain s1 where m: "make_new_population s = Some (Inr s1)" "store_ok NX E es src dst (mo_store s1)" "mo_size s1 = n" "length (mo_current s1) = n"
    "\<forall>r \<in> set (mo_current s1). r < length (st_inds (mo_store s1))"
    using make_new_population_ok[OF Suc.prems(1) n] by blast
  have al: "lively n g (2 * g * n) us" by (rule lively_uses[OF Suc.prems(2) uses_refl[of 0]]) (simp add: gen_draws_def)
  have ie: "store_ok NX E es src dst (mo_store (init_external s1))" "mo_size (init_external s1) = n" "length (mo_external (init_external s1)) = n"
    "\<forall>r \<in> set (mo_external (init_external s1)). r < length (st_inds (mo_store (init_external s1)))"
    using m(2-5) by (simp_all add: init_external_def)
  obtain s2 us2 where e: "evolution ng us (init_external s1) = Some (Inr (s2, us2))" "pop_ok NX E es src dst n s2" "uses ?G us us2"
    using evolution_ok[OF E dst n al ie] by blast
  have al2: "lively n g (k * ?G) us2" by (rule lively_uses[OF Suc.prems(2) e(3)]) simp
  obtain s' us' where g: "generations ng k us2 s2 = Some (Inr (s', us'))" "pop_ok NX E es src dst n s'" "uses (k * ?G) us2 us'"
    using Suc.IH[OF e(2) al2] by blast
  have "uses (Suc k * ?G) us us'" by (rule uses_trans[OF e(3) g(3)]) simp
  then show ?case using m(1) e(1) g by auto
qed

end

section \<open>The trees it answers\<close>

text \<open>The removal of the dominated individuals takes out at most every second entry.\<close>

lemma remove_ranked_length: "k \<le> length rs \<Longrightarrow> length rs + k \<le> 2 * length (remove_ranked inds k rs) + 1"
proof (induction inds k rs rule: remove_ranked.induct)
  case (1 inds k rs)
  show ?case
  proof (cases "k < length rs")
    case True
    let ?rs = "if i_rank (inds ! (rs ! k)) > 0 then remove1 (rs ! k) rs else rs"
    have eq: "remove_ranked inds k rs = remove_ranked inds (Suc k) ?rs" using True by (subst remove_ranked.simps) simp
    have l: "length rs \<le> Suc (length ?rs)" by (auto simp: length_remove1)
    show ?thesis
    proof (cases "Suc k \<le> length ?rs")
      case True
      then show ?thesis using "1.IH"[OF \<open>k < length rs\<close>] l unfolding eq by linarith
    next
      case False
      then have rr: "remove_ranked inds (Suc k) ?rs = ?rs" by (subst remove_ranked.simps) simp
      show ?thesis using False \<open>k < length rs\<close> l unfolding eq rr by linarith
    qed
  qed (use 1(2) in \<open>simp add: remove_ranked.simps\<close>)
qed

lemma remove_ranked_subset: "set (remove_ranked inds k rs) \<subseteq> set rs"
proof (induction inds k rs rule: remove_ranked.induct)
  case (1 inds k rs)
  show ?case
  proof (cases "k < length rs")
    case True
    then show ?thesis using "1.IH"[OF True] set_remove1_subset[of "rs ! k" rs] by (subst remove_ranked.simps) (auto split: if_splits)
  qed (simp add: remove_ranked.simps)
qed

context nx_graph_laws
begin

lemma nsga2_main_ok:
  assumes E: "edges_ok E (mo_edges s)" and dst: "mo_dst s \<noteq> []" "src \<notin> set (mo_dst s)" and n: "2 \<le> mo_size s"
    and s: "mo_src s = Some src" "mo_num_edges s = length (mo_edges s)" "mo_current s = []" "st_inds (mo_store s) = []" "st_chroms (mo_store s) = []"
      "st_graphs (mo_store s) = []"
    and al: "lively (mo_size s) g (nsga2_draws g (mo_size s) (mo_gens s) (length (mo_edges s)) (length (mo_dst s))) us"
  shows "\<exists>s' us'. nsga2_main ng us s = Some (Inr (s', us')) \<and> store_ok NX E (mo_edges s) src (mo_dst s) (mo_store s') \<and>
    mo_external s' \<noteq> [] \<and> (\<forall>r \<in> set (mo_external s'). r < length (st_inds (mo_store s'))) \<and> mo_state s' = mo_state s"
proof -
  let ?n = "mo_size s" and ?es = "mo_edges s" and ?dst = "mo_dst s"
  have st0: "store_ok NX E ?es src ?dst (mo_store s)" using s by (simp add: store_ok_def store_shape_def)
  obtain h us1 cur where i: "init_individuals ng s ?n (mo_store s) us [] = Inr (h, us1, cur)" "store_ok NX E ?es src ?dst h" "distinct cur" "length cur = ?n"
    "\<forall>r \<in> set cur. r < length (st_inds h)" "uses (?n * (length ?es + length ?dst)) us us1"
    using init_individuals_ok[OF E dst s(1,2) st0, of "[]" ?n us] by auto
  let ?s1 = "init_external (s\<lparr>mo_store := h, mo_current := cur\<rparr>)"
  have ip: "init_population ng us s = Inr (s\<lparr>mo_store := h, mo_current := cur\<rparr>, us1)" using i(1) s(3) by (simp add: init_population_def)
  have p: "pop_ok NX E ?es src ?dst ?n ?s1" using i distinct_card[OF i(3)] by (simp add: pop_ok_def init_external_def)
  have al1: "lively ?n g (mo_gens s * gen_draws g ?n (length ?es) (length ?dst)) us1"
    by (rule lively_uses[OF al i(6)]) (simp add: nsga2_draws_def)
  have n0: "0 < ?n" using n by simp
  obtain s2 us2 where g: "generations ng (mo_gens s) us1 ?s1 = Some (Inr (s2, us2))" "pop_ok NX E ?es src ?dst ?n s2"
    using generations_ok[OF E dst n0 p al1] by blast
  have keep: "generations ng k us s = Some (Inr (s', us')) \<Longrightarrow> mo_state s' = mo_state s" for k us s s' us'
  proof (induction k arbitrary: us s)
    case (Suc k)
    have mk: "mo_state t' = mo_state t" if "make_new_population t = Some (Inr t')" for t t' :: "'g nsga2"
      using that by (auto simp: make_new_population_def Let_def run_bind_Some split: option.splits)
    have ev: "mo_state t' = mo_state t" if "evolution ng vs t = Some (Inr (t', vs'))" for t t' :: "'g nsga2" and vs vs'
      using that by (auto simp: evolution_def run_bind_Some)
    show ?case using Suc.prems by (auto simp: run_bind_Some init_external_def dest!: Suc.IH mk ev)
  qed simp
  let ?inds = "st_inds (mo_store s2)"
  let ?ext = "sort_delay ?inds (remove_ranked ?inds 0 (mo_external s2))"
  have l: "length (mo_external s2) = ?n" "\<forall>r \<in> set (mo_external s2). r < length ?inds" using g(2) by (auto simp: pop_ok_def)
  have ne: "?ext \<noteq> []" using remove_ranked_length[of 0 "mo_external s2" ?inds] l(1) n by (auto simp: sort_eqs simp flip: length_0_conv)
  have sub: "set ?ext \<subseteq> set (mo_external s2)" using remove_ranked_subset by (simp add: sort_eqs)
  have "nsga2_main ng us s = Some (Inr (s2\<lparr>mo_external := ?ext\<rparr>, us2))" using ip g(1) ne by (simp add: nsga2_main_def Let_def)
  then show ?thesis using g(2) ne sub l(2) keep[OF g(1)] by (auto simp: pop_ok_def init_external_def)
qed

end

text \<open>
  The links as the multicast algorithm needs them: measured, with a delay, and each pair of switches once.
\<close>

definition moea_input_ok :: "link_table_api \<Rightarrow> bool" where
  "moea_input_ok lnks \<longleftrightarrow> nx_input_ok lnks \<and> (\<forall>(k, par) \<in> set lnks. 0 < the (link_delay (snd (hd par)))) \<and>
     (\<forall>k \<in> set (dict_keys lnks). (snd k, fst k) \<in> set (dict_keys lnks) \<longrightarrow> fst k = snd k)"

lemma find_only: "x \<in> set xs \<Longrightarrow> P x \<Longrightarrow> (\<And>y. y \<in> set xs \<Longrightarrow> P y \<Longrightarrow> y = x) \<Longrightarrow> find P xs = Some x"
proof (induction xs)
  case (Cons a xs)
  show ?case
  proof (cases "P a")
    case True
    then show ?thesis using Cons.prems(3)[of a] by simp
  next
    case False
    then have "x \<in> set xs" using Cons.prems(1,2) by auto
    then show ?thesis using False Cons.IH[OF _ Cons.prems(2)] Cons.prems(3) by simp
  qed
qed simp

lemma moea_edges_ok:
  assumes "moea_input_ok lnks"
  shows "edges_ok (table_edge lnks) (map (\<lambda>e. link_edge e q) lnks)"
proof -
  have ok: "nx_input_ok lnks" using assms by (simp add: moea_input_ok_def)
  have rev: "k \<in> set (dict_keys lnks) \<Longrightarrow> (snd k, fst k) \<in> set (dict_keys lnks) \<Longrightarrow> fst k = snd k" for k
    using assms unfolding moea_input_ok_def by blast
  have pos: "(k, par) \<in> set lnks \<Longrightarrow> 0 < the (link_delay (snd (hd par)))" for k par using assms unfolding moea_input_ok_def by blast
  have d: "dict_ok lnks" using ok by (simp add: nx_input_ok_def)
  have attr: "table_edge lnks x y = Some (edge_attr (link_edge e q))" if e: "e \<in> set lnks" "fst e = (x, y) \<or> fst e = (y, x)" for e x y
  proof -
    have "find (\<lambda>e. fst e = (x, y) \<or> fst e = (y, x)) (rev lnks) = Some e"
    proof (rule find_only)
      fix f assume f: "f \<in> set (rev lnks)" "fst f = (x, y) \<or> fst f = (y, x)"
      have "fst f \<in> set (dict_keys lnks)" "fst e \<in> set (dict_keys lnks)" using f(1) e(1) by auto
      then have "fst f = fst e" using f(2) e(2) rev[of "fst f"] by (auto simp del: set_map)
      then show "f = e" using d f(1) e(1) by (metis eq_key_imp_eq_value prod.collapse set_rev)
    qed (use e in auto)
    then show ?thesis by (simp add: table_edge_def edge_attr_def link_edge_def)
  qed
  have "0 < a_delay a \<and> 0 \<le> a_loss a \<and> a_loss a \<le> 1" if t: "table_edge lnks x y = Some a" for x y a
  proof -
    obtain e where e: "find (\<lambda>e. fst e = (x, y) \<or> fst e = (y, x)) (rev lnks) = Some e" "a = edge_attr (link_edge e q)"
      using t by (auto simp: table_edge_def edge_attr_def link_edge_def)
    obtain k par where kp: "e = (k, par)" by (cases e)
    have m: "(k, par) \<in> set lnks" using find_member[OF e(1)] kp by simp
    then have "\<exists>loss. link_pkt_loss (snd (hd par)) = Some loss \<and> 0 \<le> loss \<and> loss \<le> 100" using ok unfolding nx_input_ok_def by auto
    then show ?thesis using pos[OF m] by (auto simp: e(2) kp edge_attr_def link_edge_def)
  qed
  then show ?thesis unfolding edges_ok_def using attr by (auto simp: link_edge_def)
qed

text \<open>
  C8. The multicast algorithm serves its first group: when networkx keeps its promises, the links are
  measured and have a delay, and the group has a member and none on the switch of the source, then the
  refresh and the run return and raise nothing, unless the random numbers repeat themselves: somewhere
  among the first \<open>nsga2_draws g\<close> of them \<open>g\<close> successive pairs each give one position of the population twice.
  The number \<open>g\<close> is free; the larger it is, the less the condition asks (for \<open>g = 20\<close> and the population of 30, independent
  draws fail it with a probability below the number of draws times \<open>30 ^ -20\<close>). The answer is either empty or
  has for every member a route of the link table from the source to the member's switch.
\<close>

theorem nsga2_serves_group:
  assumes "nx_graph_laws ng" "moea_input_ok lnks" "set (dict_keys lnks) \<subseteq> set (mo_link_queue s)"
    and "mo_state s = 0" "mo_current s = []" "mo_store s = \<lparr>st_inds = [], st_chroms = [], st_graphs = []\<rparr>" "2 \<le> mo_size s"
    and "dst \<noteq> []" "src \<notin> set dst" "lively (mo_size s) g (nsga2_draws g (mo_size s) (mo_gens s) (length lnks) (length dst)) us"
  shows "\<exists>s1 s2 us' ps. moea_update_link_status lnks s = (s1, None) \<and> moea_run ng src dst bw us s1 = Some (Inr (s2, us')) \<and>
    nsga2_get_link s2 = Inr ps \<and> (ps = [] \<or> list_all2 (nx_path (table_edge lnks) src) dst ps)"
proof -
  let ?es = "map (\<lambda>e. link_edge e (mo_link_queue s)) lnks"
  let ?s1 = "s\<lparr>mo_edges := ?es, mo_num_edges := length ?es\<rparr>"
  let ?t = "?s1\<lparr>mo_src := Some src, mo_dst := dst, mo_min_available_bandwidth := bw\<rparr>"
  have ok: "nx_input_ok lnks" using assms(2) by (simp add: moea_input_ok_def)
  have u: "moea_update_link_status lnks s = (?s1, None)"
    using ra_refresh_ok[OF ok subset_refl assms(3), of "[]"] by (simp add: moea_update_link_status_def)
  have "\<exists>s' us'. nsga2_main ng us ?t = Some (Inr (s', us')) \<and> store_ok (ng_base ng) (table_edge lnks) (mo_edges ?t) src (mo_dst ?t) (mo_store s') \<and>
    mo_external s' \<noteq> [] \<and> (\<forall>r \<in> set (mo_external s'). r < length (st_inds (mo_store s'))) \<and> mo_state s' = mo_state ?t"
    by (rule nx_graph_laws.nsga2_main_ok[OF assms(1)]) (use assms(4-10) moea_edges_ok[OF assms(2)] in simp_all)
  then obtain s2 us' where m: "nsga2_main ng us ?t = Some (Inr (s2, us'))" "store_ok (ng_base ng) (table_edge lnks) ?es src dst (mo_store s2)"
    "mo_external s2 \<noteq> []" "\<forall>r \<in> set (mo_external s2). r < length (st_inds (mo_store s2))" "mo_state s2 = 0" using assms(4) by auto
  let ?r = "mo_external s2 ! (length (mo_external s2) - 1)"
  have "?r < length (st_inds (mo_store s2))" using m(3,4) by simp
  then have "st_inds (mo_store s2) ! ?r \<in> set (st_inds (mo_store s2))" by simp
  then have "ind_shape (table_edge lnks) ?es src dst (length (st_chroms (mo_store s2))) (length (st_graphs (mo_store s2))) (st_inds (mo_store s2) ! ?r)"
    using m(2) unfolding store_ok_def store_shape_def by blast
  then have "i_paths (st_inds (mo_store s2) ! ?r) = [] \<or> list_all2 (nx_path (table_edge lnks) src) dst (i_paths (st_inds (mo_store s2) ! ?r))"
    by (simp add: ind_shape_def)
  moreover have "moea_run ng src dst bw us ?s1 = Some (Inr (s2\<lparr>mo_state := 1\<rparr>, us'))" using m(1,5) assms(4) by (simp add: moea_run_def Let_def)
  moreover have "nsga2_get_link (s2\<lparr>mo_state := 1\<rparr>) = Inr (i_paths (st_inds (mo_store s2) ! ?r))" using m(3) by (simp add: nsga2_get_link_def Let_def)
  ultimately show ?thesis using u by blast
qed

text \<open>Draws that take the first and the middle position of a population in turn.\<close>

definition wit_draws :: "nat \<Rightarrow> draws" where
  "wit_draws k = map (\<lambda>i. if even i then 0 else 1 / 2) [0..<Suc k]"

lemma wit_draws_lively: "2 \<le> n \<Longrightarrow> lively n 1 k (wit_draws k)"
proof -
  assume n: "2 \<le> n"
  have "draw_at (wit_draws k) i = (if even i then 0 else 1 / 2)" if "i \<le> k" for i using that by (simp add: draw_at_def wit_draws_def del: upt_Suc)
  moreover have "scale_draw (1 / 2) n \<noteq> 0" using n by (simp add: scale_draw_def le_floor_iff)
  moreover have "scale_draw 0 n = 0" by (simp add: scale_draw_def)
  ultimately show ?thesis by (auto simp: lively_def draws_ok_def wit_draws_def simp del: upt_Suc)
qed

theorem nsga2_serves_group_witness:
  "\<exists>s1 s2 us' ps. moea_update_link_status wit_measured (NSGA2\<lparr>mo_link_queue := [(11, 12)]\<rparr>) = (s1, None) \<and>
     moea_run ref_graphs 12 [11] 0 (wit_draws (nsga2_draws 1 30 80 1 1)) s1 = Some (Inr (s2, us')) \<and>
     nsga2_get_link s2 = Inr ps \<and> (ps = [] \<or> list_all2 (nx_path (table_edge wit_measured) 12) [11] ps)"
proof -
  let ?s = "NSGA2\<lparr>mo_link_queue := [(11, 12)]\<rparr> :: edge_list nsga2"
  have m: "moea_input_ok wit_measured" using wit_measured_ok(1) by (simp add: moea_input_ok_def wit_measured_def)
  have q: "set (dict_keys wit_measured) \<subseteq> set (mo_link_queue ?s)" by (simp add: wit_measured_def)
  have al: "lively (mo_size ?s) 1 (nsga2_draws 1 (mo_size ?s) (mo_gens ?s) (length wit_measured) (length [11 :: nat])) (wit_draws (nsga2_draws 1 30 80 1 1))"
    using wit_draws_lively[of 30 "nsga2_draws 1 30 80 1 1"] by (simp add: NSGA2_def wit_measured_def)
  show ?thesis
    by (rule nsga2_serves_group[OF ref_gs.nx_graph_laws_axioms m q _ _ _ _ _ _ al]) (simp_all add: NSGA2_def)
qed

section \<open>Requests after the first\<close>

text \<open>A request as the task handler makes it: refresh and run; the refresh may raise.\<close>

definition moea_request :: "'g nx_graphs \<Rightarrow> link_table_api \<times> nat \<times> nat list \<times> real \<times> draws \<Rightarrow> 'g nsga2 \<Rightarrow> 'g nsga2 option" where
  "moea_request ng req s =
     (case req of (lnks, src, dst, bw, us) \<Rightarrow>
        case moea_update_link_status lnks s of
          (s1, Some e) \<Rightarrow> None
        | (s1, None) \<Rightarrow> (case moea_run ng src dst bw us s1 of Some (Inr (s2, us')) \<Rightarrow> Some s2 | _ \<Rightarrow> None))"

fun moea_requests :: "'g nx_graphs \<Rightarrow> (link_table_api \<times> nat \<times> nat list \<times> real \<times> draws) list \<Rightarrow> 'g nsga2 \<Rightarrow> 'g nsga2 option" where
  "moea_requests ng [] s = Some s"
| "moea_requests ng (req # reqs) s = Option.bind (moea_request ng req s) (moea_requests ng reqs)"

lemma moea_requests_keep:
  assumes "0 < mo_state s" "\<forall>req \<in> set reqs. nx_input_ok (fst req) \<and> set (dict_keys (fst req)) \<subseteq> set (mo_link_queue s)"
  shows "\<exists>s'. moea_requests ng reqs s = Some s' \<and> mo_state s' = mo_state s + length reqs \<and> mo_external s' = mo_external s \<and> mo_store s' = mo_store s"
  using assms
proof (induction reqs arbitrary: s)
  case (Cons req reqs)
  obtain lnks src dst bw us where req: "req = (lnks, src, dst, bw, us)" by (cases req)
  let ?es = "map (\<lambda>e. link_edge e (mo_link_queue s)) lnks"
  let ?t = "s\<lparr>mo_edges := ?es, mo_num_edges := length ?es, mo_src := Some src, mo_dst := dst, mo_min_available_bandwidth := bw, mo_state := mo_state s + 1\<rparr>"
  have "nx_input_ok lnks" "set (dict_keys lnks) \<subseteq> set (mo_link_queue s)" using Cons.prems(2) by (auto simp: req)
  from ra_refresh_ok[OF this(1) subset_refl this(2), of "[]"] have "moea_request ng req s = Some ?t"
    using Cons.prems(1) by (simp add: moea_request_def req moea_update_link_status_def moea_run_def Let_def)
  moreover have "0 < mo_state ?t" "\<forall>req \<in> set reqs. nx_input_ok (fst req) \<and> set (dict_keys (fst req)) \<subseteq> set (mo_link_queue ?t)" using Cons.prems(2) by auto
  ultimately show ?case using Cons.IH[of ?t] by auto
qed simp

text \<open>
  C38. Every later group gets the tree of the first one: once the algorithm has run, any further requests are
  served without running it, whatever their source, their members and their links, and the answer is
  one of two sets of paths the first run left, the first or the last of its population in turn.
\<close>

theorem later_groups_get_first_tree:
  assumes "0 < mo_state s" "mo_external s \<noteq> []" "\<forall>req \<in> set reqs. nx_input_ok (fst req) \<and> set (dict_keys (fst req)) \<subseteq> set (mo_link_queue s)"
  shows "\<exists>s'. moea_requests ng reqs s = Some s' \<and>
    nsga2_get_link s' = Inr (i_paths (st_inds (mo_store s) ! (if even (mo_state s + length reqs) then hd (mo_external s) else last (mo_external s))))"
proof -
  obtain s' where s: "moea_requests ng reqs s = Some s'" "mo_state s' = mo_state s + length reqs" "mo_external s' = mo_external s" "mo_store s' = mo_store s"
    using moea_requests_keep[OF assms(1,3), of ng] by blast
  have "nsga2_get_link s' = Inr (i_paths (st_inds (mo_store s) ! (if even (mo_state s + length reqs) then hd (mo_external s) else last (mo_external s))))"
    using assms(2) by (simp add: nsga2_get_link_def Let_def s(2-4) hd_conv_nth last_conv_nth even_iff_mod_2_eq_zero)
  then show ?thesis using s(1) by blast
qed

definition wit_after_first :: "edge_list nsga2" where
  "wit_after_first = NSGA2\<lparr>mo_state := 1, mo_link_queue := [(11, 12)], mo_external := [0],
     mo_store := \<lparr>st_inds = [(wit_individual 3 0)\<lparr>i_paths := [[12, 11]]\<rparr>], st_chroms = [], st_graphs = []\<rparr>\<rparr>"

theorem later_groups_get_first_tree_witness:
  "\<exists>s'. moea_requests ref_graphs [(wit_measured, 11, [12], 0, [])] wit_after_first = Some s' \<and> nsga2_get_link s' = Inr [[12, 11]]"
proof -
  let ?reqs = "[(wit_measured, 11, [12], 0, [])] :: (link_table_api \<times> nat \<times> nat list \<times> real \<times> draws) list"
  have h: "0 < mo_state wit_after_first" "mo_external wit_after_first \<noteq> []"
    "\<forall>req \<in> set ?reqs. nx_input_ok (fst req) \<and> set (dict_keys (fst req)) \<subseteq> set (mo_link_queue wit_after_first)"
    using wit_measured_ok(1) by (simp_all add: wit_after_first_def) (simp add: wit_measured_def)
  from later_groups_get_first_tree[OF h, of ref_graphs] show ?thesis by (simp add: wit_after_first_def NSGA2_def)
qed

end
