(* ===== verification/Path_DFS.thy ===== *)
theory Path_DFS
  imports Dijkstra_Route
begin

text \<open>
  The module functions \<open>find_path_dfs\<close> and \<open>find_edge\<close> of \<open>RouteAlgorithm.py\<close>, which give the
  genetic algorithm its initial population and the edges of a path. The stacks \<open>path\<close> and
  \<open>search_space\<close> are kept with their top first; a list of candidates is popped from its end, as
  the code does. The loop has no bound of its own: it is proved to end, and to enumerate exactly
  the simple paths up to the hop limit.
\<close>

section \<open>The loop\<close>

text \<open>
  The inner loop drops the exhausted levels; \<open>Inr None\<close> when the search space is empty, which
  ends the search.
\<close>

fun unwind :: "nat list \<Rightarrow> nat list list \<Rightarrow> pyerr + (nat list \<times> nat list list) option" where
  "unwind path [] = Inl IndexError"
| "unwind path (level # rest) =
     (if level = [] then
        (case path of
           [] \<Rightarrow> Inl IndexError
         | _ # path' \<Rightarrow> (if rest = [] then Inr None else unwind path' rest))
      else Inr (Some (path, level # rest)))"

partial_function (option) dfs_loop :: "nat \<Rightarrow> nat \<Rightarrow> vertex list \<Rightarrow> nat list \<Rightarrow> nat list list \<Rightarrow>
    nat list list \<Rightarrow> (pyerr + nat list list) option" where
  [code]: "dfs_loop des max_hop vs path space path_record =
     (case space of
        [] \<Rightarrow> Some (Inl IndexError)
      | level # rest \<Rightarrow>
          (if level \<noteq> [] then
             (let pop_vertex = last level; path' = pop_vertex # path; space' = butlast level # rest
              in if pop_vertex = des
                 then dfs_loop des max_hop vs path space' (path_record @ [rev path'])
                 else if length path' < max_hop
                 then (case py_nth vs pop_vertex of
                         Inl e \<Rightarrow> Some (Inl e)
                       | Inr v \<Rightarrow>
                           dfs_loop des max_hop vs path'
                             (filter (\<lambda>i. i \<notin> set path') (v_neighbors v) # space') path_record)
                 else dfs_loop des max_hop vs path space' path_record)
           else
             (case unwind path space of
                Inl e \<Rightarrow> Some (Inl e)
              | Inr None \<Rightarrow> Some (Inr path_record)
              | Inr (Some (path', space')) \<Rightarrow> dfs_loop des max_hop vs path' space' path_record)))"

definition find_path_dfs :: "nat \<Rightarrow> nat \<Rightarrow> nat \<Rightarrow> vertex list \<Rightarrow> (pyerr + nat list list) option" where
  "find_path_dfs sou_vertex des_vertexs max_hop vs =
     (case py_nth vs sou_vertex of
        Inl e \<Rightarrow> Some (Inl e)
      | Inr v \<Rightarrow> dfs_loop des_vertexs max_hop vs [sou_vertex] [v_neighbors v] [])"

text \<open>\<open>find_edge\<close> scans the shorter of the two neighbour lists; -1 when the vertices are not neighbours.\<close>

definition scan_edge :: "vertex \<Rightarrow> nat \<Rightarrow> pyerr + int" where
  "scan_edge x v =
     (case list_index (take (v_degree x) (v_neighbors x)) v of
        None \<Rightarrow> (if length (v_neighbors x) < v_degree x then Inl IndexError else Inr (- 1))
      | Some i \<Rightarrow> res_bind (py_nth (v_edges x) i) (\<lambda>k. Inr (int k)))"

definition find_edge :: "nat \<Rightarrow> nat \<Rightarrow> vertex list \<Rightarrow> pyerr + int" where
  "find_edge vertex1 vertex2 vs =
     res_bind (py_nth vs vertex1) (\<lambda>x1.
     res_bind (py_nth vs vertex2) (\<lambda>x2.
     if v_degree x1 < v_degree x2 then scan_edge x1 vertex2 else scan_edge x2 vertex1))"

section \<open>The recursive search\<close>

text \<open>
  The reference: the paths below the stack \<open>path\<close> that continue with one of the candidates \<open>cs\<close>, the
  last candidate first.
\<close>

function paths_below :: "nat \<Rightarrow> nat \<Rightarrow> vertex list \<Rightarrow> nat list \<Rightarrow> nat list \<Rightarrow> nat list list" where
  "paths_below des max_hop vs path cs =
     concat (map (\<lambda>v.
       if v = des then [rev (v # path)]
       else if Suc (length path) < max_hop
       then paths_below des max_hop vs (v # path) (filter (\<lambda>i. i \<notin> set (v # path)) (nbs_of vs v))
       else []) (rev cs))"
  by pat_completeness auto
termination
  by (relation "measure (\<lambda>(des, max_hop, vs, path, cs). max_hop - length path)") auto

declare paths_below.simps [simp del]

lemma paths_below_Nil: "paths_below des h vs path [] = []"
  by (simp add: paths_below.simps)

lemma paths_below_snoc:
  "paths_below des h vs path (cs @ [v]) =
     (if v = des then [rev (v # path)]
      else if Suc (length path) < h
      then paths_below des h vs (v # path) (filter (\<lambda>i. i \<notin> set (v # path)) (nbs_of vs v))
      else []) @ paths_below des h vs path cs"
  by (subst (1 3) paths_below.simps) simp

lemma dfs_loop_return:
  assumes "sp \<noteq> []" "length path = length sp"
  shows "dfs_loop des h vs (v # path) ([] # sp) rec = dfs_loop des h vs path sp rec"
proof (cases "hd sp = []")
  case True
  then obtain sp' where sp: "sp = [] # sp'" using assms(1) by (cases sp) auto
  have "unwind (v # path) ([] # sp) = unwind path sp" using sp by simp
  then show ?thesis
    by (subst (1 2) dfs_loop.simps) (simp add: sp)
next
  case False
  then obtain t sp' where "sp = t # sp'" "t \<noteq> []" using assms(1) by (cases sp) auto
  then show ?thesis by (subst dfs_loop.simps) simp
qed

lemma dfs_loop_explore:
  assumes "vertexs_ok vs" "\<forall>c \<in> set cs. c < length vs" "length path = Suc (length rest)"
  shows "dfs_loop des h vs path (cs # rest) rec = dfs_loop des h vs path ([] # rest) (rec @ paths_below des h vs path cs)"
  using assms(2,3)
proof (induction "h - length path" arbitrary: path rest cs rec rule: less_induct)
  case (less path rest cs rec)
  from less.prems show ?case
  proof (induction cs arbitrary: rec rule: rev_induct)
    case Nil
    then show ?case by (simp add: paths_below_Nil)
  next
    case (snoc v cs)
    note IH = snoc.IH[OF _ snoc.prems(2)]
    have v: "v < length vs" using snoc.prems by simp
    consider "v = des" | "v \<noteq> des" "Suc (length path) < h" | "v \<noteq> des" "\<not> Suc (length path) < h" by blast
    then show ?case
    proof cases
      case 1
      then have "dfs_loop des h vs path ((cs @ [v]) # rest) rec = dfs_loop des h vs path (cs # rest) (rec @ [rev (v # path)])"
        by (subst dfs_loop.simps) (simp add: Let_def)
      then show ?thesis using IH snoc.prems 1 by (simp add: paths_below_snoc)
    next
      case 2
      let ?ns = "filter (\<lambda>i. i \<notin> set (v # path)) (nbs_of vs v)"
      have ns: "\<forall>c \<in> set ?ns. c < length vs"
        using assms(1) v nth_mem unfolding vertexs_ok_def by fastforce
      have "dfs_loop des h vs path ((cs @ [v]) # rest) rec = dfs_loop des h vs (v # path) (?ns # cs # rest) rec"
        using 2 v by (subst dfs_loop.simps) (simp add: Let_def py_nth_def)
      also have "\<dots> = dfs_loop des h vs (v # path) ([] # cs # rest) (rec @ paths_below des h vs (v # path) ?ns)"
        using less.hyps[OF _ ns, of "v # path" "cs # rest"] 2 snoc.prems(2) by simp
      also have "\<dots> = dfs_loop des h vs path (cs # rest) (rec @ paths_below des h vs (v # path) ?ns)"
        using snoc.prems(2) by (intro dfs_loop_return) auto
      finally show ?thesis using IH snoc.prems(1) 2 by (simp add: paths_below_snoc)
    next
      case 3
      then have "dfs_loop des h vs path ((cs @ [v]) # rest) rec = dfs_loop des h vs path (cs # rest) rec"
        by (subst dfs_loop.simps) (simp add: Let_def)
      then show ?thesis using IH snoc.prems 3 by (simp add: paths_below_snoc)
    qed
  qed
qed

lemma find_path_dfs_eval:
  assumes ok: "vertexs_ok vs" and s: "s < length vs"
  shows "find_path_dfs s des h vs = Some (Inr (paths_below des h vs [s] (nbs_of vs s)))"
proof -
  have "\<forall>c \<in> set (nbs_of vs s). c < length vs" using ok s nth_mem unfolding vertexs_ok_def by fastforce
  then have "find_path_dfs s des h vs = dfs_loop des h vs [s] [[]] ([] @ paths_below des h vs [s] (nbs_of vs s))"
    using dfs_loop_explore[OF ok, of "nbs_of vs s" "[s]" "[]"] s by (simp add: find_path_dfs_def py_nth_def)
  also have "\<dots> = Some (Inr (paths_below des h vs [s] (nbs_of vs s)))"
    by (subst dfs_loop.simps) simp
  finally show ?thesis .
qed

section \<open>What the search finds\<close>

fun continues :: "nat \<Rightarrow> nat \<Rightarrow> vertex list \<Rightarrow> nat list \<Rightarrow> nat list \<Rightarrow> bool" where
  "continues des h vs path [] = False"
| "continues des h vs path [v] = (v = des)"
| "continues des h vs path (v # w # q) =
     (v \<noteq> des \<and> Suc (length path) < h \<and> w \<in> set (nbs_of vs v) \<and> w \<notin> set (v # path) \<and>
      continues des h vs (v # path) (w # q))"

lemma paths_below_iff:
  "p \<in> set (paths_below des h vs path cs) \<longleftrightarrow>
     (\<exists>q. p = rev path @ q \<and> q \<noteq> [] \<and> hd q \<in> set cs \<and> continues des h vs path q)"
proof (induction des h vs path cs arbitrary: p rule: paths_below.induct)
  case (1 des h vs path cs)
  let ?ns = "\<lambda>v. filter (\<lambda>i. i \<notin> set (v # path)) (nbs_of vs v)"
  let ?from = "\<lambda>v. if v = des then [rev (v # path)]
      else if Suc (length path) < h then paths_below des h vs (v # path) (?ns v) else []"
  have one: "p \<in> set (?from v) \<longleftrightarrow> (\<exists>q. p = rev path @ v # q \<and> continues des h vs path (v # q))" if "v \<in> set cs" for v p
  proof (cases "v \<noteq> des \<and> Suc (length path) < h")
    case True
    then have "p \<in> set (?from v) \<longleftrightarrow>
        (\<exists>q. p = rev (v # path) @ q \<and> q \<noteq> [] \<and> hd q \<in> set (?ns v) \<and> continues des h vs (v # path) q)"
      using "1.IH"[of v p] that by simp
    also have "\<dots> \<longleftrightarrow> (\<exists>q. p = rev path @ v # q \<and> continues des h vs path (v # q))"
    proof -
      have "(q \<noteq> [] \<and> hd q \<in> set (?ns v) \<and> continues des h vs (v # path) q) = continues des h vs path (v # q)" for q
        using True by (cases q) auto
      then show ?thesis by simp
    qed
    finally show ?thesis .
  next
    case False
    then show ?thesis by (auto elim: continues.elims)
  qed
  have "p \<in> set (paths_below des h vs path cs) \<longleftrightarrow> (\<exists>v \<in> set cs. p \<in> set (?from v))"
    by (subst paths_below.simps) auto
  then show ?case using one by (auto simp: neq_Nil_conv)
qed

lemma continues_iff:
  "q \<noteq> [] \<Longrightarrow> continues des h vs path q \<longleftrightarrow>
     last q = des \<and> des \<notin> set (butlast q) \<and> walk (nbs_of vs) q \<and> (length q = 1 \<or> length path + length q \<le> h) \<and>
     distinct (tl q) \<and> set (tl q) \<inter> insert (hd q) (set path) = {}"
  by (induction des h vs path q rule: continues.induct) auto

lemma last_not_butlast: "distinct xs \<Longrightarrow> xs \<noteq> [] \<Longrightarrow> last xs \<notin> set (butlast xs)"
  by (metis append_butlast_last_id distinct_append disjoint_iff list.set_intros(1))

lemma find_path_dfs_paths:
  assumes ok: "vertexs_ok vs" and s: "s < length vs" and ne: "s \<noteq> des" and loop: "s \<notin> set (nbs_of vs s)"
  shows "\<exists>ps. find_path_dfs s des max_hop vs = Some (Inr ps) \<and>
    set ps = {p. walk_from_to (nbs_of vs) s des p \<and> distinct p \<and> length p \<le> max 2 max_hop}"
proof -
  have "p \<in> set (paths_below des max_hop vs [s] (nbs_of vs s)) \<longleftrightarrow>
      walk_from_to (nbs_of vs) s des p \<and> distinct p \<and> length p \<le> max 2 max_hop" for p
  proof
    assume "p \<in> set (paths_below des max_hop vs [s] (nbs_of vs s))"
    then obtain q where q: "p = s # q" "q \<noteq> []" "hd q \<in> set (nbs_of vs s)" "continues des max_hop vs [s] q"
      by (auto simp: paths_below_iff)
    note c = q(4)[unfolded continues_iff[OF q(2)]]
    obtain v q' where v: "q = v # q'" using q(2) by (cases q) auto
    then show "walk_from_to (nbs_of vs) s des p \<and> distinct p \<and> length p \<le> max 2 max_hop"
      using c q(1,3) loop by (auto simp: walk_from_to_def)
  next
    assume a: "walk_from_to (nbs_of vs) s des p \<and> distinct p \<and> length p \<le> max 2 max_hop"
    then obtain v q where p: "p = s # v # q"
      using ne by (cases p; cases "tl p") (auto simp: walk_from_to_def)
    have "last (v # q) \<notin> set (butlast (v # q))"
      using a p by (intro last_not_butlast) auto
    then have d: "des \<notin> set (butlast (v # q))" using a p by (simp add: walk_from_to_def)
    have l: "length (v # q) = 1 \<or> length [s] + length (v # q) \<le> max_hop"
      using a p by (cases q) (auto simp: max_def split: if_splits)
    have "continues des max_hop vs [s] (v # q)"
      using a p d l unfolding continues_iff[OF list.distinct(2)] by (simp add: walk_from_to_def)
    moreover have "v \<in> set (nbs_of vs s)" using a p by (simp add: walk_from_to_def)
    ultimately show "p \<in> set (paths_below des max_hop vs [s] (nbs_of vs s))"
      using p by (simp add: paths_below_iff)
  qed
  then show ?thesis using find_path_dfs_eval[OF ok s] by auto
qed

text \<open>Different candidates lead to different paths, so no path is found twice.\<close>

lemma paths_below_distinct:
  assumes "vertexs_ok vs" "\<forall>v \<in> set vs. distinct (v_neighbors v)"
  shows "distinct cs \<Longrightarrow> \<forall>c \<in> set cs. c < length vs \<Longrightarrow> distinct (paths_below des h vs path cs)"
proof (induction "h - length path" arbitrary: path cs rule: less_induct)
  case less
  from less.prems show ?case
  proof (induction cs rule: rev_induct)
    case Nil
    show ?case by (simp add: paths_below_Nil)
  next
    case (snoc v cs)
    let ?ns = "filter (\<lambda>i. i \<notin> set (v # path)) (nbs_of vs v)"
    let ?A = "if v = des then [rev (v # path)] else if Suc (length path) < h then paths_below des h vs (v # path) ?ns else []"
    have v: "vs ! v \<in> set vs" "v \<notin> set cs" using snoc.prems by auto
    then have ns: "distinct ?ns" "\<forall>c \<in> set ?ns. c < length vs" using assms unfolding vertexs_ok_def by fastforce+
    have "distinct ?A" using less.hyps[OF _ ns, of "v # path"] by auto
    moreover have "distinct (paths_below des h vs path cs)" using snoc by simp
    moreover have "p \<notin> set (paths_below des h vs path cs)" if "p \<in> set ?A" for p
    proof -
      have "\<exists>q. p = rev path @ v # q" using that by (auto simp: paths_below_iff split: if_splits)
      then show ?thesis using v(2) by (auto simp: paths_below_iff)
    qed
    ultimately show ?case unfolding paths_below_snoc distinct_append by blast
  qed
qed

lemma find_path_dfs_distinct:
  assumes "vertexs_ok vs" "s < length vs" "\<forall>v \<in> set vs. distinct (v_neighbors v)" "find_path_dfs s des h vs = Some (Inr ps)"
  shows "distinct ps"
proof -
  have "vs ! s \<in> set vs" using assms(2) by simp
  then have "distinct (nbs_of vs s)" "\<forall>c \<in> set (nbs_of vs s). c < length vs" using assms(1,3) unfolding vertexs_ok_def by blast+
  note d = paths_below_distinct[OF assms(1,3) this, of des h "[s]"]
  have "ps = paths_below des h vs [s] (nbs_of vs s)" using assms(4) find_path_dfs_eval[OF assms(1,2), of des h] by simp
  then show ?thesis using d by (simp only:)
qed

text \<open>
  C25. On a graph whose neighbours are vertices, the depth-first search from \<open>s\<close> to another vertex
  ends without an exception, and returns exactly the simple paths from \<open>s\<close> to \<open>des\<close> over
  neighbours with at most \<open>max_hop\<close> vertices (2 if the limit is smaller). When no vertex lists a
  neighbour twice, as in the program, where the neighbours are the keys of a dictionary, it returns each path once.
\<close>

theorem find_path_dfs_exact:
  assumes "vertexs_ok vs" "s < length vs" "s \<noteq> des" "s \<notin> set (nbs_of vs s)"
  shows "\<exists>ps. find_path_dfs s des max_hop vs = Some (Inr ps) \<and>
    set ps = {p. walk_from_to (nbs_of vs) s des p \<and> distinct p \<and> length p \<le> max 2 max_hop} \<and>
    ((\<forall>v \<in> set vs. distinct (v_neighbors v)) \<longrightarrow> distinct ps)"
  using find_path_dfs_paths[OF assms] find_path_dfs_distinct[OF assms(1,2)] by blast

theorem find_path_dfs_exact_witness:
  "\<exists>ps. find_path_dfs 0 2 6 wit_vertexs = Some (Inr ps) \<and> set ps = {[0, 1, 2], [0, 2]} \<and> length ps = 2"
proof -
  have "vertexs_ok wit_vertexs" "0 < length wit_vertexs" "(0::nat) \<noteq> 2" "0 \<notin> set (nbs_of wit_vertexs 0)"
    by (simp_all add: vertexs_ok_def wit_vertexs_def)
  from find_path_dfs_exact[OF this, of 6] obtain ps where ps: "find_path_dfs 0 2 6 wit_vertexs = Some (Inr ps)"
    "set ps = {p. walk_from_to (nbs_of wit_vertexs) 0 2 p \<and> distinct p \<and> length p \<le> max 2 6}"
    "(\<forall>v \<in> set wit_vertexs. distinct (v_neighbors v)) \<longrightarrow> distinct ps" by blast
  have "distinct ps" using ps(3) by (simp add: wit_vertexs_def)
  moreover have "set ps = {[0, 1, 2], [0, 2]}"
  proof -
    have "p = [0, 1, 2] \<or> p = [0, 2]" if p: "walk_from_to (nbs_of wit_vertexs) 0 2 p" "distinct p" for p
    proof -
      obtain y q where 1: "p = 0 # y # q" "y \<in> {1, 2}"
        using p(1) by (cases p rule: remdups_adj.cases) (auto simp: walk_from_to_def wit_vertexs_def)
      show ?thesis
      proof (cases q)
        case (Cons z r)
        then show ?thesis using p 1 by (cases r; auto simp: walk_from_to_def wit_vertexs_def)
      qed (use p 1 in \<open>simp add: walk_from_to_def\<close>)
    qed
    moreover have "walk_from_to (nbs_of wit_vertexs) 0 2 [0, 1, 2]" "walk_from_to (nbs_of wit_vertexs) 0 2 [0, 2]"
      by (simp_all add: walk_from_to_def wit_vertexs_def)
    ultimately show ?thesis unfolding ps(2) by auto
  qed
  ultimately show ?thesis using ps(1) distinct_card[of ps] by auto
qed

end
