(* ===== verification/GA_Operators.thy ===== *)
theory GA_Operators
  imports Path_DFS
begin

text \<open>
  The static methods \<open>_list_cross\<close> and \<open>_remove_redundancy\<close> of the class \<open>GAPopulation\<close>
  (\<open>RouteAlgorithm.py\<close>), which recombine two paths and cut the loops out of a path, with the
  proofs that both keep walks walks and that the second one leaves no vertex twice.
\<close>

section \<open>Crossover of two paths\<close>

text \<open>
  \<open>Some True\<close>, \<open>Some False\<close> and \<open>None\<close> are the three values the method returns. With three common
  vertices the code takes the last of them with \<open>pop()\<close>. When the chosen section is reversed in
  \<open>list2\<close> the code builds the exchanged lst but binds them to its own variables only: the
  individuals do not change and the result is compared with the rebound lst.
\<close>

definition list_cross :: "nat list \<Rightarrow> nat list \<Rightarrow> draws \<Rightarrow> pyerr + ((nat list \<times> nat list) \<times> bool option \<times> draws)" where
  "list_cross list1 list2 us =
     (if list1 = list2 then Inr ((list1, list2), None, us)
      else
        let pre_cmp_list = filter (\<lambda>i. i \<in> set list2) list1
        in if length pre_cmp_list = 2 then Inr ((list1, list2), Some False, us)
           else if length pre_cmp_list = 3 then
             (let item = last pre_cmp_list
              in res_bind (py_index list1 item) (\<lambda>l1_num.
                 res_bind (py_index list2 item) (\<lambda>l2_num.
                 if l1_num = 1 \<and> l2_num = 1 \<or> l1_num + 2 = length list1 \<and> l2_num + 2 = length list2
                 then Inr ((list1, list2), Some False, us)
                 else res_bind (randint 0 1 us) (\<lambda>(r, us1).
                   if r \<noteq> 0
                   then Inr ((take l2_num list2 @ drop l1_num list1, take l1_num list1 @ drop l2_num list2), Some True, us1)
                   else Inr ((take (Suc l1_num) list1 @ drop (Suc l2_num) list2,
                              take (Suc l2_num) list2 @ drop (Suc l1_num) list1), Some True, us1)))))
           else if length pre_cmp_list < 2 then Inl ValueError
           else
             res_bind (randint 0 (length pre_cmp_list - 2) us) (\<lambda>(rnd_head, us1).
               let item_head = pre_cmp_list ! rnd_head; behind = drop (Suc rnd_head) pre_cmp_list
               in res_bind (randint 0 (length behind - 1) us1) (\<lambda>(rnd_end, us2).
                  let item_end = behind ! rnd_end
                  in res_bind (py_index list1 item_head) (\<lambda>l1_head.
                     res_bind (py_index list1 item_end) (\<lambda>l1_end.
                     if l1_head > l1_end then Inl AssertionError
                     else res_bind (py_index list2 item_head) (\<lambda>l2_head.
                          res_bind (py_index list2 item_end) (\<lambda>l2_end.
                          if l2_head > l2_end
                          then (let l1_exchange = (if l1_head = 0 then [] else take (l1_end - (l1_head - 1)) (drop (l1_head - 1) list1));
                                    l2_exchange = rev (take (l2_head - Suc l2_end) (drop (Suc l2_end) list2));
                                    new1 = take (Suc l1_head) list1 @ l2_exchange @ drop l1_end list1;
                                    new2 = take (Suc l2_end) list2 @ l1_exchange @ drop l2_head list2
                                in Inr ((list1, list2),
                                        (if new1 = list1 \<and> new2 = list2 then None else Some True), us2))
                          else (let new1 = take l1_head list1 @ take (l2_end - l2_head) (drop l2_head list2) @ drop l1_end list1;
                                    new2 = take l2_head list2 @ take (l1_end - l1_head) (drop l1_head list1) @ drop l2_end list2
                                in Inr ((new1, new2),
                                        (if new1 = list1 \<and> new2 = list2 then None else Some True), us2)))))))))"

section \<open>Removing loops\<close>

text \<open>\<open>red_dict_temp\<close>: the positions of every vertex; \<open>red_dict\<close>: those of the vertices that occur twice.\<close>

definition position_dict :: "nat list \<Rightarrow> (nat, nat list) pydict" where
  "position_dict lst =
     foldl (\<lambda>d (num, item). case dict_get d item of None \<Rightarrow> dict_set item [num] d | Some l \<Rightarrow> dict_set item (l @ [num]) d)
       [] (enumerate 0 lst)"

definition red_insert :: "(nat, nat \<times> nat) pydict \<Rightarrow> nat \<times> nat list \<Rightarrow> pyerr + (nat, nat \<times> nat) pydict" where
  "red_insert d e =
     (case e of (item, l) \<Rightarrow>
        (if length l \<ge> 3 then Inl AssertionError
         else if length l = 2 then Inr (dict_set item (l ! 0, l ! 1) d) else Inr d))"

definition red_dict_of :: "nat list \<Rightarrow> pyerr + (nat, nat \<times> nat) pydict" where
  "red_dict_of lst = res_fold red_insert [] (position_dict lst)"

text \<open>The first position of a repeated vertex with the vertex, and the last one with its vertex.\<close>

definition red_span :: "nat list \<Rightarrow> (nat, nat \<times> nat) pydict \<Rightarrow> (nat \<times> nat option) \<times> (nat \<times> nat option)" where
  "red_span lst red =
     foldl (\<lambda>((num_min, head_item), (num_max, end_item)) (key, (head_num, end_num)).
        (if head_num < num_min then (head_num, Some key) else (num_min, head_item),
         if end_num > num_max then (end_num, Some key) else (num_max, end_item)))
       ((length lst, None), (0, None)) red"

text \<open>
  The loop that chooses the sections to keep. \<open>done_secs\<close> are the finished sections of
  \<open>sel_path_section\<close>, \<open>cur\<close> is the head of the last one, whose end is not chosen yet (\<open>None\<close> while
  \<open>sel_path_section\<close> is empty). The result is \<^term>\<open>None\<close> where the code returns \<open>False\<close>.
\<close>

function choose_sections :: "nat list \<Rightarrow> (nat, nat \<times> nat) pydict \<Rightarrow> nat list \<Rightarrow> nat option \<Rightarrow> nat \<Rightarrow> nat \<Rightarrow>
    (nat \<times> nat) list \<Rightarrow> nat option \<Rightarrow> nat list \<Rightarrow> draws \<Rightarrow> pyerr + ((nat \<times> nat) list option \<times> draws)" where
  "choose_sections lst red red_list_num end_item num_point i done_secs cur sel_item_list us =
     (if num_point \<ge> length red_list_num then Inl IndexError
      else
        let red_num = red_list_num ! num_point; red_item = lst ! red_num
        in case dict_get red red_item of
             None \<Rightarrow> Inl KeyError
           | Some sel_nums \<Rightarrow>
               (if red_item \<in> set sel_item_list then Inr (None, us)
                else
                  let pick = res_bind (randint 0 1 us) (\<lambda>(r, us1).
                         let origin_num = (if r = 0 then fst sel_nums else snd sel_nums)
                         in res_bind (py_index red_list_num origin_num) (\<lambda>num. Inr (origin_num, Suc num, us1)));
                      advance = (\<lambda>done_secs'. res_bind pick (\<lambda>(origin_num, num_point', us1).
                         if Some red_item = end_item then Inr (Some (done_secs' @ [(snd sel_nums, length lst - 1)]), us1)
                         else if Suc i > length red_list_num then Inr (None, us1)
                         else choose_sections lst red red_list_num end_item num_point' (Suc i) done_secs'
                                (Some origin_num) (sel_item_list @ [red_item]) us1))
                  in case cur of
                       None \<Rightarrow> advance (done_secs @ [(0, fst sel_nums)])
                     | Some last_num \<Rightarrow>
                         (if last_num > max (fst sel_nums) (snd sel_nums)
                          then choose_sections lst red red_list_num end_item (Suc num_point) i done_secs cur sel_item_list us
                          else if last_num < min (fst sel_nums) (snd sel_nums)
                          then advance (done_secs @ [(last_num, fst sel_nums)])
                          else advance (done_secs @ [(last_num, snd sel_nums)]))))"
  by pat_completeness auto
termination
  by (relation "measures [\<lambda>(lst, red, rl, e, np, i, c, cur, s, us). Suc (length rl) - i,
      \<lambda>(lst, red, rl, e, np, i, c, cur, s, us). length rl - np]") auto

declare choose_sections.simps [simp del]

definition keep_sections :: "nat list \<Rightarrow> (nat \<times> nat) list \<Rightarrow> nat list" where
  "keep_sections lst sections =
     concat (map (\<lambda>(a, b). map (nth lst) [a..<b]) sections) @ [lst ! (length lst - 1)]"

definition remove_redundancy :: "nat list \<Rightarrow> draws \<Rightarrow> pyerr + (nat list option \<times> draws)" where
  "remove_redundancy lst us =
     res_bind (red_dict_of lst) (\<lambda>red.
       if red = [] then Inr (Some lst, us)
       else
         let ((num_min, head_item), (num_max, end_item)) = red_span lst red
         in if head_item = end_item then Inr (Some (take num_min lst @ drop num_max lst), us)
            else
              let red_list_num = filter (\<lambda>num. lst ! num \<in> set (dict_keys red)) [num_min..<Suc num_max]
              in res_bind (choose_sections lst red red_list_num end_item 0 0 [] None [] us) (\<lambda>(r, us1).
                 Inr (map_option (keep_sections lst) r, us1)))"

section \<open>Crossover keeps walks\<close>

lemma walk_append: "walk nb (xs @ x # ys) \<longleftrightarrow> walk nb (xs @ [x]) \<and> walk nb (x # ys)"
  by (induction nb xs rule: walk.induct) (cases ys; auto)+

lemma walk_splice:
  assumes "walk nb (a1 @ h # m1 @ e # b1)" "walk nb (a2 @ h # m2 @ e # b2)"
  shows "walk nb (a1 @ h # m2 @ e # b1)"
proof -
  have "walk nb (a1 @ [h])" "walk nb (e # b1)"
    using assms(1) walk_append[of nb a1 h "m1 @ e # b1"] walk_append[of nb "h # m1" e b1] by auto
  moreover have "walk nb (h # m2 @ [e])"
    using assms(2) walk_append[of nb a2 h "m2 @ e # b2"] walk_append[of nb "h # m2" e b2] by auto
  ultimately show ?thesis
    using walk_append[of nb a1 h "m2 @ e # b1"] walk_append[of nb "h # m2" e b1] by auto
qed

lemma splice_ends:
  "hd (a1 @ h # m2 @ e # b1) = hd (a1 @ h # m1 @ e # b1)" "last (a1 @ h # m2 @ e # b1) = last (a1 @ h # m1 @ e # b1)"
  by (cases a1) auto

text \<open>A path whose vertices occur at most twice, as crossover leaves it.\<close>

definition at_most_twice :: "nat list \<Rightarrow> bool" where
  "at_most_twice xs \<longleftrightarrow> (\<forall>x. count_list xs x \<le> 2)"

lemma count_distinct: "distinct xs \<Longrightarrow> count_list xs x \<le> 1"
  by (induction xs) auto

lemma distinct_twice: "distinct xs \<Longrightarrow> at_most_twice xs"
  unfolding at_most_twice_def
proof
  fix x assume "distinct xs"
  then show "count_list xs x \<le> 2" using count_distinct[of xs x] by linarith
qed

lemma append_twice:
  assumes "distinct xs" "distinct ys"
  shows "at_most_twice (xs @ ys)"
  unfolding at_most_twice_def
proof
  fix x
  show "count_list (xs @ ys) x \<le> 2"
    using count_distinct[OF assms(1), of x] count_distinct[OF assms(2), of x] by (simp add: count_list_append)
qed

lemma splice_twice:
  assumes "distinct (a1 @ h # m1 @ e # b1)" "distinct (a2 @ h # m2 @ e # b2)"
  shows "at_most_twice (a1 @ h # m2 @ e # b1)"
  unfolding at_most_twice_def
proof
  fix x
  have "count_list (a1 @ h # m2 @ e # b1) x = count_list (a1 @ h # e # b1) x + count_list m2 x"
    by (simp add: count_list_append)
  moreover have "distinct (a1 @ h # e # b1)" "distinct m2" using assms by auto
  ultimately show "count_list (a1 @ h # m2 @ e # b1) x \<le> 2"
    using count_distinct[of "a1 @ h # e # b1" x] count_distinct[of m2 x] by linarith
qed

lemma split_two:
  assumes "i < j" "j < length xs"
  shows "xs = take i xs @ xs ! i # take (j - Suc i) (drop (Suc i) xs) @ xs ! j # drop (Suc j) xs"
    and "take (j - i) (drop i xs) = xs ! i # take (j - Suc i) (drop (Suc i) xs)"
    and "drop j xs = xs ! j # drop (Suc j) xs"
proof -
  show d: "drop j xs = xs ! j # drop (Suc j) xs" using assms by (simp add: Cons_nth_drop_Suc)
  have "drop i xs = xs ! i # drop (Suc i) xs" using assms by (simp add: Cons_nth_drop_Suc)
  then show t: "take (j - i) (drop i xs) = xs ! i # take (j - Suc i) (drop (Suc i) xs)"
    using assms by (simp add: take_Cons' Suc_diff_Suc)
  have "xs = take i xs @ take (j - i) (drop i xs) @ drop j xs"
    using assms by (metis append_assoc append_take_drop_id le_add_diff_inverse less_imp_le take_add)
  then show "xs = take i xs @ xs ! i # take (j - Suc i) (drop (Suc i) xs) @ xs ! j # drop (Suc j) xs"
    unfolding t d by simp
qed

text \<open>
  The requirement on the population before a crossover: two simple paths between the same ends.
\<close>

definition simple_route :: "(nat \<Rightarrow> nat list) \<Rightarrow> nat \<Rightarrow> nat \<Rightarrow> nat list \<Rightarrow> bool" where
  "simple_route nb s t p \<longleftrightarrow> walk_from_to nb s t p \<and> distinct p"

definition loopy_route :: "(nat \<Rightarrow> nat list) \<Rightarrow> nat \<Rightarrow> nat \<Rightarrow> nat list \<Rightarrow> bool" where
  "loopy_route nb s t p \<longleftrightarrow> walk_from_to nb s t p \<and> at_most_twice p"

lemma simple_loopy: "simple_route nb s t p \<Longrightarrow> loopy_route nb s t p"
  by (simp add: simple_route_def loopy_route_def distinct_twice)

lemma splice_route:
  assumes "simple_route nb s t l1" "simple_route nb s t l2"
    and "l1 = a1 @ h # m1 @ e # b1" "l2 = a2 @ h # m2 @ e # b2"
  shows "loopy_route nb s t (a1 @ h # m2 @ e # b1)"
  using assms walk_splice[of nb a1 h m1 e b1 a2 m2 b2] splice_ends[of a1 h m2 e b1 m1]
    splice_twice[of a1 h m1 e b1 a2 m2 b2]
  by (simp add: simple_route_def loopy_route_def walk_from_to_def)

lemma swap_section:
  assumes r: "simple_route nb s t l1" "simple_route nb s t l2"
    and i: "i1 < j1" "j1 < length l1" "i2 < j2" "j2 < length l2"
    and eq: "l1 ! i1 = l2 ! i2" "l1 ! j1 = l2 ! j2"
  shows "loopy_route nb s t (take i1 l1 @ take (j2 - i2) (drop i2 l2) @ drop j1 l1)"
proof -
  note s1 = split_two[OF i(1,2)] and s2 = split_two[OF i(3,4)]
  show ?thesis
    using splice_route[OF r s1(1)] s2(1) unfolding s2(2) s1(3) eq by simp
qed

lemma filter_last:
  "xs \<noteq> [] \<Longrightarrow> P (last xs) \<Longrightarrow> filter P xs \<noteq> [] \<and> last (filter P xs) = last xs"
  by (induction xs) (auto split: if_splits)

lemma drop_to_last: "xs \<noteq> [] \<Longrightarrow> drop (length xs - 1) xs = [last xs]"
  by (metis append_butlast_last_id append_eq_conv_conj length_butlast)

lemma take_then_last: "xs \<noteq> [] \<Longrightarrow> take (length xs - 1) xs @ [last xs] = xs"
  by (metis append_butlast_last_id butlast_conv_take)

lemma routes_share_ends:
  assumes r: "simple_route nb s t l1" "simple_route nb s t l2" and st: "s \<noteq> t"
  defines "pre \<equiv> filter (\<lambda>i. i \<in> set l2) l1"
  shows "2 \<le> length pre" "last pre = t" "distinct pre" "pos l1 t = length l1 - 1" "t \<in> set l1" "l1 \<noteq> []"
    "set pre \<subseteq> set l1 \<inter> set l2"
proof -
  have n: "l1 \<noteq> []" "l2 \<noteq> []" "hd l1 = s" "last l1 = t" "hd l2 = s" "last l2 = t" "distinct l1"
    using r walk_nonempty by (auto simp: simple_route_def walk_from_to_def)
  show "l1 \<noteq> []" "t \<in> set l1" using n by auto
  show "distinct pre" "set pre \<subseteq> set l1 \<inter> set l2" using n(7) by (auto simp: pre_def)
  have "t \<in> set l2" using n(2,6) last_in_set[of l2] by simp
  then show "last pre = t" using filter_last[of l1 "\<lambda>i. i \<in> set l2"] n by (simp add: pre_def)
  show "pos l1 t = length l1 - 1" using pos_nth[OF n(7), of "length l1 - 1"] n(1,4) by (simp add: last_conv_nth)
  have "s \<in> set l1" "s \<in> set l2" using n hd_in_set[of l1] hd_in_set[of l2] by simp_all
  then have "s \<in> set pre" "t \<in> set pre" using n \<open>t \<in> set l2\<close> by (auto simp: pre_def)
  then have "card {s, t} \<le> card (set pre)" by (intro card_mono) auto
  then show "2 \<le> length pre" using st card_length[of pre] by simp
qed

lemma list_cross_spec:
  assumes r: "simple_route nb s t l1" "simple_route nb s t l2" and st: "s \<noteq> t" and us: "draws_ok us"
  shows "\<exists>n1 n2 res us'. list_cross l1 l2 us = Inr ((n1, n2), res, us') \<and> draws_ok us' \<and>
    loopy_route nb s t n1 \<and> loopy_route nb s t n2 \<and>
    (length (filter (\<lambda>i. i \<in> set l2) l1) = 3 \<longrightarrow> (n1, n2) = (l1, l2) \<or> (n1, n2) = (l2, l1))"
proof -
  let ?pre = "filter (\<lambda>i. i \<in> set l2) l1"
  note e1 = routes_share_ends[OF r st] and e2 = routes_share_ends[OF r(2,1) st]
  note lp = simple_loopy[OF r(1)] simple_loopy[OF r(2)]
  have d: "distinct l1" "distinct l2" using r by (auto simp: simple_route_def)
  have t2: "t \<in> set l2" "pos l2 t = length l2 - 1" "l2 \<noteq> []" using e2 by auto
  consider "l1 = l2 \<or> length ?pre = 2" | "l1 \<noteq> l2" "length ?pre = 3" | "l1 \<noteq> l2" "length ?pre > 3" using e1(1) by linarith
  then show ?thesis
  proof cases
    case 1
    then show ?thesis using lp us by (auto simp: list_cross_def Let_def)
  next
    case 2
    obtain x us1 where x: "randint 0 1 us = Inr (x, us1)" using randint_defined by blast
    have ok: "draws_ok us1" using randint_range[OF us x] by simp
    have ends: "last l1 = t" "last l2 = t" using r by (auto simp: simple_route_def walk_from_to_def)
    have whole: "take (length l2 - 1) l2 @ drop (length l1 - 1) l1 = l2" "take (length l1 - 1) l1 @ drop (length l2 - 1) l2 = l1"
      using drop_to_last[OF e1(6)] drop_to_last[OF t2(3)] take_then_last[OF e1(6)] take_then_last[OF t2(3)]
      unfolding ends by simp_all
    have "\<exists>n1 n2 res us'. list_cross l1 l2 us = Inr ((n1, n2), res, us') \<and> draws_ok us' \<and> ((n1, n2) = (l1, l2) \<or> (n1, n2) = (l2, l1))"
      using 2 e1(2,4,5,6) t2 x ok us whole
      by (simp add: list_cross_def Let_def py_index_mem)
    then show ?thesis using lp by auto
  next
    case 3
    let ?n = "length ?pre"
    obtain rh us1 where rh: "randint 0 (?n - 2) us = Inr (rh, us1)" using randint_defined by blast
    note r1 = randint_range[OF us rh]
    obtain re us2 where re: "randint 0 (length (drop (Suc rh) ?pre) - 1) us1 = Inr (re, us2)" using randint_defined by blast
    have r2: "re \<le> length (drop (Suc rh) ?pre) - 1" "draws_ok us2" using randint_range[OF _ re] r1 by simp_all
    let ?j = "Suc rh + re"
    have j: "?j < ?n" "rh < ?n" using r1 r2(1) 3(2) by auto
    have behind: "drop (Suc rh) ?pre ! re = ?pre ! ?j" using j by simp
    let ?h = "?pre ! rh" and ?e = "?pre ! ?j"
    have mem: "?h \<in> set l1" "?h \<in> set l2" "?e \<in> set l1" "?e \<in> set l2" using nth_mem[OF j(1)] nth_mem[OF j(2)] by auto
    have lt: "pos l1 ?h < pos l1 ?e" using pos_filter[OF d(1), of rh ?j] j by simp
    then have "?h \<noteq> ?e" by auto
    then have ne2: "pos l2 ?h \<noteq> pos l2 ?e" using pos_inj mem by metis
    note p = pos_mem[OF mem(1)] pos_mem[OF mem(2)] pos_mem[OF mem(3)] pos_mem[OF mem(4)]
    have new: "loopy_route nb s t (take (pos l1 ?h) l1 @ take (pos l2 ?e - pos l2 ?h) (drop (pos l2 ?h) l2) @ drop (pos l1 ?e) l1)"
      "loopy_route nb s t (take (pos l2 ?h) l2 @ take (pos l1 ?e - pos l1 ?h) (drop (pos l1 ?h) l1) @ drop (pos l2 ?e) l2)"
      if "pos l2 ?h < pos l2 ?e"
      using swap_section[OF r lt _ that] swap_section[OF r(2,1) that _ lt] p by simp_all
    have "list_cross l1 l2 us =
       (if pos l2 ?h > pos l2 ?e then list_cross l1 l2 us
        else Inr ((take (pos l1 ?h) l1 @ take (pos l2 ?e - pos l2 ?h) (drop (pos l2 ?h) l2) @ drop (pos l1 ?e) l1,
           take (pos l2 ?h) l2 @ take (pos l1 ?e - pos l1 ?h) (drop (pos l1 ?h) l1) @ drop (pos l2 ?e) l2),
           fst (snd (projr (list_cross l1 l2 us))), us2))" and
      "pos l2 ?h > pos l2 ?e \<Longrightarrow> \<exists>res. list_cross l1 l2 us = Inr ((l1, l2), res, us2)"
      using 3 rh re lt mem unfolding list_cross_def
      by (simp_all add: Let_def py_index_mem behind)
    then show ?thesis using new r2(2) lp ne2 3(2) by (cases "pos l2 ?h > pos l2 ?e") auto
  qed
qed

text \<open>
  C26. Crossing two simple routes between the same ends never raises; both results are walks between
  those ends over neighbours in which no vertex occurs more than twice. When the two routes share
  exactly one vertex besides their ends, the individuals are at most exchanged, never recombined.
\<close>

theorem list_cross_keeps_routes:
  assumes "simple_route nb s t l1" "simple_route nb s t l2" "s \<noteq> t" "draws_ok us"
  shows "\<exists>n1 n2 res us'. list_cross l1 l2 us = Inr ((n1, n2), res, us') \<and>
    loopy_route nb s t n1 \<and> loopy_route nb s t n2 \<and>
    (length (filter (\<lambda>i. i \<in> set l2) l1) = 3 \<longrightarrow> (n1, n2) = (l1, l2) \<or> (n1, n2) = (l2, l1))"
  using list_cross_spec[OF assms] by blast

definition full_mesh :: "nat \<Rightarrow> nat list" where
  "full_mesh u = [0..<9]"

lemma full_mesh_route: "distinct p \<Longrightarrow> p \<noteq> [] \<Longrightarrow> set p \<subseteq> {0..<9} \<Longrightarrow> simple_route full_mesh (hd p) (last p) p"
proof -
  have "p \<noteq> [] \<Longrightarrow> set p \<subseteq> {0..<9} \<Longrightarrow> walk full_mesh p"
    by (induction full_mesh p rule: walk.induct) (auto simp: full_mesh_def)
  then show "distinct p \<Longrightarrow> p \<noteq> [] \<Longrightarrow> set p \<subseteq> {0..<9} \<Longrightarrow> ?thesis"
    by (simp add: simple_route_def walk_from_to_def)
qed

theorem list_cross_keeps_routes_witness:
  "\<exists>n1 n2 res us'. list_cross [1, 2, 3, 4, 5] [1, 6, 3, 7, 5] [0] = Inr ((n1, n2), res, us') \<and>
     ((n1, n2) = ([1, 2, 3, 4, 5], [1, 6, 3, 7, 5]) \<or> (n1, n2) = ([1, 6, 3, 7, 5], [1, 2, 3, 4, 5]))"
proof -
  have "simple_route full_mesh 1 5 [1, 2, 3, 4, 5]" "simple_route full_mesh 1 5 [1, 6, 3, 7, 5]"
    using full_mesh_route[of "[1, 2, 3, 4, 5]"] full_mesh_route[of "[1, 6, 3, 7, 5]"] by simp_all
  moreover have "draws_ok [0]" by (simp add: draws_ok_def)
  ultimately show ?thesis
    using list_cross_keeps_routes[of full_mesh 1 5 "[1, 2, 3, 4, 5]" "[1, 6, 3, 7, 5]" "[0]"] by auto
qed

section \<open>The repeated vertices\<close>

definition positions :: "nat list \<Rightarrow> nat \<Rightarrow> nat list" where
  "positions lst x = filter (\<lambda>i. lst ! i = x) [0..<length lst]"

lemma positions_snoc: "positions (lst @ [y]) x = positions lst x @ (if y = x then [length lst] else [])"
proof -
  have "filter (\<lambda>i. (lst @ [y]) ! i = x) [0..<length lst] = filter (\<lambda>i. lst ! i = x) [0..<length lst]"
    by (rule filter_cong) (auto simp: nth_append)
  then show ?thesis by (simp add: positions_def)
qed

lemma length_positions: "length (positions lst x) = count_list lst x"
  by (induction lst rule: rev_induct) (simp_all add: positions_snoc, simp add: positions_def)

lemma position_dict_snoc:
  "position_dict (lst @ [y]) =
     (case dict_get (position_dict lst) y of
        None \<Rightarrow> dict_set y [length lst] (position_dict lst)
      | Some l \<Rightarrow> dict_set y (l @ [length lst]) (position_dict lst))"
  by (simp add: position_dict_def enumerate_append_eq split: option.splits)

lemma position_dict_spec:
  "dict_ok (position_dict lst) \<and>
   (\<forall>x. dict_get (position_dict lst) x = (if positions lst x = [] then None else Some (positions lst x)))"
proof (induction lst rule: rev_induct)
  case Nil
  then show ?case by (simp add: position_dict_def positions_def)
next
  case (snoc y lst)
  then show ?case by (auto simp: position_dict_snoc positions_snoc split: option.splits)
qed

text \<open>\<open>red\<close> maps the vertices that occur twice to their two positions; no vertex occurs more often.\<close>

definition twice :: "nat list \<Rightarrow> (nat, nat \<times> nat) pydict \<Rightarrow> bool" where
  "twice lst red \<longleftrightarrow> (\<forall>x a b. (x, (a, b)) \<in> set red \<longleftrightarrow> positions lst x = [a, b]) \<and>
     (\<forall>x. length (positions lst x) \<le> 2)"

lemma red_fold:
  assumes "\<And>x l. (x, l) \<in> set d \<Longrightarrow> length l \<le> 2" "dict_ok d" "fst ` set acc \<inter> fst ` set d = {}"
  shows "res_fold red_insert acc d =
    Inr (acc @ map (\<lambda>(x, l). (x, (l ! 0, l ! 1))) (filter (\<lambda>(x, l). length l = 2) d))"
  using assms
proof (induction d arbitrary: acc)
  case (Cons e d)
  obtain x l where e: "e = (x, l)" by fastforce
  have "x \<notin> set (dict_keys acc)" using Cons.prems(3) by (auto simp: e)
  then have "dict_set x (l ! 0, l ! 1) acc = acc @ [(x, (l ! 0, l ! 1))]" by (induction acc) auto
  moreover have "\<not> length l \<ge> 3" using Cons.prems(1)[of x l] by (simp add: e)
  ultimately have step: "red_insert acc e = Inr (if length l = 2 then acc @ [(x, (l ! 0, l ! 1))] else acc)"
    by (simp add: red_insert_def e)
  have disj: "fst ` set (acc @ [(x, (l ! 0, l ! 1))]) \<inter> fst ` set d = {}" "fst ` set acc \<inter> fst ` set d = {}"
    using Cons.prems(2,3) by (auto simp: e)
  have le: "length l' \<le> 2" if "(y, l') \<in> set d" for y l' using Cons.prems(1)[of y l'] that by simp
  have "dict_ok d" using Cons.prems(2) by simp
  then show ?case
    using Cons.IH[OF le _ disj(1)] Cons.IH[OF le _ disj(2)] step by (simp add: e)
qed simp

lemma red_dict_of_spec:
  assumes "at_most_twice lst"
  shows "\<exists>red. red_dict_of lst = Inr red \<and> twice lst red"
proof -
  note pd = position_dict_spec[of lst]
  have le: "length (positions lst x) \<le> 2" for x
    using assms by (simp add: length_positions at_most_twice_def)
  have mem: "(x, l) \<in> set (position_dict lst) \<longleftrightarrow> positions lst x = l \<and> l \<noteq> []" for x l
    using pd dict_get_Some_iff[of "position_dict lst" x l] by (auto split: if_splits)
  let ?red = "map (\<lambda>(x, l). (x, (l ! 0, l ! 1))) (filter (\<lambda>(x, l). length l = 2) (position_dict lst))"
  have "red_dict_of lst = Inr ?red"
    using red_fold[of "position_dict lst" "[]"] pd le mem by (simp add: red_dict_of_def)
  moreover have "(x, (a, b)) \<in> set ?red \<longleftrightarrow> positions lst x = [a, b]" for x a b
  proof -
    have "(x, (a, b)) \<in> set ?red \<longleftrightarrow> (\<exists>l. (x, l) \<in> set (position_dict lst) \<and> length l = 2 \<and> l ! 0 = a \<and> l ! 1 = b)"
      by (auto simp: image_iff)
    also have "\<dots> \<longleftrightarrow> positions lst x = [a, b]"
      by (auto simp: mem numeral_2_eq_2 length_Suc_conv)
    finally show ?thesis .
  qed
  ultimately show ?thesis using le by (auto simp: twice_def)
qed

lemma positions_two:
  assumes "positions lst x = [a, b]"
  shows "a < b" "b < length lst" "lst ! a = x" "lst ! b = x" "i < length lst \<Longrightarrow> lst ! i = x \<Longrightarrow> i = a \<or> i = b"
proof -
  have set: "set (positions lst x) = {i. i < length lst \<and> lst ! i = x}" by (auto simp: positions_def)
  have "sorted_wrt (<) (positions lst x)" unfolding positions_def by (intro sorted_wrt_filter) simp
  then show "a < b" unfolding assms by simp
  show "b < length lst" "lst ! a = x" "lst ! b = x" using set unfolding assms by auto
  show "i < length lst \<Longrightarrow> lst ! i = x \<Longrightarrow> i = a \<or> i = b" using set unfolding assms by auto
qed

lemma positions_unique:
  assumes "twice lst red" "i < j" "j < length lst" "lst ! i = lst ! j"
  shows "(lst ! i, (i, j)) \<in> set red"
proof -
  let ?x = "lst ! i"
  have le: "length (positions lst ?x) \<le> 2" using assms(1) by (simp add: twice_def)
  have sub: "{i, j} \<subseteq> set (positions lst ?x)" using assms by (auto simp: positions_def)
  have d: "distinct (positions lst ?x)" by (simp add: positions_def)
  have "card {i, j} \<le> card (set (positions lst ?x))" using sub by (intro card_mono) auto
  then have "length (positions lst ?x) = 2" using le distinct_card[OF d] assms(2) by simp
  then obtain a b where ab: "positions lst ?x = [a, b]" by (auto simp: numeral_2_eq_2 length_Suc_conv)
  then have "a = i \<and> b = j" using sub positions_two(1)[OF ab] assms(2) by auto
  then show ?thesis using ab assms(1) by (simp add: twice_def)
qed

lemma red_span_spec:
  assumes t: "twice lst red" and ne: "red \<noteq> []"
  shows "\<exists>mn hi mx ei a b. red_span lst red = ((mn, Some hi), (mx, Some ei)) \<and>
    (hi, (mn, b)) \<in> set red \<and> (ei, (a, mx)) \<in> set red \<and> (\<forall>(x, (a, b)) \<in> set red. mn \<le> a \<and> b \<le> mx)"
proof -
  let ?f = "\<lambda>((num_min, head_item), (num_max, end_item)) (key, (head_num, end_num)).
        (if head_num < num_min then (head_num, Some key) else (num_min, head_item),
         if end_num > num_max then (end_num, Some key) else (num_max, end_item))"
  have bounds: "a < length lst" "0 < b" if "(x, (a, b)) \<in> set red" for x a b
    using t positions_two(1,2)[of lst x a b] that by (auto simp: twice_def)
  have gen: "case foldl ?f ((length lst, None), (0, None)) r of ((mn, hi), (mx, ei)) \<Rightarrow>
     (\<forall>(x, (a, b)) \<in> set r. mn \<le> a \<and> b \<le> mx) \<and>
     (r \<noteq> [] \<longrightarrow> (\<exists>h b. hi = Some h \<and> (h, (mn, b)) \<in> set r) \<and> (\<exists>e a. ei = Some e \<and> (e, (a, mx)) \<in> set r)) \<and>
     (r = [] \<longrightarrow> mn = length lst \<and> mx = 0)"
    if "set r \<subseteq> set red" for r
    using that
  proof (induction r rule: rev_induct)
    case (snoc e r)
    obtain x a b where e: "e = (x, (a, b))" by (cases e) auto
    have ab: "a < length lst" "0 < b" using bounds snoc.prems by (auto simp: e)
    show ?case using snoc ab by (cases "r = []") (auto simp: e split: prod.splits)
  qed simp
  from gen[OF order_refl] ne show ?thesis unfolding red_span_def by (auto split: prod.splits)
qed

section \<open>The sections kept\<close>

text \<open>
  What the loop over the sections works on: the positions \<open>rl\<close> of all the repeated vertices, from the
  first one \<open>mn\<close> to the last one \<open>mx\<close>, which is a position of the vertex \<open>ei\<close>.
\<close>

definition cut_ok :: "nat list \<Rightarrow> (nat, nat \<times> nat) pydict \<Rightarrow> nat list \<Rightarrow> nat \<Rightarrow> nat \<Rightarrow> nat \<Rightarrow> bool" where
  "cut_ok lst red rl mn mx ei \<longleftrightarrow> twice lst red \<and>
     rl = filter (\<lambda>num. lst ! num \<in> set (dict_keys red)) [mn..<Suc mx] \<and>
     (\<exists>a. (ei, (a, mx)) \<in> set red) \<and> (\<exists>h b. (h, (mn, b)) \<in> set red) \<and>
     (\<forall>x a b. (x, (a, b)) \<in> set red \<longrightarrow> mn \<le> a \<and> b \<le> mx)"

lemma twice_entry:
  assumes "twice lst red" "(x, (a, b)) \<in> set red"
  shows "a < b" "b < length lst" "lst ! a = x" "lst ! b = x" "i < length lst \<Longrightarrow> lst ! i = x \<Longrightarrow> i = a \<or> i = b"
  using assms positions_two[of lst x a b] by (auto simp: twice_def)

lemma cut_mem:
  assumes c: "cut_ok lst red rl mn mx ei"
  shows "r \<in> set rl \<longleftrightarrow> r < length lst \<and> lst ! r \<in> set (dict_keys red)"
proof
  assume r: "r \<in> set rl"
  then have "r \<le> mx" "lst ! r \<in> set (dict_keys red)" using c by (auto simp: cut_ok_def)
  moreover have "mx < length lst" using c twice_entry(2) unfolding cut_ok_def by blast
  ultimately show "r < length lst \<and> lst ! r \<in> set (dict_keys red)" by simp
next
  assume r: "r < length lst \<and> lst ! r \<in> set (dict_keys red)"
  then obtain a b where e: "(lst ! r, (a, b)) \<in> set red" by auto
  have "r = a \<or> r = b" using twice_entry(5)[OF _ e] c r by (auto simp: cut_ok_def)
  moreover have "mn \<le> a" "b \<le> mx" "a < b" using c e twice_entry(1)[OF _ e] by (auto simp: cut_ok_def)
  ultimately have "r \<in> set [mn..<Suc mx]" by (auto simp del: upt_Suc)
  then show "r \<in> set rl" using c r unfolding cut_ok_def by (simp del: upt_Suc)
qed

lemma cut_facts:
  assumes c: "cut_ok lst red rl mn mx ei"
  shows "sorted_wrt (<) rl" "distinct rl" "mn \<in> set rl" "mx \<in> set rl" "lst ! mx = ei" "mx < length lst"
    "r \<in> set rl \<Longrightarrow> mn \<le> r \<and> r \<le> mx"
proof -
  have t: "twice lst red" using c by (simp add: cut_ok_def)
  show s: "sorted_wrt (<) rl" using c unfolding cut_ok_def by (auto intro: sorted_wrt_filter simp del: upt_Suc)
  then show "distinct rl" using strict_sorted_iff by blast
  obtain a h b where e: "(ei, (a, mx)) \<in> set red" "(h, (mn, b)) \<in> set red" using c unfolding cut_ok_def by blast
  show x: "lst ! mx = ei" "mx < length lst" using twice_entry[OF t e(1)] by auto
  show "mx \<in> set rl" using x e(1) cut_mem[OF c] by force
  show "mn \<in> set rl" using twice_entry[OF t e(2)] e(2) cut_mem[OF c] by force
  show "r \<in> set rl \<Longrightarrow> mn \<le> r \<and> r \<le> mx" using c by (auto simp: cut_ok_def)
qed

lemma cut_entry:
  assumes c: "cut_ok lst red rl mn mx ei" and r: "r \<in> set rl"
  shows "\<exists>a b. dict_get red (lst ! r) = Some (a, b) \<and> (r = a \<or> r = b) \<and> a \<in> set rl \<and> b \<in> set rl \<and>
    lst ! a = lst ! r \<and> lst ! b = lst ! r \<and> a < b \<and> (lst ! r = ei \<longrightarrow> b = mx)"
proof -
  have t: "twice lst red" using c by (simp add: cut_ok_def)
  have key: "lst ! r \<in> set (dict_keys red)" "r < length lst" using r cut_mem[OF c] by auto
  then obtain a b where g: "dict_get red (lst ! r) = Some (a, b)"
    by (cases "dict_get red (lst ! r)") (auto simp: dict_get_None_iff)
  note e = map_of_SomeD[OF g]
  note te = twice_entry[OF t e]
  have "lst ! r = ei \<Longrightarrow> b = mx"
    using te(5)[of mx] te(1,2) cut_facts(5,6,7)[OF c] cut_mem[OF c, of b] key te(4) by force
  then show ?thesis using g te te(5)[OF key(2)] key cut_mem[OF c] by (intro exI[of _ a] exI[of _ b]) auto
qed

text \<open>The last position of a repeated vertex at or before a position.\<close>

definition owner :: "nat list \<Rightarrow> nat \<Rightarrow> nat \<Rightarrow> bool" where
  "owner rl p r \<longleftrightarrow> r \<in> set rl \<and> r \<le> p \<and> (\<forall>r' \<in> set rl. r' \<le> p \<longrightarrow> r' \<le> r)"

definition covered :: "nat list \<Rightarrow> nat list \<Rightarrow> nat \<Rightarrow> nat set \<Rightarrow> nat list \<Rightarrow> bool" where
  "covered lst rl mn S Q \<longleftrightarrow> (\<forall>p \<in> set Q. p < length lst \<and> (p < mn \<or> (\<exists>r. owner rl p r \<and> lst ! r \<in> S)))"

lemma same_vertex_red:
  assumes "cut_ok lst red rl mn mx ei" "p < length lst" "p' < length lst" "lst ! p = lst ! p'" "p \<noteq> p'"
  shows "p \<in> set rl" "p' \<in> set rl"
proof -
  have t: "twice lst red" using assms(1) by (simp add: cut_ok_def)
  have "lst ! p \<in> set (dict_keys red)"
  proof (cases "p < p'")
    case True
    then show ?thesis using positions_unique[OF t True assms(3,4)] by force
  next
    case False
    then have lt: "p' < p" using assms(5) by simp
    show ?thesis using positions_unique[OF t lt assms(2)] assms(4) by force
  qed
  then show "p \<in> set rl" "p' \<in> set rl" using assms(2-4) cut_mem[OF assms(1)] by auto
qed

lemma section_distinct:
  assumes c: "cut_ok lst red rl mn mx ei" and Q: "distinct (map (nth lst) Q)" "covered lst rl mn S Q"
    and h: "h \<in> set rl" "lst ! h \<notin> S" and e: "e \<le> length lst"
    and only: "\<And>p. p \<in> set rl \<Longrightarrow> h \<le> p \<Longrightarrow> p < e \<Longrightarrow> p = h"
  shows "distinct (map (nth lst) (Q @ [h..<e]))" "covered lst rl mn (insert (lst ! h) S) (Q @ [h..<e])"
proof -
  have own: "owner rl p h" if "h \<le> p" "p < e" for p
    using h(1) only that by (auto simp: owner_def) (metis le_less_trans linear)
  have uniq: "r = h" if "owner rl p r" "h \<le> p" "p < e" for p r
    using that own[OF that(2,3)] by (auto simp: owner_def intro: antisym)
  have mnh: "mn \<le> h" using cut_facts(7)[OF c h(1)] by simp
  show "covered lst rl mn (insert (lst ! h) S) (Q @ [h..<e])"
    using Q(2) own e unfolding covered_def by fastforce
  have seg: "p = p'" if "p \<in> {h..<e}" "p' \<in> {h..<e}" "lst ! p = lst ! p'" for p p'
    using same_vertex_red[OF c, of p p'] only[of p] only[of p'] that e by fastforce
  have "lst ! p \<noteq> lst ! p'" if p: "p \<in> set Q" and p': "h \<le> p'" "p' < e" for p p'
  proof
    assume eq: "lst ! p = lst ! p'"
    have pl: "p < length lst" "p < mn \<or> (\<exists>r. owner rl p r \<and> lst ! r \<in> S)" using Q(2) p by (auto simp: covered_def)
    show False
    proof (cases "p = p'")
      case True
      then show False using pl(2) uniq[of p] p' mnh h(2) by auto
    next
      case False
      have red: "p \<in> set rl" "p' \<in> set rl" using same_vertex_red[OF c pl(1) _ eq False] p' e by auto
      have "p' = h" using only[OF red(2)] p' by simp
      moreover have "\<not> p < mn" using cut_facts(7)[OF c red(1)] by simp
      then obtain r where "owner rl p r" "lst ! r \<in> S" using pl(2) by blast
      moreover have "r = p" if "owner rl p r" using that red(1) by (auto simp: owner_def intro: antisym)
      ultimately show False using eq h(2) by auto
    qed
  qed
  then show "distinct (map (nth lst) (Q @ [h..<e]))"
    using Q(1) seg by (auto simp: distinct_map inj_on_def)
qed

definition positions_of :: "(nat \<times> nat) list \<Rightarrow> nat list" where
  "positions_of secs = concat (map (\<lambda>(a, b). [a..<b]) secs)"

lemma positions_of_snoc: "positions_of (secs @ [(a, b)]) = positions_of secs @ [a..<b]"
  by (simp add: positions_of_def)

lemma keep_sections_positions:
  "keep_sections lst secs = map (nth lst) (positions_of secs) @ [lst ! (length lst - 1)]"
  by (simp add: keep_sections_def positions_of_def map_concat comp_def case_prod_unfold)

text \<open>
  The invariant of the loop: \<open>c\<close> heads the open section, \<open>sel\<close> are the repeated vertices chosen
  so far; the sections kept up to \<open>c\<close> form a walk from the first vertex and repeat nothing.
\<close>

definition sec_inv :: "(nat \<Rightarrow> nat list) \<Rightarrow> nat list \<Rightarrow> nat list \<Rightarrow> nat \<Rightarrow> nat \<Rightarrow> nat list \<Rightarrow> nat \<Rightarrow> nat list \<Rightarrow> bool" where
  "sec_inv nb lst rl mn ei Q c sel \<longleftrightarrow> c \<in> set rl \<and> sel \<noteq> [] \<and> last sel = lst ! c \<and> lst ! c \<noteq> ei \<and> distinct sel \<and>
     walk nb (map (nth lst) Q @ [lst ! c]) \<and> hd (map (nth lst) Q @ [lst ! c]) = hd lst \<and>
     distinct (map (nth lst) Q) \<and> covered lst rl mn (set (butlast sel)) Q"

lemma walk_segment:
  assumes "walk nb lst" "a \<le> b" "b < length lst"
  shows "walk nb (map (nth lst) [a..<Suc b])"
proof -
  have "take b lst @ lst ! b # drop (Suc b) lst = lst" using assms by (simp add: id_take_nth_drop[symmetric])
  then have "walk nb (take b lst @ [lst ! b])"
    using walk_append[of nb "take b lst" "lst ! b" "drop (Suc b) lst"] assms(1) by simp
  then have w: "walk nb (take (Suc b) lst)" using assms(3) by (simp add: take_Suc_conv_app_nth)
  have t: "take (Suc b) lst = take a lst @ map (nth lst) [a..<Suc b]"
    using assms by (intro nth_equalityI) (auto simp: nth_append nth_map_upt simp del: upt_Suc)
  have m: "map (nth lst) [a..<Suc b] = lst ! a # map (nth lst) [Suc a..<Suc b]"
    using assms(2) by (simp add: upt_conv_Cons del: upt_Suc)
  show ?thesis
    using w walk_append[of nb "take a lst" "lst ! a" "map (nth lst) [Suc a..<Suc b]"] unfolding t m by blast
qed

lemma walk_join:
  assumes "walk nb (xs @ [lst ! h])" "walk nb lst" "h \<le> e" "e < length lst"
  shows "walk nb (xs @ map (nth lst) [h..<e] @ [lst ! e])"
    and "hd (xs @ map (nth lst) [h..<e] @ [lst ! e]) = hd (xs @ [lst ! h])"
proof -
  have seg: "map (nth lst) [h..<e] @ [lst ! e] = lst ! h # map (nth lst) [Suc h..<Suc e]"
  proof -
    have "[h..<e] @ [e] = h # [Suc h..<Suc e]" using upt_conv_Cons[of h "Suc e"] assms(3) by simp
    from arg_cong[OF this, of "map (nth lst)"] show ?thesis by (simp del: upt_Suc)
  qed
  have "walk nb (map (nth lst) [h..<e] @ [lst ! e])" using walk_segment[OF assms(2-4)] assms(3) by simp
  then show "walk nb (xs @ map (nth lst) [h..<e] @ [lst ! e])"
    using assms(1) walk_append[of nb xs "lst ! h" "map (nth lst) [Suc h..<Suc e]"] unfolding seg by blast
  show "hd (xs @ map (nth lst) [h..<e] @ [lst ! e]) = hd (xs @ [lst ! h])"
    unfolding seg by (cases xs) simp_all
qed

lemma sec_extend:
  assumes c: "cut_ok lst red rl mn mx ei" and w: "walk nb lst" and inv: "sec_inv nb lst rl mn ei Q h sel"
    and e: "e \<in> set rl" "h < e" "\<And>p. p \<in> set rl \<Longrightarrow> h \<le> p \<Longrightarrow> p < e \<Longrightarrow> p = h"
  shows "walk nb (map (nth lst) (Q @ [h..<e]) @ [lst ! e])" "hd (map (nth lst) (Q @ [h..<e]) @ [lst ! e]) = hd lst"
    "distinct (map (nth lst) (Q @ [h..<e]))" "covered lst rl mn (set sel) (Q @ [h..<e])"
proof -
  have i: "h \<in> set rl" "sel \<noteq> []" "last sel = lst ! h" "distinct sel" "walk nb (map (nth lst) Q @ [lst ! h])"
    "hd (map (nth lst) Q @ [lst ! h]) = hd lst" "distinct (map (nth lst) Q)" "covered lst rl mn (set (butlast sel)) Q"
    using inv by (auto simp: sec_inv_def)
  have el: "e < length lst" using e(1) cut_mem[OF c] by simp
  show "walk nb (map (nth lst) (Q @ [h..<e]) @ [lst ! e])" "hd (map (nth lst) (Q @ [h..<e]) @ [lst ! e]) = hd lst"
    using walk_join[OF i(5) w _ el] e(2) i(6) by simp_all
  have nh: "lst ! h \<notin> set (butlast sel)" using last_not_butlast[OF i(4,2)] i(3) by simp
  note sd = section_distinct[OF c i(7,8,1) nh less_imp_le[OF el]]
  show "distinct (map (nth lst) (Q @ [h..<e]))" by (rule sd(1)) (rule e(3))
  have "insert (lst ! h) (set (butlast sel)) = set sel"
    using i(2,3) append_butlast_last_id[of sel] by (metis Un_insert_right list.simps(15) set_append set_empty sup_bot_right)
  moreover have "covered lst rl mn (insert (lst ! h) (set (butlast sel))) (Q @ [h..<e])" by (rule sd(2)) (rule e(3))
  ultimately show "covered lst rl mn (set sel) (Q @ [h..<e])" by simp
qed

lemma sec_choose:
  assumes "cut_ok lst red rl mn mx ei"
    and "walk nb (map (nth lst) Q @ [lst ! e])" "hd (map (nth lst) Q @ [lst ! e]) = hd lst"
    "distinct (map (nth lst) Q)" "covered lst rl mn (set sel) Q"
    and "distinct sel" "lst ! e \<notin> set sel" "lst ! e \<noteq> ei" "c \<in> set rl" "lst ! c = lst ! e"
  shows "sec_inv nb lst rl mn ei Q c (sel @ [lst ! e])"
  using assms by (simp add: sec_inv_def)

definition good_cut :: "(nat \<Rightarrow> nat list) \<Rightarrow> nat list \<Rightarrow> nat list \<Rightarrow> bool" where
  "good_cut nb lst res \<longleftrightarrow> walk nb res \<and> distinct res \<and> hd res = hd lst \<and> last res = last lst"

lemma sec_finish:
  assumes c: "cut_ok lst red rl mn mx ei" and w: "walk nb lst"
    and Q: "walk nb (map (nth lst) Q @ [lst ! e])" "hd (map (nth lst) Q @ [lst ! e]) = hd lst"
    "distinct (map (nth lst) Q)" "covered lst rl mn S Q"
    and e: "lst ! e = ei" "ei \<notin> S" "Q = positions_of secs"
  shows "good_cut nb lst (keep_sections lst (secs @ [(mx, length lst - 1)]))"
proof -
  note cf = cut_facts[OF c]
  let ?n = "length lst"
  have n: "mx \<le> ?n - 1" "?n - 1 < ?n" "lst \<noteq> []" using cf(6) by auto
  have keep: "keep_sections lst (secs @ [(mx, ?n - 1)]) = map (nth lst) Q @ map (nth lst) [mx..<?n - 1] @ [lst ! (?n - 1)]"
    by (simp add: keep_sections_positions positions_of_snoc e(3))
  have "map (nth lst) [mx..<?n - 1] @ [lst ! (?n - 1)] = map (nth lst) [mx..<?n]"
  proof -
    have "[mx..<?n] = [mx..<?n - 1] @ [?n - 1]" using n by (cases "length lst") auto
    then show ?thesis by simp
  qed
  then have keep2: "keep_sections lst (secs @ [(mx, ?n - 1)]) = map (nth lst) (Q @ [mx..<?n])" using keep by simp
  have q: "walk nb (map (nth lst) Q @ [lst ! mx])" "hd (map (nth lst) Q @ [lst ! mx]) = hd lst"
    using Q(1,2) e(1) cf(5) by simp_all
  have "distinct (map (nth lst) (Q @ [mx..<?n]))"
    using cf(5,7) e(2) by (intro section_distinct(1)[OF c Q(3,4) cf(4)]) (auto intro: antisym)
  moreover have "last (keep_sections lst (secs @ [(mx, ?n - 1)])) = last lst"
    unfolding keep last_conv_nth[OF n(3)] by simp
  ultimately show ?thesis
    using walk_join[OF q(1) w n(1,2)] q(2) unfolding good_cut_def keep[symmetric] keep2[symmetric] by simp
qed

text \<open>One round of the loop with an open section headed by \<open>h\<close>: the next repeated position ends it.\<close>

lemma choose_step:
  assumes c: "cut_ok lst red rl mn mx ei" and h: "h \<in> set rl" "lst ! h \<noteq> ei" and us: "draws_ok us"
    and np: "np = Suc (pos rl h)"
  defines "e \<equiv> rl ! np"
  shows "e \<in> set rl" "h < e" "\<And>p. p \<in> set rl \<Longrightarrow> h \<le> p \<Longrightarrow> p < e \<Longrightarrow> p = h"
    "lst ! e \<in> set sel \<Longrightarrow> choose_sections lst red rl (Some ei) np i done_secs (Some h) sel us = Inr (None, us)"
    "lst ! e \<notin> set sel \<Longrightarrow> \<exists>o_num us1. draws_ok us1 \<and> o_num \<in> set rl \<and> lst ! o_num = lst ! e \<and>
       choose_sections lst red rl (Some ei) np i done_secs (Some h) sel us =
         (if lst ! e = ei then Inr (Some (done_secs @ [(h, e)] @ [(mx, length lst - 1)]), us1)
          else if Suc i > length rl then Inr (None, us1)
          else choose_sections lst red rl (Some ei) (Suc (pos rl o_num)) (Suc i) (done_secs @ [(h, e)]) (Some o_num) (sel @ [lst ! e]) us1)"
proof -
  note cf = cut_facts[OF c]
  have ph: "pos rl h < length rl" "rl ! pos rl h = h" using pos_mem[OF h(1)] by auto
  have "h \<noteq> mx" using h(2) cf(5) by auto
  have mxl: "pos rl mx < length rl" "rl ! pos rl mx = mx" using pos_mem[OF cf(4)] by auto
  have mono: "i < j \<Longrightarrow> j < length rl \<Longrightarrow> rl ! i < rl ! j" for i j using sorted_wrt_nth_less[OF cf(1)] by blast
  have "pos rl h < pos rl mx"
  proof (rule ccontr)
    assume "\<not> ?thesis"
    then have "pos rl mx < pos rl h \<or> pos rl mx = pos rl h" by linarith
    then show False using mono[of "pos rl mx" "pos rl h"] ph mxl cf(7)[OF h(1)] \<open>h \<noteq> mx\<close> by auto
  qed
  then have npl: "np < length rl" using np mxl by simp
  show e: "e \<in> set rl" using npl by (simp add: e_def)
  show he: "h < e" using mono[of "pos rl h" np] ph npl by (simp add: np e_def)
  show only: "\<And>p. p \<in> set rl \<Longrightarrow> h \<le> p \<Longrightarrow> p < e \<Longrightarrow> p = h"
  proof -
    fix p assume p: "p \<in> set rl" "h \<le> p" "p < e"
    obtain k where k: "k < length rl" "rl ! k = p" using p(1) by (auto simp: in_set_conv_nth)
    have "\<not> k < pos rl h" using mono[of k "pos rl h"] k ph p(2) by auto
    moreover have "\<not> np < k" using mono[of np k] k p(3) by (auto simp: e_def)
    moreover have "k \<noteq> np" using k(2) p(3) by (auto simp: e_def)
    ultimately have "k = pos rl h" using np by linarith
    then show "p = h" using k ph by simp
  qed
  obtain a b where ab: "dict_get red (lst ! e) = Some (a, b)" "e = a \<or> e = b" "a \<in> set rl" "b \<in> set rl"
    "lst ! a = lst ! e" "lst ! b = lst ! e" "a < b" "lst ! e = ei \<longrightarrow> b = mx" using cut_entry[OF c e] by blast
  show "lst ! e \<in> set sel \<Longrightarrow> choose_sections lst red rl (Some ei) np i done_secs (Some h) sel us = Inr (None, us)"
    using npl ab(1) by (subst choose_sections.simps) (simp add: e_def[symmetric])
  assume ns: "lst ! e \<notin> set sel"
  obtain r us1 where r: "randint 0 1 us = Inr (r, us1)" using randint_defined by blast
  have us1: "draws_ok us1" using randint_range[OF us r] by simp
  define o_num where "o_num = (if r = 0 then a else b)"
  have o: "o_num \<in> set rl" "lst ! o_num = lst ! e" using ab by (simp_all add: o_num_def)
  have skip: "\<not> max a b < h" using ab(2) he by auto
  have ends: "h < min a b \<Longrightarrow> a = e" "\<not> h < min a b \<Longrightarrow> b = e"
    using ab(2,7) he only[OF ab(3)] by (auto simp: min_def split: if_splits)
  have "choose_sections lst red rl (Some ei) np i done_secs (Some h) sel us =
         (if lst ! e = ei then Inr (Some (done_secs @ [(h, e)] @ [(mx, length lst - 1)]), us1)
          else if Suc i > length rl then Inr (None, us1)
          else choose_sections lst red rl (Some ei) (Suc (pos rl o_num)) (Suc i) (done_secs @ [(h, e)]) (Some o_num) (sel @ [lst ! e]) us1)"
  proof -
    have sec: "(if h < min a b then (h, a) else (h, b)) = (h, e)" using ends by auto
    have "choose_sections lst red rl (Some ei) np i done_secs (Some h) sel us =
       (if lst ! e = ei then Inr (Some ((done_secs @ [if h < min a b then (h, a) else (h, b)]) @ [(b, length lst - 1)]), us1)
        else if Suc i > length rl then Inr (None, us1)
        else choose_sections lst red rl (Some ei) (Suc (pos rl o_num)) (Suc i)
          (done_secs @ [if h < min a b then (h, a) else (h, b)]) (Some o_num) (sel @ [lst ! e]) us1)"
      by (subst choose_sections.simps)
         (cases "r = 0"; simp add: linorder_not_le[THEN iffD2, OF npl] e_def[symmetric] ab(1) ns
            r[unfolded One_nat_def] skip o_num_def py_index_mem[OF ab(3)] py_index_mem[OF ab(4)] Let_def
          del: max_less_iff_conj)
    then show ?thesis unfolding sec using ab(8) by simp
  qed
  then show "\<exists>o_num us1. draws_ok us1 \<and> o_num \<in> set rl \<and> lst ! o_num = lst ! e \<and>
       choose_sections lst red rl (Some ei) np i done_secs (Some h) sel us =
         (if lst ! e = ei then Inr (Some (done_secs @ [(h, e)] @ [(mx, length lst - 1)]), us1)
          else if Suc i > length rl then Inr (None, us1)
          else choose_sections lst red rl (Some ei) (Suc (pos rl o_num)) (Suc i) (done_secs @ [(h, e)]) (Some o_num) (sel @ [lst ! e]) us1)"
    using us1 o by blast
qed

lemma choose_sections_spec:
  assumes c: "cut_ok lst red rl mn mx ei" and w: "walk nb lst"
  shows "sec_inv nb lst rl mn ei (positions_of done_secs) h sel \<Longrightarrow> draws_ok us \<Longrightarrow>
    \<exists>r us'. choose_sections lst red rl (Some ei) (Suc (pos rl h)) i done_secs (Some h) sel us = Inr (r, us') \<and> draws_ok us' \<and>
      (\<forall>secs. r = Some secs \<longrightarrow> good_cut nb lst (keep_sections lst secs))"
proof (induction "Suc (length rl) - i" arbitrary: i done_secs h sel us rule: less_induct)
  case less
  have h: "h \<in> set rl" "lst ! h \<noteq> ei" and ds: "distinct sel" using less.prems(1) by (auto simp: sec_inv_def)
  define e where "e = rl ! Suc (pos rl h)"
  note st = choose_step(1-3)[OF c h less.prems(2) refl, folded e_def]
    choose_step(4,5)[where sel = sel and i = i and done_secs = done_secs, OF c h less.prems(2) refl, folded e_def]
  note ex = sec_extend[OF c w less.prems(1) st(1,2) st(3)]
  have pos_eq: "positions_of (done_secs @ [(h, e)]) = positions_of done_secs @ [h..<e]" by (rule positions_of_snoc)
  show ?case
  proof (cases "lst ! e \<in> set sel")
    case True
    then show ?thesis using st(4) less.prems(2) by simp
  next
    case False
    from st(5)[OF False] obtain o_num us1 where o: "draws_ok us1" "o_num \<in> set rl" "lst ! o_num = lst ! e"
      "choose_sections lst red rl (Some ei) (Suc (pos rl h)) i done_secs (Some h) sel us =
         (if lst ! e = ei then Inr (Some (done_secs @ [(h, e)] @ [(mx, length lst - 1)]), us1)
          else if Suc i > length rl then Inr (None, us1)
          else choose_sections lst red rl (Some ei) (Suc (pos rl o_num)) (Suc i) (done_secs @ [(h, e)]) (Some o_num) (sel @ [lst ! e]) us1)"
      by blast
    consider "lst ! e = ei" | "lst ! e \<noteq> ei" "Suc i > length rl" | "lst ! e \<noteq> ei" "\<not> Suc i > length rl" by blast
    then show ?thesis
    proof cases
      case 1
      have "good_cut nb lst (keep_sections lst ((done_secs @ [(h, e)]) @ [(mx, length lst - 1)]))"
        using ex 1 False by (intro sec_finish[OF c w, of "positions_of done_secs @ [h..<e]" e "set sel"]) (auto simp: pos_eq)
      then show ?thesis using 1 o by simp
    next
      case 2
      then show ?thesis using o by simp
    next
      case 3
      have "sec_inv nb lst rl mn ei (positions_of (done_secs @ [(h, e)])) o_num (sel @ [lst ! e])"
        unfolding pos_eq by (rule sec_choose[OF c ex ds False 3(1) o(2,3)])
      from less.hyps[OF _ this o(1), of "Suc i"] show ?thesis using 3 o(4) by simp
    qed
  qed
qed

lemma remove_redundancy_spec:
  assumes r: "loopy_route nb s t lst" and us: "draws_ok us"
  shows "\<exists>res us'. remove_redundancy lst us = Inr (res, us') \<and> draws_ok us' \<and>
    (\<forall>p. res = Some p \<longrightarrow> simple_route nb s t p) \<and> (distinct lst \<longrightarrow> res = Some lst)"
proof -
  have w: "walk nb lst" "hd lst = s" "last lst = t" and two: "at_most_twice lst"
    using r by (auto simp: loopy_route_def walk_from_to_def)
  obtain red where red: "red_dict_of lst = Inr red" "twice lst red" using red_dict_of_spec[OF two] by blast
  show ?thesis
  proof (cases "red = []")
    case True
    have "distinct lst"
      unfolding distinct_conv_nth using positions_unique[OF red(2)] True
      by (metis linorder_neqE_nat list.set(1) empty_iff)
    then show ?thesis using True red(1) r us by (simp add: remove_redundancy_def loopy_route_def simple_route_def)
  next
    case False
    obtain mn hi mx ei a b where sp: "red_span lst red = ((mn, Some hi), (mx, Some ei))"
      and e: "(hi, (mn, b)) \<in> set red" "(ei, (a, mx)) \<in> set red" "\<forall>(x, (a, b)) \<in> set red. mn \<le> a \<and> b \<le> mx"
      using red_span_spec[OF red(2) False] by blast
    note t1 = twice_entry[OF red(2) e(1)] and t2 = twice_entry[OF red(2) e(2)]
    have nd: "\<not> distinct lst" using t1(1-4) nth_eq_iff_index_eq[of lst mn b] by auto
    define rl where "rl = filter (\<lambda>num. lst ! num \<in> set (dict_keys red)) [mn..<Suc mx]"
    have c: "cut_ok lst red rl mn mx ei"
      unfolding cut_ok_def rl_def using red(2) e by (intro conjI) (simp, simp, blast, blast, fastforce)
    note cf = cut_facts[OF c]
    have first: "rl ! 0 = mn" "0 < length rl"
    proof -
      show l: "0 < length rl" using cf(3) by (cases rl) auto
      have "rl ! 0 \<le> mn" using cf(3) sorted_wrt_nth_less[OF cf(1), of 0 "pos rl mn"] pos_mem[OF cf(3)]
        by (cases "pos rl mn = 0") auto
      moreover have "mn \<le> rl ! 0" using cf(7)[OF nth_mem[OF l]] by simp
      ultimately show "rl ! 0 = mn" by simp
    qed
    have mnl: "mn < length lst" "lst \<noteq> []" using t1 by auto
    have seg: "walk nb (map (nth lst) [0..<mn] @ [lst ! mn])" "hd (map (nth lst) [0..<mn] @ [lst ! mn]) = hd lst"
      using walk_segment[OF w(1), of 0 mn] mnl
      by (simp, cases mn) (simp_all add: hd_append hd_conv_nth upt_conv_Cons del: upt_Suc)
    have pre: "distinct (map (nth lst) [0..<mn])" "covered lst rl mn {} [0..<mn]"
    proof -
      have "i = j" if "i < mn" "j < mn" "lst ! i = lst ! j" for i j
        using same_vertex_red[OF c, of i j] cf(7)[of i] that mnl by fastforce
      then show "distinct (map (nth lst) [0..<mn])" by (simp add: distinct_map inj_on_def)
      show "covered lst rl mn {} [0..<mn]" using mnl by (simp add: covered_def)
    qed
    show ?thesis
    proof (cases "hi = ei")
      case True
      have eq: "lst ! mx = lst ! mn" using True t1(3) t2(4) by simp
      let ?res = "take mn lst @ drop mx lst"
      have "drop mx lst = lst ! mx # drop (Suc mx) lst" using t2(2) by (simp add: Cons_nth_drop_Suc)
      have tk: "take mn lst = map (nth lst) [0..<mn]" using mnl by (intro nth_equalityI) auto
      have dr: "drop mx lst = map (nth lst) [mx..<length lst]" by (intro nth_equalityI) auto
      have "distinct (map (nth lst) ([0..<mn] @ [mx..<length lst]))"
        using cf(7) by (intro section_distinct(1)[OF c pre cf(4)]) (auto intro: antisym)
      then have d: "distinct ?res" unfolding tk dr by simp
      have "map (nth lst) [mx..<length lst] = map (nth lst) [mx..<length lst - 1] @ [lst ! (length lst - 1)]"
      proof -
        have "[mx..<length lst] = [mx..<length lst - 1] @ [length lst - 1]" using t2(2) by (cases "length lst") auto
        then show ?thesis by simp
      qed
      moreover have "walk nb (map (nth lst) [0..<mn] @ map (nth lst) [mx..<length lst - 1] @ [lst ! (length lst - 1)])"
        "hd (map (nth lst) [0..<mn] @ map (nth lst) [mx..<length lst - 1] @ [lst ! (length lst - 1)]) = hd lst"
        using walk_join[of nb "map (nth lst) [0..<mn]" lst mx "length lst - 1"] seg w(1) t2(2) eq by auto
      ultimately have "walk nb ?res" "hd ?res = s" unfolding tk dr using w(2) by simp_all
      moreover have "last ?res = t" using t2(2) w(3) by (simp add: last_drop)
      ultimately have "simple_route nb s t ?res" using d by (simp add: simple_route_def walk_from_to_def)
      then show ?thesis using red(1) False sp True us nd by (simp add: remove_redundancy_def)
    next
      case hne: False
      obtain a' b' where ab: "dict_get red (lst ! mn) = Some (a', b')" "mn = a' \<or> mn = b'" "a' \<in> set rl" "b' \<in> set rl"
        "lst ! a' = lst ! mn" "lst ! b' = lst ! mn" "a' < b'" using cut_entry[OF c cf(3)] by blast
      have a': "a' = mn" using ab(2,7) cf(7)[OF ab(3)] by auto
      have hi: "lst ! mn = hi" using t1 by simp
      obtain x us1 where x: "randint 0 1 us = Inr (x, us1)" using randint_defined by blast
      have us1: "draws_ok us1" using randint_range[OF us x] by simp
      define o_num where "o_num = (if x = 0 then mn else b')"
      have o: "o_num \<in> set rl" "lst ! o_num = lst ! mn" using ab a' by (simp_all add: o_num_def)
      have start: "choose_sections lst red rl (Some ei) 0 0 [] None [] us =
          choose_sections lst red rl (Some ei) (Suc (pos rl o_num)) (Suc 0) [(0, mn)] (Some o_num) [lst ! mn] us1"
        using first hne hi ab(1) a' py_index_mem[OF cf(3)] py_index_mem[OF ab(4)]
        by (subst choose_sections.simps) (cases "x = 0"; simp add: o_num_def Let_def x[unfolded One_nat_def])
      have "sec_inv nb lst rl mn ei (positions_of [(0, mn)]) o_num ([] @ [lst ! mn])"
        using seg pre hne hi o by (intro sec_choose[OF c]) (simp_all add: positions_of_def)
      from choose_sections_spec[OF c w(1) this us1, of "Suc 0"] obtain r us' where
        cs: "choose_sections lst red rl (Some ei) 0 0 [] None [] us = Inr (r, us')" "draws_ok us'"
          "\<forall>secs. r = Some secs \<longrightarrow> good_cut nb lst (keep_sections lst secs)" unfolding start by auto
      have "remove_redundancy lst us = Inr (map_option (keep_sections lst) r, us')"
        using red(1) False sp hne cs(1) by (simp add: remove_redundancy_def rl_def[symmetric] Let_def del: upt_Suc set_map)
      then show ?thesis using cs(2,3) nd w(2,3) by (auto simp: good_cut_def simple_route_def walk_from_to_def)
    qed
  qed
qed

text \<open>
  C27. On a walk in which no vertex occurs more than twice, \<open>_remove_redundancy\<close> never raises,
  whatever the random choices. What it returns, unless it gives up with \<open>False\<close>, is a walk between
  the same ends over neighbours in which every vertex occurs once; a walk without repetition is
  returned as it is.
\<close>

theorem remove_redundancy_simple:
  assumes "loopy_route nb s t lst" "draws_ok us"
  shows "\<exists>res us'. remove_redundancy lst us = Inr (res, us') \<and>
    (\<forall>p. res = Some p \<longrightarrow> simple_route nb s t p) \<and> (distinct lst \<longrightarrow> res = Some lst)"
  using remove_redundancy_spec[OF assms] by blast

theorem remove_redundancy_simple_witness:
  "\<exists>res us'. remove_redundancy [1, 2, 3, 2, 4, 3, 5] [0, 1 / 2] = Inr (res, us') \<and> (\<forall>p. res = Some p \<longrightarrow> distinct p)"
proof -
  have "loopy_route full_mesh 1 5 [1, 2, 3, 2, 4, 3, 5]"
    by (simp add: loopy_route_def walk_from_to_def at_most_twice_def full_mesh_def)
  moreover have "draws_ok [0, 1 / 2]" by (simp add: draws_ok_def)
  ultimately show ?thesis
    using remove_redundancy_simple[of full_mesh 1 5 "[1, 2, 3, 2, 4, 3, 5]" "[0, 1 / 2]"] by (auto simp: simple_route_def)
qed

end
