(* ===== verification/GA_Route.thy ===== *)
theory GA_Route
  imports GA_Operators
begin

text \<open>
  The class \<open>GAPopulation\<close> of \<open>RouteAlgorithm.py\<close>: a genetic algorithm whose individuals are routes.
  \<open>init_algorithm\<close> and \<open>update_link_status\<close> are those of the theory \<open>Route_Graph\<close> (the edges
  carry one more field there, which this class does not read). The random draws are passed through
  every operation. \<open>path.__len__() < max_hop\<close> compares with a number that may be a float: the
  search gets its ceiling, which gives the same comparisons.
\<close>

section \<open>State and fitness\<close>

record ga = algo +
  age :: nat
  ga_delay_coefficient :: real
  ga_cost_coefficient :: real
  ga_bw_load_coefficient :: real
  generation_max :: real
  max_hop :: real
  crossover_probability :: real
  mutation_probability :: real

definition ga_init_algorithm :: "switch_table \<Rightarrow> link_table_api \<Rightarrow> ga \<Rightarrow> pyerr + ga" where
  "ga_init_algorithm switches lnks a = init_algorithm switches lnks a"

definition ga_update_link_status :: "link_table_api \<Rightarrow> ga \<Rightarrow> pyerr + ga" where
  "ga_update_link_status lnks a = update_link_status lnks (a\<lparr>age := 0\<rparr>)"

definition edge_path :: "vertex list \<Rightarrow> nat list \<Rightarrow> pyerr + int list" where
  "edge_path vs p = res_map (\<lambda>j. find_edge (p ! j) (p ! Suc j) vs) [0..<length p - 1]"

text \<open>
  The sums over the edges of a path; \<^term>\<open>None\<close> when an edge has too little bandwidth. An unknown
  bandwidth (\<open>None\<close>) is smaller than every number in Python 2. An edge number -1 means the last
  edge.
\<close>

fun path_sums :: "real \<Rightarrow> edge list \<Rightarrow> int list \<Rightarrow> real \<times> real \<times> real \<Rightarrow> pyerr + (real \<times> real \<times> real) option" where
  "path_sums min_bandwidth es [] acc = Inr (Some acc)"
| "path_sums min_bandwidth es (k # ks) (delay, cost, bw_load_rate) =
     res_bind (py_nth_int es k) (\<lambda>e.
     case e_avail e of
       None \<Rightarrow> Inr None
     | Some av \<Rightarrow>
         (if av < min_bandwidth then Inr None
          else if e_total e = 0 then Inl ZeroDivisionError
          else path_sums min_bandwidth es ks (delay + e_delay e, cost + e_cost e, bw_load_rate + (1 - av / e_total e))))"

definition path_fitness :: "ga \<Rightarrow> real \<Rightarrow> edge list \<Rightarrow> int list \<Rightarrow> pyerr + real" where
  "path_fitness a min_bandwidth es ks =
     res_bind (path_sums min_bandwidth es ks (0, 0, 0)) (\<lambda>r.
     case r of
       None \<Rightarrow> Inr (- 1000)
     | Some (delay, cost, bw_load_rate) \<Rightarrow>
         (if (delay, cost, bw_load_rate) = (0, 0, 0) then Inl AssertionError
          else
            let d = ga_delay_coefficient a * delay + ga_cost_coefficient a * cost + ga_bw_load_coefficient a * bw_load_rate
            in if d = 0 then Inl ZeroDivisionError else Inr (10 / d)))"

definition fitness_evaluate :: "ga \<Rightarrow> nat list list \<Rightarrow> real \<Rightarrow> pyerr + real list" where
  "fitness_evaluate a paths min_bandwidth =
     res_bind (res_map (edge_path (vertexs a)) paths) (\<lambda>edge_paths.
     res_map (path_fitness a min_bandwidth (edges a)) edge_paths)"

section \<open>Selection\<close>

text \<open>The tournament: \<open>path_selected\<close> keeps its value from one tournament to the next.\<close>

fun tournament :: "real list \<Rightarrow> nat \<Rightarrow> real \<times> nat \<Rightarrow> draws \<Rightarrow> (real \<times> nat) \<times> draws" where
  "tournament fit 0 st us = (st, us)"
| "tournament fit (Suc k) (max_fitness, path_selected) us =
     (case next_draw us of (u, us') \<Rightarrow>
        (let index = scale_draw u (length fit)
         in tournament fit k
              (if fit ! index > max_fitness then (fit ! index, index) else (max_fitness, path_selected)) us'))"

fun select_paths :: "nat list list \<Rightarrow> real list \<Rightarrow> nat \<Rightarrow> nat \<Rightarrow> draws \<Rightarrow> pyerr + (nat list list \<times> draws)" where
  "select_paths paths fit 0 path_selected us = Inr ([], us)"
| "select_paths paths fit (Suc n) path_selected us =
     (case tournament fit (length fit div 3) (- 1000, path_selected) us of ((_, sel), us1) \<Rightarrow>
        res_bind (py_nth paths sel) (\<lambda>p.
        res_bind (select_paths paths fit n sel us1) (\<lambda>(ps, us2). Inr (p # ps, us2))))"

definition select :: "nat list list \<Rightarrow> real list \<Rightarrow> draws \<Rightarrow> pyerr + (nat list list \<times> draws)" where
  "select paths fit us =
     (let default_path = (case find (\<lambda>i. fit ! i > 0) [0..<length fit] of None \<Rightarrow> 0 | Some i \<Rightarrow> i)
      in if length fit < 3 then Inr (paths, us)
         else select_paths paths fit (length paths) default_path us)"

section \<open>Crossover, repair and mutation of the population\<close>

fun cross_pairs :: "real \<Rightarrow> nat list list \<Rightarrow> draws \<Rightarrow> pyerr + (nat list list \<times> draws)" where
  "cross_pairs prob (indv1 # indv2 # rest) us =
     (case next_draw us of (u, us1) \<Rightarrow>
        res_bind (if u > prob then Inr ((indv1, indv2), None, us1) else list_cross indv1 indv2 us1)
          (\<lambda>((n1, n2), _, us2).
             res_bind (cross_pairs prob rest us2) (\<lambda>(ls, us3). Inr (n1 # n2 # ls, us3))))"
| "cross_pairs prob ls us = Inr (ls, us)"

definition cross :: "ga \<Rightarrow> nat list list \<Rightarrow> draws \<Rightarrow> pyerr + (nat list list \<times> draws)" where
  "cross a lnks us =
     (case shuffle_list lnks us of (ls, us1) \<Rightarrow> cross_pairs (crossover_probability a) ls us1)"

definition hop_limit :: "ga \<Rightarrow> nat" where
  "hop_limit a = nat \<lceil>max_hop a\<rceil>"

text \<open>
  The repetitions of \<open>_remove_redundancy\<close> in \<open>remove_redundant_link\<close>: after the ninth one the code
  takes the first path of a new search, even if that repetition succeeded.
\<close>

fun retry_redundancy :: "nat \<Rightarrow> ga \<Rightarrow> nat list \<Rightarrow> draws \<Rightarrow> (nat list \<times> draws) run" where
  "retry_redundancy 0 a link us = Some (Inr (link, us))"
| "retry_redundancy (Suc k) a link us =
     run_bind (Some (remove_redundancy link us)) (\<lambda>(new_link, us1).
     if k = 0
     then run_bind (find_path_dfs (hd link) (last link) (hop_limit a) (vertexs a)) (\<lambda>ps.
          run_bind (Some (py_nth ps 0)) (\<lambda>p. Some (Inr (p, us1))))
     else case new_link of Some p \<Rightarrow> Some (Inr (p, us1)) | None \<Rightarrow> retry_redundancy k a link us1)"

definition repair_link :: "ga \<Rightarrow> nat list \<Rightarrow> draws \<Rightarrow> (nat list \<times> draws) run" where
  "repair_link a link us =
     run_bind (Some (remove_redundancy link us)) (\<lambda>(new_link, us1).
     case new_link of Some p \<Rightarrow> Some (Inr (p, us1)) | None \<Rightarrow> retry_redundancy 9 a link us1)"

fun each_link :: "(nat list \<Rightarrow> draws \<Rightarrow> (nat list \<times> draws) run) \<Rightarrow> nat list list \<Rightarrow> draws \<Rightarrow> (nat list list \<times> draws) run" where
  "each_link f [] us = Some (Inr ([], us))"
| "each_link f (l # ls) us =
     run_bind (f l us) (\<lambda>(l', us1).
     run_bind (each_link f ls us1) (\<lambda>(ls', us2). Some (Inr (l' # ls', us2))))"

definition remove_redundant_link :: "ga \<Rightarrow> nat list list \<Rightarrow> draws \<Rightarrow> (nat list list \<times> draws) run" where
  "remove_redundant_link a = each_link (repair_link a)"

definition mutate_vertex_select :: "ga \<Rightarrow> nat list \<Rightarrow> draws \<Rightarrow> pyerr + (nat \<times> nat \<times> draws)" where
  "mutate_vertex_select a link us =
     res_bind (randint 1 (length link - 2) us) (\<lambda>(rnd, us1).
     res_bind (py_nth (vertexs a) (link ! (rnd - 1))) (\<lambda>former.
     res_bind (py_index (v_neighbors former) (link ! rnd)) (\<lambda>index.
       let others = take index (v_neighbors former) @ drop (Suc index) (v_neighbors former)
       in if others = [] then Inl ValueError
          else res_bind (randint 0 (length others - 1) us1) (\<lambda>(r, us2). Inr (others ! r, rnd, us2)))))"

definition mutate_boost :: "nat list \<Rightarrow> nat \<Rightarrow> nat list option" where
  "mutate_boost link mutate_num =
     (if link ! mutate_num = last link then Some (take (Suc mutate_num) link) else None)"

text \<open>The repetitions in \<open>_mutate_find_new_path\<close>, which give up after the ninth.\<close>

fun retry_similar :: "nat \<Rightarrow> nat list \<Rightarrow> draws \<Rightarrow> pyerr + (nat list option \<times> draws)" where
  "retry_similar 0 link us = Inr (None, us)"
| "retry_similar (Suc k) link us =
     res_bind (remove_redundancy link us) (\<lambda>(new_link, us1).
     if k = 0 then Inr (None, us1)
     else case new_link of Some p \<Rightarrow> Inr (Some p, us1) | None \<Rightarrow> retry_similar k link us1)"

definition mutate_find_new_path :: "ga \<Rightarrow> nat list \<Rightarrow> nat \<Rightarrow> draws \<Rightarrow> (nat list option \<times> draws) run" where
  "mutate_find_new_path a link mutate_num us =
     run_bind (find_path_dfs (link ! mutate_num) (last link) (hop_limit a) (vertexs a)) (\<lambda>dfs_paths.
       if dfs_paths = [] then Some (Inl AssertionError)
       else
         let counter_list = map (\<lambda>path. length (takeWhile (\<lambda>v. v \<notin> set path) link)) dfs_paths
         in case list_index counter_list (length link) of
              Some n \<Rightarrow> Some (Inr (Some (take mutate_num link @ dfs_paths ! n), us))
            | None \<Rightarrow>
                run_bind (Some (py_index counter_list (Max (set counter_list)))) (\<lambda>n.
                  let similar_link = take mutate_num link @ dfs_paths ! n
                  in run_bind (Some (remove_redundancy similar_link us)) (\<lambda>(new_link, us1).
                     case new_link of
                       Some p \<Rightarrow> Some (Inr (Some p, us1))
                     | None \<Rightarrow> Some (retry_similar 9 similar_link us1))))"

definition mutate_link :: "ga \<Rightarrow> nat list \<Rightarrow> draws \<Rightarrow> (nat list \<times> draws) run" where
  "mutate_link a link us =
     (case next_draw us of (u, us1) \<Rightarrow>
        if u > mutation_probability a then Some (Inr (link, us1))
        else if length link = 2 then Some (Inr (link, us1))
        else run_bind (Some (mutate_vertex_select a link us1)) (\<lambda>(new_vertex, sel_num, us2).
          let mutated = link[sel_num := new_vertex]
          in case mutate_boost mutated sel_num of
               Some p \<Rightarrow> Some (Inr (p, us2))
             | None \<Rightarrow>
                 run_bind (mutate_find_new_path a mutated sel_num us2) (\<lambda>(r, us3).
                 Some (Inr ((case r of Some p \<Rightarrow> p | None \<Rightarrow> link), us3)))))"

definition mutate :: "ga \<Rightarrow> nat list list \<Rightarrow> draws \<Rightarrow> (nat list list \<times> draws) run" where
  "mutate a = each_link (mutate_link a)"

section \<open>Evolution\<close>

text \<open>
  The loop of \<open>evolve\<close>, with \<open>self.age\<close> and \<open>self.links\<close> as arguments. It ends when all routes are
  equal or the age exceeds the limit; the age grows in every round.
\<close>

function evolve_loop :: "ga \<Rightarrow> real \<Rightarrow> nat \<Rightarrow> nat list list \<Rightarrow> draws \<Rightarrow>
    (nat list list \<times> real list \<times> nat \<times> draws) run" where
  "evolve_loop a min_bandwidth ag lnks us =
     run_bind (Some (fitness_evaluate a lnks min_bandwidth)) (\<lambda>f1.
     run_bind (Some (select lnks f1 us)) (\<lambda>(l1, us1).
     run_bind (Some (fitness_evaluate a l1 min_bandwidth)) (\<lambda>f2.
       if l1 = [] then Some (Inl IndexError)
       else if count_list l1 (hd l1) = length l1 then Some (Inr (l1, f2, ag, us1))
       else if real ag > generation_max a then Some (Inr (l1, f2, ag, us1))
       else
         run_bind (Some (cross a l1 us1)) (\<lambda>(l2, us2).
         run_bind (remove_redundant_link a l2 us2) (\<lambda>(l3, us3).
         run_bind (mutate a l3 us3) (\<lambda>(l4, us4).
         run_bind (remove_redundant_link a l4 us4) (\<lambda>(l5, us5).
         evolve_loop a min_bandwidth (Suc ag) l5 us5)))))))"
  by pat_completeness auto
termination
proof (relation "measure (\<lambda>(a, bw, ag, lnks, us). nat (\<lfloor>generation_max a\<rfloor> + 1 - int ag))", goal_cases)
  case 1
  then show ?case by simp
next
  case (2 a bw ag lnks us)
  then have "int ag \<le> \<lfloor>generation_max a\<rfloor>" by (simp add: le_floor_iff)
  then show ?case by simp
qed

declare evolve_loop.simps [simp del]

definition evolve :: "nat \<Rightarrow> nat \<Rightarrow> real \<Rightarrow> ga \<Rightarrow> draws \<Rightarrow> (ga \<times> draws) run" where
  "evolve src_dpid dst_dpid min_bandwidth a us =
     run_bind (Some (py_index (switch_queue a) src_dpid)) (\<lambda>src_num.
     run_bind (Some (py_index (switch_queue a) dst_dpid)) (\<lambda>dst_num.
     run_bind (find_path_dfs src_num dst_num (hop_limit a) (vertexs a)) (\<lambda>ps.
     run_bind (evolve_loop a min_bandwidth (age a) ps us) (\<lambda>(lnks, fit, ag, us').
     Some (Inr (a\<lparr>links := lnks, fitness := fit, age := ag\<rparr>, us'))))))"

definition ga_get_link :: "nat \<Rightarrow> nat \<Rightarrow> ga \<Rightarrow> pyerr + (ga \<times> nat list \<times> real)" where
  "ga_get_link src dst a =
     (let num = snd (foldl (\<lambda>(fitness_max, num) (i, f). if f > fitness_max then (f, i) else (fitness_max, num))
                (0, 0) (enumerate 0 (fitness a)))
      in res_bind (py_nth (links a) num) (\<lambda>p.
         if length p < 2 then Inl IndexError
         else res_bind (res_map (py_nth (switch_queue a)) p) (\<lambda>dpids.
           Inr (a\<lparr>link_cache := dict_set (p ! 0, p ! 1) p (link_cache a)\<rparr>, dpids, link_cost_of (edges a) p))))"

definition ga_update_param :: "string option \<Rightarrow> (string, real) pydict \<Rightarrow> ga \<Rightarrow> pyerr + (ga \<times> bool)" where
  "ga_update_param algorithm_type data a =
     (case algorithm_type of
        None \<Rightarrow> Inl KeyError
      | Some t \<Rightarrow>
          (if t \<noteq> ''GA'' then Inr (a, False)
           else Inr (a\<lparr>ga_delay_coefficient := update_coefficient (ga_delay_coefficient a) ''delay_coefficient'' data,
                       ga_cost_coefficient := update_coefficient (ga_cost_coefficient a) ''cost_coefficient'' data,
                       ga_bw_load_coefficient := update_coefficient (ga_bw_load_coefficient a) ''bw_load_coefficient'' data,
                       generation_max := update_coefficient (generation_max a) ''generation_max'' data,
                       max_hop := update_coefficient (max_hop a) ''max_hop'' data,
                       crossover_probability := update_coefficient (crossover_probability a) ''crossover_probability'' data,
                       mutation_probability := update_coefficient (mutation_probability a) ''mutation_probability'' data\<rparr>, True)))"

section \<open>The population stays a set of routes\<close>

text \<open>
  \<open>net_ok\<close>: neighbours are vertices and no vertex is its own neighbour. A population is a list of
  routes from \<open>s\<close> to \<open>t\<close>; the predicate says which kind.
\<close>

definition net_ok :: "vertex list \<Rightarrow> bool" where
  "net_ok vs \<longleftrightarrow> vertexs_ok vs \<and> (\<forall>u < length vs. u \<notin> set (nbs_of vs u))"

abbreviation routes :: "(nat list \<Rightarrow> bool) \<Rightarrow> nat list list \<Rightarrow> bool" where
  "routes P ls \<equiv> \<forall>l \<in> set ls. P l"

lemma route_in_range:
  assumes "net_ok vs" "walk_from_to (nbs_of vs) s t p" "s < length vs"
  shows "set p \<subseteq> {..<length vs}"
proof (rule walk_closed)
  show "walk (nbs_of vs) p" "hd p \<in> {..<length vs}" using assms by (auto simp: walk_from_to_def)
  fix u v assume "u \<in> {..<length vs}" "v \<in> set (nbs_of vs u)"
  then show "v \<in> {..<length vs}" using assms(1) nth_mem[of u vs] unfolding net_ok_def vertexs_ok_def by blast
qed

lemma dfs_routes:
  assumes "net_ok vs" "s < length vs" "s \<noteq> t"
  shows "\<exists>ps. find_path_dfs s t h vs = Some (Inr ps) \<and> routes (simple_route (nbs_of vs) s t) ps"
  using find_path_dfs_paths[of vs s t h] assms by (auto simp: net_ok_def simple_route_def)

lemma tournament_range:
  "draws_ok us \<Longrightarrow> fit \<noteq> [] \<Longrightarrow> sel < length fit \<Longrightarrow> tournament fit k (m, sel) us = ((m', sel'), us') \<Longrightarrow>
     sel' < length fit \<and> draws_ok us'"
proof (induction k arbitrary: m sel us)
  case (Suc k)
  obtain u us1 where n: "next_draw us = (u, us1)" by fastforce
  note u = draws_ok_next[OF Suc.prems(1) n]
  have "scale_draw u (length fit) < length fit" using u Suc.prems(2) by (intro scale_draw_less) auto
  then show ?case
    using Suc.IH[of us1] Suc.prems u n by (simp add: Let_def split: if_splits)
qed simp

lemma select_paths_range:
  "draws_ok us \<Longrightarrow> fit \<noteq> [] \<Longrightarrow> length fit = length paths \<Longrightarrow> sel < length fit \<Longrightarrow>
     \<exists>ps us'. select_paths paths fit n sel us = Inr (ps, us') \<and> set ps \<subseteq> set paths \<and> length ps = n \<and> draws_ok us'"
proof (induction n arbitrary: sel us)
  case (Suc n)
  obtain m' sel' us1 where t: "tournament fit (length fit div 3) (- 1000, sel) us = ((m', sel'), us1)"
    by (metis prod.collapse)
  note r = tournament_range[OF Suc.prems(1,2,4) t]
  with Suc.IH[of us1 sel'] Suc.prems obtain ps us' where
    "select_paths paths fit n sel' us1 = Inr (ps, us')" "set ps \<subseteq> set paths" "length ps = n" "draws_ok us'" by auto
  then show ?case using t r Suc.prems(3) by (simp add: py_nth_def)
qed simp

lemma select_spec:
  assumes "draws_ok us" "length fit = length paths"
  shows "\<exists>ps us'. select paths fit us = Inr (ps, us') \<and> set ps \<subseteq> set paths \<and> length ps = length paths \<and> draws_ok us'"
proof (cases "length fit < 3")
  case True
  then show ?thesis using assms by (simp add: select_def)
next
  case False
  then have ne: "fit \<noteq> []" by auto
  have "(case find (\<lambda>i. fit ! i > 0) [0..<length fit] of None \<Rightarrow> 0 | Some i \<Rightarrow> i) < length fit"
    using ne by (auto simp: find_Some_iff split: option.splits)
  from select_paths_range[OF assms(1) ne assms(2) this, of "length paths"] show ?thesis
    using False by (simp add: select_def Let_def)
qed

lemma cross_pairs_spec:
  assumes "s \<noteq> t"
  shows "draws_ok us \<Longrightarrow> routes (simple_route nb s t) ls \<Longrightarrow>
    \<exists>ls' us'. cross_pairs prob ls us = Inr (ls', us') \<and> routes (loopy_route nb s t) ls' \<and> draws_ok us'"
proof (induction prob ls us rule: cross_pairs.induct)
  case (1 prob l1 l2 rest us)
  obtain u us1 where n: "next_draw us = (u, us1)" by fastforce
  have us1: "draws_ok us1" using draws_ok_next[OF "1.prems"(1) n] by simp
  have l: "simple_route nb s t l1" "simple_route nb s t l2" using "1.prems"(2) by simp_all
  obtain n1 n2 res us2 where x: "(if u > prob then Inr ((l1, l2), None, us1) else list_cross l1 l2 us1) = Inr ((n1, n2), res, us2)"
    "draws_ok us2" "loopy_route nb s t n1" "loopy_route nb s t n2"
    using list_cross_spec[OF l assms us1] us1 simple_loopy[OF l(1)] simple_loopy[OF l(2)] by (cases "u > prob") auto
  have "\<exists>ls' us'. cross_pairs prob rest us2 = Inr (ls', us') \<and> routes (loopy_route nb s t) ls' \<and> draws_ok us'"
    using "1.IH"[OF n[symmetric], of us2] x(2) "1.prems"(2) by simp
  then show ?case using n x by auto
qed (auto simp: simple_loopy)

lemma cross_spec:
  assumes "s \<noteq> t" "draws_ok us" "routes (simple_route nb s t) ls"
  shows "\<exists>ls' us'. cross a ls us = Inr (ls', us') \<and> routes (loopy_route nb s t) ls' \<and> draws_ok us'"
proof -
  obtain ms us1 where sh: "shuffle_list ls us = (ms, us1)" by fastforce
  note m = shuffle_list_mset[OF assms(2) sh]
  then have "set ms = set ls" by (metis set_mset_mset)
  then show ?thesis using cross_pairs_spec[OF assms(1), where us = us1 and nb = nb and ls = ms and prob = "crossover_probability a"] m assms(3) sh by (simp add: cross_def)
qed

text \<open>An operation on routes: it ends, and if it does not raise its result satisfies \<open>Q\<close>.\<close>

definition yields :: "('a \<times> draws) run \<Rightarrow> ('a \<Rightarrow> bool) \<Rightarrow> bool" where
  "yields r Q \<longleftrightarrow> r \<noteq> None \<and> (\<forall>x us. r = Some (Inr (x, us)) \<longrightarrow> Q x \<and> draws_ok us)"

lemma yieldsI: "draws_ok us \<Longrightarrow> Q x \<Longrightarrow> yields (Some (Inr (x, us))) Q"
  by (simp add: yields_def)

lemma yields_raise: "yields (Some (Inl e)) Q"
  by (simp add: yields_def)

lemma yields_bind:
  assumes "yields r Q" "\<And>x us. Q x \<Longrightarrow> draws_ok us \<Longrightarrow> yields (f (x, us)) R"
  shows "yields (run_bind r f) R"
  using assms by (cases r; cases "the r") (auto simp: yields_def run_bind_def)

lemma remove_yields:
  "loopy_route nb s t l \<Longrightarrow> draws_ok us \<Longrightarrow> yields (Some (remove_redundancy l us)) (\<lambda>r. \<forall>p. r = Some p \<longrightarrow> simple_route nb s t p)"
  using remove_redundancy_spec[of nb s t l us] by (auto simp: yields_def)

lemma retry_redundancy_yields:
  assumes net: "net_ok (vertexs a)" "s < length (vertexs a)" "s \<noteq> t"
  defines "nb \<equiv> nbs_of (vertexs a)"
  shows "loopy_route nb s t l \<Longrightarrow> draws_ok us \<Longrightarrow> yields (retry_redundancy (Suc k) a l us) (simple_route nb s t)"
proof (induction k arbitrary: us)
  case 0
  have ends: "hd l = s" "last l = t" using "0.prems"(1) by (auto simp: loopy_route_def walk_from_to_def)
  obtain ps where ps: "find_path_dfs s t (hop_limit a) (vertexs a) = Some (Inr ps)" "routes (simple_route nb s t) ps"
    using dfs_routes[OF net] unfolding nb_def by blast
  have "yields (run_bind (Some (py_nth ps 0)) (\<lambda>p. Some (Inr (p, us1)))) (simple_route nb s t)" if "draws_ok us1" for us1
    using ps(2) that by (cases ps) (auto simp: py_nth_def yields_def)
  then show ?case
    using remove_yields[OF "0.prems"] ps(1) ends by (auto intro!: yields_bind)
next
  case (Suc k)
  show ?case
    unfolding retry_redundancy.simps(2)[of "Suc k"]
  proof (rule yields_bind[OF remove_yields[OF Suc.prems]], goal_cases)
    case (1 r us1)
    then show ?case using Suc.IH[OF Suc.prems(1)] by (cases r) (simp_all add: yieldsI del: retry_redundancy.simps)
  qed
qed

lemma repair_link_yields:
  assumes net: "net_ok (vertexs a)" "s < length (vertexs a)" "s \<noteq> t"
    and l: "loopy_route (nbs_of (vertexs a)) s t l" "draws_ok us"
  shows "yields (repair_link a l us) (simple_route (nbs_of (vertexs a)) s t)"
  unfolding repair_link_def
proof (rule yields_bind[OF remove_yields[OF l]], goal_cases)
  case (1 r us1)
  then show ?case using retry_redundancy_yields[OF net l(1), of us1 8] by (cases r) (simp_all add: yieldsI)
qed

lemma each_link_yields:
  assumes "\<And>l us. P l \<Longrightarrow> draws_ok us \<Longrightarrow> yields (f l us) Q"
  shows "routes P ls \<Longrightarrow> draws_ok us \<Longrightarrow> yields (each_link f ls us) (routes Q)"
proof (induction ls arbitrary: us)
  case (Cons l ls)
  show ?case
    unfolding each_link.simps
  proof (rule yields_bind[OF assms])
    show "P l" "draws_ok us" using Cons.prems by simp_all
    fix l' us1 assume l': "Q l'" "draws_ok us1"
    have "yields (run_bind (each_link f ls us1) (\<lambda>(ls', us2). Some (Inr (l' # ls', us2)))) (routes Q)"
      using Cons.IH[of us1] Cons.prems(1) l' by (intro yields_bind[of _ "routes Q"]) (auto simp: yields_def)
    then show "yields (case (l', us1) of (l', us1) \<Rightarrow>
        run_bind (each_link f ls us1) (\<lambda>(ls', us2). Some (Inr (l' # ls', us2)))) (routes Q)" by simp
  qed
qed (simp add: yieldsI)

section \<open>Mutation\<close>

lemma mutate_vertex_select_spec:
  assumes "mutate_vertex_select a l us = Inr (v, m, us2)" "draws_ok us" "3 \<le> length l"
  shows "1 \<le> m" "m < length l - 1" "v \<in> set (nbs_of (vertexs a) (l ! (m - 1)))" "draws_ok us2"
proof -
  obtain rnd us1 where r: "randint 1 (length l - 2) us = Inr (rnd, us1)"
    using assms(1) by (cases "randint 1 (length l - 2) us") (auto simp: mutate_vertex_select_def)
  note rr = randint_range[OF assms(2) r]
  obtain former where f: "py_nth (vertexs a) (l ! (rnd - 1)) = Inr former"
    using assms(1) r by (cases "py_nth (vertexs a) (l ! (rnd - 1))") (auto simp: mutate_vertex_select_def)
  obtain ix where ix: "py_index (v_neighbors former) (l ! rnd) = Inr ix"
    using assms(1) r f by (cases "py_index (v_neighbors former) (l ! rnd)") (auto simp: mutate_vertex_select_def)
  let ?o = "take ix (v_neighbors former) @ drop (Suc ix) (v_neighbors former)"
  have ne: "?o \<noteq> []"
  proof
    assume "?o = []"
    then have "mutate_vertex_select a l us = Inl ValueError"
      using r f ix by (simp only: mutate_vertex_select_def res_bind_simps prod.case Let_def if_True simp_thms)
    then show False using assms(1) by simp
  qed
  obtain k us3 where k: "randint 0 (length ?o - 1) us1 = Inr (k, us3)" using randint_defined by blast
  note kr = randint_range[OF _ k]
  have eq: "v = ?o ! k" "m = rnd" "us2 = us3"
    using assms(1) r f ix ne k by (auto simp: mutate_vertex_select_def Let_def)
  have "k < length ?o" using kr rr ne by (cases ?o) auto
  then have "v \<in> set ?o" unfolding eq by (rule nth_mem)
  then have "v \<in> set (v_neighbors former)" by (auto dest: in_set_takeD in_set_dropD)
  moreover have "former = vertexs a ! (l ! (rnd - 1))" using f by (simp add: py_nth_def split: if_splits)
  ultimately show "v \<in> set (nbs_of (vertexs a) (l ! (m - 1)))" using eq by simp
  show "1 \<le> m" "m < length l - 1" "draws_ok us2" using rr kr eq assms(3) by auto
qed

lemma mutated_prefix:
  assumes r: "simple_route nb s t l" and m: "1 \<le> m" "m < length l - 1" and v: "v \<in> set (nb (l ! (m - 1)))"
  shows "walk nb (take m l @ [v])" "hd (take m l @ [v]) = s" "distinct (take m l)" "t \<notin> set (take m l)" "take m l \<noteq> []"
proof -
  have w: "walk nb l" "hd l = s" "last l = t" "distinct l" using r by (auto simp: simple_route_def walk_from_to_def)
  have sp: "take (m - 1) l @ l ! (m - 1) # drop m l = l" using m id_take_nth_drop[of "m - 1" l] by simp
  have tk: "take m l = take (m - 1) l @ [l ! (m - 1)]" using m take_Suc_conv_app_nth[of "m - 1" l] by simp
  have "walk nb (take m l)" using walk_append[of nb "take (m - 1) l" "l ! (m - 1)" "drop m l"] w(1) unfolding sp tk by blast
  then show "walk nb (take m l @ [v])" using v by (subst walk_snoc) (auto simp: tk)
  show ne: "take m l \<noteq> []" by (simp add: tk)
  show "hd (take m l @ [v]) = s" using w(2) m by (cases l; cases m) auto
  show "distinct (take m l)" using w(4) by simp
  have "l = take m l @ drop m l" by simp
  moreover have "t \<in> set (drop m l)" using w(3) m last_in_set[of "drop m l"] by (simp add: last_drop)
  ultimately show "t \<notin> set (take m l)" using w(4) by (metis disjoint_iff distinct_append)
qed

lemma mutated_path:
  assumes r: "simple_route nb s t l" and m: "1 \<le> m" "m < length l - 1" and v: "v \<in> set (nb (l ! (m - 1)))"
    and p: "simple_route nb v t p"
  shows "loopy_route nb s t (take m l @ p)"
proof -
  note pre = mutated_prefix[OF r m v]
  have w: "walk nb p" "hd p = v" "last p = t" "distinct p" using p by (auto simp: simple_route_def walk_from_to_def)
  obtain q where q: "p = v # q" using w(1,2) walk_nonempty[OF w(1)] by (cases p) auto
  have "walk nb (take m l @ v # q)" using walk_append[of nb "take m l" v q] pre(1) w(1) q by simp
  moreover have "hd (take m l @ p) = s" using pre(2,5) by simp
  ultimately show ?thesis
    using w(3,4) q append_twice[OF pre(3) w(4)] by (simp add: loopy_route_def walk_from_to_def)
qed

lemma retry_similar_yields:
  assumes "loopy_route nb s t l"
  shows "draws_ok us \<Longrightarrow> yields (Some (retry_similar k l us)) (\<lambda>r. \<forall>p. r = Some p \<longrightarrow> simple_route nb s t p)"
proof (induction k arbitrary: us)
  case (Suc k)
  obtain r us1 where "remove_redundancy l us = Inr (r, us1)" "draws_ok us1" "\<forall>p. r = Some p \<longrightarrow> simple_route nb s t p"
    using remove_redundancy_spec[OF assms Suc.prems] by blast
  then show ?case using Suc.IH[of us1] by (cases r) (auto simp: yields_def)
qed (simp add: yields_def)

lemma mutate_link_yields:
  assumes net: "net_ok (vertexs a)" "s < length (vertexs a)" "s \<noteq> t"
    and l: "simple_route (nbs_of (vertexs a)) s t l" "draws_ok us"
  shows "yields (mutate_link a l us) (loopy_route (nbs_of (vertexs a)) s t)"
proof -
  let ?nb = "nbs_of (vertexs a)"
  obtain u us1 where n: "next_draw us = (u, us1)" by fastforce
  have us1: "draws_ok us1" using draws_ok_next[OF l(2) n] by simp
  have lp: "loopy_route ?nb s t l" by (rule simple_loopy[OF l(1)])
  have w: "walk ?nb l" "hd l = s" "last l = t" using l(1) by (auto simp: simple_route_def walk_from_to_def)
  have "2 \<le> length l" using w net(3) walk_nonempty[OF w(1)] by (cases l; cases "tl l") auto
  consider "u > mutation_probability a \<or> length l = 2" | e where "\<not> (u > mutation_probability a \<or> length l = 2)" "mutate_vertex_select a l us1 = Inl e"
    | v m us2 where "\<not> (u > mutation_probability a \<or> length l = 2)" "mutate_vertex_select a l us1 = Inr (v, m, us2)"
    by (cases "mutate_vertex_select a l us1") auto
  then show ?thesis
  proof cases
    case 1
    then show ?thesis using n us1 lp by (auto simp: mutate_link_def intro: yieldsI)
  next
    case 2
    then show ?thesis using n by (simp add: mutate_link_def yields_raise)
  next
    case 3
    have "3 \<le> length l" using 3(1) \<open>2 \<le> length l\<close> by simp
    note ms = mutate_vertex_select_spec[OF 3(2) us1 this]
    note pre = mutated_prefix[OF l(1) ms(1-3)]
    let ?m = "l[m := v]"
    have "l \<noteq> []" using \<open>3 \<le> length l\<close> by auto
    then have lm: "?m ! m = v" "last ?m = t" "take m ?m = take m l" "take (Suc m) ?m = take m l @ [v]" "length ?m = length l"
      using ms(1,2) w(3) \<open>3 \<le> length l\<close> last_list_update[of l m v] by (auto simp: take_Suc_conv_app_nth)
    show ?thesis
    proof (cases "v = t")
      case True
      have "simple_route ?nb s t (take m l @ [v])"
        using pre True by (simp add: simple_route_def walk_from_to_def)
      then show ?thesis using 3 n lm True ms(4) by (simp add: mutate_link_def mutate_boost_def yieldsI simple_loopy)
    next
      case False
      have "l ! (m - 1) \<in> set l" using ms(1,2) by simp
      then have "l ! (m - 1) < length (vertexs a)"
        using route_in_range[OF net(1) _ net(2)] l(1) unfolding simple_route_def by blast
      then have vl: "v < length (vertexs a)" using net(1) ms(3) nth_mem unfolding net_ok_def vertexs_ok_def by blast
      obtain ps where ps: "find_path_dfs v t (hop_limit a) (vertexs a) = Some (Inr ps)" "routes (simple_route ?nb v t) ps"
        using dfs_routes[OF net(1) vl False] by blast
      have good: "loopy_route ?nb s t (take m l @ ps ! k)" if "k < length ps" for k
        using mutated_path[OF l(1) ms(1-3)] ps(2) that by simp
      have "yields (mutate_find_new_path a ?m m us2) (\<lambda>r. \<forall>p. r = Some p \<longrightarrow> loopy_route ?nb s t p)"
      proof (cases "ps = []")
        case True
        then show ?thesis using ps(1) lm by (simp add: mutate_find_new_path_def yields_raise)
      next
        case ne: False
        let ?cs = "map (\<lambda>path. length (takeWhile (\<lambda>v. v \<notin> set path) ?m)) ps"
        show ?thesis
        proof (cases "list_index ?cs (length ?m)")
          case (Some k)
          then have "k < length ps" using index_by_Some[OF Some] by simp
          then show ?thesis using ps(1) lm ne Some ms(4) good
            by (simp add: mutate_find_new_path_def Let_def yieldsI)
        next
          case None
          have mx: "Max (set ?cs) \<in> set ?cs" using ne by (intro Max_in) auto
          let ?k = "pos ?cs (Max (set ?cs))"
          have k: "?k < length ps" using pos_mem[OF mx] by simp
          note lo = good[OF k]
          have sim: "simple_route ?nb s t p \<Longrightarrow> loopy_route ?nb s t p" for p by (rule simple_loopy)
          obtain r us3 where rr: "remove_redundancy (take m l @ ps ! ?k) us2 = Inr (r, us3)" "draws_ok us3"
            "\<forall>p. r = Some p \<longrightarrow> simple_route ?nb s t p" using remove_redundancy_spec[OF lo ms(4)] by blast
          have y: "yields (Some (retry_similar 9 (take m l @ ps ! ?k) us3)) (\<lambda>r. \<forall>p. r = Some p \<longrightarrow> loopy_route ?nb s t p)"
            using retry_similar_yields[OF lo rr(2), of 9] sim by (auto simp: yields_def)
          have "mutate_find_new_path a ?m m us2 =
              (case r of Some p \<Rightarrow> Some (Inr (Some p, us3)) | None \<Rightarrow> Some (retry_similar 9 (take m l @ ps ! ?k) us3))"
            using ps(1) lm ne None rr(1) py_index_mem[OF mx] by (simp add: mutate_find_new_path_def Let_def del: set_map)
          then show ?thesis using y rr(2,3) sim by (cases r) (auto intro!: yieldsI)
        qed
      qed
      then have "yields (run_bind (mutate_find_new_path a ?m m us2)
          (\<lambda>(r, us3). Some (Inr ((case r of Some p \<Rightarrow> p | None \<Rightarrow> l), us3)))) (loopy_route ?nb s t)"
        by (rule yields_bind) (use lp in \<open>auto intro!: yieldsI split: option.splits\<close>)
      then show ?thesis using 3 n lm False by (simp add: mutate_link_def mutate_boost_def)
    qed
  qed
qed

section \<open>Evolution ends with routes\<close>

lemma evolve_loop_yields:
  assumes net: "net_ok (vertexs a)" "s < length (vertexs a)" "s \<noteq> t"
  defines "P \<equiv> simple_route (nbs_of (vertexs a)) s t"
  shows "routes P ls \<Longrightarrow> draws_ok us \<Longrightarrow>
    evolve_loop a bw ag ls us \<noteq> None \<and>
    (\<forall>l f g us'. evolve_loop a bw ag ls us = Some (Inr (l, f, g, us')) \<longrightarrow> l \<noteq> [] \<and> routes P l \<and> length f = length l \<and> ag \<le> g)"
proof (induction "nat (\<lfloor>generation_max a\<rfloor> + 1 - int ag)" arbitrary: ag ls us rule: less_induct)
  case less
  let ?E = "evolve_loop a bw ag ls us"
  have flen: "length f = length qs" if "fitness_evaluate a qs bw = Inr f" for qs f
    using that by (auto simp: fitness_evaluate_def res_bind_Inr dest!: res_map_Inr list_all2_lengthD)
  show ?case
  proof (cases "fitness_evaluate a ls bw")
    case (Inl e)
    then show ?thesis by (simp add: evolve_loop.simps[of a bw ag ls us])
  next
    case (Inr f1)
    obtain l1 us1 where s1: "select ls f1 us = Inr (l1, us1)" "set l1 \<subseteq> set ls" "draws_ok us1"
      using select_spec[OF less.prems(2) flen[OF Inr]] by blast
    have p1: "routes P l1" using s1(2) less.prems(1) by blast
    show ?thesis
    proof (cases "fitness_evaluate a l1 bw")
      case (Inl e)
      then show ?thesis using Inr s1 by (simp add: evolve_loop.simps[of a bw ag ls us])
    next
      case f2: (Inr f2)
      let ?stop = "count_list l1 (hd l1) = length l1 \<or> real ag > generation_max a"
      consider "l1 = []" | "l1 \<noteq> []" ?stop | "l1 \<noteq> []" "\<not> ?stop" by blast
      then show ?thesis
      proof cases
        case 1
        then show ?thesis using Inr s1 f2 by (simp add: evolve_loop.simps[of a bw ag ls us])
      next
        case 2
        then have "?E = Some (Inr (l1, f2, ag, us1))"
          using Inr s1 f2 by (auto simp: evolve_loop.simps[of a bw ag ls us])
        then show ?thesis using 2(1) p1 flen[OF f2] by simp
      next
        case 3
        obtain l2 us2 where c: "cross a l1 us1 = Inr (l2, us2)" "routes (loopy_route (nbs_of (vertexs a)) s t) l2" "draws_ok us2"
          using cross_spec[OF net(3) s1(3) p1[unfolded P_def]] by blast
        have "int ag \<le> \<lfloor>generation_max a\<rfloor>" using 3(2) by (simp add: le_floor_iff)
        then have dec: "nat (\<lfloor>generation_max a\<rfloor> + 1 - int (Suc ag)) < nat (\<lfloor>generation_max a\<rfloor> + 1 - int ag)" by simp
        have repair: "yields (remove_redundant_link a qs us') (routes P)" if "routes (loopy_route (nbs_of (vertexs a)) s t) qs" "draws_ok us'" for qs us'
          unfolding remove_redundant_link_def P_def
          by (rule each_link_yields[where P = "loopy_route (nbs_of (vertexs a)) s t", OF repair_link_yields[OF net] that])
        have mut: "yields (mutate a qs us') (routes (loopy_route (nbs_of (vertexs a)) s t))" if "routes P qs" "draws_ok us'" for qs us'
          unfolding mutate_def
          by (rule each_link_yields[where P = P, OF mutate_link_yields[OF net] that]) (simp_all add: P_def)
        let ?R = "\<lambda>r. r \<noteq> None \<and> (\<forall>l f g us'. r = Some (Inr (l, f, g, us')) \<longrightarrow> l \<noteq> [] \<and> routes P l \<and> length f = length l \<and> ag \<le> g)"
        have step: "?R (run_bind r k)" if "yields r Q" "\<And>x us. Q x \<Longrightarrow> draws_ok us \<Longrightarrow> ?R (k (x, us))"
          for r :: "(nat list list \<times> draws) run" and Q k
        proof (cases r)
          case None
          then show ?thesis using that(1) by (simp add: yields_def)
        next
          case (Some y)
          show ?thesis
          proof (cases y)
            case (Inl e)
            then show ?thesis using Some by simp
          next
            case (Inr z)
            obtain x us where z: "z = (x, us)" by (cases z)
            then have "Q x" "draws_ok us" using that(1) Some Inr by (auto simp: yields_def)
            from that(2)[OF this] show ?thesis unfolding Some Inr z run_bind_simps .
          qed
        qed
        have last: "?R (evolve_loop a bw (Suc ag) qs us')" if "routes P qs" "draws_ok us'" for qs us'
          using less.hyps[OF dec that] Suc_leD[of ag] by fastforce
        have eq: "?E = run_bind (remove_redundant_link a l2 us2) (\<lambda>(l3, us3).
            run_bind (mutate a l3 us3) (\<lambda>(l4, us4).
            run_bind (remove_redundant_link a l4 us4) (\<lambda>(l5, us5). evolve_loop a bw (Suc ag) l5 us5)))"
          using 3 Inr s1(1) f2 c(1) by (simp add: evolve_loop.simps[of a bw ag ls us])
        show ?thesis unfolding eq
          apply (rule step[OF repair[OF c(2,3)]])
          apply (simp only: prod.case)
          apply (rule step[OF mut], assumption, assumption)
          apply (simp only: prod.case)
          apply (rule step[OF repair], assumption, assumption)
          apply (simp only: prod.case)
          apply (rule last, assumption, assumption)
          done
      qed
    qed
  qed
qed

lemma evolve_routes:
  assumes net: "net_ok (vertexs a)" "length (vertexs a) = length (switch_queue a)"
    and sd: "src \<in> set (switch_queue a)" "dst \<in> set (switch_queue a)" "src \<noteq> dst" and us: "draws_ok us"
  shows "evolve src dst bw a us \<noteq> None \<and>
    (\<forall>a' us'. evolve src dst bw a us = Some (Inr (a', us')) \<longrightarrow>
       links a' \<noteq> [] \<and> length (fitness a') = length (links a') \<and>
       (\<forall>l \<in> set (links a'). simple_route (nbs_of (vertexs a)) (pos (switch_queue a) src) (pos (switch_queue a) dst) l))"
proof -
  let ?s = "pos (switch_queue a) src" and ?t = "pos (switch_queue a) dst"
  have st: "?s < length (vertexs a)" "?s \<noteq> ?t" using pos_mem[OF sd(1)] pos_inj[OF sd(1,2)] sd(3) net(2) by auto
  obtain ps where ps: "find_path_dfs ?s ?t (hop_limit a) (vertexs a) = Some (Inr ps)"
    "routes (simple_route (nbs_of (vertexs a)) ?s ?t) ps" using dfs_routes[OF net(1) st] by blast
  note ev = evolve_loop_yields[OF net(1) st ps(2) us, of bw "age a"]
  have eq: "evolve src dst bw a us = run_bind (evolve_loop a bw (age a) ps us) (\<lambda>(lnks, fit, ag, us').
     Some (Inr (a\<lparr>links := lnks, fitness := fit, age := ag\<rparr>, us')))"
    using ps(1) by (simp add: evolve_def py_index_mem[OF sd(1)] py_index_mem[OF sd(2)])
  show ?thesis unfolding eq using ev by (auto simp: run_bind_Some run_bind_None)
qed

text \<open>
  C13. On a network whose neighbours are vertices and where no switch is its own neighbour, for two
  different switches and any random draws, the evolution always ends. Unless it raises, the
  population is not empty, every individual is a route from the source to the destination over
  neighbours without repetition, and the fitness has an entry per individual.
\<close>

theorem evolve_ends_with_routes:
  assumes net: "net_ok (vertexs a)" "length (vertexs a) = length (switch_queue a)"
    and sd: "src \<in> set (switch_queue a)" "dst \<in> set (switch_queue a)" "src \<noteq> dst" and us: "draws_ok us"
  shows "evolve src dst bw a us \<noteq> None \<and>
    (\<forall>a' us'. evolve src dst bw a us = Some (Inr (a', us')) \<longrightarrow>
       links a' \<noteq> [] \<and> length (fitness a') = length (links a') \<and>
       (\<forall>l \<in> set (links a'). simple_route (nbs_of (vertexs a)) (pos (switch_queue a) src) (pos (switch_queue a) dst) l))"
  by (rule evolve_routes[OF assms])

definition wit_ga :: ga where
  "wit_ga = \<lparr>switch_queue = [11, 12, 13], edge_queue = [], switch_neighbors = [], edge_collection = [],
     vertexs = wit_vertexs, edges = wit_edges, links = [], fitness = [], link_cache = [],
     age = 0, ga_delay_coefficient = 5000, ga_cost_coefficient = 2 / 100, ga_bw_load_coefficient = 50,
     generation_max = 20, max_hop = 6, crossover_probability = 7 / 10, mutation_probability = 1 / 10\<rparr>"

theorem evolve_ends_with_routes_witness:
  "evolve 11 13 0 wit_ga [1 / 2, 1 / 20] \<noteq> None"
proof -
  have net: "net_ok (vertexs wit_ga)"
    by (auto simp: net_ok_def vertexs_ok_def wit_ga_def wit_vertexs_def less_Suc_eq numeral_eq_Suc)
  from evolve_ends_with_routes[OF net, of 11 13 "[1 / 2, 1 / 20]" 0] show ?thesis
    by (simp add: wit_ga_def wit_vertexs_def draws_ok_def)
qed

end
