(* ===== verification/Route_Manage.thy ===== *)
theory Route_Manage
  imports Route_Task Multicast_Deploy Host_Track Igmp_Querier Nsga2 GA_Route
begin

text \<open>
  The application \<open>RouteManage\<close> of \<open>route_manage/RouteManage.py\<close>, which turns the first packets of a
  connection into tasks for the route task handler, and starts and switches the route algorithms.

  The host tracker and the IGMP querier hand over their own tables in their events: the entries of hosts,
  \<open>mac_to_port\<close> and the groups are shared objects, which their owners go on changing. An entry of a
  tracked host is a reference here, and every handler gets the present contents of the shared objects as
  its argument \<open>sh\<close>. \<open>time.time()\<close> is the parameter \<open>now\<close>, one value for each activation of a
  handler. \<open>hub.Queue()\<close> has no bound. The printer of the link state is switched off by
  \<open>LINK_STATUS_PRINTER\<close> and left out, as are \<open>switches\<close> and \<open>links\<close>, which only the tasks read.
\<close>

section \<open>State\<close>

text \<open>
  An entry that \<open>RouteManage\<close> has made itself, with its place, its MAC address and the one address in
  \<open>ipaddrs\<close>, whose value is 0; or the entry of a host of the tracker.
\<close>

datatype 'o entry_ref = OwnEntry "(nat \<times> nat) option" string string | Tracked 'o

record 'o shared =
  sh_entry :: "'o \<Rightarrow> mac_entry"
  sh_mac_to_port :: "(nat, (string, nat) pydict) pydict"
  sh_groups :: group_table

datatype unicast_algorithm = DefaultAlg route_algo | DijkstraAlg dijkstra | GaAlg ga

datatype route_task = UnicastTask task | MulticastTask mtask

text \<open>
  \<open>rm_hosts_known\<close> and \<open>rm_groups_known\<close>: whether \<open>mac_to_port\<close> and \<open>multicast_group\<close> have been bound to
  the tables of the tracker and the querier. \<open>rm_tasks\<close> is the list of the task handler.
\<close>

record ('o, 'g) route_manage =
  rm_servers :: "(string, string) pydict"
  rm_hosts_known :: bool
  rm_entry :: "(string, 'o entry_ref) pydict"
  rm_groups_known :: bool
  rm_request_cache :: "(string \<times> string, real \<times> nat) pydict"
  rm_algorithm_state :: bool
  rm_algorithm_type :: string
  rm_algorithm :: unicast_algorithm
  rm_multicast_algorithm_state :: bool
  rm_multicast_algorithm :: "'g nsga2"
  rm_queue :: "route_task list"
  rm_tasks :: "route_task list"
  rm_install_flow :: bool
  rm_init_status :: bool

datatype rm_out = RmSends out_msg | HostMissing packet_in string | FaultLinkDelete port port real | FaultPortDown port real

type_synonym ('o, 'g) rm_result = "('o, 'g) route_manage \<times> rm_out list \<times> pyerr option"

definition GATEWAY_MACS :: "(string, string) pydict" where
  "GATEWAY_MACS = [(''10.0.0.201'', ''c9:c9:c9:c9:c9:c9''), (''10.0.0.202'', ''ca:ca:ca:ca:ca:ca''), (''10.0.0.203'', ''cb:cb:cb:cb:cb:cb'')]"

definition TABLE_MISS_FLOW_PRIORITY :: nat where "TABLE_MISS_FLOW_PRIORITY = 100"
definition REQUEST_CACHE_TIMEOUT :: real where "REQUEST_CACHE_TIMEOUT = 50 * 1"
definition ROUTE_TYPE_INTRA_TOPO :: nat where "ROUTE_TYPE_INTRA_TOPO = 3"

section \<open>Entries\<close>

definition rm_update_entry :: "(nat \<times> nat) option \<Rightarrow> string \<Rightarrow> string \<Rightarrow> ('o, 'g) route_manage \<Rightarrow> ('o, 'g) route_manage" where
  "rm_update_entry loc macaddr ip_addr s = s\<lparr>rm_entry := dict_set macaddr (OwnEntry loc macaddr ip_addr) (rm_entry s)\<rparr>"

definition update_gateway_entry :: "('o, 'g) route_manage \<Rightarrow> ('o, 'g) route_manage" where
  "update_gateway_entry s = foldl (\<lambda>s (ip, mac). rm_update_entry None mac ip s) s GATEWAY_MACS"

text \<open>The data of one server of \<open>update_server_bussiness_type\<close>, taken apart: address, type, switch, port and MAC address.\<close>

definition update_server_type :: "(string \<times> string \<times> nat \<times> nat \<times> string) list \<Rightarrow> ('o, 'g) route_manage \<Rightarrow> ('o, 'g) route_manage" where
  "update_server_type msg s =
     foldl (\<lambda>s (ip, ty, sw, port, mac). rm_update_entry (Some (sw, port)) mac ip (s\<lparr>rm_servers := dict_set ip ty (rm_servers s)\<rparr>)) s msg"

definition ref_location :: "'o shared \<Rightarrow> 'o entry_ref \<Rightarrow> (nat \<times> nat) option" where
  "ref_location sh r = (case r of OwnEntry loc _ _ \<Rightarrow> loc | Tracked p \<Rightarrow> Some (me_dpid (sh_entry sh p), me_port (sh_entry sh p)))"

text \<open>The truth value of \<open>ipaddrs.get(ip)\<close>.\<close>

definition ref_has_ip :: "'o shared \<Rightarrow> 'o entry_ref \<Rightarrow> string \<Rightarrow> bool" where
  "ref_has_ip sh r ip = (case r of OwnEntry _ _ _ \<Rightarrow> False | Tracked p \<Rightarrow> dict_get (me_ipaddrs (sh_entry sh p)) ip \<noteq> None)"

definition ref_ips :: "'o shared \<Rightarrow> 'o entry_ref \<Rightarrow> string list" where
  "ref_ips sh r = (case r of OwnEntry _ _ ip \<Rightarrow> [ip] | Tracked p \<Rightarrow> dict_keys (me_ipaddrs (sh_entry sh p)))"

fun mac_of_ip :: "'o shared \<Rightarrow> string \<Rightarrow> (string, 'o entry_ref) pydict \<Rightarrow> pyerr + string option" where
  "mac_of_ip sh ip [] = Inr None"
| "mac_of_ip sh ip ((mac, r) # es) =
     res_bind (py_nth (ref_ips sh r) 0) (\<lambda>k. if k = ip then Inr (Some mac) else mac_of_ip sh ip es)"

definition rm_get_mac :: "'o shared \<Rightarrow> string \<Rightarrow> ('o, 'g) route_manage \<Rightarrow> pyerr + string option" where
  "rm_get_mac sh ip s = mac_of_ip sh ip (rm_entry s)"

definition new_route_manage :: "bool \<Rightarrow> ('o, 'g) route_manage" where
  "new_route_manage install_flow = update_gateway_entry
     \<lparr>rm_servers = [], rm_hosts_known = False, rm_entry = [], rm_groups_known = False, rm_request_cache = [],
      rm_algorithm_state = False, rm_algorithm_type = ''Dij'', rm_algorithm = DefaultAlg RouteAlgorithm,
      rm_multicast_algorithm_state = False, rm_multicast_algorithm = NSGA2, rm_queue = [], rm_tasks = [],
      rm_install_flow = install_flow, rm_init_status = False\<rparr>"

section \<open>Switches and topology\<close>

definition table_miss_flow_entry :: "nat \<Rightarrow> ('o, 'g) route_manage \<Rightarrow> rm_out list" where
  "table_miss_flow_entry dpid s =
     (if rm_install_flow s
      then [RmSends (FlowAdd \<lparr>fm_dpid = dpid, fm_priority = TABLE_MISS_FLOW_PRIORITY, fm_idle_timeout = 0, fm_hard_timeout = 0, fm_flags = 0,
              fm_match = [EthType ETH_TYPE_IP], fm_actions = [Output OFPP_CONTROLLER]\<rparr>)]
      else [])"

text \<open>\<open>self.algorithm.init_algorithm\<close>. Where \<open>Dijkstra\<close> or \<open>GAPopulation\<close> raises, the object stays as it was here.\<close>

definition alg_init :: "switch_table \<Rightarrow> link_table_api \<Rightarrow> unicast_algorithm \<Rightarrow> unicast_algorithm \<times> pyerr option" where
  "alg_init switches lnks a =
     (case a of
        DefaultAlg r \<Rightarrow> (case ra_init_algorithm switches lnks r of (r', e) \<Rightarrow> (DefaultAlg r', e))
      | DijkstraAlg d \<Rightarrow> (case init_algorithm switches lnks d of Inl e \<Rightarrow> (a, Some e) | Inr d' \<Rightarrow> (DijkstraAlg d', None))
      | GaAlg g \<Rightarrow> (case ga_init_algorithm switches lnks g of Inl e \<Rightarrow> (a, Some e) | Inr g' \<Rightarrow> (GaAlg g', None)))"

definition topo_init_handler :: "switch_table \<Rightarrow> link_table_api \<Rightarrow> ('o, 'g) route_manage \<Rightarrow> igmp \<Rightarrow> ('o, 'g) route_manage \<times> igmp \<times> pyerr option" where
  "topo_init_handler switches lnks s m =
     (if rm_init_status s then (s, m, None)
      else case set_querier_mode switches m of
        (m1, Some e) \<Rightarrow> (s, m1, Some e)
      | (m1, None) \<Rightarrow>
          (case alg_init switches lnks (rm_algorithm s) of
             (a, Some e) \<Rightarrow> (s\<lparr>rm_algorithm := a\<rparr>, start_loop m1, Some e)
           | (a, None) \<Rightarrow>
               (case moea_init_algorithm switches lnks (rm_multicast_algorithm s) of
                  (g, Some e) \<Rightarrow> (s\<lparr>rm_algorithm := a, rm_algorithm_state := True, rm_multicast_algorithm := g\<rparr>, start_loop m1, Some e)
                | (g, None) \<Rightarrow>
                    (s\<lparr>rm_algorithm := a, rm_algorithm_state := True, rm_multicast_algorithm := g, rm_multicast_algorithm_state := True,
                       rm_init_status := True\<rparr>, start_loop m1, None))))"

definition rm_link_delete_handler :: "switch_table \<Rightarrow> link_table_api \<Rightarrow> port \<Rightarrow> port \<Rightarrow> real \<Rightarrow> ('o, 'g) route_manage \<Rightarrow> ('o, 'g) rm_result" where
  "rm_link_delete_handler switches lnks src_port dst_port timestamp s =
     (case alg_init switches lnks (rm_algorithm s) of
        (a, Some e) \<Rightarrow> (s\<lparr>rm_algorithm := a\<rparr>, [], Some e)
      | (a, None) \<Rightarrow> (s\<lparr>rm_algorithm := a\<rparr>, [FaultLinkDelete src_port dst_port timestamp], None))"

definition rm_port_down_handler :: "'o shared \<Rightarrow> port \<Rightarrow> real \<Rightarrow> ('o, 'g) route_manage \<Rightarrow> ('o, 'g) rm_result" where
  "rm_port_down_handler sh p timestamp s =
     (if \<not> is_down p then (s, [], None)
      else if \<not> rm_hosts_known s then (s, [], Some TypeError)
      else case dict_get (sh_mac_to_port sh) (port_dpid p) of
        None \<Rightarrow> (s, [], Some KeyError)
      | Some switch_port \<Rightarrow>
          (if port_no p \<in> set (dict_values switch_port) then (s, [FaultPortDown p timestamp], None) else (s, [], None)))"

section \<open>Choice of the algorithm\<close>

text \<open>The six attributes that the new object takes over.\<close>

definition take_tables :: "'a algo_scheme \<Rightarrow> 'b algo_scheme \<Rightarrow> 'b algo_scheme" where
  "take_tables a b = b\<lparr>switch_queue := switch_queue a, edge_queue := edge_queue a, switch_neighbors := switch_neighbors a,
     edge_collection := edge_collection a, vertexs := vertexs a, edges := edges a\<rparr>"

text \<open>
  \<open>gi\<close> and \<open>di\<close> are the single instances that \<open>GAPopulation()\<close> and \<open>Dijkstra()\<close> return. An object of
  class \<open>RouteAlgorithm\<close> has a \<open>switch_queue\<close>, but no \<open>edge_queue\<close>.
\<close>

definition change_algorithm_type :: "ga \<Rightarrow> dijkstra \<Rightarrow> string \<Rightarrow> ('o, 'g) route_manage \<Rightarrow> ('o, 'g) route_manage \<times> pyerr option" where
  "change_algorithm_type gi di ty s =
     (if ty = ''GA'' then
        (case rm_algorithm s of
           DefaultAlg _ \<Rightarrow> (s, Some AttributeError)
         | DijkstraAlg d \<Rightarrow> (s\<lparr>rm_algorithm := GaAlg (take_tables d gi), rm_algorithm_type := ty\<rparr>, None)
         | GaAlg g \<Rightarrow> (s\<lparr>rm_algorithm := GaAlg (take_tables g gi), rm_algorithm_type := ty\<rparr>, None))
      else if ty = ''Dij'' then
        (case rm_algorithm s of
           DefaultAlg _ \<Rightarrow> (s, Some AttributeError)
         | DijkstraAlg d \<Rightarrow> (s\<lparr>rm_algorithm := DijkstraAlg (take_tables d di), rm_algorithm_type := ty\<rparr>, None)
         | GaAlg g \<Rightarrow> (s\<lparr>rm_algorithm := DijkstraAlg (take_tables g di), rm_algorithm_type := ty\<rparr>, None))
      else (s, None))"

section \<open>Hosts and groups\<close>

datatype host_change = Joined | Moved | Left

text \<open>The message logged for a move reads the entry that is there.\<close>

definition host_state_handler :: "'o shared \<Rightarrow> host_change \<Rightarrow> 'o \<Rightarrow> ('o, 'g) route_manage \<Rightarrow> ('o, 'g) route_manage \<times> pyerr option" where
  "host_state_handler sh change p s =
     (let s1 = s\<lparr>rm_hosts_known := True\<rparr>; mac = me_macaddr (sh_entry sh p); known = mac \<in> set (dict_keys (rm_entry s))
      in case change of
           Joined \<Rightarrow> (s1\<lparr>rm_entry := dict_set mac (Tracked p) (rm_entry s)\<rparr>, None)
         | Moved \<Rightarrow> if known then (s1\<lparr>rm_entry := dict_set mac (Tracked p) (rm_entry s)\<rparr>, None) else (s1, Some KeyError)
         | Left \<Rightarrow> if known then (s1\<lparr>rm_entry := dict_del mac (rm_entry s)\<rparr>, None) else (s1, Some KeyError))"

definition multicast_group_handler :: "('o, 'g) route_manage \<Rightarrow> ('o, 'g) route_manage" where
  "multicast_group_handler s = s\<lparr>rm_groups_known := True\<rparr>"

definition rm_groups :: "'o shared \<Rightarrow> ('o, 'g) route_manage \<Rightarrow> group_table" where
  "rm_groups sh s = (if rm_groups_known s then sh_groups sh else [])"

section \<open>Requests\<close>

text \<open>The check of the request cache: \<^term>\<open>None\<close> when the request is to be ignored.\<close>

definition cache_request :: "real \<Rightarrow> string \<times> string \<Rightarrow> (string \<times> string, real \<times> nat) pydict \<Rightarrow> (string \<times> string, real \<times> nat) pydict option" where
  "cache_request now k cache =
     (case dict_get cache k of
        None \<Rightarrow> Some (dict_set k (now, 0) cache)
      | Some (t, n) \<Rightarrow> if now - t < REQUEST_CACHE_TIMEOUT then None else Some (dict_set k (now, n) cache))"

definition rm_add_to_queue :: "route_task \<Rightarrow> ('o, 'g) route_manage \<Rightarrow> ('o, 'g) route_manage" where
  "rm_add_to_queue t s = s\<lparr>rm_queue := rm_queue s @ [t]\<rparr>"

definition rm_process_queued_msg :: "('o, 'g) route_manage \<Rightarrow> ('o, 'g) route_manage" where
  "rm_process_queued_msg s = s\<lparr>rm_queue := [], rm_tasks := foldl (\<lambda>ts t. enqueue_task t ts) (rm_tasks s) (rm_queue s)\<rparr>"

definition rm_new_task :: "real \<Rightarrow> (nat \<times> nat) option \<Rightarrow> string \<Rightarrow> (nat \<times> nat) option \<Rightarrow> string \<Rightarrow> pyerr + task" where
  "rm_new_task now src sip dst dip =
     new_task now (Some ROUTE_TYPE_INTRA_TOPO) (map_option fst src) (Some sip) (case src of Some (_, p) \<Rightarrow> p | None \<Rightarrow> 0)
       (map_option fst dst) (Some dip) (case dst of Some (_, p) \<Rightarrow> p | None \<Rightarrow> 0)"

definition handle_multicast_udp :: "real \<Rightarrow> 'o shared \<Rightarrow> packet_in \<Rightarrow> string \<Rightarrow> ip_packet \<Rightarrow> ('o, 'g) route_manage \<Rightarrow> ('o, 'g) rm_result" where
  "handle_multicast_udp now sh msg src_mac ip s =
     (case dict_get (rm_entry s) src_mac of
        None \<Rightarrow> (s, [HostMissing msg ''src''], None)
      | Some r \<Rightarrow>
          (let evs = (if ref_has_ip sh r (ipp_src ip) then [] else [HostMissing msg ''src''])
           in case dict_get (rm_groups sh s) (ipp_dst ip) of
                None \<Rightarrow> (s, evs, None)
              | Some members \<Rightarrow>
                  (if \<not> rm_multicast_algorithm_state s then (s, evs, None)
                   else case cache_request now (ipp_src ip, ipp_dst ip) (rm_request_cache s) of
                     None \<Rightarrow> (s, evs, None)
                   | Some cache \<Rightarrow>
                       (let s1 = s\<lparr>rm_request_cache := cache\<rparr>
                        in case ref_location sh r of
                             None \<Rightarrow> (s1, evs, Some AssertionError)
                           | Some (dpid, no) \<Rightarrow>
                               (rm_add_to_queue (MulticastTask \<lparr>m_src_dpid = dpid, m_src_ip = ipp_src ip, m_src_port_no = no,
                                  m_dst_dpids = dict_keys members, m_group_ip = ipp_dst ip, m_timestamp = now\<rparr>) s1, evs, None)))))"

definition handle_unicast :: "real \<Rightarrow> 'o shared \<Rightarrow> packet_in \<Rightarrow> string \<Rightarrow> string \<Rightarrow> ip_packet \<Rightarrow> ('o, 'g) route_manage \<Rightarrow> ('o, 'g) rm_result" where
  "handle_unicast now sh msg src_mac dst_mac ip s =
     (case dict_get (rm_entry s) src_mac of
        None \<Rightarrow> (s, [HostMissing msg ''src''], None)
      | Some src \<Rightarrow>
          (let evs = (if ref_has_ip sh src (ipp_src ip) then [] else [HostMissing msg ''src''])
           in case dict_get (rm_entry s) dst_mac of
                None \<Rightarrow> (s, evs @ [HostMissing msg ''dst''], None)
              | Some dst \<Rightarrow>
                  (let evs' = evs @ (if ref_has_ip sh dst (ipp_dst ip) then [] else [HostMissing msg ''dst''])
                   in if \<not> rm_algorithm_state s then (s, evs', None)
                      else case cache_request now (ipp_src ip, ipp_dst ip) (rm_request_cache s) of
                        None \<Rightarrow> (s, evs', None)
                      | Some cache \<Rightarrow>
                          (let s1 = s\<lparr>rm_request_cache := cache\<rparr>
                           in case rm_new_task now (ref_location sh src) (ipp_src ip) (ref_location sh dst) (ipp_dst ip) of
                                Inl e \<Rightarrow> (s1, evs', Some e)
                              | Inr t \<Rightarrow> (rm_add_to_queue (UnicastTask t) s1, evs', None)))))"

text \<open>\<open>is_multicast\<close> stands for the method of the package netaddr.\<close>

definition handle_ip :: "(string \<Rightarrow> bool) \<Rightarrow> real \<Rightarrow> 'o shared \<Rightarrow> packet_in \<Rightarrow> ip_packet \<Rightarrow> ('o, 'g) route_manage \<Rightarrow> ('o, 'g) rm_result" where
  "handle_ip is_multicast now sh msg ip s =
     (case parse_ethernet (pi_protocols msg) of
        None \<Rightarrow> (s, [], Some AttributeError)
      | Some (src_mac, dst_mac) \<Rightarrow>
          (if dst_mac = BROADCAST_STR \<or> ipp_dst ip = ''255.255.255.0'' then (s, [], None)
           else if is_multicast (ipp_dst ip) then handle_multicast_udp now sh msg src_mac ip s
           else handle_unicast now sh msg src_mac dst_mac ip s))"

definition rm_packet_in_handler :: "(string \<Rightarrow> bool) \<Rightarrow> real \<Rightarrow> 'o shared \<Rightarrow> packet_in \<Rightarrow> ('o, 'g) route_manage \<Rightarrow> ('o, 'g) rm_result" where
  "rm_packet_in_handler is_multicast now sh msg s =
     (if Igmp \<in> set (pi_protocols msg) then (s, [], None)
      else case find (\<lambda>p. case p of Ipv4 _ \<Rightarrow> True | _ \<Rightarrow> False) (rev (pi_protocols msg)) of
             Some (Ipv4 ip) \<Rightarrow> handle_ip is_multicast now sh msg ip s
           | _ \<Rightarrow> (s, [], None))"

section \<open>Events\<close>

text \<open>
  What can happen to the application: the events it observes, the calls of its REST interface, a run of
  the thread that empties its queue, and the task handler taking the first task off its list.
\<close>

datatype 'o rm_event =
    PacketIn real "'o shared" packet_in | HostState "'o shared" host_change 'o | GroupChanged
  | TopoInitialized switch_table link_table_api igmp | LinkDeleted switch_table link_table_api port port real | PortDown "'o shared" port real
  | AlgorithmType ga dijkstra string | ServerTypes "(string \<times> string \<times> nat \<times> nat \<times> string) list" | QueueProcessed | TaskHandled

definition rm_step :: "(string \<Rightarrow> bool) \<Rightarrow> 'o rm_event \<Rightarrow> ('o, 'g) route_manage \<Rightarrow> ('o, 'g) route_manage" where
  "rm_step is_multicast ev s =
     (case ev of
        PacketIn now sh msg \<Rightarrow> fst (rm_packet_in_handler is_multicast now sh msg s)
      | HostState sh change p \<Rightarrow> fst (host_state_handler sh change p s)
      | GroupChanged \<Rightarrow> multicast_group_handler s
      | TopoInitialized switches lnks m \<Rightarrow> fst (topo_init_handler switches lnks s m)
      | LinkDeleted switches lnks src dst ts \<Rightarrow> fst (rm_link_delete_handler switches lnks src dst ts s)
      | PortDown sh p ts \<Rightarrow> fst (rm_port_down_handler sh p ts s)
      | AlgorithmType gi di ty \<Rightarrow> fst (change_algorithm_type gi di ty s)
      | ServerTypes msg \<Rightarrow> update_server_type msg s
      | QueueProcessed \<Rightarrow> rm_process_queued_msg s
      | TaskHandled \<Rightarrow> s\<lparr>rm_tasks := tl (rm_tasks s)\<rparr>)"

definition ev_clock :: "real \<Rightarrow> 'o rm_event \<Rightarrow> real" where
  "ev_clock t ev = (case ev of PacketIn now sh msg \<Rightarrow> now | _ \<Rightarrow> t)"

text \<open>\<open>rm_reach is_multicast t s\<close>: events can lead to the state \<open>s\<close>, the last packet came in at \<open>t\<close>, and the clock never went back.\<close>

inductive rm_reach :: "(string \<Rightarrow> bool) \<Rightarrow> real \<Rightarrow> ('o, 'g) route_manage \<Rightarrow> bool" for is_multicast where
  rm_reach_init: "rm_reach is_multicast t (new_route_manage b)"
| rm_reach_step: "rm_reach is_multicast t s \<Longrightarrow> t \<le> ev_clock t ev \<Longrightarrow> rm_reach is_multicast (ev_clock t ev) (rm_step is_multicast ev s)"

section \<open>Tasks and requests\<close>

definition task_key :: "route_task \<Rightarrow> string \<times> string" where
  "task_key t = (case t of UnicastTask u \<Rightarrow> (src_ip u, dst_ip u) | MulticastTask m \<Rightarrow> (m_src_ip m, m_group_ip m))"

definition task_stamp :: "route_task \<Rightarrow> real" where
  "task_stamp t = (case t of UnicastTask u \<Rightarrow> t_timestamp u | MulticastTask m \<Rightarrow> m_timestamp m)"

definition open_tasks :: "('o, 'g) route_manage \<Rightarrow> route_task list" where
  "open_tasks s = rm_tasks s @ rm_queue s"

definition request_times :: "string \<times> string \<Rightarrow> route_task list \<Rightarrow> real list" where
  "request_times k ts = map task_stamp (filter (\<lambda>t. task_key t = k) ts)"

definition task_typed :: "(string \<Rightarrow> bool) \<Rightarrow> route_task \<Rightarrow> bool" where
  "task_typed is_multicast t =
     (case t of
        UnicastTask u \<Rightarrow> route_type u = ROUTE_TYPE_INTRA_TOPO \<and> \<not> is_multicast (dst_ip u) \<and> dst_ip u \<noteq> ''255.255.255.0''
      | MulticastTask m \<Rightarrow> is_multicast (m_group_ip m))"

text \<open>Everything a packet can do: nothing, or write the cache, or write the cache and append one task.\<close>

lemma foldl_enqueue: "foldl (\<lambda>ts t. enqueue_task t ts) xs ys = xs @ ys"
  by (induction ys arbitrary: xs) (simp_all add: enqueue_task_def)

lemma rm_new_task_Inr:
  assumes "rm_new_task now src sip dst dip = Inr t"
  shows "route_type t = ROUTE_TYPE_INTRA_TOPO \<and> src_ip t = sip \<and> dst_ip t = dip \<and> t_timestamp t = now"
  using assms by (cases src; cases dst) (auto simp: rm_new_task_def new_task_def)

lemma packet_in_cases:
  obtains (same) "fst (rm_packet_in_handler is_multicast now sh msg s) = s"
  | (cached) k cache where "cache_request now k (rm_request_cache s) = Some cache" "fst (rm_packet_in_handler is_multicast now sh msg s) = s\<lparr>rm_request_cache := cache\<rparr>"
  | (task) k cache t where "cache_request now k (rm_request_cache s) = Some cache" "task_key t = k" "task_stamp t = now" "task_typed is_multicast t"
      "fst (rm_packet_in_handler is_multicast now sh msg s) = s\<lparr>rm_request_cache := cache, rm_queue := rm_queue s @ [t]\<rparr>"
proof -
  define P where "P s' \<longleftrightarrow> s' = s \<or> (\<exists>k cache. cache_request now k (rm_request_cache s) = Some cache \<and> (s' = s\<lparr>rm_request_cache := cache\<rparr> \<or>
    (\<exists>t. task_key t = k \<and> task_stamp t = now \<and> task_typed is_multicast t \<and> s' = s\<lparr>rm_request_cache := cache, rm_queue := rm_queue s @ [t]\<rparr>)))" for s'
  have P1: "P s" by (simp add: P_def)
  have P2: "P (s\<lparr>rm_request_cache := cache\<rparr>)" if "cache_request now k (rm_request_cache s) = Some cache" for k cache
    using that unfolding P_def by blast
  have P3: "P (s\<lparr>rm_request_cache := cache, rm_queue := rm_queue s @ [t]\<rparr>)"
    if "cache_request now (task_key t) (rm_request_cache s) = Some cache" "task_stamp t = now" "task_typed is_multicast t" for cache t
    using that unfolding P_def by blast
  have mc: "P (fst (handle_multicast_udp now sh msg src_mac ip s))" if "is_multicast (ipp_dst ip)" for src_mac ip
    using that by (auto simp: handle_multicast_udp_def Let_def rm_add_to_queue_def task_key_def task_stamp_def task_typed_def P1 split: option.splits intro!: P2 P3)
  have uc: "P (fst (handle_unicast now sh msg src_mac dst_mac ip s))" if "\<not> is_multicast (ipp_dst ip)" "ipp_dst ip \<noteq> ''255.255.255.0''" for src_mac dst_mac ip
    using that by (auto simp: handle_unicast_def Let_def rm_add_to_queue_def task_key_def task_stamp_def task_typed_def P1
        split: option.splits sum.splits dest!: rm_new_task_Inr intro!: P2 P3)
  have "P (fst (rm_packet_in_handler is_multicast now sh msg s))"
    using mc uc P1 by (auto simp: rm_packet_in_handler_def handle_ip_def split: option.splits protocol.splits)
  then show thesis using same cached task unfolding P_def by blast
qed

definition rm_inv :: "(string \<Rightarrow> bool) \<Rightarrow> real \<Rightarrow> ('o, 'g) route_manage \<Rightarrow> bool" where
  "rm_inv is_multicast t s \<longleftrightarrow>
     (\<forall>k t0 n. dict_get (rm_request_cache s) k = Some (t0, n) \<longrightarrow> t0 \<le> t) \<and>
     (\<forall>x \<in> set (open_tasks s). task_typed is_multicast x \<and> (\<exists>t0 n. dict_get (rm_request_cache s) (task_key x) = Some (t0, n) \<and> task_stamp x \<le> t0)) \<and>
     (\<forall>k. sorted_wrt (\<lambda>a b. a + REQUEST_CACHE_TIMEOUT \<le> b) (request_times k (open_tasks s))) \<and>
     (\<exists>r. rm_algorithm s = DefaultAlg r) \<and> dict_ok (rm_entry s) \<and> dict_ok (rm_request_cache s)"

lemma cache_request_Some:
  assumes "cache_request now k cache = Some cache'"
  shows "\<exists>n. cache' = dict_set k (now, n) cache" "dict_get cache k = Some (t0, n) \<Longrightarrow> t0 + REQUEST_CACHE_TIMEOUT \<le> now"
  using assms by (auto simp: cache_request_def split: option.splits prod.splits if_splits)

lemma rm_inv_facts:
  assumes "rm_inv mc t s"
  shows "dict_get (rm_request_cache s) k = Some (t0, n) \<Longrightarrow> t0 \<le> t" "x \<in> set (open_tasks s) \<Longrightarrow> task_typed mc x"
    "x \<in> set (open_tasks s) \<Longrightarrow> \<exists>t0 n. dict_get (rm_request_cache s) (task_key x) = Some (t0, n) \<and> task_stamp x \<le> t0"
    "sorted_wrt (\<lambda>a b. a + REQUEST_CACHE_TIMEOUT \<le> b) (request_times k (open_tasks s))"
    "\<exists>r. rm_algorithm s = DefaultAlg r" "dict_ok (rm_entry s)" "dict_ok (rm_request_cache s)"
  using assms unfolding rm_inv_def by blast+

lemma rm_invI:
  assumes "\<And>k t0 n. dict_get (rm_request_cache s) k = Some (t0, n) \<Longrightarrow> t0 \<le> t" "\<And>x. x \<in> set (open_tasks s) \<Longrightarrow> task_typed mc x"
    "\<And>x. x \<in> set (open_tasks s) \<Longrightarrow> \<exists>t0 n. dict_get (rm_request_cache s) (task_key x) = Some (t0, n) \<and> task_stamp x \<le> t0"
    "\<And>k. sorted_wrt (\<lambda>a b. a + REQUEST_CACHE_TIMEOUT \<le> b) (request_times k (open_tasks s))"
    "\<exists>r. rm_algorithm s = DefaultAlg r" "dict_ok (rm_entry s)" "dict_ok (rm_request_cache s)"
  shows "rm_inv mc t s"
  using assms unfolding rm_inv_def by blast

text \<open>A step that leaves the cache alone and at most takes tasks off the front.\<close>

lemma rm_inv_frame:
  assumes inv: "rm_inv mc t s" and "t \<le> t'" "rm_request_cache s' = rm_request_cache s" "open_tasks s = us @ open_tasks s'"
    "\<exists>r. rm_algorithm s' = DefaultAlg r" "dict_ok (rm_entry s')"
  shows "rm_inv mc t' s'"
proof (rule rm_invI)
  fix k t0 n assume "dict_get (rm_request_cache s') k = Some (t0, n)"
  then show "t0 \<le> t'" using rm_inv_facts(1)[OF inv, of k t0 n] assms(2,3) by simp
next
  fix k
  show "sorted_wrt (\<lambda>a b. a + REQUEST_CACHE_TIMEOUT \<le> b) (request_times k (open_tasks s'))"
    using rm_inv_facts(4)[OF inv, of k] unfolding assms(4) by (simp add: request_times_def sorted_wrt_append)
qed (use rm_inv_facts(2,3,7)[OF inv] assms in simp_all)

lemma rm_inv_cached:
  assumes inv: "rm_inv mc t s" and t: "t \<le> now" and c: "cache_request now k (rm_request_cache s) = Some cache"
    and s': "rm_request_cache s' = cache" "open_tasks s' = open_tasks s @ xs" "rm_algorithm s' = rm_algorithm s" "rm_entry s' = rm_entry s"
    and xs: "xs = [] \<or> (\<exists>x. xs = [x] \<and> task_key x = k \<and> task_stamp x = now \<and> task_typed mc x)"
  shows "rm_inv mc now s'"
proof -
  obtain n where n: "cache = dict_set k (now, n) (rm_request_cache s)" using cache_request_Some(1)[OF c] by blast
  have old: "t0 \<le> now" if "dict_get (rm_request_cache s) k' = Some (t0, n')" for k' t0 n' using rm_inv_facts(1)[OF inv that] t by simp
  have gap: "task_stamp y + REQUEST_CACHE_TIMEOUT \<le> now" if y: "y \<in> set (open_tasks s)" "task_key y = k" for y
    using rm_inv_facts(3)[OF inv y(1)] cache_request_Some(2)[OF c] unfolding y(2) by fastforce
  show ?thesis
  proof (rule rm_invI)
    fix k' t0 n' assume "dict_get (rm_request_cache s') k' = Some (t0, n')"
    then show "t0 \<le> now" using old[of k' t0 n'] by (cases "k' = k") (simp_all add: s'(1) n)
  next
    fix y assume y: "y \<in> set (open_tasks s')"
    then show "task_typed mc y" using rm_inv_facts(2)[OF inv, of y] xs by (auto simp: s'(2))
    show "\<exists>t0 n. dict_get (rm_request_cache s') (task_key y) = Some (t0, n) \<and> task_stamp y \<le> t0"
    proof (cases "y \<in> set (open_tasks s)")
      case True
      then obtain t0 m where "dict_get (rm_request_cache s) (task_key y) = Some (t0, m)" "task_stamp y \<le> t0" using rm_inv_facts(3)[OF inv] by blast
      then show ?thesis using old[of "task_key y" t0 m] by (cases "task_key y = k") (simp_all add: s'(1) n)
    next
      case False
      then show ?thesis using y xs by (auto simp: s'(1,2) n)
    qed
  next
    fix k'
    have srt: "sorted_wrt (\<lambda>a b. a + REQUEST_CACHE_TIMEOUT \<le> b) (map task_stamp (filter (\<lambda>t. task_key t = k') (open_tasks s)))"
      using rm_inv_facts(4)[OF inv, of k'] by (simp add: request_times_def)
    show "sorted_wrt (\<lambda>a b. a + REQUEST_CACHE_TIMEOUT \<le> b) (request_times k' (open_tasks s'))"
      using xs srt gap by (elim disjE exE) (simp_all add: s'(2) request_times_def sorted_wrt_append)
  qed (use rm_inv_facts(5-7)[OF inv] in \<open>simp_all add: s' n\<close>)
qed

lemma alg_init_default: "alg_init st lnks (DefaultAlg r) = (a, e) \<Longrightarrow> \<exists>r'. a = DefaultAlg r'"
  by (auto simp: alg_init_def split: prod.splits)

lemma rm_update_entry_frame [simp]:
  "rm_request_cache (rm_update_entry loc mac ip s) = rm_request_cache s" "rm_queue (rm_update_entry loc mac ip s) = rm_queue s"
  "rm_tasks (rm_update_entry loc mac ip s) = rm_tasks s" "rm_algorithm (rm_update_entry loc mac ip s) = rm_algorithm s"
  "dict_ok (rm_entry s) \<Longrightarrow> dict_ok (rm_entry (rm_update_entry loc mac ip s))"
  by (simp_all add: rm_update_entry_def)

lemma update_server_type_frame:
  "rm_request_cache (update_server_type msg s) = rm_request_cache s \<and> rm_queue (update_server_type msg s) = rm_queue s \<and>
   rm_tasks (update_server_type msg s) = rm_tasks s \<and> rm_algorithm (update_server_type msg s) = rm_algorithm s \<and>
   (dict_ok (rm_entry s) \<longrightarrow> dict_ok (rm_entry (update_server_type msg s)))"
  unfolding update_server_type_def by (induction msg arbitrary: s) (simp_all add: case_prod_beta)

lemma rm_step_frame:
  assumes "\<forall>now sh msg. ev \<noteq> PacketIn now sh msg" "ev \<noteq> QueueProcessed" "ev \<noteq> TaskHandled" and d: "rm_algorithm s = DefaultAlg r"
  shows "rm_request_cache (rm_step mc ev s) = rm_request_cache s \<and> rm_queue (rm_step mc ev s) = rm_queue s \<and> rm_tasks (rm_step mc ev s) = rm_tasks s \<and>
    (\<exists>r'. rm_algorithm (rm_step mc ev s) = DefaultAlg r') \<and> (dict_ok (rm_entry s) \<longrightarrow> dict_ok (rm_entry (rm_step mc ev s)))"
proof (cases ev)
  case (TopoInitialized st lnks m)
  then show ?thesis using d
    by (auto simp: rm_step_def topo_init_handler_def split: prod.splits option.splits dest: alg_init_default)
next
  case (LinkDeleted st lnks p q ts)
  then show ?thesis using d by (auto simp: rm_step_def rm_link_delete_handler_def split: prod.splits option.splits dest: alg_init_default)
next
  case (ServerTypes msg)
  then show ?thesis using d update_server_type_frame[of msg s] by (simp add: rm_step_def)
qed (use assms in \<open>auto simp: rm_step_def host_state_handler_def Let_def multicast_group_handler_def rm_port_down_handler_def change_algorithm_type_def
      split: host_change.splits option.splits\<close>)

lemma rm_step_inv:
  assumes inv: "rm_inv mc t s" and t: "t \<le> ev_clock t ev"
  shows "rm_inv mc (ev_clock t ev) (rm_step mc ev s)"
proof -
  obtain r where r: "rm_algorithm s = DefaultAlg r" using inv by (auto simp: rm_inv_def)
  have other: "rm_inv mc (ev_clock t ev) (rm_step mc ev s)" if "\<forall>now sh msg. ev \<noteq> PacketIn now sh msg" "ev \<noteq> QueueProcessed" "ev \<noteq> TaskHandled"
    using rm_step_frame[OF that r, of mc] rm_inv_facts(6)[OF inv] by (intro rm_inv_frame[OF inv t, where us = "[]"]) (simp_all add: open_tasks_def)
  show ?thesis
  proof (cases ev)
    case (PacketIn now sh msg)
    have c: "ev_clock t ev = now" "rm_step mc ev s = fst (rm_packet_in_handler mc now sh msg s)" by (simp_all add: PacketIn ev_clock_def rm_step_def)
    have tn: "t \<le> now" using t c by simp
    show ?thesis unfolding c
    proof (cases rule: packet_in_cases[of mc now sh msg s])
      case same
      show "rm_inv mc now (fst (rm_packet_in_handler mc now sh msg s))"
        unfolding same by (rule rm_inv_frame[OF inv tn, where us = "[]"]) (use rm_inv_facts(5,6)[OF inv] in simp_all)
    next
      case (cached k cache)
      show "rm_inv mc now (fst (rm_packet_in_handler mc now sh msg s))"
        unfolding cached(2) by (rule rm_inv_cached[OF inv tn cached(1), where xs = "[]"]) (simp_all add: open_tasks_def)
    next
      case (task k cache x)
      show "rm_inv mc now (fst (rm_packet_in_handler mc now sh msg s))"
        unfolding task(5) by (rule rm_inv_cached[OF inv tn task(1), where xs = "[x]"]) (use task in \<open>simp_all add: open_tasks_def\<close>)
    qed
  next
    case QueueProcessed
    show ?thesis
      by (rule rm_inv_frame[OF inv t, where us = "[]"])
        (use rm_inv_facts(5,6)[OF inv] in \<open>simp_all add: QueueProcessed rm_step_def rm_process_queued_msg_def foldl_enqueue open_tasks_def\<close>)
  next
    case TaskHandled
    have "rm_tasks s = take 1 (rm_tasks s) @ tl (rm_tasks s)" by (cases "rm_tasks s") simp_all
    then show ?thesis
      by (intro rm_inv_frame[OF inv t, where us = "take 1 (rm_tasks s)"])
        (use rm_inv_facts(5,6)[OF inv] in \<open>simp_all add: TaskHandled rm_step_def open_tasks_def\<close>)
  qed (rule other; simp)+
qed

lemma rm_reach_inv: "rm_reach mc t s \<Longrightarrow> rm_inv mc t s"
proof (induction rule: rm_reach.induct)
  case (rm_reach_init t b)
  show ?case by (simp add: rm_inv_def new_route_manage_def update_gateway_entry_def GATEWAY_MACS_def rm_update_entry_def open_tasks_def request_times_def)
qed (rule rm_step_inv)

text \<open>
  C19. The tasks are well typed: in every state that events can lead to, a waiting unicast task has the type
  of a route inside the topology and its destination is neither a multicast address nor \<open>255.255.255.0\<close>,
  and a waiting multicast task is for a multicast address. Every waiting task has its request in the
  cache, written when the task was made or later, and the tables are dictionaries.
\<close>

theorem waiting_tasks_typed:
  assumes "rm_reach is_multicast t s" "x \<in> set (open_tasks s)"
  shows "task_typed is_multicast x \<and> dict_ok (rm_entry s) \<and> dict_ok (rm_request_cache s) \<and>
    (\<exists>t0 n. dict_get (rm_request_cache s) (task_key x) = Some (t0, n) \<and> task_stamp x \<le> t0 \<and> t0 \<le> t)"
proof -
  have inv: "rm_inv is_multicast t s" by (rule rm_reach_inv[OF assms(1)])
  obtain t0 n where c: "dict_get (rm_request_cache s) (task_key x) = Some (t0, n)" "task_stamp x \<le> t0" using rm_inv_facts(3)[OF inv assms(2)] by blast
  show ?thesis using c rm_inv_facts(1)[OF inv c(1)] rm_inv_facts(2)[OF inv assms(2)] rm_inv_facts(6,7)[OF inv] by blast
qed

text \<open>
  C18. Requests are rate limited: whatever events happen, while the clock does not go back, two waiting tasks
  for the same pair of addresses were made at least \<open>REQUEST_CACHE_TIMEOUT\<close> seconds apart, in the
  order in which they wait.
\<close>

theorem requests_rate_limited:
  assumes "rm_reach is_multicast t s" "i < j" "j < length (request_times k (open_tasks s))"
  shows "request_times k (open_tasks s) ! i + REQUEST_CACHE_TIMEOUT \<le> request_times k (open_tasks s) ! j"
  using rm_inv_facts(4)[OF rm_reach_inv[OF assms(1)], of k] assms(2,3) unfolding sorted_wrt_iff_nth_less by blast

text \<open>
  C40. The algorithm cannot be changed: in every state that events can lead to, the unicast algorithm is
  the default one, and the request to change to the genetic algorithm or to Dijkstra raises
  \<open>AttributeError\<close> and changes nothing.
\<close>

theorem algorithm_type_is_final:
  assumes "rm_reach is_multicast t s" "ty \<in> {''GA'', ''Dij''}"
  shows "(\<exists>r. rm_algorithm s = DefaultAlg r) \<and> change_algorithm_type gi di ty s = (s, Some AttributeError)"
  using rm_inv_facts(5)[OF rm_reach_inv[OF assms(1)]] assms(2) by (auto simp: change_algorithm_type_def)

section \<open>A packet between two hosts\<close>

text \<open>What is in a packet: an IPv4 packet in an Ethernet frame, neither broadcast nor IGMP.\<close>

definition ip_frame :: "packet_in \<Rightarrow> string \<Rightarrow> string \<Rightarrow> ip_packet \<Rightarrow> bool" where
  "ip_frame msg src_mac dst_mac ip \<longleftrightarrow> Igmp \<notin> set (pi_protocols msg) \<and> parse_ethernet (pi_protocols msg) = Some (src_mac, dst_mac) \<and>
     find (\<lambda>p. case p of Ipv4 _ \<Rightarrow> True | _ \<Rightarrow> False) (rev (pi_protocols msg)) = Some (Ipv4 ip) \<and>
     dst_mac \<noteq> BROADCAST_STR \<and> ipp_dst ip \<noteq> ''255.255.255.0''"

lemma ip_frame_unicast:
  "ip_frame msg src_mac dst_mac ip \<Longrightarrow> \<not> is_multicast (ipp_dst ip) \<Longrightarrow>
   rm_packet_in_handler is_multicast now sh msg s = handle_unicast now sh msg src_mac dst_mac ip s"
  by (simp add: ip_frame_def rm_packet_in_handler_def handle_ip_def)

lemma request_queued:
  assumes "ip_frame msg src_mac dst_mac ip" "\<not> is_multicast (ipp_dst ip)" "rm_algorithm_state s"
    and "dict_get (rm_entry s) src_mac = Some (Tracked p)" "dict_get (rm_entry s) dst_mac = Some (Tracked q)"
    and "ipp_src ip \<in> set (dict_keys (me_ipaddrs (sh_entry sh p)))" "ipp_dst ip \<in> set (dict_keys (me_ipaddrs (sh_entry sh q)))"
    and "cache_request now (ipp_src ip, ipp_dst ip) (rm_request_cache s) = Some cache"
  shows "rm_packet_in_handler is_multicast now sh msg s =
    (s\<lparr>rm_request_cache := cache, rm_queue := rm_queue s @ [UnicastTask \<lparr>route_type = ROUTE_TYPE_INTRA_TOPO, src_dpid = me_dpid (sh_entry sh p),
       src_ip = ipp_src ip, src_port_no = me_port (sh_entry sh p), dst_dpid = me_dpid (sh_entry sh q), dst_ip = ipp_dst ip,
       dst_port_no = me_port (sh_entry sh q), t_timestamp = now\<rparr>]\<rparr>, [], None)"
proof -
  have "ref_has_ip sh (Tracked p) (ipp_src ip)" "ref_has_ip sh (Tracked q) (ipp_dst ip)"
    using assms(6,7) dict_get_None_iff[of "me_ipaddrs (sh_entry sh p)"] dict_get_None_iff[of "me_ipaddrs (sh_entry sh q)"]
    by (simp_all add: ref_has_ip_def del: set_map)
  then show ?thesis unfolding ip_frame_unicast[of msg src_mac dst_mac ip is_multicast, OF assms(1,2)]
    using assms(3-5,8) by (simp add: handle_unicast_def ref_location_def rm_new_task_def new_task_def rm_add_to_queue_def)
qed

text \<open>
  A packet for a gateway has no route: the entry of a gateway has no place in the network, so the
  handler, which has by then reported the gateway missing and written the request into the cache, fails
  an assertion; and for the next \<open>REQUEST_CACHE_TIMEOUT\<close> seconds it only reports packets of the same
  pair, and makes no task for them.
\<close>

theorem gateway_request_raises:
  assumes "ip_frame msg src_mac dst_mac ip" "\<not> is_multicast (ipp_dst ip)" "rm_algorithm_state s"
    and "dict_get (rm_entry s) src_mac = Some (Tracked p)" "dict_get (rm_entry s) dst_mac = Some (OwnEntry None gm gip)"
    and "ipp_src ip \<in> set (dict_keys (me_ipaddrs (sh_entry sh p)))"
    and "cache_request now (ipp_src ip, ipp_dst ip) (rm_request_cache s) = Some cache"
    and "now' < now + REQUEST_CACHE_TIMEOUT"
  shows "rm_packet_in_handler is_multicast now sh msg s = (s\<lparr>rm_request_cache := cache\<rparr>, [HostMissing msg ''dst''], Some AssertionError) \<and>
    rm_packet_in_handler is_multicast now' sh msg (s\<lparr>rm_request_cache := cache\<rparr>) = (s\<lparr>rm_request_cache := cache\<rparr>, [HostMissing msg ''dst''], None)"
proof -
  have h: "ref_has_ip sh (Tracked p) (ipp_src ip)"
    using assms(6) dict_get_None_iff[of "me_ipaddrs (sh_entry sh p)"] by (simp add: ref_has_ip_def del: set_map)
  obtain n where n: "cache = dict_set (ipp_src ip, ipp_dst ip) (now, n) (rm_request_cache s)" using cache_request_Some(1)[OF assms(7)] by blast
  have c: "cache_request now' (ipp_src ip, ipp_dst ip) cache = None" using assms(8) by (simp add: n cache_request_def)
  show ?thesis unfolding ip_frame_unicast[of msg src_mac dst_mac ip is_multicast, OF assms(1,2)]
    using assms(3-5,7) h c by (simp add: handle_unicast_def ref_has_ip_def ref_location_def rm_new_task_def new_task_def)
qed

section \<open>Witnesses\<close>

definition wit_multicast :: "string \<Rightarrow> bool" where
  "wit_multicast ip \<longleftrightarrow> take 4 ip = ''224.''"

definition wit_host :: "nat \<Rightarrow> nat \<Rightarrow> string \<Rightarrow> string \<Rightarrow> mac_entry" where
  "wit_host dpid port mac ip = (MacEntry 0 dpid port mac)\<lparr>me_ipaddrs := [(ip, IpEntry 0 0 True)]\<rparr>"

definition wit_shared :: "nat shared" where
  "wit_shared = \<lparr>sh_entry = (\<lambda>p. if p = 5 then wit_host 11 1 ''m1'' ''10.0.0.1'' else wit_host 12 2 ''m2'' ''10.0.0.2''),
     sh_mac_to_port = [(11, [(''m1'', 1)])], sh_groups = []\<rparr>"

definition wit_ip_packet :: "string \<Rightarrow> string \<Rightarrow> packet_in" where
  "wit_ip_packet dst_mac ip = \<lparr>pi_dpid = 11, pi_in_port = 1, pi_buffer_id = 0, pi_data = [],
     pi_protocols = [Ethernet ''m1'' dst_mac, Ipv4 \<lparr>ipp_src = ''10.0.0.1'', ipp_dst = ip, ipp_proto = 6\<rparr>]\<rparr>"

definition wit_rm :: "(nat, edge_list) route_manage" where
  "wit_rm = fold (rm_step wit_multicast)
     [TopoInitialized [] [] \<lparr>queriers = [], groups = [], querier_thread = False\<rparr>, HostState wit_shared Joined 5, HostState wit_shared Joined 6] (new_route_manage True)"

lemma wit_rm_eval: "wit_rm = (new_route_manage True)\<lparr>rm_hosts_known := True, rm_algorithm_state := True, rm_multicast_algorithm_state := True, rm_init_status := True,
    rm_algorithm := DefaultAlg (RouteAlgorithm), rm_multicast_algorithm := NSGA2,
    rm_entry := rm_entry (new_route_manage True :: (nat, edge_list) route_manage) @ [(''m1'', Tracked 5), (''m2'', Tracked 6)]\<rparr>"
  by (simp add: wit_rm_def rm_step_def topo_init_handler_def set_querier_mode_def alg_init_def ra_init_algorithm_def moea_init_algorithm_def start_loop_def
      host_state_handler_def wit_shared_def wit_host_def MacEntry_def new_route_manage_def update_gateway_entry_def rm_update_entry_def GATEWAY_MACS_def Let_def
      RouteAlgorithm_def NSGA2_def)

lemma wit_rm_reach: "rm_reach wit_multicast 0 wit_rm"
proof -
  have run: "rm_reach wit_multicast t s \<Longrightarrow> \<forall>ev \<in> set evs. ev_clock t ev = t \<Longrightarrow> rm_reach wit_multicast t (fold (rm_step wit_multicast) evs s)"
    for t and s :: "(nat, edge_list) route_manage" and evs
  proof (induction evs arbitrary: s)
    case (Cons ev evs)
    then show ?case using rm_reach_step[OF Cons.prems(1), of ev] Cons.IH[of "rm_step wit_multicast ev s"] by simp
  qed simp
  show ?thesis unfolding wit_rm_def by (rule run[OF rm_reach_init]) (simp add: ev_clock_def)
qed

lemma wit_packet_frame:
  "mac \<noteq> BROADCAST_STR \<Longrightarrow> ip \<noteq> ''255.255.255.0'' \<Longrightarrow> ip_frame (wit_ip_packet mac ip) ''m1'' mac \<lparr>ipp_src = ''10.0.0.1'', ipp_dst = ip, ipp_proto = 6\<rparr>"
  by (simp add: ip_frame_def wit_ip_packet_def parse_ethernet_def)

lemma wit_rm_state: "rm_algorithm_state wit_rm" "rm_request_cache wit_rm = []" "rm_queue wit_rm = []" "rm_tasks wit_rm = []"
  "dict_get (rm_entry wit_rm) ''m1'' = Some (Tracked 5)" "dict_get (rm_entry wit_rm) ''m2'' = Some (Tracked 6)"
  "dict_get (rm_entry wit_rm) ''c9:c9:c9:c9:c9:c9'' = Some (OwnEntry None ''c9:c9:c9:c9:c9:c9'' ''10.0.0.201'')"
  by (simp_all add: wit_rm_eval new_route_manage_def update_gateway_entry_def rm_update_entry_def GATEWAY_MACS_def)

lemma wit_shared_entries: "sh_entry wit_shared 5 = wit_host 11 1 ''m1'' ''10.0.0.1''" "sh_entry wit_shared 6 = wit_host 12 2 ''m2'' ''10.0.0.2''"
  by (simp_all add: wit_shared_def)

definition wit_rm_request :: task where
  "wit_rm_request = \<lparr>route_type = 3, src_dpid = 11, src_ip = ''10.0.0.1'', src_port_no = 1, dst_dpid = 12, dst_ip = ''10.0.0.2'', dst_port_no = 2, t_timestamp = 0\<rparr>"

lemma wit_rm_request_queued:
  "rm_packet_in_handler wit_multicast 0 wit_shared (wit_ip_packet ''m2'' ''10.0.0.2'') wit_rm =
    (wit_rm\<lparr>rm_request_cache := [((''10.0.0.1'', ''10.0.0.2''), (0, 0))], rm_queue := [UnicastTask wit_rm_request]\<rparr>, [], None)"
proof -
  have f: "ip_frame (wit_ip_packet ''m2'' ''10.0.0.2'') ''m1'' ''m2'' \<lparr>ipp_src = ''10.0.0.1'', ipp_dst = ''10.0.0.2'', ipp_proto = 6\<rparr>"
    by (rule wit_packet_frame) simp_all
  show ?thesis
    using request_queued[OF f, where is_multicast = wit_multicast and s = wit_rm and p = 5 and q = 6 and sh = wit_shared and now = 0]
    by (simp add: wit_multicast_def wit_rm_state wit_shared_entries wit_host_def MacEntry_def cache_request_def wit_rm_request_def ROUTE_TYPE_INTRA_TOPO_def)
qed

definition wit_asked :: "(nat, edge_list) route_manage" where
  "wit_asked = wit_rm\<lparr>rm_request_cache := [((''10.0.0.1'', ''10.0.0.2''), (0, 0))], rm_queue := [UnicastTask wit_rm_request]\<rparr>"

lemma wit_asked_reach: "rm_reach wit_multicast 0 wit_asked"
  using rm_reach_step[OF wit_rm_reach, of "PacketIn 0 wit_shared (wit_ip_packet ''m2'' ''10.0.0.2'')"] wit_rm_request_queued
  by (simp add: ev_clock_def rm_step_def wit_asked_def)

theorem waiting_tasks_typed_witness:
  "UnicastTask wit_rm_request \<in> set (open_tasks wit_asked) \<and> task_typed wit_multicast (UnicastTask wit_rm_request)"
proof -
  have m: "UnicastTask wit_rm_request \<in> set (open_tasks wit_asked)" by (simp add: open_tasks_def wit_asked_def)
  show ?thesis using waiting_tasks_typed[OF wit_asked_reach m] m by blast
qed

lemma wit_rm_request_again:
  "rm_packet_in_handler wit_multicast 60 wit_shared (wit_ip_packet ''m2'' ''10.0.0.2'') wit_asked =
    (wit_rm\<lparr>rm_request_cache := [((''10.0.0.1'', ''10.0.0.2''), (60, 0))], rm_queue := [UnicastTask wit_rm_request, UnicastTask (wit_rm_request\<lparr>t_timestamp := 60\<rparr>)]\<rparr>, [], None)"
proof -
  have f: "ip_frame (wit_ip_packet ''m2'' ''10.0.0.2'') ''m1'' ''m2'' \<lparr>ipp_src = ''10.0.0.1'', ipp_dst = ''10.0.0.2'', ipp_proto = 6\<rparr>"
    by (rule wit_packet_frame) simp_all
  show ?thesis
    using request_queued[OF f, where is_multicast = wit_multicast and s = wit_asked and p = 5 and q = 6 and sh = wit_shared and now = 60]
    by (simp add: wit_asked_def wit_multicast_def wit_rm_state wit_shared_entries wit_host_def MacEntry_def cache_request_def wit_rm_request_def ROUTE_TYPE_INTRA_TOPO_def
        REQUEST_CACHE_TIMEOUT_def)
qed

theorem requests_rate_limited_witness:
  "\<exists>s :: (nat, edge_list) route_manage. rm_reach wit_multicast 60 s \<and> request_times (''10.0.0.1'', ''10.0.0.2'') (open_tasks s) = [0, 60] \<and>
     0 + REQUEST_CACHE_TIMEOUT \<le> 60"
proof -
  let ?ev = "PacketIn 60 wit_shared (wit_ip_packet ''m2'' ''10.0.0.2'')"
  let ?s = "rm_step wit_multicast ?ev wit_asked"
  have r: "rm_reach wit_multicast 60 ?s" using rm_reach_step[OF wit_asked_reach, of ?ev] by (simp add: ev_clock_def)
  have t: "request_times (''10.0.0.1'', ''10.0.0.2'') (open_tasks ?s) = [0, 60]"
    by (simp add: rm_step_def wit_rm_request_again open_tasks_def wit_rm_state request_times_def task_key_def task_stamp_def wit_rm_request_def)
  have "request_times (''10.0.0.1'', ''10.0.0.2'') (open_tasks ?s) ! 0 + REQUEST_CACHE_TIMEOUT \<le> request_times (''10.0.0.1'', ''10.0.0.2'') (open_tasks ?s) ! 1"
    by (rule requests_rate_limited[OF r]) (simp_all add: t)
  then show ?thesis using r t by (intro exI[of _ ?s]) simp
qed

theorem algorithm_type_is_final_witness:
  "\<forall>gi di. change_algorithm_type gi di ''GA'' wit_rm = (wit_rm, Some AttributeError)"
proof (intro allI)
  fix gi di
  have "''GA'' \<in> {''GA'', ''Dij''}" by simp
  from algorithm_type_is_final[OF wit_rm_reach this] show "change_algorithm_type gi di ''GA'' wit_rm = (wit_rm, Some AttributeError)" by blast
qed

theorem gateway_request_raises_witness:
  "\<exists>cache. rm_packet_in_handler wit_multicast 1 wit_shared (wit_ip_packet ''c9:c9:c9:c9:c9:c9'' ''10.0.0.201'') wit_rm =
     (wit_rm\<lparr>rm_request_cache := cache\<rparr>, [HostMissing (wit_ip_packet ''c9:c9:c9:c9:c9:c9'' ''10.0.0.201'') ''dst''], Some AssertionError)"
proof -
  let ?ip = "\<lparr>ipp_src = ''10.0.0.1'', ipp_dst = ''10.0.0.201'', ipp_proto = 6\<rparr>"
  have f: "ip_frame (wit_ip_packet ''c9:c9:c9:c9:c9:c9'' ''10.0.0.201'') ''m1'' ''c9:c9:c9:c9:c9:c9'' ?ip" by (rule wit_packet_frame) simp_all
  have m: "\<not> wit_multicast (ipp_dst ?ip)" by (simp add: wit_multicast_def)
  have i: "ipp_src ?ip \<in> set (dict_keys (me_ipaddrs (sh_entry wit_shared 5)))" by (simp add: wit_shared_entries wit_host_def)
  obtain cache where c: "cache_request 1 (ipp_src ?ip, ipp_dst ?ip) (rm_request_cache wit_rm) = Some cache" by (simp add: cache_request_def wit_rm_state)
  have t: "2 < 1 + REQUEST_CACHE_TIMEOUT" by (simp add: REQUEST_CACHE_TIMEOUT_def)
  show ?thesis using gateway_request_raises[where is_multicast = wit_multicast, OF f m wit_rm_state(1,5,7) i c t] by blast
qed

end
