(* ===== verification/Unicast_Routing.thy ===== *)
theory Unicast_Routing
  imports GA_Route Route_Deploy
begin

text \<open>
  Route algorithms and route deployment together. What \<open>RouteTaskEntry\<close> relies on in a route algorithm is
  stated as a locale: \<open>returns switches links src dst ds\<close> says that the algorithm, initialised from the
  tables and run for the two switches, may answer the list \<open>ds\<close> of dpids. Its client is the
  deployment: along every route such an algorithm answers, the flow entries carry the packets of the
  task. The locale is interpreted on \<open>Dijkstra\<close> and on \<open>GAPopulation\<close>.
\<close>

section \<open>The network\<close>

text \<open>
  The switch table tells the truth about the cabling: a recorded neighbour has the first recorded port at
  the other end of the cable, in both directions.
\<close>

definition network_ok :: "switch_table \<Rightarrow> (nat \<times> nat \<Rightarrow> (nat \<times> nat) option) \<Rightarrow> bool" where
  "network_ok st wire \<longleftrightarrow> (\<forall>d \<in> set (dict_keys st). known_switch st d) \<and>
     (\<forall>u \<in> set (dict_keys st). \<forall>v \<in> set (dpid_nbs st u).
        v \<in> set (dict_keys st) \<and> linked st u v \<and> linked st v u \<and>
        wire (u, port_to st u v) = Some (v, port_to st v u) \<and> wire (v, port_to st v u) = Some (u, port_to st u v))"

lemma walk_step: "walk nb p \<Longrightarrow> Suc i < length p \<Longrightarrow> p ! Suc i \<in> set (nb (p ! i))"
proof (induction nb p arbitrary: i rule: walk.induct)
  case (3 nb x y xs)
  then show ?case by (cases i) auto
qed auto

lemma network_walk:
  assumes net: "network_ok st wire" and w: "walk_from_to (dpid_nbs st) src dst ds" "distinct ds" and src: "src \<in> set (dict_keys st)"
  shows "route_known st ds" "wired st wire ds"
proof -
  have wk: "walk (dpid_nbs st) ds" "hd ds = src" "ds \<noteq> []" using w(1) walk_nonempty by (auto simp: walk_from_to_def)
  have mem: "set ds \<subseteq> set (dict_keys st)"
    by (rule walk_closed[OF wk(1)]) (use net src wk(2) in \<open>simp_all add: network_ok_def del: set_map\<close>)
  have hop: "linked st (ds ! i) (ds ! Suc i) \<and> linked st (ds ! Suc i) (ds ! i) \<and>
      wire (ds ! i, port_to st (ds ! i) (ds ! Suc i)) = Some (ds ! Suc i, port_to st (ds ! Suc i) (ds ! i)) \<and>
      wire (ds ! Suc i, port_to st (ds ! Suc i) (ds ! i)) = Some (ds ! i, port_to st (ds ! i) (ds ! Suc i))"
    if h: "Suc i < length ds" for i
  proof -
    have "ds ! i \<in> set (dict_keys st)" using mem nth_mem[of i ds] h by auto
    then show ?thesis using net walk_step[OF wk(1) h] unfolding network_ok_def by blast
  qed
  show "wired st wire ds" unfolding wired_def using hop by blast
  have "\<forall>d \<in> set ds. known_switch st d" using mem net unfolding network_ok_def by blast
  then show "route_known st ds" unfolding route_known_def using hop wk(3) w(2) by blast
qed

section \<open>The contract of a route algorithm\<close>

locale route_algorithm =
  fixes input_ok :: "switch_table \<Rightarrow> link_table_api \<Rightarrow> bool"
    and returns :: "switch_table \<Rightarrow> link_table_api \<Rightarrow> nat \<Rightarrow> nat \<Rightarrow> nat list \<Rightarrow> bool"
  assumes returns_route: "input_ok st lnks \<Longrightarrow> src \<in> set (dict_keys st) \<Longrightarrow> dst \<in> set (dict_keys st) \<Longrightarrow> src \<noteq> dst \<Longrightarrow>
    returns st lnks src dst ds \<Longrightarrow> walk_from_to (dpid_nbs st) src dst ds \<and> distinct ds"
begin

lemma deployed_carries:
  assumes "input_ok st lnks" "network_ok st wire" "src_dpid t \<in> set (dict_keys st)" "dst_dpid t \<in> set (dict_keys st)"
    and "src_dpid t \<noteq> dst_dpid t" "src_ip t \<noteq> dst_ip t" "returns st lnks (src_dpid t) (dst_dpid t) ds"
    and "wire (src_dpid t, src_port_no t) = None" "wire (dst_dpid t, dst_port_no t) = None"
  shows "\<exists>ms. deploy_flow_table st ty t ds = (ms, Inr True) \<and>
    carry (old @ ms) wire (src_ip t) (dst_ip t) (length ds) (src_dpid t, src_port_no t) = (ds, Some (Delivered (dst_dpid t) (dst_port_no t))) \<and>
    carry (old @ ms) wire (dst_ip t) (src_ip t) (length ds) (dst_dpid t, dst_port_no t) = (rev ds, Some (Delivered (src_dpid t) (src_port_no t)))"
proof -
  have r: "walk_from_to (dpid_nbs st) (src_dpid t) (dst_dpid t) ds" "distinct ds"
    using returns_route[OF assms(1,3,4,5,7)] by simp_all
  have ends: "hd ds = src_dpid t" "last ds = dst_dpid t" using r(1) by (simp_all add: walk_from_to_def)
  show ?thesis using deploy_carries[OF network_walk[OF assms(2) r assms(3)], of t ty old] assms(6,8,9) unfolding ends by blast
qed

end

section \<open>Dijkstra\<close>

definition dijkstra_input :: "dijkstra \<Rightarrow> switch_table \<Rightarrow> link_table_api \<Rightarrow> bool" where
  "dijkstra_input a st lnks \<longleftrightarrow> graph_input_ok st lnks \<and> bands_ok lnks \<and> coefficients_ok a"

definition dijkstra_returns :: "dijkstra \<Rightarrow> switch_table \<Rightarrow> link_table_api \<Rightarrow> nat \<Rightarrow> nat \<Rightarrow> nat list \<Rightarrow> bool" where
  "dijkstra_returns a st lnks src dst ds \<longleftrightarrow>
     (\<exists>a1 a2 a3 cost. init_algorithm st lnks a = Inr a1 \<and> dij_run src a1 = Some (Inr a2) \<and> dij_get_link src dst a2 = Inr (a3, Some (ds, cost)))"

lemma dijkstra_returns_best:
  assumes "dijkstra_input a st lnks" "src \<in> set (dict_keys st)" "dst \<in> set (dict_keys st)" "src \<noteq> dst"
    and "dijkstra_returns a st lnks src dst ds"
  shows "best_route a st lnks src dst ds"
  using assms init_run_get[of st lnks a src dst] unfolding dijkstra_input_def dijkstra_returns_def by auto

interpretation dijkstra_algorithm: route_algorithm "dijkstra_input a" "dijkstra_returns a" for a
  by unfold_locales (use dijkstra_returns_best in \<open>simp add: best_route_def\<close>)

section \<open>The genetic algorithm\<close>

definition ga_input :: "switch_table \<Rightarrow> link_table_api \<Rightarrow> bool" where
  "ga_input st lnks \<longleftrightarrow> graph_input_ok st lnks \<and> (\<forall>d \<in> set (dict_keys st). d \<notin> set (dpid_nbs st d))"

definition ga_returns :: "real \<Rightarrow> ga \<Rightarrow> switch_table \<Rightarrow> link_table_api \<Rightarrow> nat \<Rightarrow> nat \<Rightarrow> nat list \<Rightarrow> bool" where
  "ga_returns bw a st lnks src dst ds \<longleftrightarrow>
     (\<exists>a1 a2 a3 us us' cost. draws_ok us \<and> ga_init_algorithm st lnks a = Inr a1 \<and> evolve src dst bw a1 us = Some (Inr (a2, us')) \<and>
        ga_get_link src dst a2 = Inr (a3, ds, cost))"

lemma evolve_keeps: "evolve src dst bw a us = Some (Inr (a', us')) \<Longrightarrow> switch_queue a' = switch_queue a"
  by (auto simp: evolve_def run_bind_def split: option.splits sum.splits prod.splits)

lemma ga_get_link_member: "ga_get_link src dst a = Inr (a', ds, cost) \<Longrightarrow> \<exists>p \<in> set (links a). res_map (py_nth (switch_queue a)) p = Inr ds"
  by (auto simp: ga_get_link_def Let_def res_bind_def py_nth_def split: sum.splits if_splits)

lemma res_map_nth: "\<forall>i \<in> set p. i < length q \<Longrightarrow> res_map (py_nth q) p = Inr (map (nth q) p)"
  by (rule res_map_total) (simp add: py_nth_def)

lemma ga_returns_simple:
  assumes ok: "ga_input st lnks" and src: "src \<in> set (dict_keys st)" and dst: "dst \<in> set (dict_keys st)" and ne: "src \<noteq> dst"
    and r: "ga_returns bw a st lnks src dst ds"
  shows "walk_from_to (dpid_nbs st) src dst ds \<and> distinct ds"
proof -
  have g: "graph_input_ok st lnks" and noself: "\<And>d. d \<in> set (dict_keys st) \<Longrightarrow> d \<notin> set (dpid_nbs st d)" using ok by (simp_all add: ga_input_def del: set_map)
  obtain a1 a2 a3 us us' cost where h: "draws_ok us" "ga_init_algorithm st lnks a = Inr a1" "evolve src dst bw a1 us = Some (Inr (a2, us'))"
    "ga_get_link src dst a2 = Inr (a3, ds, cost)" using r unfolding ga_returns_def by blast
  let ?q = "dict_keys st" and ?es = "map (edge_of (dict_keys st)) lnks"
  let ?vs = "map (vertex_of ?q ?es) st"
  have a1: "switch_queue a1 = ?q" "vertexs a1 = ?vs"
    using h(2) init_algorithm_eval[OF g, of a] unfolding ga_init_algorithm_def by (elim exE; simp)+
  have "u \<notin> set (nbs_of ?vs u)" if u: "u < length ?vs" for u
  proof
    assume "u \<in> set (nbs_of ?vs u)"
    then have "?q ! u \<in> set (dpid_nbs st (?q ! u))" using walk_number_dpid(1)[OF g, of u u ?es] u by simp
    then show False using noself[of "?q ! u"] nth_mem[of u ?q] u by simp
  qed
  then have net: "net_ok (vertexs a1)" using vertexs_ok_init[OF g, of ?es] a1 by (simp add: net_ok_def)
  have len: "length (vertexs a1) = length (switch_queue a1)" using a1 by simp
  obtain p where p: "p \<in> set (links a2)" "res_map (py_nth ?q) p = Inr ds"
    using ga_get_link_member[OF h(4)] evolve_keeps[OF h(3)] a1 by auto
  have "src \<in> set (switch_queue a1)" "dst \<in> set (switch_queue a1)" unfolding a1 by (rule src, rule dst)
  from evolve_routes[OF net len this ne h(1), of bw] h(3) p(1)
  have s: "walk_from_to (nbs_of ?vs) (pos ?q src) (pos ?q dst) p" "distinct p" unfolding a1 simple_route_def by auto
  note d = walk_to_dpid[OF g src dst s(1)]
  have "ds = map (nth ?q) p" using p(2) res_map_nth[OF d(1)] by simp
  then show ?thesis using d(2) d(3)[OF s(2)] by simp
qed

interpretation genetic_algorithm: route_algorithm ga_input "ga_returns bw a" for bw a
  by unfold_locales (rule ga_returns_simple)

section \<open>End to end\<close>

text \<open>
  C6. Unicast routing with Dijkstra, end to end: on a network whose tables are complete and true, a task
  between two switches is answered with a shortest route unless every walk weighs 10000 or more, the
  deployment of the route succeeds, and the flow entries carry the packets of the task along it from
  port to port, in both directions.
\<close>

theorem dijkstra_unicast_end_to_end:
  assumes "dijkstra_input a st lnks" "network_ok st wire" "src_dpid t \<in> set (dict_keys st)" "dst_dpid t \<in> set (dict_keys st)"
    and "src_dpid t \<noteq> dst_dpid t" "src_ip t \<noteq> dst_ip t"
    and "wire (src_dpid t, src_port_no t) = None" "wire (dst_dpid t, dst_port_no t) = None"
    and "walk_from_to (dpid_nbs st) (src_dpid t) (dst_dpid t) p" "walk_weight (dpid_weight a st lnks) p < 10000"
  shows "\<exists>ds ms. dijkstra_returns a st lnks (src_dpid t) (dst_dpid t) ds \<and> best_route a st lnks (src_dpid t) (dst_dpid t) ds \<and>
    deploy_flow_table st ''Dij'' t ds = (ms, Inr True) \<and>
    carry (old @ ms) wire (src_ip t) (dst_ip t) (length ds) (src_dpid t, src_port_no t) = (ds, Some (Delivered (dst_dpid t) (dst_port_no t))) \<and>
    carry (old @ ms) wire (dst_ip t) (src_ip t) (length ds) (dst_dpid t, dst_port_no t) = (rev ds, Some (Delivered (src_dpid t) (src_port_no t)))"
proof -
  have i: "graph_input_ok st lnks" "bands_ok lnks" "coefficients_ok a" using assms(1) by (simp_all add: dijkstra_input_def)
  obtain a1 a2 a3 r where r: "init_algorithm st lnks a = Inr a1" "dij_run (src_dpid t) a1 = Some (Inr a2)"
    "dij_get_link (src_dpid t) (dst_dpid t) a2 = Inr (a3, r)"
    "case r of Some (ds, cost) \<Rightarrow> best_route a st lnks (src_dpid t) (dst_dpid t) ds
     | None \<Rightarrow> \<forall>ds. walk_from_to (dpid_nbs st) (src_dpid t) (dst_dpid t) ds \<longrightarrow> 10000 \<le> walk_weight (dpid_weight a st lnks) ds"
    using init_run_get[OF i assms(3-5)] by (elim exE conjE)
  have "r \<noteq> None"
  proof
    assume "r = None"
    then have "10000 \<le> walk_weight (dpid_weight a st lnks) p" using r(4) assms(9) by simp
    then show False using assms(10) by simp
  qed
  then obtain ds cost where "r = Some (ds, cost)" by auto
  then have ret: "dijkstra_returns a st lnks (src_dpid t) (dst_dpid t) ds" using r(1-3) unfolding dijkstra_returns_def by blast
  show ?thesis
    using ret dijkstra_returns_best[OF assms(1,3-5) ret] dijkstra_algorithm.deployed_carries[OF assms(1-6) ret assms(7,8), of "''Dij''" old] by blast
qed

text \<open>
  C12. Unicast routing with the genetic algorithm, end to end: along every route the algorithm may
  answer, whatever the random draws, the deployment succeeds and the flow entries carry the packets of
  the task from port to port, in both directions.
\<close>

theorem genetic_unicast_end_to_end:
  assumes "ga_input st lnks" "network_ok st wire" "src_dpid t \<in> set (dict_keys st)" "dst_dpid t \<in> set (dict_keys st)"
    and "src_dpid t \<noteq> dst_dpid t" "src_ip t \<noteq> dst_ip t"
    and "wire (src_dpid t, src_port_no t) = None" "wire (dst_dpid t, dst_port_no t) = None"
    and "ga_returns bw a st lnks (src_dpid t) (dst_dpid t) ds"
  shows "\<exists>ms. deploy_flow_table st ''GA'' t ds = (ms, Inr True) \<and>
    carry (old @ ms) wire (src_ip t) (dst_ip t) (length ds) (src_dpid t, src_port_no t) = (ds, Some (Delivered (dst_dpid t) (dst_port_no t))) \<and>
    carry (old @ ms) wire (dst_ip t) (src_ip t) (length ds) (dst_dpid t, dst_port_no t) = (rev ds, Some (Delivered (src_dpid t) (src_port_no t)))"
  using genetic_algorithm.deployed_carries[OF assms(1-6) assms(9) assms(7,8)] .


definition wit_node :: "nat \<Rightarrow> nat list \<Rightarrow> nat \<times> switch" where
  "wit_node d ns = (d, (new_switch \<lparr>dp_id = d, dp_address = [], dp_ports = []\<rparr>)\<lparr>sw_neighbors := map (\<lambda>n. (n, [n])) ns\<rparr>)"

definition wit_line :: switch_table where
  "wit_line = [wit_node 11 [12], wit_node 12 [11]]"

definition wit_line_cables :: link_table_api where
  "wit_line_cables = [wit_cable 11 12 1]"

definition wit_line_task :: task where
  "wit_line_task = wit_task\<lparr>dst_dpid := 12\<rparr>"

lemma wit_line_ok: "graph_input_ok wit_line wit_line_cables" "bands_ok wit_line_cables" "network_ok wit_line wit_wire" "ga_input wit_line wit_line_cables"
  by (simp_all add: graph_input_ok_def wit_line_def wit_node_def new_switch_def wit_line_cables_def wit_cable_def measured_def bands_ok_def
      network_ok_def known_switch_def get_switch_def dpid_nbs_def linked_def port_to_def wit_wire_def ga_input_def)

theorem dijkstra_unicast_end_to_end_witness:
  "\<exists>ds ms. dijkstra_returns wit_dijkstra wit_line wit_line_cables 11 12 ds \<and> deploy_flow_table wit_line ''Dij'' wit_line_task ds = (ms, Inr True) \<and>
     carry ms wit_wire ''10.0.0.1'' ''10.0.0.2'' (length ds) (11, 1) = (ds, Some (Delivered 12 2))"
proof -
  have i: "dijkstra_input wit_dijkstra wit_line wit_line_cables" using wit_line_ok wit_tables_ok(3) by (simp add: dijkstra_input_def)
  have t: "src_dpid wit_line_task = 11" "dst_dpid wit_line_task = 12" "src_ip wit_line_task = ''10.0.0.1''" "dst_ip wit_line_task = ''10.0.0.2''"
    "src_port_no wit_line_task = 1" "dst_port_no wit_line_task = 2" by (simp_all add: wit_line_task_def wit_task_def)
  have m: "11 \<in> set (dict_keys wit_line)" "12 \<in> set (dict_keys wit_line)" "wit_wire (11, 1) = None" "wit_wire (12, 2) = None"
    by (simp_all add: wit_line_def wit_node_def wit_wire_def)
  have p: "walk_from_to (dpid_nbs wit_line) 11 12 [11, 12]" by (simp add: walk_from_to_def dpid_nbs_def wit_line_def wit_node_def new_switch_def)
  have w: "walk_weight (dpid_weight wit_dijkstra wit_line wit_line_cables) [11, 12] < 10000"
    by (simp add: dpid_weight_def weight_value_def wit_line_def wit_line_cables_def wit_node_def wit_cable_def edge_of_def pos_def wit_dijkstra_def edge_weight_def)
  have "\<exists>ds ms. dijkstra_returns wit_dijkstra wit_line wit_line_cables 11 12 ds \<and> best_route wit_dijkstra wit_line wit_line_cables 11 12 ds \<and>
    deploy_flow_table wit_line ''Dij'' wit_line_task ds = (ms, Inr True) \<and>
    carry ([] @ ms) wit_wire ''10.0.0.1'' ''10.0.0.2'' (length ds) (11, 1) = (ds, Some (Delivered 12 2)) \<and>
    carry ([] @ ms) wit_wire ''10.0.0.2'' ''10.0.0.1'' (length ds) (12, 2) = (rev ds, Some (Delivered 11 1))"
    using dijkstra_unicast_end_to_end[OF i wit_line_ok(3), of wit_line_task "[11, 12]" "[]"] m p w unfolding t by simp
  then show ?thesis by auto
qed


lemma wit_line_evolves: "\<exists>a. ga_returns 0 a wit_line wit_line_cables 11 12 [11, 12]"
proof -
  define a :: ga where "a = wit_ga"
  obtain sn ec where i: "ga_init_algorithm wit_line wit_line_cables a =
      Inr (a\<lparr>switch_queue := [11, 12], edge_queue := [(11, 12)], switch_neighbors := sn, edge_collection := ec,
        vertexs := map (vertex_of [11, 12] (map (edge_of [11, 12]) wit_line_cables)) wit_line, edges := map (edge_of [11, 12]) wit_line_cables,
        links := [], fitness := [], link_cache := []\<rparr>)"
    using init_algorithm_eval[OF wit_line_ok(1), of a] unfolding ga_init_algorithm_def
    by (auto simp: wit_line_def wit_line_cables_def wit_node_def wit_cable_def)
  let ?e = "\<lparr>e_src = 0, e_dst = 1, e_delay = 1, e_cost = 0, e_avail = Some 1, e_total = 1, e_loss = None\<rparr>"
  let ?v0 = "\<lparr>v_degree = 1, v_neighbors = [1], v_edges = [0]\<rparr>" and ?v1 = "\<lparr>v_degree = 1, v_neighbors = [0], v_edges = [0]\<rparr>"
  have g: "map (edge_of [11, 12]) wit_line_cables = [?e]"
    "map (vertex_of [11, 12] [?e]) wit_line = [?v0, ?v1]"
    by (simp_all add: wit_line_cables_def wit_cable_def edge_of_def wit_line_def wit_node_def vertex_of_def new_switch_def pos_def matching_edges_def joins_def wit_link_def new_link_def Let_def)
  define b where "b = a\<lparr>switch_queue := [11, 12], edge_queue := [(11, 12)], switch_neighbors := sn, edge_collection := ec,
        vertexs := [?v0, ?v1], edges := [?e], links := [], fitness := [], link_cache := []\<rparr>"
  have "hop_limit b = 6" by (simp add: b_def a_def hop_limit_def wit_ga_def)
  then have dfs: "find_path_dfs 0 1 (hop_limit b) (vertexs b) = Some (Inr [[0, 1]])"
    by (simp add: find_path_dfs_def py_nth_def b_def dfs_loop.simps)
  have fit: "fitness_evaluate b [[0, 1]] 0 = Inr [10 / 5000]"
    by (simp add: fitness_evaluate_def b_def a_def wit_ga_def edge_path_def find_edge_def scan_edge_def res_bind_def py_nth_def path_fitness_def py_nth_int_def)
  have ev: "evolve 11 12 0 b [] = Some (Inr (b\<lparr>links := [[0, 1]], fitness := [10 / 5000], age := age b\<rparr>, []))"
    using dfs fit by (simp add: evolve_def py_index_def b_def evolve_loop.simps[of _ _ _ _ "[]"] select_def run_bind_def)
  have "ga_get_link 11 12 (b\<lparr>links := [[0, 1]], fitness := [10 / 5000], age := age b\<rparr>) =
      Inr (b\<lparr>links := [[0, 1]], fitness := [10 / 5000], age := age b, link_cache := [((0, 1), [0, 1])]\<rparr>, [11, 12], link_cost_of [?e] [0, 1])"
    by (simp add: ga_get_link_def py_nth_def b_def res_bind_def)
  moreover have "ga_init_algorithm wit_line wit_line_cables a = Inr b" using i unfolding g b_def .
  moreover have "draws_ok []" by (simp add: draws_ok_def)
  ultimately show ?thesis using ev unfolding ga_returns_def by blast
qed

theorem genetic_unicast_end_to_end_witness:
  "\<exists>ms. deploy_flow_table wit_line ''GA'' wit_line_task [11, 12] = (ms, Inr True) \<and>
     carry ms wit_wire ''10.0.0.1'' ''10.0.0.2'' 2 (11, 1) = ([11, 12], Some (Delivered 12 2))"
proof -
  obtain a where r: "ga_returns 0 a wit_line wit_line_cables 11 12 [11, 12]" using wit_line_evolves by blast
  have m: "11 \<in> set (dict_keys wit_line)" "12 \<in> set (dict_keys wit_line)" "wit_wire (11, 1) = None" "wit_wire (12, 2) = None"
    by (simp_all add: wit_line_def wit_node_def wit_wire_def)
  have "\<exists>ms. deploy_flow_table wit_line ''GA'' wit_line_task [11, 12] = (ms, Inr True) \<and>
    carry ([] @ ms) wit_wire ''10.0.0.1'' ''10.0.0.2'' (length [11, 12 :: nat]) (11, 1) = ([11, 12], Some (Delivered 12 2)) \<and>
    carry ([] @ ms) wit_wire ''10.0.0.2'' ''10.0.0.1'' (length [11, 12 :: nat]) (12, 2) = (rev [11, 12], Some (Delivered 11 1))"
    using genetic_unicast_end_to_end[OF wit_line_ok(4,3), of wit_line_task 0 a "[11, 12]" "[]"] m r by (simp add: wit_line_task_def wit_task_def)
  then show ?thesis by (auto simp: numeral_2_eq_2)
qed

end
