(* ===== verification/Request_Routing.thy ===== *)
theory Request_Routing
  imports Route_Manage Unicast_Routing
begin

text \<open>
  The program as it runs, from the first packet of a connection to the flow entries: \<open>RouteManage\<close> makes
  a task of the packet, its thread hands the task to the task handler, and a pass of the handler
  calculates the route with the default algorithm and deploys it.
\<close>

section \<open>The task handler and its algorithms\<close>

text \<open>
  The methods of the two algorithms as the tasks call them; their state goes with the draws that are left.
\<close>

definition default_update :: "link_table_api \<Rightarrow> route_algo \<times> draws \<Rightarrow> pyerr + (route_algo \<times> draws)" where
  "default_update lnks a = (case a of (r, us) \<Rightarrow> case ra_update_link_status lnks r of (r', Some e) \<Rightarrow> Inl e | (r', None) \<Rightarrow> Inr (r', us))"

definition default_run :: "'g networkx \<Rightarrow> nat \<Rightarrow> nat \<Rightarrow> real \<Rightarrow> route_algo \<times> draws \<Rightarrow> (route_algo \<times> draws) run" where
  "default_run nx src dst bw a =
     (case a of (r, us) \<Rightarrow> case ra_run nx src dst bw us r of (r', us', Some e) \<Rightarrow> Some (Inl e) | (r', us', None) \<Rightarrow> Some (Inr (r', us')))"

definition default_get :: "nat \<Rightarrow> nat \<Rightarrow> route_algo \<times> draws \<Rightarrow> pyerr + ((route_algo \<times> draws) \<times> (nat list \<times> real) option)" where
  "default_get src dst a = Inr (a, case ra_get_link (fst a) of (None, _) \<Rightarrow> None | (Some p, cost) \<Rightarrow> Some (p, cost))"

definition nsga2_update :: "link_table_api \<Rightarrow> 'g nsga2 \<times> draws \<Rightarrow> pyerr + ('g nsga2 \<times> draws)" where
  "nsga2_update lnks b = (case b of (g, us) \<Rightarrow> case moea_update_link_status lnks g of (g', Some e) \<Rightarrow> Inl e | (g', None) \<Rightarrow> Inr (g', us))"

definition nsga2_run :: "'g nx_graphs \<Rightarrow> nat \<Rightarrow> nat list \<Rightarrow> 'g nsga2 \<times> draws \<Rightarrow> ('g nsga2 \<times> draws) run" where
  "nsga2_run ng src dst b = (case b of (g, us) \<Rightarrow> moea_run ng src dst (5 * Megabits) us g)"

definition nsga2_get :: "'g nsga2 \<times> draws \<Rightarrow> pyerr + nat list list option" where
  "nsga2_get b = res_bind (nsga2_get_link (fst b)) (\<lambda>ps. Inr (Some ps))"

text \<open>The table of the querier as the deployment reads it: the ports with members.\<close>

definition group_ports :: "group_table \<Rightarrow> multicast_group" where
  "group_ports gs = map (\<lambda>(g, sws). (g, map (\<lambda>(d, ps). (d, dict_keys ps)) sws)) gs"

definition multicast_work ::
    "('b \<Rightarrow> pyerr + 'b) \<Rightarrow> (nat \<Rightarrow> nat list \<Rightarrow> 'b \<Rightarrow> 'b run) \<Rightarrow> ('b \<Rightarrow> pyerr + nat list list option) \<Rightarrow> (mtask \<Rightarrow> nat list list \<Rightarrow> unit sends) \<Rightarrow> (mtask, 'b) worker" where
  "multicast_work alg_update alg_run alg_get deploy m b =
     (case multicast_route_calc alg_update alg_run alg_get m b of
        None \<Rightarrow> None
      | Some (Inl e) \<Rightarrow> Some (b, [], Raised e)
      | Some (Inr (b', None)) \<Rightarrow> Some (b', [], NoRoute)
      | Some (Inr (b', Some link_list)) \<Rightarrow>
          (case deploy m link_list of (ms, Inl e) \<Rightarrow> Some (b', ms, Raised e) | (ms, Inr _) \<Rightarrow> Some (b', ms, Deployed)))"

definition route_work ::
    "'g nx_graphs \<Rightarrow> link_table_api \<Rightarrow> (string, string) pydict \<Rightarrow> switch_table \<Rightarrow> group_table \<Rightarrow> string \<Rightarrow>
     (route_task, (route_algo \<times> draws) \<times> ('g nsga2 \<times> draws)) worker" where
  "route_work ng lnks servers st gs ty t ab =
     (case ab of (a, b) \<Rightarrow>
        case t of
          UnicastTask u \<Rightarrow>
            map_option (\<lambda>(a', ms, x). ((a', b), ms, x))
              (unicast_work (default_update lnks) (default_run (ng_base ng)) default_get servers (deploy_flow_table st ty) u a)
        | MulticastTask m \<Rightarrow>
            map_option (\<lambda>(b', ms, x). ((a, b'), ms, x))
              (multicast_work (nsga2_update lnks) (nsga2_run ng) nsga2_get (multicast_deploy st (group_ports gs)) m b))"

section \<open>The default algorithm as a route algorithm\<close>

definition table_agrees :: "switch_table \<Rightarrow> link_table_api \<Rightarrow> bool" where
  "table_agrees st lnks \<longleftrightarrow> (\<forall>k \<in> set (dict_keys lnks). snd k \<in> set (dpid_nbs st (fst k)) \<and> fst k \<in> set (dpid_nbs st (snd k)))"

definition default_input :: "'g networkx \<Rightarrow> switch_table \<Rightarrow> link_table_api \<Rightarrow> bool" where
  "default_input nx st lnks \<longleftrightarrow> networkx_laws nx \<and> nx_input_ok lnks \<and> table_agrees st lnks"

definition default_returns :: "'g networkx \<Rightarrow> switch_table \<Rightarrow> link_table_api \<Rightarrow> nat \<Rightarrow> nat \<Rightarrow> nat list \<Rightarrow> bool" where
  "default_returns nx st lnks src dst ds \<longleftrightarrow>
     (\<exists>r r1 r2 bw us us' cost. set (dict_keys lnks) \<subseteq> set (ra_link_queue r) \<and> ra_update_link_status lnks r = (r1, None) \<and>
        ra_run nx src dst bw us r1 = (r2, us', None) \<and> ra_get_link r2 = (Some ds, cost))"

lemma table_edge_key: "table_edge lnks x y \<noteq> None \<Longrightarrow> (x, y) \<in> set (dict_keys lnks) \<or> (y, x) \<in> set (dict_keys lnks)"
  by (auto simp: table_edge_def find_None_iff image_iff) force+

lemma nx_path_walk:
  assumes "table_agrees st lnks" "nx_path (table_edge lnks) src dst p"
  shows "walk_from_to (dpid_nbs st) src dst p"
proof -
  have step: "y \<in> set (dpid_nbs st x)" if "table_edge lnks x y \<noteq> None" for x y
    using table_edge_key[OF that] assms(1) unfolding table_agrees_def by fastforce
  have "nx_walk (table_edge lnks) p \<Longrightarrow> walk (dpid_nbs st) p"
    using step by (induction "table_edge lnks" p rule: nx_walk.induct) auto
  then show ?thesis using assms(2) by (simp add: nx_path_def walk_from_to_def)
qed

lemma default_returns_path:
  assumes "default_input nx st lnks" "default_returns nx st lnks src dst ds"
  shows "nx_path (table_edge lnks) src dst ds" "distinct ds"
proof -
  have nx: "networkx_laws nx" and ok: "nx_input_ok lnks" using assms(1) by (simp_all add: default_input_def)
  obtain r r1 r2 bw us us' cost where h: "set (dict_keys lnks) \<subseteq> set (ra_link_queue r)" "ra_update_link_status lnks r = (r1, None)"
    "ra_run nx src dst bw us r1 = (r2, us', None)" "ra_get_link r2 = (Some ds, cost)" using assms(2) unfolding default_returns_def by blast
  let ?es = "map (\<lambda>e. link_edge e (ra_link_queue r)) lnks"
  have es: "ra_edges r1 = ?es" using h(2) ra_refresh_ok[OF ok subset_refl h(1), of "[]"] by (auto simp: ra_update_link_status_def)
  have E: "nx_edge nx (ra_graph nx ?es) = table_edge lnks" by (rule networkx_laws.ra_graph_table[OF nx])
  obtain w where "nx_dijkstra_path nx (ra_graph nx ?es) w src dst = Some ds"
    using h(3,4) by (auto simp: ra_run_def ra_main_def es Let_def ra_get_link_def split: prod.splits option.splits sum.splits)
  from networkx_laws.path_simple[OF nx this] show "nx_path (table_edge lnks) src dst ds" "distinct ds" unfolding E by simp_all
qed

interpretation default_algorithm: route_algorithm "default_input nx" "default_returns nx" for nx
proof (unfold_locales, goal_cases)
  case (1 st lnks src dst ds)
  have "table_agrees st lnks" using 1(1) by (simp add: default_input_def)
  then show ?case using nx_path_walk default_returns_path[OF 1(1,5)] by blast
qed

section \<open>End to end\<close>

lemma default_work:
  assumes nx: "networkx_laws nx" and ok: "nx_input_ok lnks" "set (dict_keys lnks) \<subseteq> set (ra_link_queue r)"
    and sd: "src_dpid t \<noteq> dst_dpid t" and p: "nx_path (table_edge lnks) (src_dpid t) (dst_dpid t) p"
  shows "\<exists>r' us' ds. default_returns nx st lnks (src_dpid t) (dst_dpid t) ds \<and>
    unicast_work (default_update lnks) (default_run nx) default_get servers deploy t (r, us) =
      (case deploy t ds of (ms, Inl e) \<Rightarrow> Some ((r', us'), ms, Raised e) | (ms, Inr _) \<Rightarrow> Some ((r', us'), ms, Deployed))"
proof -
  let ?bw = "business_type servers (dst_ip t)"
  obtain r1 r2 us' ds where d: "ra_update_link_status lnks r = (r1, None)" "ra_run nx (src_dpid t) (dst_dpid t) ?bw us r1 = (r2, us', None)"
    "ra_get_link r2 = (Some ds, nx_weight (table_edge lnks) a_delay ds)"
    using networkx_route[OF nx ok sd p refl, where us = us and bw = ?bw] by blast
  have "default_returns nx st lnks (src_dpid t) (dst_dpid t) ds" unfolding default_returns_def using ok(2) d by blast
  moreover have "unicast_work (default_update lnks) (default_run nx) default_get servers deploy t (r, us) =
      (case deploy t ds of (ms, Inl e) \<Rightarrow> Some ((r2, us'), ms, Raised e) | (ms, Inr _) \<Rightarrow> Some ((r2, us'), ms, Deployed))"
    using sd d by (simp add: unicast_work_def route_calc_def default_update_def default_run_def default_get_def)
  ultimately show ?thesis by blast
qed

text \<open>
  C1. From the first packet to the route: when a packet comes in between two hosts that the tracker knows,
  on switches that the measured links connect, and no request of the pair is in the cache, then the
  handler makes a task of it, the next pass of the task handler calculates a route and deploys it, and
  nothing raises; the flow entries sent carry the packets between the two hosts, from the port of one to the
  port of the other, in both directions, along a route of the link table.
\<close>

theorem first_packet_end_to_end:
  fixes p q :: 'o
  assumes nx: "networkx_laws (ng_base ng)" and lnks: "nx_input_ok lnks" "set (dict_keys lnks) \<subseteq> set (ra_link_queue r)" "table_agrees st lnks"
    and net: "network_ok st wire" and idle: "rm_queue s = []" "rm_tasks s = []" "rm_algorithm_state s"
    and pkt: "ip_frame msg src_mac dst_mac ip" "\<not> is_multicast (ipp_dst ip)" "ipp_src ip \<noteq> ipp_dst ip"
    and ents: "dict_get (rm_entry s) src_mac = Some (Tracked p)" "dict_get (rm_entry s) dst_mac = Some (Tracked q)"
    and hosts: "sh_entry sh p = P" "sh_entry sh q = Q" "ipp_src ip \<in> set (dict_keys (me_ipaddrs P))" "ipp_dst ip \<in> set (dict_keys (me_ipaddrs Q))"
    and place: "me_dpid P \<in> set (dict_keys st)" "me_dpid Q \<in> set (dict_keys st)" "me_dpid P \<noteq> me_dpid Q"
      "wire (me_dpid P, me_port P) = None" "wire (me_dpid Q, me_port Q) = None"
    and path: "nx_path (table_edge lnks) (me_dpid P) (me_dpid Q) path"
    and fresh: "dict_get (rm_request_cache s) (ipp_src ip, ipp_dst ip) = None" and later: "now < later"
  shows "\<exists>s1 a' ms ds. rm_packet_in_handler is_multicast now sh msg s = (s1, [], None) \<and>
    handle_task task_stamp (route_work ng lnks (rm_servers s) st gs (rm_algorithm_type s)) later (rm_tasks (rm_process_queued_msg s1)) ((r, us), b) =
      ([], (a', b), ms, PassOver) \<and> nx_path (table_edge lnks) (me_dpid P) (me_dpid Q) ds \<and>
    carry (old @ ms) wire (ipp_src ip) (ipp_dst ip) (length ds) (me_dpid P, me_port P) = (ds, Some (Delivered (me_dpid Q) (me_port Q))) \<and>
    carry (old @ ms) wire (ipp_dst ip) (ipp_src ip) (length ds) (me_dpid Q, me_port Q) = (rev ds, Some (Delivered (me_dpid P) (me_port P)))"
proof -
  define t where "t = \<lparr>route_type = ROUTE_TYPE_INTRA_TOPO, src_dpid = me_dpid P, src_ip = ipp_src ip, src_port_no = me_port P,
    dst_dpid = me_dpid Q, dst_ip = ipp_dst ip, dst_port_no = me_port Q, t_timestamp = now\<rparr>"
  have t: "src_dpid t = me_dpid P" "dst_dpid t = me_dpid Q" "src_ip t = ipp_src ip" "dst_ip t = ipp_dst ip" "src_port_no t = me_port P"
    "dst_port_no t = me_port Q" "t_timestamp t = now" by (simp_all add: t_def)
  obtain cache where c: "cache_request now (ipp_src ip, ipp_dst ip) (rm_request_cache s) = Some cache" using fresh by (simp add: cache_request_def)
  let ?s1 = "s\<lparr>rm_request_cache := cache, rm_queue := [UnicastTask t]\<rparr>"
  have h: "rm_packet_in_handler is_multicast now sh msg s = (?s1, [], None)"
    using request_queued[where is_multicast = is_multicast, OF pkt(1,2) idle(3) ents hosts(3,4)[folded hosts(1,2)] c] hosts(1,2) idle(1) by (simp add: t_def)
  have q: "rm_tasks (rm_process_queued_msg ?s1) = [UnicastTask t]" using idle(2) by (simp add: rm_process_queued_msg_def foldl_enqueue)
  have di: "default_input (ng_base ng) st lnks" using nx lnks by (simp add: default_input_def)
  obtain r' us' ds where w: "default_returns (ng_base ng) st lnks (src_dpid t) (dst_dpid t) ds"
    "unicast_work (default_update lnks) (default_run (ng_base ng)) default_get (rm_servers s) (deploy_flow_table st (rm_algorithm_type s)) t (r, us) =
      (case deploy_flow_table st (rm_algorithm_type s) t ds of (ms, Inl e) \<Rightarrow> Some ((r', us'), ms, Raised e) | (ms, Inr _) \<Rightarrow> Some ((r', us'), ms, Deployed))"
    using default_work[OF nx lnks(1,2), of t path st "rm_servers s" "deploy_flow_table st (rm_algorithm_type s)" us] place(3) path unfolding t by blast
  obtain ms where m: "deploy_flow_table st (rm_algorithm_type s) t ds = (ms, Inr True)"
    "carry (old @ ms) wire (src_ip t) (dst_ip t) (length ds) (src_dpid t, src_port_no t) = (ds, Some (Delivered (dst_dpid t) (dst_port_no t)))"
    "carry (old @ ms) wire (dst_ip t) (src_ip t) (length ds) (dst_dpid t, dst_port_no t) = (rev ds, Some (Delivered (src_dpid t) (src_port_no t)))"
    using default_algorithm.deployed_carries[OF di net, of t ds "rm_algorithm_type s" old] w(1) place pkt(3) unfolding t by blast
  have "route_work ng lnks (rm_servers s) st gs (rm_algorithm_type s) (UnicastTask t) ((r, us), b) = Some (((r', us'), b), ms, Deployed)"
    using w(2) m(1) by (simp add: route_work_def)
  then have hp: "handle_task task_stamp (route_work ng lnks (rm_servers s) st gs (rm_algorithm_type s)) later [UnicastTask t] ((r, us), b) =
    ([], ((r', us'), b), ms, PassOver)" using later by (simp add: handle_task_def task_stamp_def t)
  have "nx_path (table_edge lnks) (me_dpid P) (me_dpid Q) ds" using default_returns_path(1)[OF di w(1)] unfolding t .
  then show ?thesis using h q hp m(2,3) unfolding t by (intro exI[of _ ?s1] exI[of _ "(r', us')"] exI[of _ ms] exI[of _ ds]) simp
qed

theorem first_packet_end_to_end_witness:
  "\<exists>s1 a' ms ds. rm_packet_in_handler wit_multicast 0 wit_shared (wit_ip_packet ''m2'' ''10.0.0.2'') wit_rm = (s1, [], None) \<and>
    handle_task task_stamp (route_work ref_graphs wit_measured [] wit_line [] ''Dij'') 1 (rm_tasks (rm_process_queued_msg s1))
      ((RouteAlgorithm\<lparr>ra_link_queue := [(11, 12)]\<rparr>, []), (NSGA2, [])) = ([], (a', (NSGA2, [])), ms, PassOver) \<and>
    carry ms wit_wire ''10.0.0.1'' ''10.0.0.2'' (length ds) (11, 1) = (ds, Some (Delivered 12 2))"
proof -
  let ?ip = "\<lparr>ipp_src = ''10.0.0.1'', ipp_dst = ''10.0.0.2'', ipp_proto = 6\<rparr>"
  let ?P = "wit_host 11 1 ''m1'' ''10.0.0.1''" and ?Q = "wit_host 12 2 ''m2'' ''10.0.0.2''"
  have nx: "networkx_laws (ng_base ref_graphs)" using ref.networkx_laws_axioms by (simp add: ref_graphs_def)
  have q: "set (dict_keys wit_measured) \<subseteq> set (ra_link_queue (RouteAlgorithm\<lparr>ra_link_queue := [(11, 12)]\<rparr>))" by (simp add: wit_measured_def)
  have ag: "table_agrees wit_line wit_measured"
    by (simp add: table_agrees_def wit_measured_def dpid_nbs_def wit_line_def wit_node_def new_switch_def)
  have f: "ip_frame (wit_ip_packet ''m2'' ''10.0.0.2'') ''m1'' ''m2'' ?ip" by (rule wit_packet_frame) simp_all
  have m: "\<not> wit_multicast (ipp_dst ?ip)" "ipp_src ?ip \<noteq> ipp_dst ?ip" by (simp_all add: wit_multicast_def)
  have i: "ipp_src ?ip \<in> set (dict_keys (me_ipaddrs ?P))" "ipp_dst ?ip \<in> set (dict_keys (me_ipaddrs ?Q))" by (simp_all add: wit_host_def)
  have pl: "me_dpid ?P \<in> set (dict_keys wit_line)" "me_dpid ?Q \<in> set (dict_keys wit_line)" "me_dpid ?P \<noteq> me_dpid ?Q"
    "wit_wire (me_dpid ?P, me_port ?P) = None" "wit_wire (me_dpid ?Q, me_port ?Q) = None"
    by (simp_all add: wit_host_def MacEntry_def wit_line_def wit_node_def wit_wire_def)
  have pa: "nx_path (table_edge wit_measured) (me_dpid ?P) (me_dpid ?Q) [11, 12]"
    by (simp add: wit_host_def MacEntry_def nx_path_def table_edge_def wit_measured_def)
  have c: "dict_get (rm_request_cache wit_rm) (ipp_src ?ip, ipp_dst ?ip) = None" by (simp add: wit_rm_state)
  have l: "(0 :: real) < 1" by simp
  have sv: "rm_servers wit_rm = []" "rm_algorithm_type wit_rm = ''Dij''"
    by (simp_all add: wit_rm_eval new_route_manage_def update_gateway_entry_def rm_update_entry_def GATEWAY_MACS_def)
  have at: "me_dpid ?P = 11" "me_port ?P = 1" "me_dpid ?Q = 12" "me_port ?Q = 2" by (simp_all add: wit_host_def MacEntry_def)
  show ?thesis
    using first_packet_end_to_end[where is_multicast = wit_multicast and old = "[]" and gs = "[]" and us = "[]" and b = "(NSGA2, [])",
      OF nx wit_measured_ok(1) q ag wit_line_ok(3) wit_rm_state(3,4,1) f m wit_rm_state(5,6) wit_shared_entries i pl pa c l]
    unfolding sv at by (simp only: append_Nil ip_packet.simps) blast
qed

end
