(* ===== verification/Topology_Routing.thy ===== *)
theory Topology_Routing
  imports Request_Routing
begin

text \<open>
  The topology and the route algorithms together. \<open>RouteManage.link_delete_handler\<close> initialises the route
  algorithm again from the tables of the event, and every task refreshes it from the table of the
  link monitor, \<open>global_link_table\<close>, which is the table as it was when the monitor started.
\<close>

section \<open>Deleted links\<close>

lemma link_delete_event:
  assumes ok: "lt_ok (tm_links s)" and l: "dict_get (tm_links s) (a, b) = Some [l]" and nz: "a \<noteq> 0" "b \<noteq> 0"
  shows "\<exists>s' st' outs. link_delete_handler now l s = (s', outs, None) \<and>
    EventLinkDelUpdateTopo st' (api_init (dict_del (a, b) (tm_links s))) (link_src l) (link_dst l) now \<in> set outs"
proof -
  have k: "(port_dpid (link_src l), port_dpid (link_dst l)) = (a, b)" "a \<le> b" using lt_ok_get[OF ok l] by (auto simp: entry_ok_def)
  then have ser: "serialize (link_src l) (link_dst l) = (link_src l, link_dst l)" by (auto simp: serialize_def)
  have "del_link l (tm_links s) = (dict_del (a, b) (tm_links s), Some (a, b))"
    using k l by (simp add: del_link_def ser link_eq_def port_eq_def new_link_def Let_def)
  then show ?thesis using nz by (simp add: link_delete_handler_def Let_def case_prod_beta)
qed

text \<open>
  \<open>RouteManage\<close> hands the tables of the event to its algorithm, which forgets the pair of switches; the next
  refresh from the older table, which still has it, raises.
\<close>

lemma refresh_after_delete:
  assumes ok: "lt_ok t" and k: "k \<in> set (dict_keys t)" and n: "nx_input_ok (api_init t)"
    and q: "ra_link_queue r = dict_keys (api_init (dict_del k t))"
  shows "default_update (api_init t) (r, us) = Inl ValueError"
proof -
  have keys: "set (dict_keys (api_init t)) = set (dict_keys t)" if "lt_ok t" for t by (force simp: api_init_eq[OF that])
  have "k \<in> set (dict_keys (api_init t))" using k unfolding keys[OF ok] .
  moreover have "k \<notin> set (ra_link_queue r)"
    using dict_get_None_iff[of "dict_del k t" k] unfolding q keys[OF lt_ok_del[OF ok]] by (simp del: set_map)
  ultimately have "snd (ra_refresh (ra_link_queue r) (api_init t) []) = Some ValueError"
    by (intro ra_refresh_unknown[OF n subset_refl])
  then show ?thesis by (auto simp: default_update_def ra_update_link_status_def split: prod.splits option.splits)
qed

text \<open>
  C39. A deleted link stops the routing: when the only link between two switches is deleted, \<open>RouteManage\<close>
  initialises the default algorithm from the tables of the event, and the first unicast task
  between two different switches that is due then, to whatever destination, raises
  \<open>ValueError\<close> when it refreshes the algorithm from the table of the monitor as it was before: no message is
  sent, the queue stays and the thread of the task handler is dead, so that nothing is routed any more. Tasks
  whose hosts are on one switch do not refresh the algorithm, and multicast tasks use the other one: the
  statement is not about them.
\<close>

theorem deleted_link_stops_routing:
  assumes "lt_ok (tm_links s)" "dict_get (tm_links s) (a, b) = Some [l]" "a \<noteq> 0" "b \<noteq> 0"
    and "nx_input_ok (api_init (tm_links s))" and "rm_algorithm m = DefaultAlg r"
    and "src_dpid t \<noteq> dst_dpid t" "t_timestamp t < later"
  shows "\<exists>s' st' lnks' outs r' ab. link_delete_handler now l s = (s', outs, None) \<and>
    EventLinkDelUpdateTopo st' lnks' (link_src l) (link_dst l) now \<in> set outs \<and>
    rm_algorithm (fst (rm_link_delete_handler st' lnks' (link_src l) (link_dst l) now m)) = DefaultAlg r' \<and>
    handle_task task_stamp (route_work ng (api_init (tm_links s)) servers st gs ty) later (UnicastTask t # queue) ((r', us), g) =
      (UnicastTask t # queue, ab, [], ThreadDead ValueError)"
proof -
  let ?u = "dict_del (a, b) (tm_links s)"
  obtain s' st' outs where d: "link_delete_handler now l s = (s', outs, None)"
    "EventLinkDelUpdateTopo st' (api_init ?u) (link_src l) (link_dst l) now \<in> set outs" using link_delete_event[OF assms(1-4)] by blast
  let ?r = "fst (ra_init_algorithm st' (api_init ?u) r)"
  have m: "rm_algorithm (fst (rm_link_delete_handler st' (api_init ?u) (link_src l) (link_dst l) now m)) = DefaultAlg ?r"
    by (simp add: rm_link_delete_handler_def alg_init_def assms(6) split: prod.splits option.splits)
  have "(a, b) \<in> set (dict_keys (tm_links s))" using assms(2) dict_get_None_iff[of "tm_links s" "(a, b)"] by (simp del: set_map)
  then have u: "default_update (api_init (tm_links s)) (?r, us) = Inl ValueError"
    by (intro refresh_after_delete[OF assms(1) _ assms(5) ra_init_link_queue])
  have "route_work ng (api_init (tm_links s)) servers st gs ty (UnicastTask t) ((?r, us), g) = Some (((?r, us), g), [], Raised ValueError)"
    by (simp add: route_work_def unicast_work_def route_calc_def assms(7) u)
  then have "handle_task task_stamp (route_work ng (api_init (tm_links s)) servers st gs ty) later (UnicastTask t # queue) ((?r, us), g) =
      (UnicastTask t # queue, ((?r, us), g), [], ThreadDead ValueError)"
    by (simp add: handle_task_def task_stamp_def assms(8))
  then show ?thesis using d m by blast
qed

definition wit_measured_link :: link where
  "wit_measured_link = (wit_link 1 3 2 4)\<lparr>link_delay := Some 3, link_pkt_loss := Some 1, link_total_band := Some 10, link_available_band := Some 5\<rparr>"

definition wit_measured_topo :: topo where
  "wit_measured_topo = topo_init\<lparr>tm_links := [((1, 2), [wit_measured_link])]\<rparr>"

theorem deleted_link_stops_routing_witness:
  "\<exists>s' st' lnks' outs r' ab. link_delete_handler 9 wit_measured_link wit_measured_topo = (s', outs, None) \<and>
    EventLinkDelUpdateTopo st' lnks' (link_src wit_measured_link) (link_dst wit_measured_link) 9 \<in> set outs \<and>
    rm_algorithm (fst (rm_link_delete_handler st' lnks' (link_src wit_measured_link) (link_dst wit_measured_link) 9 wit_rm)) = DefaultAlg r' \<and>
    handle_task task_stamp (route_work ref_graphs (api_init (tm_links wit_measured_topo)) [] [] [] ''Dij'') 1 [UnicastTask wit_task] ((r', []), (NSGA2, [])) =
      ([UnicastTask wit_task], ab, [], ThreadDead ValueError)"
proof -
  have ok: "lt_ok (tm_links wit_measured_topo)"
    by (simp add: wit_measured_topo_def wit_measured_link_def wit_link_def wit_port_def new_link_def lt_ok_def entry_ok_def)
  have n: "nx_input_ok (api_init (tm_links wit_measured_topo))"
    unfolding api_init_eq[OF ok] by (simp add: nx_input_ok_def wit_measured_topo_def wit_measured_link_def)
  have d: "dict_get (tm_links wit_measured_topo) (1, 2) = Some [wit_measured_link]" by (simp add: wit_measured_topo_def)
  have z: "1 \<noteq> (0::nat)" "2 \<noteq> (0::nat)" by simp_all
  have al: "rm_algorithm wit_rm = DefaultAlg (case rm_algorithm wit_rm of DefaultAlg r \<Rightarrow> r)"
    by (simp add: wit_rm_eval new_route_manage_def update_gateway_entry_def rm_update_entry_def GATEWAY_MACS_def)
  have t: "src_dpid wit_task \<noteq> dst_dpid wit_task" "t_timestamp wit_task < 1" by (simp_all add: wit_task_def)
  show ?thesis by (rule deleted_link_stops_routing[OF ok d z n al t])
qed

section \<open>Costs\<close>

definition no_cost :: "link_table \<Rightarrow> bool" where
  "no_cost t \<longleftrightarrow> (\<forall>(k, ls) \<in> set t. \<forall>l \<in> set ls. link_cost l = None)"

lemma no_cost_set: "dict_ok t \<Longrightarrow> no_cost t \<Longrightarrow> \<forall>l \<in> set ls. link_cost l = None \<Longrightarrow> no_cost (dict_set k ls t)"
  by (auto simp: no_cost_def set_dict_set)

lemma no_cost_del: "no_cost t \<Longrightarrow> no_cost (dict_del k t)"
  by (auto simp: no_cost_def set_dict_del)

lemma no_cost_get: "no_cost t \<Longrightarrow> dict_get t k = Some ls \<Longrightarrow> l \<in> set ls \<Longrightarrow> link_cost l = None"
  by (auto simp: no_cost_def dest: map_of_SomeD)

lemma no_cost_mem: "no_cost t \<Longrightarrow> (k, ls) \<in> set t \<Longrightarrow> l \<in> set ls \<Longrightarrow> link_cost l = None"
  by (auto simp: no_cost_def)

lemma add_link_no_cost:
  assumes "dict_ok t" "no_cost t" shows "no_cost (fst (add_link now l t))"
proof -
  obtain src dst where s: "serialize (link_src l) (link_dst l) = (src, dst)" by fastforce
  show ?thesis using assms
    by (auto simp: add_link_def s new_link_def Let_def split: option.splits intro!: no_cost_set dest: no_cost_mem)
qed

lemma del_link_no_cost:
  assumes "dict_ok t" "no_cost t" shows "no_cost (fst (del_link l t))"
proof -
  obtain src dst where s: "serialize (link_src l) (link_dst l) = (src, dst)" by fastforce
  let ?k = "(port_dpid src, port_dpid dst)"
  have "no_cost (dict_set ?k ls' t)" if g: "dict_get t ?k = Some ls" and r: "remove_by P ls = Some ls'" for P ls ls'
  proof -
    have "set ls' \<subseteq> set ls" using remove_by_Some[OF r] by auto
    then show ?thesis using no_cost_set[OF assms] no_cost_get[OF assms(2) g] by blast
  qed
  then show ?thesis using assms no_cost_del by (auto simp: del_link_def s Let_def split: option.splits)
qed

lemma link_conf_no_cost:
  assumes "dict_ok t" "no_cost t" shows "no_cost (link_conf_item t c)"
proof -
  define k where "k = (if conf_src c > conf_dst c then (conf_dst c, conf_src c) else (conf_src c, conf_dst c))"
  have g: "get_link_by_dpid (fst k) (snd k) t = dict_get t k" by (auto simp: k_def get_link_by_dpid_def)
  have "link_conf_item t c = (case dict_get t k of
      Some (l # ls) \<Rightarrow> dict_set k (l\<lparr>link_delay := Some (conf_delay c), link_pkt_loss := Some (conf_loss c),
        link_total_band := Some (conf_bandwidth c * Megabits)\<rparr> # ls) t | _ \<Rightarrow> t)"
    unfolding link_conf_item_def k_def[symmetric] case_prod_beta Let_def g prod.collapse ..
  moreover have "no_cost (dict_set k (l\<lparr>link_delay := x, link_pkt_loss := y, link_total_band := z\<rparr> # ls) t)" if "dict_get t k = Some (l # ls)" for l ls x y z
    using no_cost_get[OF assms(2) that] by (intro no_cost_set[OF assms]) simp
  ultimately show ?thesis using assms(2) by (simp split: option.splits list.splits)
qed

lemma leave_no_cost: "topo_ok_but D s \<Longrightarrow> no_cost (tm_links s) \<Longrightarrow> leave_neighbors d ns s = (s', e) \<Longrightarrow> no_cost (tm_links s')"
proof -
  assume ok: "topo_ok_but D s" and n: "no_cost (tm_links s)" and l: "leave_neighbors d ns s = (s', e)"
  have "del_all_virtual_link u v (tm_links s) = tm_links s" for u v using ok by (simp add: topo_ok_but_def del_all_direct)
  then have "tm_links s0 = tm_links s \<Longrightarrow> leave_neighbors d ns s0 = (s', e) \<Longrightarrow> tm_links s' = tm_links s" for s0
    by (induction d ns s0 rule: leave_neighbors.induct) (auto split: option.splits)
  then show ?thesis using n l by simp
qed


lemma link_confs_no_cost:
  "lt_ok t \<Longrightarrow> all_direct t \<Longrightarrow> no_cost t \<Longrightarrow> no_cost (foldl link_conf_item t conf)"
proof (induction conf arbitrary: t)
  case (Cons c conf)
  have "dict_ok t" using Cons.prems(1) by (simp add: lt_ok_def)
  then show ?case using Cons link_conf_item_ok[of t c] link_conf_no_cost[of t c] by simp
qed simp

lemma topo_handle_no_cost:
  assumes ok: "topo_ok_but D s" and n: "no_cost (tm_links s)" and h: "topo_handle ev s = (s', outs, e)"
  shows "no_cost (tm_links s')"
proof -
  have d: "dict_ok (tm_links s)" using ok by (simp add: topo_ok_but_def lt_ok_def)
  show ?thesis
  proof (cases ev)
    case (SwitchLeave d)
    then show ?thesis using h n leave_no_cost[OF ok n] by (auto simp: switch_leave_handler_def split: option.splits prod.splits)
  next
    case (LinkAdd now l)
    then show ?thesis using h n add_link_no_cost[OF d n]
      by (auto simp: link_add_handler_def Let_def case_prod_beta split: option.splits)
  next
    case (LinkDelete now l)
    then show ?thesis using h del_link_no_cost[OF d n, of l] by (auto simp: link_delete_handler_def Let_def case_prod_beta)
  next
    case (StartLinkMonitor f g)
    have "tm_links (read_switch_configuration f s) = tm_links s" by (simp add: read_switch_configuration_def split: option.splits)
    then show ?thesis using StartLinkMonitor h n ok link_confs_no_cost[of "tm_links s"]
      by (auto simp: read_link_configuration_def topo_ok_but_def split: option.splits)
  qed (use h n in \<open>auto simp: switch_enter_handler_def switch_state_change_handler_def clean_flow_table_def port_add_handler_def
      port_modify_handler_def port_delete_handler_def switch_request_handler_def link_request_handler_def Let_def split: option.splits if_splits\<close>)
qed

lemma topo_reach_no_cost: "topo_reach s D \<Longrightarrow> topo_ok_but D s \<and> no_cost (tm_links s)"
proof (induction rule: topo_reach.induct)
  case topo_reach_init
  show ?case using topo_ok_init by (simp add: topo_init_def no_cost_def)
next
  case (topo_reach_step s D ev s' outs e)
  then show ?case using topo_handle_ok topo_handle_no_cost by blast
qed

lemma res_map_raises: "x \<in> set xs \<Longrightarrow> (\<And>y. f x \<noteq> Inr y) \<Longrightarrow> \<exists>e. res_map f xs = Inl e"
proof (induction xs)
  case (Cons a xs)
  then show ?case by (cases "f a") (auto simp: res_bind_def split: sum.splits)
qed simp

text \<open>
  No topology the handlers can reach has a link with a known cost, since the configuration read for
  the links has no cost. So on the tables of every reachable topology with a link, the construction of the
  graph of \<open>Dijkstra\<close> and of the genetic algorithm raises: it converts the cost of each link to a
  number.
\<close>

theorem cost_algorithms_never_start:
  assumes "topo_reach s D" "tm_links s \<noteq> []"
  shows "\<exists>e. init_algorithm (tm_switches s) (api_init (tm_links s)) a = Inl e"
proof -
  have r: "topo_ok_but D s" "no_cost (tm_links s)" using topo_reach_no_cost[OF assms(1)] by simp_all
  have lt: "lt_ok (tm_links s)" using r(1) by (simp add: topo_ok_but_def)
  obtain k ls where k: "(k, ls) \<in> set (tm_links s)" using assms(2) by (cases "tm_links s") auto
  then obtain l ls' where ls: "ls = l # ls'" using lt by (cases ls) (auto simp: lt_ok_def entry_ok_def)
  let ?e = "(k, map (\<lambda>l. (ports_of l, l)) ls)"
  have mem: "?e \<in> set (api_init (tm_links s))" unfolding api_init_eq[OF lt] using k by force
  have "link_cost l = None" using r(2) k ls by (auto simp: no_cost_def)
  then have raise: "make_edge q ?e \<noteq> Inr y" for q y
    by (cases k) (simp add: make_edge_def ls res_bind_def py_nth_def py_float_def split: sum.splits option.splits)
  have "\<exists>e. res_map (make_edge (dict_keys (tm_switches s))) (api_init (tm_links s)) = Inl e"
    by (rule res_map_raises[OF mem]) (rule raise)
  then show ?thesis by (auto simp: init_algorithm_def Let_def res_bind_def split: sum.splits)
qed

theorem cost_algorithms_never_start_witness:
  "topo_reach wit_topo {} \<and> (\<exists>e. init_algorithm (tm_switches wit_topo) (api_init (tm_links wit_topo)) wit_dijkstra = Inl e)"
proof -
  have "tm_links wit_topo \<noteq> []" by (simp add: wit_topo_simps)
  from cost_algorithms_never_start[OF wit_topo_reach this] show ?thesis using wit_topo_reach by blast
qed

end
