(* ===== verification/Mg_Route.thy ===== *)
theory Mg_Route
  imports Switch_Table Search_Tree
begin

text \<open>
  The multicast algorithm of \<open>route_manage/route_algorithm/MulticastRouteAlgorithm.py\<close>: class
  \<open>MGAlgorithm\<close>. A chromosome selects edges of the network; its tree is read off by Dijkstra's algorithm on the
  selected edges, its fitness is the cost of the tree. The population evolves by crossover, variation and
  tournaments.

  The attributes that \<open>__init__\<close> sets to \<open>None\<close> are written before they are read (\<open>run\<close> raises on a switch queue that
  is still empty, \<open>get_link\<close> on an empty population), so they have plain types here. The entry -1 of
  \<open>previous_vertex\<close> is \<^term>\<open>None\<close>. The outcome of a method is modelled, not the half-changed object that an exception
  leaves behind.
\<close>

section \<open>State\<close>

record mg_edge =
  me_id :: nat
  me_v0 :: nat
  me_v1 :: nat
  me_width :: real
  me_available_width :: real
  me_packet_loss :: real
  me_delay :: real
  me_delay_jitter :: real
  me_cost :: real

definition new_mg_edge :: mg_edge where
  "new_mg_edge = \<lparr>me_id = 0, me_v0 = 0, me_v1 = 0, me_width = 0, me_available_width = 0, me_packet_loss = 0,
     me_delay = 0, me_delay_jitter = 0, me_cost = 0\<rparr>"

record mg_vertex =
  mv_id :: nat
  mv_degree :: nat
  mv_connect_vertex :: "nat list"
  mv_connect_edge :: "nat list"

definition new_mg_vertex :: mg_vertex where
  "new_mg_vertex = \<lparr>mv_id = 0, mv_degree = 0, mv_connect_vertex = [], mv_connect_edge = []\<rparr>"

record mg_chromosome =
  mc_genes :: "bool list"
  mc_fitness :: real

definition COST_INDEX :: real where "COST_INDEX = 500"

definition ENDLESS_FLOAT :: real where "ENDLESS_FLOAT = 999999999999 / 10"

definition new_mg_chromosome :: "nat \<Rightarrow> mg_chromosome" where
  "new_mg_chromosome edges_quantity = \<lparr>mc_genes = replicate edges_quantity False, mc_fitness = ENDLESS_FLOAT\<rparr>"

record mg =
  mg_switch_queue :: "nat list"
  mg_edge_queue :: "(nat \<times> nat) list"
  mg_sou_vertex :: nat
  mg_des_vertexes :: "nat list"
  mg_des_vertexes_quantity :: nat
  mg_vertexes_quantity :: nat
  mg_edges_quantity :: nat
  mg_min_available_bandwidth :: real
  mg_population :: "mg_chromosome list"
  mg_chromosome_quantity :: nat
  mg_vertexes :: "mg_vertex list"
  mg_edges :: "mg_edge list"
  mg_max_chromosome_quantity :: nat
  mg_max_generation :: nat
  mg_candidate_quantity :: nat
  mg_crossover_probability :: real
  mg_variation_probability :: real

definition mg_new :: mg where
  "mg_new = \<lparr>mg_switch_queue = [], mg_edge_queue = [], mg_sou_vertex = 0, mg_des_vertexes = [],
     mg_des_vertexes_quantity = 0, mg_vertexes_quantity = 0, mg_edges_quantity = 0, mg_min_available_bandwidth = 0,
     mg_population = [], mg_chromosome_quantity = 0, mg_vertexes = [], mg_edges = [],
     mg_max_chromosome_quantity = 60, mg_max_generation = 15, mg_candidate_quantity = 3,
     mg_crossover_probability = 6 / 10, mg_variation_probability = 1 / 10\<rparr>"

section \<open>The network\<close>

text \<open>
  \<open>fill_vertexes_and_edges\<close>. New vertices and edges are appended to the old ones, then the first ones are
  overwritten.
\<close>

definition fill_vertex :: "nat list \<Rightarrow> mg_vertex list \<Rightarrow> nat \<times> switch \<Rightarrow> pyerr + mg_vertex list" where
  "fill_vertex queue vs e =
     (case e of (dpid, sw) \<Rightarrow>
        res_bind (py_index queue dpid) (\<lambda>num.
        res_bind (res_map (py_index queue) (dict_keys (sw_neighbors sw))) (\<lambda>neighbors_in_num.
        res_bind (py_nth vs num) (\<lambda>v.
        put_at vs num (v\<lparr>mv_id := num, mv_connect_vertex := neighbors_in_num, mv_degree := length neighbors_in_num\<rparr>)))))"

definition fill_edge :: "(nat \<times> nat) list \<Rightarrow> nat list \<Rightarrow> mg_edge list \<Rightarrow>
    (nat \<times> nat) \<times> (nat \<times> nat, link) pydict \<Rightarrow> pyerr + (mg_edge list \<times> nat \<times> link)" where
  "fill_edge equeue queue es e =
     (case e of ((sd, dd), parallel) \<Rightarrow>
        res_bind (py_index equeue (sd, dd)) (\<lambda>num.
        res_bind (py_index queue sd) (\<lambda>src_num.
        res_bind (py_index queue dd) (\<lambda>dst_num.
        res_bind (py_nth (dict_values parallel) 0) (\<lambda>ev.
        res_bind (py_nth es num) (\<lambda>ed.
        res_bind (py_float (link_delay ev)) (\<lambda>delay.
        res_bind (py_float (link_cost ev)) (\<lambda>cost.
        res_bind (py_float (link_total_band ev)) (\<lambda>total.
        Inr (es[num := ed\<lparr>me_id := num, me_v0 := src_num, me_v1 := dst_num, me_delay := delay,
                          me_cost := cost / COST_INDEX, me_width := total\<rparr>], num, ev))))))))))"

definition mg_joins :: "mg_edge \<Rightarrow> nat \<Rightarrow> nat \<Rightarrow> bool" where
  "mg_joins e u v \<longleftrightarrow> (me_v0 e, me_v1 e) = (u, v) \<or> (me_v0 e, me_v1 e) = (v, u)"

text \<open>The edges of a vertex: every edge that joins it with a neighbour, neighbour by neighbour.\<close>

definition connecting_edges :: "mg_edge list \<Rightarrow> mg_vertex \<Rightarrow> nat list" where
  "connecting_edges es v =
     concat (map (\<lambda>neighbor. map me_id (filter (\<lambda>e. mg_joins e (mv_id v) neighbor) es)) (mv_connect_vertex v))"

definition connect_vertex_edges :: "mg_edge list \<Rightarrow> mg_vertex list \<Rightarrow> nat \<Rightarrow> pyerr + mg_vertex list" where
  "connect_vertex_edges es vs i =
     res_bind (py_nth vs i) (\<lambda>v.
     let hits = connecting_edges es v
     in if hits = [] then Inr vs
        else res_bind (py_nth vs (mv_id v)) (\<lambda>t.
             put_at vs (mv_id v) (t\<lparr>mv_connect_edge := mv_connect_edge t @ hits\<rparr>)))"

definition fill_vertexes_and_edges :: "switch_table \<Rightarrow> link_table_api \<Rightarrow> mg \<Rightarrow> pyerr + mg" where
  "fill_vertexes_and_edges switches lnks a =
     (let queue = dict_keys switches; equeue = dict_keys lnks;
          vs0 = mg_vertexes a @ replicate (length switches) new_mg_vertex;
          es0 = mg_edges a @ replicate (length lnks) new_mg_edge
      in res_bind (res_fold (fill_vertex queue) vs0 switches) (\<lambda>vs1.
         res_bind (res_fold (\<lambda>es e. res_bind (fill_edge equeue queue es e) (\<lambda>(es', _). Inr es')) es0 lnks) (\<lambda>es1.
         res_bind (res_fold (connect_vertex_edges es1) vs1 [0..<length vs1]) (\<lambda>vs2.
         Inr (a\<lparr>mg_switch_queue := queue, mg_edge_queue := equeue, mg_vertexes := vs2, mg_edges := es1,
                mg_vertexes_quantity := length vs2, mg_edges_quantity := length es1\<rparr>)))))"

definition mg_init_algorithm :: "switch_table \<Rightarrow> link_table_api \<Rightarrow> mg \<Rightarrow> pyerr + mg" where
  "mg_init_algorithm switches lnks a = fill_vertexes_and_edges switches lnks a"

text \<open>
  \<open>update_link_status\<close> builds the edges anew. The arguments of its debug message raise when the available
  bandwidth is not known or the total bandwidth is 0.
\<close>

definition mg_refresh_edge :: "(nat \<times> nat) list \<Rightarrow> nat list \<Rightarrow> mg_edge list \<Rightarrow>
    (nat \<times> nat) \<times> (nat \<times> nat, link) pydict \<Rightarrow> pyerr + mg_edge list" where
  "mg_refresh_edge equeue queue es e =
     res_bind (fill_edge equeue queue es e) (\<lambda>(es', num, ev).
     res_bind (py_float (link_available_band ev)) (\<lambda>_.
     if link_total_band ev = Some 0 then Inl ZeroDivisionError
     else Inr (es'[num := (es' ! num)\<lparr>me_available_width := ENDLESS_FLOAT\<rparr>])))"

definition mg_update_link_status :: "link_table_api \<Rightarrow> mg \<Rightarrow> pyerr + mg" where
  "mg_update_link_status lnks a =
     res_bind (res_fold (mg_refresh_edge (mg_edge_queue a) (mg_switch_queue a))
                 (replicate (length lnks) new_mg_edge) lnks) (\<lambda>es.
     Inr (a\<lparr>mg_edges := es, mg_edges_quantity := length lnks\<rparr>))"

text \<open>\<open>find_edge(vertex1, vertex2)\<close>: -1 when \<open>vertex1\<close> is no neighbour.\<close>

fun find_edge_from :: "mg_vertex \<Rightarrow> nat \<Rightarrow> nat list \<Rightarrow> pyerr + int" where
  "find_edge_from v vertex1 [] = Inr (- 1)"
| "find_edge_from v vertex1 (i # is) =
     res_bind (py_nth (mv_connect_vertex v) i) (\<lambda>y.
     if vertex1 = y then res_bind (py_nth (mv_connect_edge v) i) (\<lambda>e. Inr (int e)) else find_edge_from v vertex1 is)"

definition mg_find_edge :: "mg_vertex list \<Rightarrow> nat \<Rightarrow> nat \<Rightarrow> pyerr + int" where
  "mg_find_edge vs vertex1 vertex2 = res_bind (py_nth vs vertex2) (\<lambda>v. find_edge_from v vertex1 [0..<mv_degree v])"

section \<open>The tree of a chromosome\<close>

text \<open>
  The part that \<open>fitness_evaluate\<close> and \<open>delete_circuit\<close> share word for word: the graph of the selected edges, with
  the number of its vertices, and Dijkstra's algorithm on it.
\<close>

definition touch_vertex :: "nat \<Rightarrow> nat \<Rightarrow> nat \<Rightarrow> mg_vertex option list \<times> nat \<Rightarrow> pyerr + (mg_vertex option list \<times> nat)" where
  "touch_vertex x y i st =
     (case st of (tv, q) \<Rightarrow>
        res_bind (py_nth tv x) (\<lambda>o_v.
        let v = (case o_v of None \<Rightarrow> new_mg_vertex | Some v \<Rightarrow> v)
        in Inr (tv[x := Some (v\<lparr>mv_connect_vertex := mv_connect_vertex v @ [y], mv_connect_edge := mv_connect_edge v @ [i],
                               mv_degree := mv_degree v + 1\<rparr>)],
                if o_v = None then q + 1 else q)))"

definition select_edge :: "mg_edge list \<Rightarrow> bool list \<Rightarrow> mg_vertex option list \<times> nat \<Rightarrow> nat \<Rightarrow> pyerr + (mg_vertex option list \<times> nat)" where
  "select_edge es genes st i =
     res_bind (py_nth genes i) (\<lambda>g.
     if \<not> g then Inr st
     else res_bind (py_nth es i) (\<lambda>e.
          res_bind (touch_vertex (me_v0 e) (me_v1 e) i st) (touch_vertex (me_v1 e) (me_v0 e) i)))"

definition selected_graph :: "mg \<Rightarrow> bool list \<Rightarrow> pyerr + (mg_vertex option list \<times> nat)" where
  "selected_graph a genes =
     res_fold (select_edge (mg_edges a) genes) (replicate (mg_vertexes_quantity a) None, 0) [0..<mg_edges_quantity a]"

text \<open>\<open>degree\<close> is the length of both lists of a vertex of the selected graph, so the loop over it is one over their pairs.\<close>

definition mg_edge_cost :: "mg_edge list \<Rightarrow> real \<Rightarrow> nat \<Rightarrow> pyerr + real" where
  "mg_edge_cost es bw i =
     res_bind (py_nth es i) (\<lambda>e. Inr (if me_available_width e < bw then ENDLESS_FLOAT else me_cost e))"

fun mg_relax :: "(nat \<Rightarrow> pyerr + real) \<Rightarrow> nat \<Rightarrow> (nat \<times> nat) list \<Rightarrow> search \<Rightarrow> pyerr + search" where
  "mg_relax w u [] d = Inr d"
| "mg_relax w u ((y, i) # ys) d =
     (if tag d ! y then mg_relax w u ys d
      else res_bind (w i) (\<lambda>temp_edge_cost.
        mg_relax w u ys
          (if paths_length d ! y > paths_length d ! u + temp_edge_cost
           then d\<lparr>paths_length := (paths_length d)[y := paths_length d ! u + temp_edge_cost],
                  previous_vertex := (previous_vertex d)[y := Some u]\<rparr>
           else d)))"

definition mg_open :: "mg_vertex option list \<Rightarrow> search \<Rightarrow> nat \<Rightarrow> bool" where
  "mg_open tv d j \<longleftrightarrow> tv ! j \<noteq> None \<and> \<not> tag d ! j"

definition mg_first_open :: "mg_vertex option list \<Rightarrow> search \<Rightarrow> real \<times> nat \<Rightarrow> real \<times> nat" where
  "mg_first_open tv d mr =
     (case find (mg_open tv d) [0..<length tv] of Some j \<Rightarrow> (paths_length d ! j, j) | None \<Rightarrow> mr)"

definition mg_nearest_open :: "mg_vertex option list \<Rightarrow> search \<Rightarrow> real \<times> nat \<Rightarrow> real \<times> nat" where
  "mg_nearest_open tv d mr =
     foldl (\<lambda>(min_length, record) j.
        if mg_open tv d j \<and> paths_length d ! j < min_length then (paths_length d ! j, j) else (min_length, record))
       mr [0..<length tv]"

definition mg_iteration :: "(nat \<Rightarrow> pyerr + real) \<Rightarrow> mg_vertex option list \<Rightarrow> search \<times> nat \<times> real \<times> nat \<Rightarrow>
    pyerr + (search \<times> nat \<times> real \<times> nat)" where
  "mg_iteration w tv st =
     (case st of (d, u, mr) \<Rightarrow>
        let mr1 = mg_first_open tv d mr
        in case tv ! u of
             None \<Rightarrow> Inl AttributeError
           | Some v \<Rightarrow>
               res_bind (mg_relax w u (zip (mv_connect_vertex v) (mv_connect_edge v)) d) (\<lambda>d1.
               let (min_length, record) = mg_nearest_open tv d1 mr1
               in Inr (d1\<lparr>tag := (tag d1)[record := True]\<rparr>, record, min_length, record)))"

fun mg_loop :: "nat \<Rightarrow> (nat \<Rightarrow> pyerr + real) \<Rightarrow> mg_vertex option list \<Rightarrow> search \<times> nat \<times> real \<times> nat \<Rightarrow>
    pyerr + (search \<times> nat \<times> real \<times> nat)" where
  "mg_loop 0 w tv st = Inr st"
| "mg_loop (Suc k) w tv st = res_bind (mg_iteration w tv st) (mg_loop k w tv)"

definition mg_search_init :: "nat \<Rightarrow> nat \<Rightarrow> search" where
  "mg_search_init n s =
     \<lparr>tag = (replicate n False)[s := True], previous_vertex = replicate n None,
      paths_length = (replicate n ENDLESS_FLOAT)[s := 0]\<rparr>"

text \<open>The predecessors found, \<^term>\<open>None\<close> when no selected edge touches the source.\<close>

definition mg_predecessors :: "mg \<Rightarrow> bool list \<Rightarrow> pyerr + nat option list option" where
  "mg_predecessors a genes =
     res_bind (selected_graph a genes) (\<lambda>(tv, tree_vertexes_quantity).
     res_bind (py_nth tv (mg_sou_vertex a)) (\<lambda>sv.
     if sv = None then Inr None
     else res_bind (mg_loop (tree_vertexes_quantity - 1) (mg_edge_cost (mg_edges a) (mg_min_available_bandwidth a)) tv
            (mg_search_init (mg_vertexes_quantity a) (mg_sou_vertex a), mg_sou_vertex a, ENDLESS_FLOAT, 0)) (\<lambda>(d, _).
          Inr (Some (previous_vertex d)))))"

text \<open>\<open>delete_circuit\<close>: the paths to the destinations, no path at all when one of them is not reached.\<close>

fun circuit_paths :: "nat option list \<Rightarrow> nat list \<Rightarrow> nat list list \<Rightarrow> nat list list run" where
  "circuit_paths prev [] paths_unit = Some (Inr paths_unit)"
| "circuit_paths prev (j # js) paths_unit =
     (if j \<ge> length prev then Some (Inl IndexError)
      else if prev ! j = None then Some (Inr [])
      else Option.bind (walk_back prev j [j]) (\<lambda>temp_path. circuit_paths prev js (paths_unit @ [temp_path])))"

definition delete_circuit :: "mg \<Rightarrow> bool list \<Rightarrow> nat list list run" where
  "delete_circuit a genes =
     run_bind (Some (mg_predecessors a genes)) (\<lambda>r.
     case r of
       None \<Rightarrow> Some (Inr [])
     | Some prev \<Rightarrow> circuit_paths prev (take (mg_des_vertexes_quantity a) (mg_des_vertexes a)) [])"

text \<open>
  \<open>fitness_evaluate\<close>: the cost of the edges of the tree, each counted once. The edge between a vertex and its
  predecessor is looked up with \<open>find_edge\<close>.
\<close>

partial_function (option) tree_cost :: "mg_vertex list \<Rightarrow> mg_edge list \<Rightarrow> nat option list \<Rightarrow> nat \<Rightarrow> real \<times> int list \<Rightarrow>
    (pyerr + (real \<times> int list)) option" where
  [code]: "tree_cost vs es prev j st =
     (case prev ! j of
        None \<Rightarrow> Some (Inr st)
      | Some p \<Rightarrow>
          (case mg_find_edge vs j p of
             Inl e \<Rightarrow> Some (Inl e)
           | Inr temp_edge \<Rightarrow>
               if temp_edge \<in> set (snd st) then tree_cost vs es prev p st
               else (case py_nth_int es temp_edge of
                       Inl e \<Rightarrow> Some (Inl e)
                     | Inr ed \<Rightarrow> tree_cost vs es prev p (fst st + me_cost ed, snd st @ [temp_edge]))))"

fun trees_cost :: "mg_vertex list \<Rightarrow> mg_edge list \<Rightarrow> nat option list \<Rightarrow> nat list \<Rightarrow> real \<times> int list \<Rightarrow> real run" where
  "trees_cost vs es prev [] st = Some (Inr (fst st))"
| "trees_cost vs es prev (j # js) st =
     (if j \<ge> length prev then Some (Inl IndexError)
      else if prev ! j = None then Some (Inr ENDLESS_FLOAT)
      else run_bind (tree_cost vs es prev j st) (trees_cost vs es prev js))"

definition fitness_of :: "mg \<Rightarrow> bool list \<Rightarrow> real run" where
  "fitness_of a genes =
     run_bind (Some (mg_predecessors a genes)) (\<lambda>r.
     case r of
       None \<Rightarrow> Some (Inr ENDLESS_FLOAT)
     | Some prev \<Rightarrow> trees_cost (mg_vertexes a) (mg_edges a) prev
                       (take (mg_des_vertexes_quantity a) (mg_des_vertexes a)) (0, []))"

definition mg_fitness_evaluate :: "mg \<Rightarrow> mg_chromosome \<Rightarrow> mg_chromosome run" where
  "mg_fitness_evaluate a c = run_bind (fitness_of a (mc_genes c)) (\<lambda>f. Some (Inr (c\<lparr>mc_fitness := f\<rparr>)))"

section \<open>The selected graph\<close>

text \<open>
  What a network must satisfy for the trees to be computed: every edge joins two vertices, costs are not negative
  and so small that no path reaches the length \<open>ENDLESS_FLOAT\<close> that stands for infinity, and the source and
  the destinations are vertices.
\<close>

definition mg_net_ok :: "mg \<Rightarrow> bool" where
  "mg_net_ok a \<longleftrightarrow> mg_edges_quantity a = length (mg_edges a) \<and> mg_sou_vertex a < mg_vertexes_quantity a \<and>
     mg_des_vertexes_quantity a = length (mg_des_vertexes a) \<and>
     (\<forall>v \<in> set (mg_des_vertexes a). v < mg_vertexes_quantity a) \<and>
     (\<forall>e \<in> set (mg_edges a). me_v0 e < mg_vertexes_quantity a \<and> me_v1 e < mg_vertexes_quantity a \<and> 0 \<le> me_cost e \<and>
        real (mg_vertexes_quantity a + mg_edges_quantity a) * me_cost e < ENDLESS_FLOAT)"

lemma mg_net_edge:
  assumes "mg_net_ok a" "i < mg_edges_quantity a"
  shows "me_v0 (mg_edges a ! i) < mg_vertexes_quantity a" "me_v1 (mg_edges a ! i) < mg_vertexes_quantity a"
    "0 \<le> me_cost (mg_edges a ! i)"
    "real (mg_vertexes_quantity a + mg_edges_quantity a) * me_cost (mg_edges a ! i) < ENDLESS_FLOAT"
  using assms nth_mem[of i "mg_edges a"] unfolding mg_net_ok_def by auto

definition incident :: "mg_edge list \<Rightarrow> nat \<Rightarrow> nat \<Rightarrow> (nat \<times> nat) list" where
  "incident es i u = (if u = me_v0 (es ! i) then [(me_v1 (es ! i), i)] else []) @
     (if u = me_v1 (es ! i) then [(me_v0 (es ! i), i)] else [])"

definition chosen_arcs :: "mg_edge list \<Rightarrow> bool list \<Rightarrow> nat \<Rightarrow> nat \<Rightarrow> (nat \<times> nat) list" where
  "chosen_arcs es genes k u = concat (map (\<lambda>i. if genes ! i then incident es i u else []) [0..<k])"

definition chosen_vertices :: "mg_edge list \<Rightarrow> bool list \<Rightarrow> nat \<Rightarrow> nat set" where
  "chosen_vertices es genes k = {u. \<exists>i < k. genes ! i \<and> (u = me_v0 (es ! i) \<or> u = me_v1 (es ! i))}"

lemma set_chosen_arcs:
  "(y, i) \<in> set (chosen_arcs es genes k u) \<longleftrightarrow> i < k \<and> genes ! i \<and> mg_joins (es ! i) u y"
  by (auto simp: chosen_arcs_def incident_def mg_joins_def)

lemma chosen_vertices_Suc:
  "chosen_vertices es genes (Suc k) = chosen_vertices es genes k \<union>
     (if genes ! k then {me_v0 (es ! k), me_v1 (es ! k)} else {})"
  by (auto simp: chosen_vertices_def less_Suc_eq)

text \<open>The list of a selected graph, its arcs and its vertices.\<close>

definition mg_arcs :: "mg_vertex option list \<Rightarrow> nat \<Rightarrow> (nat \<times> nat) list" where
  "mg_arcs tv u = (case tv ! u of None \<Rightarrow> [] | Some v \<Rightarrow> zip (mv_connect_vertex v) (mv_connect_edge v))"

definition graph_list :: "nat \<Rightarrow> (nat \<Rightarrow> (nat \<times> nat) list) \<Rightarrow> nat set \<Rightarrow> mg_vertex option list \<times> nat \<Rightarrow> bool" where
  "graph_list n arcs V st \<longleftrightarrow> length (fst st) = n \<and> snd st = card V \<and> V \<subseteq> {..<n} \<and>
     (\<forall>u < n. (fst st ! u \<noteq> None \<longleftrightarrow> u \<in> V) \<and> mg_arcs (fst st) u = arcs u) \<and>
     (\<forall>u < n. \<forall>v. fst st ! u = Some v \<longrightarrow> length (mv_connect_vertex v) = length (mv_connect_edge v))"

lemma touch_vertex_graph:
  assumes g: "graph_list n arcs V st" and x: "x < n"
  shows "\<exists>st'. touch_vertex x y i st = Inr st' \<and>
    graph_list n (\<lambda>u. arcs u @ (if u = x then [(y, i)] else [])) (insert x V) st'"
proof -
  obtain tv q where st: "st = (tv, q)" by fastforce
  have tv: "length tv = n" "q = card V" "V \<subseteq> {..<n}" "tv ! x \<noteq> None \<longleftrightarrow> x \<in> V"
    using g x by (simp_all add: graph_list_def st)
  have "finite V" using tv(3) by (rule finite_subset) simp
  then have "(if tv ! x = None then q + 1 else q) = card (insert x V)"
    using tv(2,4) by (cases "tv ! x = None") (simp_all add: insert_absorb)
  then show ?thesis
    using g x tv(1,3,4) by (auto simp: touch_vertex_def st py_nth_def graph_list_def mg_arcs_def nth_list_update
      new_mg_vertex_def Let_def split: option.splits)
qed

lemma select_edge_graph:
  assumes g: "graph_list n (chosen_arcs es genes k) (chosen_vertices es genes k) st"
    and k: "k < length genes" "k < length es" "me_v0 (es ! k) < n" "me_v1 (es ! k) < n"
  shows "\<exists>st'. select_edge es genes st k = Inr st' \<and>
    graph_list n (chosen_arcs es genes (Suc k)) (chosen_vertices es genes (Suc k)) st'"
proof (cases "genes ! k")
  case True
  from touch_vertex_graph[OF g k(3)] obtain st1 where
    st1: "touch_vertex (me_v0 (es ! k)) (me_v1 (es ! k)) k st = Inr st1"
    and g1: "graph_list n (\<lambda>u. chosen_arcs es genes k u @ (if u = me_v0 (es ! k) then [(me_v1 (es ! k), k)] else []))
      (insert (me_v0 (es ! k)) (chosen_vertices es genes k)) st1" by blast
  from touch_vertex_graph[OF g1 k(4), of "me_v0 (es ! k)" k] obtain st2 where
    st2: "touch_vertex (me_v1 (es ! k)) (me_v0 (es ! k)) k st1 = Inr st2"
    and g2: "graph_list n (\<lambda>u. (chosen_arcs es genes k u @ (if u = me_v0 (es ! k) then [(me_v1 (es ! k), k)] else [])) @
        (if u = me_v1 (es ! k) then [(me_v0 (es ! k), k)] else []))
      (insert (me_v1 (es ! k)) (insert (me_v0 (es ! k)) (chosen_vertices es genes k))) st2" by blast
  have "chosen_arcs es genes (Suc k) = (\<lambda>u. (chosen_arcs es genes k u @ (if u = me_v0 (es ! k) then [(me_v1 (es ! k), k)] else [])) @
        (if u = me_v1 (es ! k) then [(me_v0 (es ! k), k)] else []))"
    using True by (simp add: chosen_arcs_def incident_def fun_eq_iff)
  moreover have "chosen_vertices es genes (Suc k) = insert (me_v1 (es ! k)) (insert (me_v0 (es ! k)) (chosen_vertices es genes k))"
    using True by (auto simp: chosen_vertices_Suc)
  ultimately show ?thesis using st1 st2 g2 True k by (simp add: select_edge_def py_nth_def)
next
  case False
  moreover have "chosen_arcs es genes (Suc k) = chosen_arcs es genes k" using False by (simp add: chosen_arcs_def fun_eq_iff)
  moreover have "chosen_vertices es genes (Suc k) = chosen_vertices es genes k" using False by (simp add: chosen_vertices_Suc)
  ultimately show ?thesis using g k by (simp add: select_edge_def py_nth_def)
qed

lemma selected_graph_spec:
  assumes ok: "mg_net_ok a" and genes: "length genes = mg_edges_quantity a"
  shows "\<exists>st. selected_graph a genes = Inr st \<and> graph_list (mg_vertexes_quantity a)
    (chosen_arcs (mg_edges a) genes (mg_edges_quantity a)) (chosen_vertices (mg_edges a) genes (mg_edges_quantity a)) st"
proof -
  let ?n = "mg_vertexes_quantity a" and ?es = "mg_edges a"
  have m: "mg_edges_quantity a = length ?es" using ok by (simp add: mg_net_ok_def)
  have "\<exists>st. res_fold (select_edge ?es genes) (replicate ?n None, 0) [0..<k] = Inr st \<and>
      graph_list ?n (chosen_arcs ?es genes k) (chosen_vertices ?es genes k) st" if "k \<le> mg_edges_quantity a" for k
    using that
  proof (induction k)
    case 0
    then show ?case by (simp add: graph_list_def mg_arcs_def chosen_arcs_def chosen_vertices_def)
  next
    case (Suc k)
    then obtain st where st: "res_fold (select_edge ?es genes) (replicate ?n None, 0) [0..<k] = Inr st"
      "graph_list ?n (chosen_arcs ?es genes k) (chosen_vertices ?es genes k) st" by auto
    from select_edge_graph[OF st(2)] Suc.prems genes m mg_net_edge[OF ok, of k] obtain st' where
      "select_edge ?es genes st k = Inr st'" "graph_list ?n (chosen_arcs ?es genes (Suc k)) (chosen_vertices ?es genes (Suc k)) st'"
      by auto
    then show ?case using st(1) by (simp add: res_fold_append)
  qed
  from this[OF order_refl] show ?thesis by (simp add: selected_graph_def)
qed

section \<open>The search on the selected graph\<close>

definition edge_price :: "mg \<Rightarrow> nat \<Rightarrow> real" where
  "edge_price a i =
     (if me_available_width (mg_edges a ! i) < mg_min_available_bandwidth a then ENDLESS_FLOAT else me_cost (mg_edges a ! i))"

definition price_arcs :: "mg \<Rightarrow> bool list \<Rightarrow> nat \<Rightarrow> (nat \<times> real) set" where
  "price_arcs a genes u = (\<lambda>(y, i). (y, edge_price a i)) ` set (chosen_arcs (mg_edges a) genes (mg_edges_quantity a) u)"

abbreviation mg_chosen :: "mg \<Rightarrow> bool list \<Rightarrow> nat set" where
  "mg_chosen a genes \<equiv> chosen_vertices (mg_edges a) genes (mg_edges_quantity a)"

abbreviation mg_inv :: "mg \<Rightarrow> bool list \<Rightarrow> nat list \<Rightarrow> nat set \<Rightarrow> search \<Rightarrow> bool" where
  "mg_inv a genes L R d \<equiv> search_inv (mg_vertexes_quantity a) (mg_chosen a genes) (price_arcs a genes) ENDLESS_FLOAT (mg_sou_vertex a) L R d"

abbreviation mg_graph :: "mg \<Rightarrow> bool list \<Rightarrow> mg_vertex option list \<times> nat \<Rightarrow> bool" where
  "mg_graph a genes st \<equiv> graph_list (mg_vertexes_quantity a) (chosen_arcs (mg_edges a) genes (mg_edges_quantity a)) (mg_chosen a genes) st"

abbreviation mg_cost :: "mg \<Rightarrow> nat \<Rightarrow> pyerr + real" where
  "mg_cost a \<equiv> mg_edge_cost (mg_edges a) (mg_min_available_bandwidth a)"

lemma ENDLESS_pos: "0 < ENDLESS_FLOAT"
  by (simp add: ENDLESS_FLOAT_def)

lemma price_arcsD:
  assumes "mg_net_ok a" "(y, c) \<in> price_arcs a genes u"
  shows "y \<in> mg_chosen a genes" "0 \<le> c"
    "\<exists>i < mg_edges_quantity a. genes ! i \<and> mg_joins (mg_edges a ! i) u y \<and> c = edge_price a i"
proof -
  obtain i where i: "i < mg_edges_quantity a" "genes ! i" "mg_joins (mg_edges a ! i) u y" "c = edge_price a i"
    using assms(2) by (auto simp: price_arcs_def set_chosen_arcs)
  then show "\<exists>i < mg_edges_quantity a. genes ! i \<and> mg_joins (mg_edges a ! i) u y \<and> c = edge_price a i" by blast
  show "y \<in> mg_chosen a genes" using i(1-3) by (auto simp: chosen_vertices_def mg_joins_def)
  show "0 \<le> c" using mg_net_edge(3)[OF assms(1) i(1)] ENDLESS_pos by (simp add: i(4) edge_price_def)
qed

lemma mg_search_graph:
  assumes "mg_net_ok a" "mg_sou_vertex a \<in> mg_chosen a genes"
  shows "search_graph (mg_vertexes_quantity a) (mg_chosen a genes) (price_arcs a genes) (mg_sou_vertex a) ENDLESS_FLOAT"
  unfolding search_graph_def
proof (intro conjI ballI)
  show "mg_chosen a genes \<subseteq> {..<mg_vertexes_quantity a}"
    using mg_net_edge(1,2)[OF assms(1)] by (auto simp: chosen_vertices_def)
qed (use assms(2) price_arcsD[OF assms(1)] ENDLESS_pos in auto)

lemma mg_cost_ok: "mg_net_ok a \<Longrightarrow> i < mg_edges_quantity a \<Longrightarrow> mg_cost a i = Inr (edge_price a i)"
  by (simp add: mg_edge_cost_def py_nth_def edge_price_def mg_net_ok_def)

lemma mg_relax_spec:
  assumes ok: "mg_net_ok a" and sou: "mg_sou_vertex a \<in> mg_chosen a genes" and inv: "mg_inv a genes L R d"
    and ys: "set ys \<subseteq> set (chosen_arcs (mg_edges a) genes (mg_edges_quantity a) (last L))"
  shows "\<exists>d'. mg_relax (mg_cost a) (last L) ys d = Inr d' \<and> mg_inv a genes L R d' \<and> tag d' = tag d \<and>
    (\<forall>v < mg_vertexes_quantity a. paths_length d' ! v \<le> paths_length d ! v) \<and>
    paths_length d' ! last L = paths_length d ! last L \<and>
    (\<forall>(y, i) \<in> set ys. \<not> tag d ! y \<longrightarrow> paths_length d' ! y \<le> paths_length d ! last L + edge_price a i)"
  using inv ys
proof (induction ys arbitrary: d)
  case (Cons yi ys)
  obtain y i where yi: "yi = (y, i)" by fastforce
  let ?u = "last L" and ?n = "mg_vertexes_quantity a"
  note g = mg_search_graph[OF ok sou] and sh = search_inv_shape[OF Cons.prems(1)]
  have len: "length (tag d) = ?n" "length (paths_length d) = ?n" and u: "tag d ! ?u" "?u \<in> mg_chosen a genes"
    using shape_lengths[OF sh] shape_last[OF sh] by simp_all
  have "(y, i) \<in> set (chosen_arcs (mg_edges a) genes (mg_edges_quantity a) ?u)" using Cons.prems(2) by (simp add: yi)
  then have wi: "mg_cost a i = Inr (edge_price a i)" and arc: "(y, edge_price a i) \<in> price_arcs a genes ?u"
    using mg_cost_ok[OF ok] by (auto simp: set_chosen_arcs price_arcs_def)
  have yn: "y < ?n" using search_graphD(1,4)[OF g] u(2) arc by blast
  show ?case
  proof (cases "tag d ! y")
    case True
    then show ?thesis using Cons.IH[OF Cons.prems(1)] Cons.prems(2) by (auto simp: yi)
  next
    case False
    let ?c = "paths_length d ! ?u + edge_price a i"
    define d1 where "d1 = (if ?c < paths_length d ! y
        then d\<lparr>paths_length := (paths_length d)[y := ?c], previous_vertex := (previous_vertex d)[y := Some ?u]\<rparr> else d)"
    have "mg_inv a genes L R d1"
      using search_inv_update[OF g Cons.prems(1) False arc refl] Cons.prems(1) by (simp add: d1_def)
    from Cons.IH[OF this] Cons.prems(2) obtain d' where d':
      "mg_relax (mg_cost a) ?u ys d1 = Inr d'" "mg_inv a genes L R d'" "tag d' = tag d1"
      "\<forall>v < ?n. paths_length d' ! v \<le> paths_length d1 ! v" "paths_length d' ! ?u = paths_length d1 ! ?u"
      "\<forall>(y, i) \<in> set ys. \<not> tag d1 ! y \<longrightarrow> paths_length d' ! y \<le> paths_length d1 ! ?u + edge_price a i" by auto
    have ne: "?u \<noteq> y" using u(1) False by metis
    have t: "tag d1 = tag d" by (simp add: d1_def)
    have pu: "paths_length d1 ! ?u = paths_length d ! ?u" using ne by (simp add: d1_def)
    have le: "paths_length d1 ! v \<le> paths_length d ! v" for v
      using len yn by (cases "v = y") (simp_all add: d1_def)
    have "paths_length d1 ! y \<le> ?c" using len yn by (simp add: d1_def)
    then have "paths_length d' ! y \<le> ?c" using d'(4) yn order_trans by blast
    moreover have "mg_relax (mg_cost a) ?u ((y, i) # ys) d = Inr d'" using False wi d'(1) by (simp add: d1_def)
    moreover have "\<forall>v < ?n. paths_length d' ! v \<le> paths_length d ! v" using d'(4) le order_trans by blast
    ultimately show ?thesis using d'(2,3,5,6) t pu by (intro exI[of _ d']) (simp add: yi)
  qed
qed simp

lemma mg_first_open_spec:
  assumes g: "mg_graph a genes (tv, q)" and v: "v \<in> mg_chosen a genes" "\<not> tag d ! v"
  shows "\<exists>j. mg_first_open tv d mr = (paths_length d ! j, j) \<and> j < mg_vertexes_quantity a \<and> mg_open tv d j"
proof -
  have n: "length tv = mg_vertexes_quantity a" using g by (simp add: graph_list_def)
  have "v < mg_vertexes_quantity a" "mg_open tv d v" using g v by (auto simp: graph_list_def mg_open_def)
  then obtain j where j: "find (mg_open tv d) [0..<length tv] = Some j"
    using n by (cases "find (mg_open tv d) [0..<length tv]") (auto simp: find_None_iff)
  then have "j < length tv" "mg_open tv d j" by (auto simp: find_Some_iff)
  with j n show ?thesis by (simp add: mg_first_open_def)
qed

lemma mg_iteration_spec:
  assumes ok: "mg_net_ok a" and sou: "mg_sou_vertex a \<in> mg_chosen a genes" and g: "mg_graph a genes (tv, q)"
    and inv: "mg_inv a genes L R d" and R: "set L \<subseteq> insert (last L) R" and open_v: "length L < card (mg_chosen a genes)"
  shows "\<exists>d' r mr'. mg_iteration (mg_cost a) tv (d, last L, mr) = Inr (d', r, mr') \<and> mg_inv a genes (L @ [r]) (set L) d'"
proof -
  let ?n = "mg_vertexes_quantity a" and ?arcs = "chosen_arcs (mg_edges a) genes (mg_edges_quantity a) (last L)"
  note sg = mg_search_graph[OF ok sou] and sh = search_inv_shape[OF inv]
  have u: "last L \<in> mg_chosen a genes" using shape_last[OF sh] by simp
  then have un: "last L < ?n" using search_graphD(1)[OF sg] by simp
  have op: "mg_open tv d' v \<longleftrightarrow> v \<in> mg_chosen a genes \<and> \<not> tag d' ! v" if "v < ?n" for d' v
    using g that by (auto simp: graph_list_def mg_open_def)
  obtain v where v: "tv ! last L = Some v" "zip (mv_connect_vertex v) (mv_connect_edge v) = ?arcs"
    using g un u by (auto simp: graph_list_def mg_arcs_def split: option.splits)
  obtain j where j: "mg_first_open tv d mr = (paths_length d ! j, j)" "j < ?n" "mg_open tv d j"
    using mg_first_open_spec[OF g] shape_card(3)[OF sg sh open_v] by blast
  obtain d1 where d1: "mg_relax (mg_cost a) (last L) ?arcs d = Inr d1" "mg_inv a genes L R d1" "tag d1 = tag d"
      "\<forall>v < ?n. paths_length d1 ! v \<le> paths_length d ! v" "paths_length d1 ! last L = paths_length d ! last L"
      "\<forall>(y, i) \<in> set ?arcs. \<not> tag d ! y \<longrightarrow> paths_length d1 ! y \<le> paths_length d ! last L + edge_price a i"
    using mg_relax_spec[OF ok sou inv order_refl] by blast
  have inv1: "mg_inv a genes L (set L) d1"
    using d1(3,5,6) by (intro search_inv_relaxed[OF sg d1(2) R]) (auto simp: price_arcs_def)
  obtain m r where nr: "mg_nearest_open tv d1 (paths_length d ! j, j) = (m, r)" by fastforce
  have tv: "length tv = ?n" using g by (simp add: graph_list_def)
  have near: "r < ?n \<and> mg_open tv d1 r \<and> (\<forall>v < ?n. mg_open tv d1 v \<longrightarrow> paths_length d1 ! r \<le> paths_length d1 ! v)"
  proof (rule foldl_nearest)
    show "foldl (\<lambda>(m, r) j. if mg_open tv d1 j \<and> paths_length d1 ! j < m then (paths_length d1 ! j, j) else (m, r))
      (paths_length d ! j, j) [0..<?n] = (m, r)" using nr by (simp add: mg_nearest_open_def tv)
  qed (use j op d1(3,4) in auto)
  have "mg_inv a genes (L @ [r]) (set L) (d1\<lparr>tag := (tag d1)[r := True]\<rparr>)"
    using near op search_graphD(1)[OF sg] by (intro search_inv_select[OF sg inv1]) auto
  moreover have "mg_iteration (mg_cost a) tv (d, last L, mr) = Inr (d1\<lparr>tag := (tag d1)[r := True]\<rparr>, r, m, r)"
    using v j(1) d1(1) nr by (simp add: mg_iteration_def)
  ultimately show ?thesis by blast
qed

lemma mg_loop_spec:
  assumes ok: "mg_net_ok a" and sou: "mg_sou_vertex a \<in> mg_chosen a genes" and g: "mg_graph a genes (tv, q)"
    and inv: "mg_inv a genes L R d" and R: "set L \<subseteq> insert (last L) R" and k: "length L + k = card (mg_chosen a genes)"
  shows "\<exists>d' r L'. mg_loop k (mg_cost a) tv (d, last L, mr) = Inr (d', r) \<and> set L' = mg_chosen a genes \<and>
    mg_inv a genes L' (set L') d'"
  using inv R k
proof (induction k arbitrary: L R d mr)
  case 0
  note sg = mg_search_graph[OF ok sou] and sh = search_inv_shape[OF "0.prems"(1)]
  have all: "set L = mg_chosen a genes" using shape_card(2)[OF sg sh] "0.prems"(3) by simp
  have "mg_inv a genes L (set L) d"
  proof (rule search_inv_relaxed[OF sg "0.prems"(1,2)])
    fix y c assume "(y, c) \<in> price_arcs a genes (last L)" "\<not> tag d ! y"
    moreover from this have "y \<in> mg_chosen a genes" using price_arcsD(1)[OF ok] by blast
    ultimately show "paths_length d ! y \<le> paths_length d ! last L + c" using sh all by (auto simp: shape_def)
  qed
  then show ?case using all by auto
next
  case (Suc k)
  from mg_iteration_spec[OF ok sou g Suc.prems(1,2)] Suc.prems(3)
  obtain d' r mr' where it: "mg_iteration (mg_cost a) tv (d, last L, mr) = Inr (d', r, mr')"
    and inv': "mg_inv a genes (L @ [r]) (set L) d'" by fastforce
  from Suc.IH[OF inv'] Suc.prems(3) it show ?case by simp
qed

section \<open>Routes of a chromosome\<close>

text \<open>
  Two vertices can be joined by a selected edge with enough available bandwidth; a route follows such edges
  from the source and repeats no vertex.
\<close>

definition usable :: "mg \<Rightarrow> bool list \<Rightarrow> nat \<Rightarrow> nat \<Rightarrow> bool" where
  "usable a genes u v \<longleftrightarrow> (\<exists>i < mg_edges_quantity a. genes ! i \<and> mg_joins (mg_edges a ! i) u v \<and>
     mg_min_available_bandwidth a \<le> me_available_width (mg_edges a ! i))"

definition mg_route :: "mg \<Rightarrow> bool list \<Rightarrow> nat \<Rightarrow> nat list \<Rightarrow> bool" where
  "mg_route a genes v p \<longleftrightarrow> p \<noteq> [] \<and> hd p = mg_sou_vertex a \<and> last p = v \<and> distinct p \<and>
     (\<forall>i. Suc i < length p \<longrightarrow> usable a genes (p ! i) (p ! Suc i))"

lemma usable_arc:
  assumes ok: "mg_net_ok a" and u: "usable a genes u v"
  shows "\<exists>c. (v, c) \<in> price_arcs a genes u \<and>
    real (mg_vertexes_quantity a + mg_edges_quantity a) * c \<le> ENDLESS_FLOAT"
proof -
  obtain i where i: "i < mg_edges_quantity a" "genes ! i" "mg_joins (mg_edges a ! i) u v"
    "mg_min_available_bandwidth a \<le> me_available_width (mg_edges a ! i)" using u by (auto simp: usable_def)
  then have "(v, i) \<in> set (chosen_arcs (mg_edges a) genes (mg_edges_quantity a) u)" by (simp add: set_chosen_arcs)
  then have "(v, edge_price a i) \<in> price_arcs a genes u" by (force simp: price_arcs_def)
  moreover have "edge_price a i = me_cost (mg_edges a ! i)" using i(4) by (simp add: edge_price_def)
  ultimately show ?thesis using mg_net_edge(4)[OF ok i(1)] by (intro exI[of _ "edge_price a i"]) simp
qed

lemma usable_arc_path:
  assumes ok: "mg_net_ok a"
  shows "p \<noteq> [] \<Longrightarrow> (\<And>i. Suc i < length p \<Longrightarrow> usable a genes (p ! i) (p ! Suc i)) \<Longrightarrow>
    \<exists>k. arc_path (price_arcs a genes) p k \<and>
      real (mg_vertexes_quantity a + mg_edges_quantity a) * k \<le> real (length p - 1) * ENDLESS_FLOAT"
proof (induction p rule: rev_induct)
  case (snoc v p)
  let ?N = "real (mg_vertexes_quantity a + mg_edges_quantity a)"
  show ?case
  proof (cases "p = []")
    case True
    then show ?thesis using arc_path_single[of "price_arcs a genes" v] by (intro exI[of _ 0]) simp
  next
    case False
    have "usable a genes (p ! i) (p ! Suc i)" if "Suc i < length p" for i
      using snoc.prems(2)[of i] that by (simp add: nth_append)
    from snoc.IH[OF False this] obtain k where k: "arc_path (price_arcs a genes) p k"
      "?N * k \<le> real (length p - 1) * ENDLESS_FLOAT" by blast
    have "usable a genes (last p) v"
      using snoc.prems(2)[of "length p - 1"] False by (simp add: nth_append last_conv_nth)
    from usable_arc[OF ok this] obtain c where c: "(v, c) \<in> price_arcs a genes (last p)" "?N * c \<le> ENDLESS_FLOAT" by blast
    have "real (length (p @ [v]) - 1) = real (length p - 1) + 1" using False by (cases p) simp_all
    then have "?N * (k + c) \<le> real (length (p @ [v]) - 1) * ENDLESS_FLOAT" 
      using add_mono[OF k(2) c(2)] by (simp only: distrib_left distrib_right mult_1)
    then show ?thesis using arc_path_snoc[OF k(1) c(1)] by blast
  qed
qed simp

lemma route_vertices:
  assumes ok: "mg_net_ok a" and r: "mg_route a genes v p"
  shows "length p \<le> mg_vertexes_quantity a" "\<forall>u \<in> set p. u < mg_vertexes_quantity a"
proof -
  have "p ! i < mg_vertexes_quantity a" if "i < length p" for i
  proof (cases i)
    case 0
    then show ?thesis using r ok by (auto simp: mg_route_def mg_net_ok_def hd_conv_nth)
  next
    case (Suc j)
    then have "usable a genes (p ! j) (p ! i)" using r that by (simp add: mg_route_def)
    then obtain e where e: "e < mg_edges_quantity a" "mg_joins (mg_edges a ! e) (p ! j) (p ! i)" by (auto simp: usable_def)
    then show ?thesis using mg_net_edge(1,2)[OF ok e(1)] by (auto simp: mg_joins_def)
  qed
  then show below: "\<forall>u \<in> set p. u < mg_vertexes_quantity a" by (auto simp: in_set_conv_nth)
  then have "set p \<subseteq> {..<mg_vertexes_quantity a}" by auto
  from card_mono[OF _ this] show "length p \<le> mg_vertexes_quantity a" using r by (simp add: mg_route_def distinct_card)
qed

text \<open>A route costs less than the length the search starts from.\<close>

lemma route_arc_path:
  assumes ok: "mg_net_ok a" and r: "mg_route a genes v p"
  shows "\<exists>k. arc_path (price_arcs a genes) p k \<and> k < ENDLESS_FLOAT"
proof -
  let ?N = "real (mg_vertexes_quantity a + mg_edges_quantity a)"
  obtain k where k: "arc_path (price_arcs a genes) p k" "?N * k \<le> real (length p - 1) * ENDLESS_FLOAT"
    using usable_arc_path[OF ok, of p genes] r by (auto simp: mg_route_def)
  have "0 < length p" using r by (simp add: mg_route_def)
  then have "length p - 1 < mg_vertexes_quantity a + mg_edges_quantity a" using route_vertices(1)[OF ok r] by linarith
  then have N: "real (length p - 1) < ?N" "0 < ?N" by linarith+
  have "real (length p - 1) * ENDLESS_FLOAT < ?N * ENDLESS_FLOAT" using N(1) ENDLESS_pos by (rule mult_strict_right_mono)
  then have "?N * k < ?N * ENDLESS_FLOAT" using k(2) by simp
  then have "k < ENDLESS_FLOAT" using N(2) by (simp only: mult_less_cancel_left_pos)
  then show ?thesis using k(1) by blast
qed

lemma arc_path_route:
  assumes ok: "mg_net_ok a" and p: "arc_path (price_arcs a genes) p k" "k < ENDLESS_FLOAT"
    "distinct p" "hd p = mg_sou_vertex a" "last p = v"
  shows "mg_route a genes v p"
proof -
  have "usable a genes (p ! i) (p ! Suc i)" if i: "Suc i < length p" for i
  proof -
    obtain c where c: "c \<le> k" "(p ! Suc i, c) \<in> price_arcs a genes (p ! i)"
      using arc_path_adjacent[where A = "price_arcs a genes", OF _ p(1) i] price_arcsD(2)[OF ok] by metis
    from price_arcsD(3)[OF ok c(2)] obtain j where j: "j < mg_edges_quantity a" "genes ! j"
      "mg_joins (mg_edges a ! j) (p ! i) (p ! Suc i)" "c = edge_price a j" by blast
    then have "mg_min_available_bandwidth a \<le> me_available_width (mg_edges a ! j)"
      using c(1) p(2) by (auto simp: edge_price_def split: if_splits)
    then show ?thesis using j by (auto simp: usable_def)
  qed
  then show ?thesis using p arc_path_nonempty[OF p(1)] by (simp add: mg_route_def)
qed

text \<open>The source of a route with an edge is touched by a selected edge.\<close>

lemma route_source_chosen:
  assumes r: "mg_route a genes v p" and v: "v \<noteq> mg_sou_vertex a"
  shows "mg_sou_vertex a \<in> mg_chosen a genes"
proof -
  have "length p \<noteq> Suc 0" using r v by (auto simp: mg_route_def length_Suc_conv)
  then have l: "Suc 0 < length p" using r by (cases p) (auto simp: mg_route_def)
  then have "usable a genes (p ! 0) (p ! Suc 0)" using r by (simp add: mg_route_def)
  moreover have "p ! 0 = mg_sou_vertex a" using r hd_conv_nth[of p] by (simp add: mg_route_def)
  ultimately show ?thesis by (auto simp: usable_def chosen_vertices_def mg_joins_def)
qed

text \<open>What the predecessors of a finished search say about the destinations.\<close>

definition pred_spec :: "mg \<Rightarrow> bool list \<Rightarrow> nat option list \<Rightarrow> bool" where
  "pred_spec a genes prev \<longleftrightarrow> length prev = mg_vertexes_quantity a \<and> (\<forall>v < mg_vertexes_quantity a.
     (prev ! v \<noteq> None \<longleftrightarrow> v \<noteq> mg_sou_vertex a \<and> (\<exists>p. mg_route a genes v p)) \<and>
     (prev ! v \<noteq> None \<longrightarrow> (\<exists>p. walk_back prev v [v] = Some p \<and> back_path prev p \<and> mg_route a genes v p)))"

lemma search_pred_spec:
  assumes ok: "mg_net_ok a" and sou: "mg_sou_vertex a \<in> mg_chosen a genes"
    and inv: "mg_inv a genes L (set L) d" and L: "set L = mg_chosen a genes"
  shows "pred_spec a genes (previous_vertex d)"
  unfolding pred_spec_def
proof (intro conjI allI impI)
  note g = mg_search_graph[OF ok sou] and sh = search_inv_shape[OF inv]
  show "length (previous_vertex d) = mg_vertexes_quantity a" using shape_lengths[OF sh] by simp
  fix v assume v: "v < mg_vertexes_quantity a"
  have found: "\<exists>p. walk_back (previous_vertex d) v [v] = Some p \<and> back_path (previous_vertex d) p \<and> mg_route a genes v p"
    if P: "previous_vertex d ! v \<noteq> None"
  proof -
    have vV: "v \<in> mg_chosen a genes" using sh v P by (auto simp: shape_def)
    note fin = search_end[OF g inv L vV]
    obtain pre where t: "traced (price_arcs a genes) ENDLESS_FLOAT (mg_sou_vertex a) (previous_vertex d) (paths_length d) v pre"
      using fin(1) by blast
    have "v \<noteq> mg_sou_vertex a" using fin(3) P by blast
    with t P have "paths_length d ! v < ENDLESS_FLOAT" by (simp add: traced_def split: if_splits)
    with t have "walk_back (previous_vertex d) v [v] = Some (pre @ [v])" "back_path (previous_vertex d) (pre @ [v])"
      "mg_route a genes v (pre @ [v])"
      by (auto simp: traced_def intro!: arc_path_route[OF ok])
    then show ?thesis by blast
  qed
  then show "previous_vertex d ! v \<noteq> None \<Longrightarrow>
    \<exists>p. walk_back (previous_vertex d) v [v] = Some p \<and> back_path (previous_vertex d) p \<and> mg_route a genes v p" .
  show "previous_vertex d ! v \<noteq> None \<longleftrightarrow> v \<noteq> mg_sou_vertex a \<and> (\<exists>p. mg_route a genes v p)"
  proof
    assume P: "previous_vertex d ! v \<noteq> None"
    then have "v \<in> mg_chosen a genes" using sh v by (auto simp: shape_def)
    from search_end(3)[OF g inv L this] P found[OF P] show "v \<noteq> mg_sou_vertex a \<and> (\<exists>p. mg_route a genes v p)" by blast
  next
    assume "v \<noteq> mg_sou_vertex a \<and> (\<exists>p. mg_route a genes v p)"
    then obtain p where p: "v \<noteq> mg_sou_vertex a" "mg_route a genes v p" by blast
    obtain k where k: "arc_path (price_arcs a genes) p k" "k < ENDLESS_FLOAT" using route_arc_path[OF ok p(2)] by blast
    have hl: "hd p = mg_sou_vertex a" "last p = v" using p(2) by (simp_all add: mg_route_def)
    have "relaxed (price_arcs a genes) (mg_chosen a genes) (nth (paths_length d))" "paths_length d ! mg_sou_vertex a = 0"
      using inv L by (simp_all add: search_inv_def tree_def)
    from path_lower_bound[OF g this k(1) hl(1)] hl(2) have "v \<in> mg_chosen a genes" "paths_length d ! v \<le> k" by simp_all
    from search_end(3)[OF g inv L this(1)] this(2) k(2) p(1) show "previous_vertex d ! v \<noteq> None" by simp
  qed
qed

lemma mg_predecessors_spec:
  assumes ok: "mg_net_ok a" and genes: "length genes = mg_edges_quantity a"
  shows "\<exists>r. mg_predecessors a genes = Inr r \<and>
    (case r of None \<Rightarrow> \<forall>v p. v \<noteq> mg_sou_vertex a \<longrightarrow> \<not> mg_route a genes v p | Some prev \<Rightarrow> pred_spec a genes prev)"
proof -
  obtain tv q where sg: "selected_graph a genes = Inr (tv, q)" and g: "mg_graph a genes (tv, q)"
    using selected_graph_spec[OF ok genes] by auto
  let ?s = "mg_sou_vertex a" and ?n = "mg_vertexes_quantity a"
  have s: "?s < ?n" using ok by (simp add: mg_net_ok_def)
  then have tv: "py_nth tv ?s = Inr (tv ! ?s)" "tv ! ?s \<noteq> None \<longleftrightarrow> ?s \<in> mg_chosen a genes" "q = card (mg_chosen a genes)"
    using g by (auto simp: graph_list_def py_nth_def)
  show ?thesis
  proof (cases "?s \<in> mg_chosen a genes")
    case False
    then have "mg_predecessors a genes = Inr None" using sg tv by (simp add: mg_predecessors_def)
    then show ?thesis using False route_source_chosen[of a genes] by auto
  next
    case True
    note G = mg_search_graph[OF ok True]
    have inv: "mg_inv a genes [?s] {} (mg_search_init ?n ?s)" using search_start[OF G] by (simp add: mg_search_init_def)
    have "finite (mg_chosen a genes)" using G finite_subset[of _ "{..<?n}"] by (auto simp: search_graph_def)
    then have "0 < card (mg_chosen a genes)" using True by (auto simp: card_gt_0_iff)
    then have "length [?s] + (q - 1) = card (mg_chosen a genes)" using tv(3) by simp
    from mg_loop_spec[OF ok True g inv _ this, of "(ENDLESS_FLOAT, 0)"] obtain d r L where
      l: "mg_loop (q - 1) (mg_cost a) tv (mg_search_init ?n ?s, ?s, ENDLESS_FLOAT, 0) = Inr (d, r)"
      and L: "set L = mg_chosen a genes" "mg_inv a genes L (set L) d" by auto
    have "mg_predecessors a genes = Inr (Some (previous_vertex d))"
      using sg tv(1,2) l True by (simp add: mg_predecessors_def)
    then show ?thesis using search_pred_spec[OF ok True L(2,1)] by simp
  qed
qed

section \<open>The tree and its fitness\<close>

text \<open>A chromosome serves the group if it has a route to every destination; the source is not served.\<close>

definition serves :: "mg \<Rightarrow> bool list \<Rightarrow> bool" where
  "serves a genes \<longleftrightarrow> (\<forall>v \<in> set (mg_des_vertexes a). v \<noteq> mg_sou_vertex a \<and> (\<exists>p. mg_route a genes v p))"

definition common_prefixes :: "'a list list \<Rightarrow> bool" where
  "common_prefixes ps \<longleftrightarrow> (\<forall>p \<in> set ps. \<forall>q \<in> set ps. \<forall>i < length p. \<forall>j < length q.
     p ! i = q ! j \<longrightarrow> take (Suc i) p = take (Suc j) q)"

lemma pred_specD:
  assumes "pred_spec a genes prev" "v < mg_vertexes_quantity a"
  shows "v < length prev" "prev ! v \<noteq> None \<longleftrightarrow> v \<noteq> mg_sou_vertex a \<and> (\<exists>p. mg_route a genes v p)"
    "prev ! v \<noteq> None \<Longrightarrow> \<exists>p. walk_back prev v [v] = Some p \<and> back_path prev p \<and> mg_route a genes v p"
  using assms by (simp_all add: pred_spec_def)

lemma circuit_paths_spec:
  assumes sp: "pred_spec a genes prev"
  shows "\<forall>v \<in> set js. v < mg_vertexes_quantity a \<Longrightarrow>
    (if \<forall>v \<in> set js. prev ! v \<noteq> None
     then \<exists>ps. circuit_paths prev js acc = Some (Inr (acc @ ps)) \<and> list_all2 (mg_route a genes) js ps \<and>
            list_all2 (\<lambda>v p. walk_back prev v [v] = Some p) js ps \<and> (\<forall>p \<in> set ps. back_path prev p)
     else circuit_paths prev js acc = Some (Inr []))"
proof (induction js arbitrary: acc)
  case (Cons j js)
  then have j: "j < mg_vertexes_quantity a" by simp
  note d = pred_specD[OF sp j]
  show ?case
  proof (cases "prev ! j = None")
    case True
    then show ?thesis using d(1) by auto
  next
    case False
    from d(3)[OF False] obtain p where p: "walk_back prev j [j] = Some p" "back_path prev p" "mg_route a genes j p" by blast
    have ih: "if \<forall>v \<in> set js. prev ! v \<noteq> None
     then \<exists>ps. circuit_paths prev js (acc @ [p]) = Some (Inr ((acc @ [p]) @ ps)) \<and> list_all2 (mg_route a genes) js ps \<and>
            list_all2 (\<lambda>v p. walk_back prev v [v] = Some p) js ps \<and> (\<forall>p \<in> set ps. back_path prev p)
     else circuit_paths prev js (acc @ [p]) = Some (Inr [])" using Cons.IH[of "acc @ [p]"] Cons.prems by simp
    show ?thesis
    proof (cases "\<forall>v \<in> set js. prev ! v \<noteq> None")
      case True
      with ih obtain ps where ps: "circuit_paths prev js (acc @ [p]) = Some (Inr ((acc @ [p]) @ ps))"
        "list_all2 (mg_route a genes) js ps" "\<forall>p \<in> set ps. back_path prev p"
        "list_all2 (\<lambda>v p. walk_back prev v [v] = Some p) js ps" by auto
      then have "circuit_paths prev (j # js) acc = Some (Inr (acc @ (p # ps)))" using p(1) False d(1) by simp
      moreover have "list_all2 (mg_route a genes) (j # js) (p # ps)" "list_all2 (\<lambda>v p. walk_back prev v [v] = Some p) (j # js) (p # ps)"
        using ps(2,4) p(1,3) by simp_all
      ultimately show ?thesis using True False ps(3) p(2) by (auto intro!: exI[of _ "p # ps"])
    next
      case False2: False
      then have "circuit_paths prev (j # js) acc = Some (Inr [])" using ih p(1) False d(1) by simp
      then show ?thesis using False2 by auto
    qed
  qed
qed simp

lemma mg_destinations: "mg_net_ok a \<Longrightarrow> take (mg_des_vertexes_quantity a) (mg_des_vertexes a) = mg_des_vertexes a"
  by (simp add: mg_net_ok_def)

lemma serves_pred:
  assumes ok: "mg_net_ok a" and sp: "pred_spec a genes prev"
  shows "serves a genes \<longleftrightarrow> (\<forall>v \<in> set (mg_des_vertexes a). prev ! v \<noteq> None)"
  using ok pred_specD(2)[OF sp] by (auto simp: serves_def mg_net_ok_def)

text \<open>
  The outcome of the search: no tree at all, or predecessors from which both \<open>delete_circuit\<close> and
  \<open>fitness_evaluate\<close> read the tree.
\<close>

lemma delete_circuit_cases:
  assumes ok: "mg_net_ok a" and genes: "length genes = mg_edges_quantity a"
  obtains (no_source) "mg_predecessors a genes = Inr None" "delete_circuit a genes = Some (Inr [])"
      "serves a genes \<longleftrightarrow> mg_des_vertexes a = []"
  | (unreached) prev where "mg_predecessors a genes = Inr (Some prev)" "pred_spec a genes prev" "\<not> serves a genes"
      "delete_circuit a genes = Some (Inr [])"
  | (tree) prev ps where "mg_predecessors a genes = Inr (Some prev)" "pred_spec a genes prev" "serves a genes"
      "delete_circuit a genes = Some (Inr ps)" "list_all2 (mg_route a genes) (mg_des_vertexes a) ps" "common_prefixes ps"
      "list_all2 (\<lambda>v p. walk_back prev v [v] = Some p) (mg_des_vertexes a) ps"
proof -
  obtain r where r: "mg_predecessors a genes = Inr r"
    "case r of None \<Rightarrow> \<forall>v p. v \<noteq> mg_sou_vertex a \<longrightarrow> \<not> mg_route a genes v p | Some prev \<Rightarrow> pred_spec a genes prev"
    using mg_predecessors_spec[OF ok genes] by blast
  have des: "\<forall>v \<in> set (mg_des_vertexes a). v < mg_vertexes_quantity a" using ok by (simp add: mg_net_ok_def)
  show ?thesis
  proof (cases r)
    case None
    then have "serves a genes \<longleftrightarrow> mg_des_vertexes a = []" using r(2) by (cases "mg_des_vertexes a") (auto simp: serves_def)
    then show ?thesis using no_source r(1) None by (simp add: delete_circuit_def)
  next
    case (Some prev)
    then have sp: "pred_spec a genes prev" using r(2) by simp
    note sv = serves_pred[OF ok sp] and cp = circuit_paths_spec[OF sp des, of "[]"]
    have dc: "delete_circuit a genes = circuit_paths prev (mg_des_vertexes a) []"
      using r(1) Some by (simp add: delete_circuit_def mg_destinations[OF ok])
    show ?thesis
    proof (cases "serves a genes")
      case True
      then obtain ps where ps: "delete_circuit a genes = Some (Inr ps)" "list_all2 (mg_route a genes) (mg_des_vertexes a) ps"
        "list_all2 (\<lambda>v p. walk_back prev v [v] = Some p) (mg_des_vertexes a) ps" "\<forall>p \<in> set ps. back_path prev p"
        using cp unfolding sv dc by auto
      have "common_prefixes ps" using ps(4) back_path_prefix[of prev] by (simp add: common_prefixes_def)
      then show ?thesis using tree r(1) Some sp True ps(1-3) by simp
    next
      case False
      then have "delete_circuit a genes = Some (Inr [])" using cp unfolding sv dc by (simp only: if_False)
      then show ?thesis using unreached r(1) Some sp False by simp
    qed
  qed
qed

text \<open>
  The lists of the vertices, in which \<open>find_edge\<close> looks the edges up: no two edges join the same vertices, and
  the edge at a position of \<open>connect_edge\<close> leads to the vertex at that position of \<open>connect_vertex\<close>.
\<close>

definition mg_lists_ok :: "mg \<Rightarrow> bool" where
  "mg_lists_ok a \<longleftrightarrow> length (mg_vertexes a) = mg_vertexes_quantity a \<and>
     (\<forall>i < mg_edges_quantity a. \<forall>j < mg_edges_quantity a. \<forall>u v.
        mg_joins (mg_edges a ! i) u v \<and> mg_joins (mg_edges a ! j) u v \<longrightarrow> i = j) \<and>
     (\<forall>u < mg_vertexes_quantity a. case mg_vertexes a ! u of v \<Rightarrow>
        mv_degree v = length (mv_connect_vertex v) \<and> mv_degree v = length (mv_connect_edge v) \<and>
        (\<forall>k < mv_degree v. mv_connect_edge v ! k < mg_edges_quantity a \<and>
           mg_joins (mg_edges a ! (mv_connect_edge v ! k)) u (mv_connect_vertex v ! k)) \<and>
        (\<forall>i < mg_edges_quantity a. \<forall>y. mg_joins (mg_edges a ! i) u y \<longrightarrow> y \<in> set (mv_connect_vertex v)))"

lemma mg_lists_unique:
  "mg_lists_ok a \<Longrightarrow> i < mg_edges_quantity a \<Longrightarrow> j < mg_edges_quantity a \<Longrightarrow>
     mg_joins (mg_edges a ! i) u v \<Longrightarrow> mg_joins (mg_edges a ! j) u v \<Longrightarrow> i = j"
  unfolding mg_lists_ok_def by blast

lemma find_edge_from_hit:
  assumes "\<forall>k < length (mv_connect_vertex v). mv_connect_vertex v ! k = x \<longrightarrow> mv_connect_edge v ! k = i"
    and "length (mv_connect_edge v) = length (mv_connect_vertex v)"
  shows "\<forall>k \<in> set ks. k < length (mv_connect_vertex v) \<Longrightarrow> \<exists>k \<in> set ks. mv_connect_vertex v ! k = x \<Longrightarrow>
    find_edge_from v x ks = Inr (int i)"
  using assms by (induction ks) (auto simp: py_nth_def)

lemma mg_find_edge_joins:
  assumes ok: "mg_lists_ok a" and p: "p < mg_vertexes_quantity a" and i: "i < mg_edges_quantity a" "mg_joins (mg_edges a ! i) p x"
  shows "mg_find_edge (mg_vertexes a) x p = Inr (int i)"
proof -
  let ?v = "mg_vertexes a ! p"
  have v: "mv_degree ?v = length (mv_connect_vertex ?v)" "mv_degree ?v = length (mv_connect_edge ?v)"
    "\<forall>k < mv_degree ?v. mv_connect_edge ?v ! k < mg_edges_quantity a \<and>
       mg_joins (mg_edges a ! (mv_connect_edge ?v ! k)) p (mv_connect_vertex ?v ! k)" "x \<in> set (mv_connect_vertex ?v)"
    using ok p i unfolding mg_lists_ok_def by blast+
  have "mv_connect_edge ?v ! k = i" if "k < length (mv_connect_vertex ?v)" "mv_connect_vertex ?v ! k = x" for k
    using mg_lists_unique[OF ok _ i(1) _ i(2)] v(1,3) that by auto
  moreover have "\<exists>k \<in> set [0..<mv_degree ?v]. mv_connect_vertex ?v ! k = x" using v(1,4) by (auto simp: in_set_conv_nth)
  ultimately have "find_edge_from ?v x [0..<mv_degree ?v] = Inr (int i)"
    using v(1,2) by (intro find_edge_from_hit) auto
  then show ?thesis using ok p by (simp add: mg_find_edge_def py_nth_def mg_lists_ok_def)
qed

text \<open>The cost so far is the cost of the edges \<open>E\<close> counted so far, each counted once.\<close>

definition counted_edges :: "mg \<Rightarrow> nat set \<Rightarrow> real \<times> int list \<Rightarrow> bool" where
  "counted_edges a E st \<longleftrightarrow> E \<subseteq> {..<mg_edges_quantity a} \<and> set (snd st) = int ` E \<and> fst st = (\<Sum>i \<in> E. me_cost (mg_edges a ! i))"

text \<open>The edges of the first \<open>k\<close> hops of a path, and of all paths of a tree.\<close>

definition hop_edges :: "mg \<Rightarrow> nat list \<Rightarrow> nat \<Rightarrow> nat set" where
  "hop_edges a p k = {e. e < mg_edges_quantity a \<and> (\<exists>j < k. mg_joins (mg_edges a ! e) (p ! j) (p ! Suc j))}"

definition tree_edges :: "mg \<Rightarrow> nat list list \<Rightarrow> nat set" where
  "tree_edges a ps = (\<Union>p \<in> set ps. hop_edges a p (length p - 1))"

lemma hop_edges_Suc:
  assumes "mg_lists_ok a" "e < mg_edges_quantity a" "mg_joins (mg_edges a ! e) (p ! k) (p ! Suc k)"
  shows "hop_edges a p (Suc k) = insert e (hop_edges a p k)"
proof -
  have "{i. i < mg_edges_quantity a \<and> mg_joins (mg_edges a ! i) (p ! k) (p ! Suc k)} = {e}"
  proof (intro equalityI subsetI)
    fix i assume "i \<in> {i. i < mg_edges_quantity a \<and> mg_joins (mg_edges a ! i) (p ! k) (p ! Suc k)}"
    then have "i < mg_edges_quantity a" "mg_joins (mg_edges a ! i) (p ! k) (p ! Suc k)" by simp_all
    from mg_lists_unique[OF assms(1) this(1) assms(2) this(2) assms(3)] show "i \<in> {e}" by simp
  qed (use assms(2,3) in simp)
  moreover have "hop_edges a p (Suc k) = {i. i < mg_edges_quantity a \<and> mg_joins (mg_edges a ! i) (p ! k) (p ! Suc k)} \<union> hop_edges a p k"
    unfolding hop_edges_def less_Suc_eq by blast
  ultimately show ?thesis by simp
qed

lemma counted_insert:
  assumes "counted_edges a E st" "e < mg_edges_quantity a" "int e \<notin> set (snd st)"
  shows "counted_edges a (insert e E) (fst st + me_cost (mg_edges a ! e), snd st @ [int e])"
proof -
  have "finite E" using assms(1) finite_subset[of E "{..<mg_edges_quantity a}"] by (auto simp: counted_edges_def)
  moreover have "e \<notin> E" using assms(1,3) by (auto simp: counted_edges_def)
  ultimately show ?thesis using assms(1,2) by (auto simp: counted_edges_def)
qed

lemma tree_cost_step:
  "tree_cost vs es prev j st =
     (case prev ! j of
        None \<Rightarrow> Some (Inr st)
      | Some p \<Rightarrow>
          (case mg_find_edge vs j p of
             Inl e \<Rightarrow> Some (Inl e)
           | Inr temp_edge \<Rightarrow>
               if temp_edge \<in> set (snd st) then tree_cost vs es prev p st
               else (case py_nth_int es temp_edge of
                       Inl e \<Rightarrow> Some (Inl e)
                     | Inr ed \<Rightarrow> tree_cost vs es prev p (fst st + me_cost ed, snd st @ [temp_edge]))))"
  by (rule tree_cost.simps)

lemma tree_cost_spec:
  assumes ok: "mg_net_ok a" "mg_lists_ok a" and p: "back_path prev p" "mg_route a genes v p"
  shows "i < length p \<Longrightarrow> counted_edges a E st \<Longrightarrow>
    \<exists>st'. tree_cost (mg_vertexes a) (mg_edges a) prev (p ! i) st = Some (Inr st') \<and> counted_edges a (E \<union> hop_edges a p i) st'"
proof (induction i arbitrary: E st)
  case 0
  then have "prev ! (p ! 0) = None" using p(1) hd_conv_nth[of p] by (auto simp: back_path_def)
  then show ?case using 0 by (subst tree_cost_step) (simp add: hop_edges_def)
next
  case (Suc i)
  have prev: "prev ! (p ! Suc i) = Some (p ! i)" using Suc.prems(1) p(1) by (simp add: back_path_def prev_linked_def)
  have pi: "p ! i < mg_vertexes_quantity a" using Suc.prems(1) route_vertices(2)[OF ok(1) p(2)] by simp
  have "usable a genes (p ! i) (p ! Suc i)" using Suc.prems(1) p(2) by (simp add: mg_route_def)
  then obtain e where e: "e < mg_edges_quantity a" "mg_joins (mg_edges a ! e) (p ! i) (p ! Suc i)" by (auto simp: usable_def)
  note fe = mg_find_edge_joins[OF ok(2) pi e] and hop = hop_edges_Suc[OF ok(2) e]
  show ?case
  proof (cases "int e \<in> set (snd st)")
    case True
    then have "e \<in> E" using Suc.prems(2) by (auto simp: counted_edges_def)
    then have "E \<union> hop_edges a p (Suc i) = E \<union> hop_edges a p i" by (auto simp: hop)
    then show ?thesis using Suc.IH[of E st] Suc.prems True prev fe by (subst tree_cost_step) simp
  next
    case False
    have "py_nth_int (mg_edges a) (int e) = Inr (mg_edges a ! e)" using e(1) ok(1) by (simp add: py_nth_int_def py_nth_def mg_net_ok_def)
    moreover have "insert e E \<union> hop_edges a p i = E \<union> hop_edges a p (Suc i)" by (auto simp: hop)
    ultimately show ?thesis
      using Suc.IH[OF _ counted_insert[OF Suc.prems(2) e(1) False]] Suc.prems(1) False prev fe
      by (subst tree_cost_step) simp
  qed
qed

lemma counted_small:
  assumes ok: "mg_net_ok a" and c: "counted_edges a E st"
  shows "0 \<le> fst st \<and> fst st < ENDLESS_FLOAT"
proof -
  let ?N = "real (mg_vertexes_quantity a + mg_edges_quantity a)" and ?c = "\<lambda>i. me_cost (mg_edges a ! i)"
  have E: "E \<subseteq> {..<mg_edges_quantity a}" and f: "fst st = sum ?c E" using c by (simp_all add: counted_edges_def)
  have cost: "0 \<le> ?c i" "?N * ?c i \<le> ENDLESS_FLOAT" if "i \<in> E" for i
    using mg_net_edge(3,4)[OF ok, of i] E that by auto
  have n: "0 < mg_vertexes_quantity a" using ok by (auto simp: mg_net_ok_def)
  have "card E \<le> mg_edges_quantity a" using card_mono[OF _ E] by simp
  then have "real (card E) < ?N" using n by linarith
  then have lt: "real (card E) * ENDLESS_FLOAT < ?N * ENDLESS_FLOAT" using ENDLESS_pos by (rule mult_strict_right_mono)
  have "?N * sum ?c E = (\<Sum>i \<in> E. ?N * ?c i)" by (rule sum_distrib_left)
  also have "\<dots> \<le> (\<Sum>i \<in> E. ENDLESS_FLOAT)" using cost(2) by (rule sum_mono)
  also have "\<dots> = real (card E) * ENDLESS_FLOAT" by simp
  finally have "?N * fst st < ?N * ENDLESS_FLOAT" unfolding f using lt by (rule le_less_trans)
  then have "fst st < ENDLESS_FLOAT" by (rule mult_left_less_imp_less) simp
  then show ?thesis using cost(1) f by (simp add: sum_nonneg)
qed

lemma trees_cost_spec:
  assumes ok: "mg_net_ok a" "mg_lists_ok a" and sp: "pred_spec a genes prev"
  shows "\<forall>v \<in> set js. v < mg_vertexes_quantity a \<Longrightarrow> counted_edges a E st \<Longrightarrow>
    (if \<forall>v \<in> set js. prev ! v \<noteq> None
     then \<exists>f. trees_cost (mg_vertexes a) (mg_edges a) prev js st = Some (Inr f) \<and>
            (\<forall>ps. list_all2 (\<lambda>v p. walk_back prev v [v] = Some p) js ps \<longrightarrow>
               f = (\<Sum>i \<in> E \<union> tree_edges a ps. me_cost (mg_edges a ! i)) \<and> 0 \<le> f \<and> f < ENDLESS_FLOAT)
     else trees_cost (mg_vertexes a) (mg_edges a) prev js st = Some (Inr ENDLESS_FLOAT))"
proof (induction js arbitrary: E st)
  case Nil
  then show ?case using counted_small[OF ok(1) Nil(2)] by (auto simp: tree_edges_def counted_edges_def)
next
  case (Cons j js)
  then have j: "j < mg_vertexes_quantity a" by simp
  note d = pred_specD[OF sp j]
  show ?case
  proof (cases "prev ! j = None")
    case True
    then show ?thesis using d(1) by auto
  next
    case False
    from d(3)[OF False] obtain p where p: "walk_back prev j [j] = Some p" "back_path prev p" "mg_route a genes j p" by blast
    then have "length p - 1 < length p" "p ! (length p - 1) = j" by (auto simp: mg_route_def last_conv_nth)
    with tree_cost_spec[OF ok p(2,3) _ Cons.prems(2), of "length p - 1"] obtain st' where
      st': "tree_cost (mg_vertexes a) (mg_edges a) prev j st = Some (Inr st')" "counted_edges a (E \<union> hop_edges a p (length p - 1)) st'" by auto
    have eq: "trees_cost (mg_vertexes a) (mg_edges a) prev (j # js) st = trees_cost (mg_vertexes a) (mg_edges a) prev js st'"
      using False d(1) st'(1) by auto
    have un: "E \<union> hop_edges a p (length p - 1) \<union> tree_edges a ps = E \<union> tree_edges a (p # ps)" for ps
      by (auto simp: tree_edges_def)
    show ?thesis
    proof (cases "\<forall>v \<in> set js. prev ! v \<noteq> None")
      case True
      then show ?thesis unfolding eq using Cons.IH[OF _ st'(2), unfolded un] Cons.prems(1) False p(1)
        by (auto simp: list_all2_Cons1)
    next
      case False2: False
      then show ?thesis unfolding eq using Cons.IH[OF _ st'(2)] Cons.prems(1) by (simp only: if_False if_True) auto
    qed
  qed
qed

section \<open>Properties\<close>

text \<open>
  C15. \<open>delete_circuit\<close> makes a distribution tree of any selection of edges. It always returns. If the selected edges with
  enough bandwidth join the source with every destination, it returns one path per destination, in their order,
  each from the source along such edges without repeating a vertex, and two paths that meet are equal up to the last
  common vertex, so that no packet travels in a circle or arrives twice. Otherwise, and also when the source itself is
  among the destinations, it returns no path at all.
\<close>

theorem delete_circuit_tree:
  assumes "mg_net_ok a" "length genes = mg_edges_quantity a"
  shows "\<exists>ps. delete_circuit a genes = Some (Inr ps) \<and>
    (if serves a genes then list_all2 (mg_route a genes) (mg_des_vertexes a) ps \<and> common_prefixes ps else ps = [])"
  using assms
proof (cases rule: delete_circuit_cases)
  case no_source
  then show ?thesis by (simp add: common_prefixes_def)
next
  case (unreached prev)
  then show ?thesis by simp
next
  case (tree prev ps)
  then show ?thesis by simp
qed

text \<open>A triangle whose direct edge from 0 to 2 is dearer than the detour over 1; the chromosome selects the detour.\<close>

definition wit_mg_edge :: "nat \<Rightarrow> nat \<Rightarrow> nat \<Rightarrow> real \<Rightarrow> mg_edge" where
  "wit_mg_edge i u v c = new_mg_edge\<lparr>me_id := i, me_v0 := u, me_v1 := v, me_cost := c, me_available_width := ENDLESS_FLOAT\<rparr>"

definition wit_mg_vertex :: "nat \<Rightarrow> nat list \<Rightarrow> nat list \<Rightarrow> mg_vertex" where
  "wit_mg_vertex i ys es = \<lparr>mv_id = i, mv_degree = length ys, mv_connect_vertex = ys, mv_connect_edge = es\<rparr>"

definition wit_mg :: mg where
  "wit_mg = mg_new\<lparr>mg_switch_queue := [11, 12, 13], mg_vertexes_quantity := 3, mg_edges_quantity := 3,
     mg_vertexes := [wit_mg_vertex 0 [1, 2] [0, 2], wit_mg_vertex 1 [0, 2] [0, 1], wit_mg_vertex 2 [0, 1] [2, 1]],
     mg_edges := [wit_mg_edge 0 0 1 1, wit_mg_edge 1 1 2 1, wit_mg_edge 2 0 2 5],
     mg_sou_vertex := 0, mg_des_vertexes := [1, 2], mg_des_vertexes_quantity := 2\<rparr>"

lemmas wit_mg_simps = wit_mg_def mg_new_def wit_mg_edge_def new_mg_edge_def wit_mg_vertex_def ENDLESS_FLOAT_def

lemma wit_mg_net: "mg_net_ok wit_mg"
  by (simp add: mg_net_ok_def wit_mg_simps)

lemma less_3_cases: "(i :: nat) < 3 \<Longrightarrow> i = 0 \<or> i = 1 \<or> i = 2"
  by auto

lemma wit_mg_serves: "serves wit_mg [True, True, False]"
proof -
  have u: "usable wit_mg [True, True, False] 0 1"
    unfolding usable_def by (rule exI[of _ 0]) (simp add: wit_mg_simps mg_joins_def)
  have u': "usable wit_mg [True, True, False] 1 2"
    unfolding usable_def by (rule exI[of _ 1]) (simp add: wit_mg_simps mg_joins_def)
  have "mg_route wit_mg [True, True, False] 1 [0, 1]" "mg_route wit_mg [True, True, False] 2 [0, 1, 2]"
    using u u' by (auto simp: mg_route_def less_Suc_eq) (simp_all add: wit_mg_simps)
  then show ?thesis by (auto simp: serves_def wit_mg_simps)
qed

theorem delete_circuit_tree_witness:
  "serves wit_mg [True, True, False] \<and> (\<exists>ps. delete_circuit wit_mg [True, True, False] = Some (Inr ps) \<and>
     list_all2 (mg_route wit_mg [True, True, False]) [1, 2] ps \<and> common_prefixes ps)"
proof -
  have "length [True, True, False] = mg_edges_quantity wit_mg" "mg_des_vertexes wit_mg = [1, 2]" by (simp_all add: wit_mg_simps)
  with delete_circuit_tree[OF wit_mg_net, of "[True, True, False]"] wit_mg_serves show ?thesis by simp
qed

lemma fitness_of_tree:
  assumes ok: "mg_net_ok a" "mg_lists_ok a" and genes: "length genes = mg_edges_quantity a" and des: "mg_des_vertexes a \<noteq> []"
  shows "\<exists>f ps. fitness_of a genes = Some (Inr f) \<and> delete_circuit a genes = Some (Inr ps) \<and>
    (if serves a genes then ps \<noteq> [] \<and> f = (\<Sum>i \<in> tree_edges a ps. me_cost (mg_edges a ! i)) \<and> f < ENDLESS_FLOAT
     else ps = [] \<and> f = ENDLESS_FLOAT)"
  using ok(1) genes
proof (cases rule: delete_circuit_cases)
  case no_source
  then show ?thesis using des by (simp add: fitness_of_def)
next
  case (unreached prev)
  have "\<forall>v \<in> set (mg_des_vertexes a). v < mg_vertexes_quantity a" using ok(1) by (simp add: mg_net_ok_def)
  from trees_cost_spec[OF ok unreached(2) this, of "{}" "(0, [])", folded serves_pred[OF ok(1) unreached(2)]] unreached
  show ?thesis by (simp add: fitness_of_def mg_destinations[OF ok(1)] counted_edges_def)
next
  case (tree prev ps)
  have "\<forall>v \<in> set (mg_des_vertexes a). v < mg_vertexes_quantity a" using ok(1) by (simp add: mg_net_ok_def)
  from trees_cost_spec[OF ok tree(2) this, of "{}" "(0, [])", folded serves_pred[OF ok(1) tree(2)]] tree(3,7)
  obtain f where "trees_cost (mg_vertexes a) (mg_edges a) prev (mg_des_vertexes a) (0, []) = Some (Inr f)"
    "f = (\<Sum>i \<in> tree_edges a ps. me_cost (mg_edges a ! i))" "f < ENDLESS_FLOAT" by (auto simp: counted_edges_def)
  then have "fitness_of a genes = Some (Inr f)" "f = (\<Sum>i \<in> tree_edges a ps. me_cost (mg_edges a ! i))" "f < ENDLESS_FLOAT"
    using tree(1) by (simp_all add: fitness_of_def mg_destinations[OF ok(1)])
  moreover have "ps \<noteq> []" using tree(5) des by auto
  ultimately show ?thesis using tree(3,4) by auto
qed

text \<open>
  C16. The fitness of a chromosome is the cost of its tree: \<open>fitness_evaluate\<close> always returns, gives the sum of the costs
  of the edges of the paths that \<open>delete_circuit\<close> returns, an edge shared by several paths counted once, and gives \<open>ENDLESS_FLOAT\<close>,
  more than any tree costs, exactly when there is no tree.
\<close>

theorem fitness_is_tree_cost:
  assumes "mg_net_ok a" "mg_lists_ok a" "length genes = mg_edges_quantity a" "mg_des_vertexes a \<noteq> []"
  shows "\<exists>f ps. mg_fitness_evaluate a \<lparr>mc_genes = genes, mc_fitness = f0\<rparr> = Some (Inr \<lparr>mc_genes = genes, mc_fitness = f\<rparr>) \<and>
    delete_circuit a genes = Some (Inr ps) \<and>
    (if ps = [] then f = ENDLESS_FLOAT
     else f = (\<Sum>i \<in> tree_edges a ps. me_cost (mg_edges a ! i)) \<and> f < ENDLESS_FLOAT)"
proof -
  obtain f ps where f: "fitness_of a genes = Some (Inr f)" "delete_circuit a genes = Some (Inr ps)"
    "if serves a genes then ps \<noteq> [] \<and> f = (\<Sum>i \<in> tree_edges a ps. me_cost (mg_edges a ! i)) \<and> f < ENDLESS_FLOAT
     else ps = [] \<and> f = ENDLESS_FLOAT" using fitness_of_tree[OF assms] by blast
  have "mg_fitness_evaluate a \<lparr>mc_genes = genes, mc_fitness = f0\<rparr> = Some (Inr \<lparr>mc_genes = genes, mc_fitness = f\<rparr>)"
    using f(1) by (simp add: mg_fitness_evaluate_def)
  then show ?thesis using f(2,3) by (cases "serves a genes") auto
qed

lemma wit_mg_lists: "mg_lists_ok wit_mg"
proof -
  have "i = j" if "i < 3" "j < 3" "mg_joins (mg_edges wit_mg ! i) u v" "mg_joins (mg_edges wit_mg ! j) u v" for i j u v
    using less_3_cases[OF that(1)] less_3_cases[OF that(2)] that(3,4) by (auto simp: wit_mg_simps mg_joins_def)
  moreover have "y \<in> set (mv_connect_vertex (mg_vertexes wit_mg ! u))" if "u < 3" "i < 3" "mg_joins (mg_edges wit_mg ! i) u y" for u i y
    using less_3_cases[OF that(1)] less_3_cases[OF that(2)] that(3) by (auto simp: wit_mg_simps mg_joins_def)
  moreover have "mv_connect_edge (mg_vertexes wit_mg ! u) ! k < 3 \<and>
      mg_joins (mg_edges wit_mg ! (mv_connect_edge (mg_vertexes wit_mg ! u) ! k)) u (mv_connect_vertex (mg_vertexes wit_mg ! u) ! k)"
    if "u < 3" "k < 2" for u k
    using less_3_cases[OF that(1)] that(2) by (auto simp: wit_mg_simps mg_joins_def less_2_cases_iff)
  moreover have "mv_degree (mg_vertexes wit_mg ! u) = 2 \<and> length (mv_connect_vertex (mg_vertexes wit_mg ! u)) = 2 \<and>
      length (mv_connect_edge (mg_vertexes wit_mg ! u)) = 2" if "u < 3" for u
    using less_3_cases[OF that] by (auto simp: wit_mg_simps)
  moreover have "mg_edges_quantity wit_mg = 3" "mg_vertexes_quantity wit_mg = 3" "length (mg_vertexes wit_mg) = 3"
    by (simp_all add: wit_mg_simps)
  ultimately show ?thesis unfolding mg_lists_ok_def by auto
qed

theorem fitness_is_tree_cost_witness:
  "mg_net_ok wit_mg \<and> mg_lists_ok wit_mg \<and> (\<exists>f ps.
     mg_fitness_evaluate wit_mg \<lparr>mc_genes = [True, True, False], mc_fitness = 0\<rparr> =
       Some (Inr \<lparr>mc_genes = [True, True, False], mc_fitness = f\<rparr>) \<and>
     delete_circuit wit_mg [True, True, False] = Some (Inr ps) \<and>
     (if ps = [] then f = ENDLESS_FLOAT
      else f = (\<Sum>i \<in> tree_edges wit_mg ps. me_cost (mg_edges wit_mg ! i)) \<and> f < ENDLESS_FLOAT))"
proof -
  have "length [True, True, False] = mg_edges_quantity wit_mg" "mg_des_vertexes wit_mg \<noteq> []" by (simp_all add: wit_mg_simps)
  from fitness_is_tree_cost[OF wit_mg_net wit_mg_lists this] wit_mg_net wit_mg_lists show ?thesis by blast
qed

end
