(* ===== verification/Mg_Evolution.thy ===== *)
theory Mg_Evolution
  imports Mg_Route
begin

text \<open>
  The evolution of the population of \<open>MGAlgorithm\<close> in \<open>MulticastRouteAlgorithm.py\<close>: \<open>population_init\<close>, crossover and variation
  that spare the best chromosome, tournaments, \<open>genetic_algorithm\<close>, \<open>run\<close> and \<open>get_link\<close>, and what the operators keep. Chromosomes are never shared, so a population is a list
  of values. The total fitness that \<open>evaluate_population\<close> adds up is read nowhere.
\<close>

section \<open>Population\<close>

fun mg_random_genes :: "real \<Rightarrow> nat \<Rightarrow> draws \<Rightarrow> bool list \<times> draws" where
  "mg_random_genes pr 0 us = ([], us)"
| "mg_random_genes pr (Suc k) us =
     (case next_draw us of (u, us1) \<Rightarrow> case mg_random_genes pr k us1 of (gs, us2) \<Rightarrow> ((u < pr) # gs, us2))"

fun mg_random_population :: "nat \<Rightarrow> nat \<Rightarrow> draws \<Rightarrow> mg_chromosome list \<times> draws" where
  "mg_random_population 0 m us = ([], us)"
| "mg_random_population (Suc k) m us =
     (case mg_random_genes (7 / 10) m us of (gs, us1) \<Rightarrow>
        case mg_random_population k m us1 of (cs, us2) \<Rightarrow> ((new_mg_chromosome m)\<lparr>mc_genes := gs\<rparr> # cs, us2))"

definition population_init :: "nat \<Rightarrow> draws \<Rightarrow> mg \<Rightarrow> mg \<times> draws" where
  "population_init max_chromosome_quantity us a =
     (let q = (if max_chromosome_quantity mod 2 = 1 then max_chromosome_quantity + 1 else max_chromosome_quantity)
      in case mg_random_population q (mg_edges_quantity a) us of (cs, us') \<Rightarrow>
           (a\<lparr>mg_population := mg_population a @ cs, mg_chromosome_quantity := q\<rparr>, us'))"

definition evaluate_population :: "nat \<Rightarrow> mg_chromosome list \<Rightarrow> pyerr + nat" where
  "evaluate_population q pop =
     res_bind (res_fold (\<lambda>(best_fitness, outstanding) i.
        res_bind (py_nth pop i) (\<lambda>c.
        Inr (if best_fitness > mc_fitness c then (mc_fitness c, i) else (best_fitness, outstanding)))) (ENDLESS_FLOAT, 0) [0..<q])
     (\<lambda>(_, outstanding). Inr outstanding)"

section \<open>Crossover\<close>

text \<open>The order in which the chromosomes are paired.\<close>

fun mg_shuffle :: "nat list \<Rightarrow> nat list \<Rightarrow> draws \<Rightarrow> nat list \<times> draws" where
  "mg_shuffle [] s us = (s, us)"
| "mg_shuffle (i # is) s us =
     (case next_draw us of (u, us1) \<Rightarrow>
        let index = scale_draw u i in mg_shuffle is (s[i := s ! index, index := s ! i]) us1)"

text \<open>
  The cut points: \<open>position[0]\<close> stays 0, the other five are drawn and sorted. \<open>selected\<close> lists the segments to
  exchange; it is not emptied between two pairs.
\<close>

fun draw_positions :: "nat \<Rightarrow> nat list \<Rightarrow> nat list \<Rightarrow> draws \<Rightarrow> nat list \<times> draws" where
  "draw_positions m [] position us = (position, us)"
| "draw_positions m (j # js) position us =
     (case next_draw us of (u, us1) \<Rightarrow> draw_positions m js (position[j := scale_draw u m]) us1)"

definition order_pair :: "nat list \<Rightarrow> nat \<Rightarrow> nat list" where
  "order_pair position k =
     (if position ! k > position ! (k + 1) then position[k := position ! (k + 1), k + 1 := position ! k] else position)"

definition order_positions :: "nat list \<Rightarrow> nat list" where
  "order_positions position = foldl (\<lambda>p j. foldl order_pair p [1..<j]) position [5, 4, 3, 2]"

fun draw_selected :: "nat \<Rightarrow> nat list \<Rightarrow> draws \<Rightarrow> nat list \<times> draws" where
  "draw_selected 0 selected us = (selected, us)"
| "draw_selected (Suc k) selected us =
     (case next_draw us of (u, us1) \<Rightarrow>
        let n = scale_draw u 6 in draw_selected k (if n \<notin> set selected then selected @ [n] else selected) us1)"

definition swap_gene :: "nat \<Rightarrow> nat \<Rightarrow> mg_chromosome list \<Rightarrow> nat \<Rightarrow> pyerr + mg_chromosome list" where
  "swap_gene x y pop k =
     res_bind (py_nth pop x) (\<lambda>c. res_bind (py_nth (mc_genes c) k) (\<lambda>g.
     res_bind (py_nth pop y) (\<lambda>d. res_bind (py_nth (mc_genes d) k) (\<lambda>h.
     let pop1 = pop[x := c\<lparr>mc_genes := (mc_genes c)[k := h]\<rparr>]
     in Inr (pop1[y := (pop1 ! y)\<lparr>mc_genes := (mc_genes (pop1 ! y))[k := g]\<rparr>])))))"

definition segment :: "nat \<Rightarrow> nat list \<Rightarrow> nat \<Rightarrow> nat list" where
  "segment m position s = (if s = 5 then [position ! s..<m] else [position ! s..<position ! (s + 1)])"

definition copy_gene :: "nat \<Rightarrow> nat \<Rightarrow> mg_chromosome list \<Rightarrow> nat \<Rightarrow> pyerr + mg_chromosome list" where
  "copy_gene x y pop j =
     res_bind (py_nth pop x) (\<lambda>c. res_bind (py_nth (mc_genes c) j) (\<lambda>g.
     res_bind (py_nth pop y) (\<lambda>d.
     if j < length (mc_genes d) then Inr (pop[y := d\<lparr>mc_genes := (mc_genes d)[j := g]\<rparr>]) else Inl IndexError)))"

definition copy_chromosome :: "nat \<Rightarrow> nat \<Rightarrow> nat \<Rightarrow> mg_chromosome list \<Rightarrow> pyerr + mg_chromosome list" where
  "copy_chromosome m x y pop =
     res_bind (res_fold (copy_gene x y) pop [0..<m]) (\<lambda>pop1.
     res_bind (py_nth pop1 x) (\<lambda>c. res_bind (py_nth pop1 y) (\<lambda>d.
     Inr (pop1[y := d\<lparr>mc_fitness := mc_fitness c\<rparr>]))))"

record crossing =
  cr_population :: "mg_chromosome list"
  cr_position :: "nat list"
  cr_selected :: "nat list"
  cr_follow :: "nat option"
  cr_draws :: draws

definition cross_two :: "nat \<Rightarrow> real \<Rightarrow> nat \<Rightarrow> nat \<Rightarrow> crossing \<Rightarrow> pyerr + crossing" where
  "cross_two m crossover_probability x y st =
     (case next_draw (cr_draws st) of (u, us1) \<Rightarrow>
        if u < crossover_probability then
          (case draw_positions m [1..<6] (cr_position st) us1 of (position, us2) \<Rightarrow>
             let position' = order_positions position
             in case draw_selected 3 (cr_selected st) us2 of (selected, us3) \<Rightarrow>
                  res_bind (res_fold (swap_gene x y) (cr_population st) (concat (map (segment m position') selected))) (\<lambda>pop.
                  Inr (st\<lparr>cr_population := pop, cr_position := position', cr_selected := selected, cr_draws := us3\<rparr>)))
        else Inr (st\<lparr>cr_draws := us1\<rparr>))"

fun mg_cross_pairs :: "nat \<Rightarrow> real \<Rightarrow> nat option \<Rightarrow> nat list \<Rightarrow> crossing \<Rightarrow> pyerr + crossing" where
  "mg_cross_pairs m pr outstanding [] st = Inr st"
| "mg_cross_pairs m pr outstanding [x] st = Inl IndexError"
| "mg_cross_pairs m pr outstanding (x # y # rest) st =
     res_bind
       (if Some x \<noteq> outstanding \<and> Some y \<noteq> outstanding then cross_two m pr x y st
        else if Some x = outstanding
        then res_bind (copy_chromosome m x y (cr_population st)) (\<lambda>pop. Inr (st\<lparr>cr_population := pop, cr_follow := Some y\<rparr>))
        else res_bind (copy_chromosome m y x (cr_population st)) (\<lambda>pop. Inr (st\<lparr>cr_population := pop, cr_follow := Some x\<rparr>)))
       (mg_cross_pairs m pr outstanding rest)"

definition crossover_multi_point :: "mg \<Rightarrow> nat option \<Rightarrow> mg_chromosome list \<Rightarrow> draws \<Rightarrow>
    pyerr + (mg_chromosome list \<times> nat option \<times> draws)" where
  "crossover_multi_point a outstanding pop us =
     (case mg_shuffle [0..<mg_chromosome_quantity a] [0..<mg_chromosome_quantity a] us of (random_sequence, us1) \<Rightarrow>
        res_bind (mg_cross_pairs (mg_edges_quantity a) (mg_crossover_probability a) outstanding random_sequence
            \<lparr>cr_population = pop, cr_position = [0, 0, 0, 0, 0, 0], cr_selected = [], cr_follow = None, cr_draws = us1\<rparr>) (\<lambda>st.
        Inr (cr_population st, cr_follow st, cr_draws st)))"

section \<open>Variation and selection\<close>

fun flip_genes :: "real \<Rightarrow> nat list \<Rightarrow> bool list \<Rightarrow> draws \<Rightarrow> pyerr + (bool list \<times> draws)" where
  "flip_genes pr [] gs us = Inr (gs, us)"
| "flip_genes pr (j # js) gs us =
     (case next_draw us of (u, us1) \<Rightarrow>
        if u < pr then (if j < length gs then flip_genes pr js (gs[j := \<not> gs ! j]) us1 else Inl IndexError)
        else flip_genes pr js gs us1)"

fun vary :: "nat \<Rightarrow> real \<Rightarrow> nat option \<Rightarrow> nat option \<Rightarrow> nat list \<Rightarrow> mg_chromosome list \<Rightarrow> draws \<Rightarrow> pyerr + (mg_chromosome list \<times> draws)" where
  "vary m pr outstanding follow [] pop us = Inr (pop, us)"
| "vary m pr outstanding follow (i # is) pop us =
     (if Some i \<noteq> outstanding \<and> Some i \<noteq> follow
      then res_bind (py_nth pop i) (\<lambda>c. res_bind (flip_genes pr [0..<m] (mc_genes c) us) (\<lambda>(gs, us1).
           vary m pr outstanding follow is (pop[i := c\<lparr>mc_genes := gs\<rparr>]) us1))
      else vary m pr outstanding follow is pop us)"

definition variation :: "mg \<Rightarrow> nat option \<Rightarrow> nat option \<Rightarrow> mg_chromosome list \<Rightarrow> draws \<Rightarrow> pyerr + (mg_chromosome list \<times> draws)" where
  "variation a outstanding follow pop us =
     vary (mg_edges_quantity a) (mg_variation_probability a) outstanding follow [0..<mg_chromosome_quantity a] pop us"

fun evaluate_all :: "mg \<Rightarrow> nat list \<Rightarrow> mg_chromosome list \<Rightarrow> mg_chromosome list run" where
  "evaluate_all a [] pop = Some (Inr pop)"
| "evaluate_all a (j # js) pop =
     run_bind (Some (py_nth pop j)) (\<lambda>c. run_bind (mg_fitness_evaluate a c) (\<lambda>c'. evaluate_all a js (pop[j := c'])))"

fun championship :: "nat \<Rightarrow> nat \<Rightarrow> mg_chromosome list \<Rightarrow> nat \<Rightarrow> draws \<Rightarrow> pyerr + (nat \<times> draws)" where
  "championship 0 q pop b us = Inr (b, us)"
| "championship (Suc k) q pop b us =
     (case next_draw us of (u, us1) \<Rightarrow>
        let r = scale_draw u q
        in res_bind (py_nth pop b) (\<lambda>cb. res_bind (py_nth pop r) (\<lambda>cr.
           championship k q pop (if mc_fitness cb > mc_fitness cr then r else b) us1)))"

fun select_champions :: "nat \<Rightarrow> mg \<Rightarrow> mg_chromosome list \<Rightarrow> draws \<Rightarrow> pyerr + (mg_chromosome list \<times> draws)" where
  "select_champions 0 a pop us = Inr ([], us)"
| "select_champions (Suc k) a pop us =
     (case next_draw us of (u, us1) \<Rightarrow>
        res_bind (championship (mg_candidate_quantity a - 1) (mg_chromosome_quantity a) pop
                    (scale_draw u (mg_chromosome_quantity a)) us1) (\<lambda>(b, us2).
        res_bind (py_nth pop b) (\<lambda>cb.
        res_bind (res_map (py_nth (mc_genes cb)) [0..<mg_edges_quantity a]) (\<lambda>gs.
        res_bind (select_champions k a pop us2) (\<lambda>(cs, us3).
        Inr (\<lparr>mc_genes = gs, mc_fitness = mc_fitness cb\<rparr> # cs, us3))))))"

definition selection_championships :: "mg \<Rightarrow> mg_chromosome list \<Rightarrow> draws \<Rightarrow> pyerr + (mg_chromosome list \<times> draws)" where
  "selection_championships a pop us = select_champions (mg_chromosome_quantity a) a pop us"

section \<open>The algorithm\<close>

definition mg_generation :: "mg \<Rightarrow> nat option \<Rightarrow> mg_chromosome list \<Rightarrow> draws \<Rightarrow> (nat \<times> mg_chromosome list \<times> draws) run" where
  "mg_generation a outstanding pop us =
     run_bind (Some (crossover_multi_point a outstanding pop us)) (\<lambda>(pop1, follow, us1).
     run_bind (Some (variation a outstanding follow pop1 us1)) (\<lambda>(pop2, us2).
     run_bind (evaluate_all a [0..<mg_chromosome_quantity a] pop2) (\<lambda>pop3.
     run_bind (Some (selection_championships a pop3 us2)) (\<lambda>(pop4, us3).
     run_bind (Some (evaluate_population (mg_chromosome_quantity a) pop4)) (\<lambda>best.
     Some (Inr (best, pop4, us3)))))))"

fun mg_generations :: "nat \<Rightarrow> mg \<Rightarrow> nat option \<Rightarrow> mg_chromosome list \<Rightarrow> draws \<Rightarrow> (mg_chromosome list \<times> draws) run" where
  "mg_generations 0 a outstanding pop us = Some (Inr (pop, us))"
| "mg_generations (Suc k) a outstanding pop us =
     run_bind (mg_generation a outstanding pop us) (\<lambda>(best, pop', us'). mg_generations k a (Some best) pop' us')"

definition genetic_algorithm :: "draws \<Rightarrow> mg \<Rightarrow> (mg \<times> draws) run" where
  "genetic_algorithm us a =
     run_bind (mg_generations (mg_max_generation a) a None (mg_population a) us) (\<lambda>(pop, us').
     Some (Inr (a\<lparr>mg_population := pop\<rparr>, us')))"

definition update_request :: "nat \<Rightarrow> nat list \<Rightarrow> real \<Rightarrow> mg \<Rightarrow> mg" where
  "update_request sou_vertex des_vertexes bw a =
     a\<lparr>mg_sou_vertex := sou_vertex, mg_des_vertexes := des_vertexes, mg_des_vertexes_quantity := length des_vertexes,
       mg_min_available_bandwidth := bw\<rparr>"

definition mg_run :: "nat \<Rightarrow> nat list \<Rightarrow> real \<Rightarrow> draws \<Rightarrow> mg \<Rightarrow> (mg \<times> draws) run" where
  "mg_run src_dpid dst_dpid bw us a =
     run_bind (Some (py_index (mg_switch_queue a) src_dpid)) (\<lambda>sou_vertex.
     run_bind (Some (res_map (py_index (mg_switch_queue a)) dst_dpid)) (\<lambda>des_vertexes.
     case population_init (mg_max_chromosome_quantity a) us (update_request sou_vertex des_vertexes bw a) of (a1, us1) \<Rightarrow>
       genetic_algorithm us1 a1))"

definition mg_get_link :: "mg \<Rightarrow> nat list list run" where
  "mg_get_link a =
     run_bind (Some (evaluate_population (mg_chromosome_quantity a) (mg_population a))) (\<lambda>index.
     run_bind (Some (py_nth (mg_population a) index)) (\<lambda>c.
     run_bind (delete_circuit a (mc_genes c)) (\<lambda>paths_unit.
     Some (res_map (res_map (py_nth (mg_switch_queue a))) paths_unit))))"

section \<open>What the operators touch\<close>

definition genes_ok :: "nat \<Rightarrow> mg_chromosome list \<Rightarrow> bool" where
  "genes_ok m pop \<longleftrightarrow> (\<forall>c \<in> set pop. length (mc_genes c) = m)"

text \<open>An operator that changes only the chromosomes at the positions \<open>X\<close>, and no length.\<close>

definition touched :: "nat \<Rightarrow> nat set \<Rightarrow> mg_chromosome list \<Rightarrow> mg_chromosome list \<Rightarrow> bool" where
  "touched m X pop pop' \<longleftrightarrow> length pop' = length pop \<and> genes_ok m pop' \<and> (\<forall>i < length pop. i \<notin> X \<longrightarrow> pop' ! i = pop ! i)"

lemma touched_refl: "genes_ok m pop \<Longrightarrow> touched m X pop pop"
  by (simp add: touched_def)

lemma touched_trans: "touched m X p1 p2 \<Longrightarrow> touched m Y p2 p3 \<Longrightarrow> X \<subseteq> Z \<Longrightarrow> Y \<subseteq> Z \<Longrightarrow> touched m Z p1 p3"
  unfolding touched_def by (metis subsetD)

lemma genes_ok_nth: "genes_ok m pop \<Longrightarrow> i < length pop \<Longrightarrow> length (mc_genes (pop ! i)) = m"
  by (simp add: genes_ok_def)

lemma touched_update:
  assumes "genes_ok m pop" "length (mc_genes c) = m" "x \<in> X"
  shows "touched m X pop (pop[x := c])"
proof -
  have "x \<noteq> i" if "i \<notin> X" for i using that assms(3) by metis
  then show ?thesis using assms(1,2) set_update_subset_insert[of pop x c] by (auto simp: touched_def genes_ok_def)
qed

lemma swap_gene_touched:
  assumes "genes_ok m pop" "x < length pop" "y < length pop" "k < m"
  shows "\<exists>pop'. swap_gene x y pop k = Inr pop' \<and> touched m {x, y} pop pop'"
proof -
  let ?pop1 = "pop[x := (pop ! x)\<lparr>mc_genes := (mc_genes (pop ! x))[k := mc_genes (pop ! y) ! k]\<rparr>]"
  let ?pop2 = "?pop1[y := (?pop1 ! y)\<lparr>mc_genes := (mc_genes (?pop1 ! y))[k := mc_genes (pop ! x) ! k]\<rparr>]"
  have t1: "touched m {x} pop ?pop1" using assms genes_ok_nth[OF assms(1,2)] by (intro touched_update) auto
  then have "genes_ok m ?pop1" "length (mc_genes (?pop1 ! y)) = m" using assms(3) by (auto simp: touched_def intro: genes_ok_nth)
  then have t2: "touched m {y} ?pop1 ?pop2" by (intro touched_update) auto
  have "touched m {x, y} pop ?pop2" by (rule touched_trans[OF t1 t2]) auto
  moreover have "swap_gene x y pop k = Inr ?pop2"
    using assms genes_ok_nth[OF assms(1)] by (simp add: swap_gene_def py_nth_def Let_def)
  ultimately show ?thesis by blast
qed

lemma swap_genes_touched:
  assumes "x < length pop" "y < length pop"
  shows "genes_ok m pop \<Longrightarrow> \<forall>k \<in> set ks. k < m \<Longrightarrow>
    \<exists>pop'. res_fold (swap_gene x y) pop ks = Inr pop' \<and> touched m {x, y} pop pop'"
  using assms
proof (induction ks arbitrary: pop)
  case Nil
  then show ?case by (simp add: touched_refl)
next
  case (Cons k ks)
  then obtain p1 where p1: "swap_gene x y pop k = Inr p1" "touched m {x, y} pop p1"
    using swap_gene_touched[of m pop x y k] by auto
  then obtain p2 where "res_fold (swap_gene x y) p1 ks = Inr p2" "touched m {x, y} p1 p2"
    using Cons.IH[of p1] Cons.prems by (auto simp: touched_def)
  then show ?case using p1 touched_trans[of m "{x, y}" pop p1 "{x, y}" p2 "{x, y}"] by auto
qed

text \<open>Copying the best chromosome makes an exact copy.\<close>

lemma copy_genes_eval:
  assumes ok: "genes_ok m pop" and x: "x < length pop" and y: "y < length pop" "x \<noteq> y" and k: "k \<le> m"
  shows "res_fold (copy_gene x y) pop [0..<k] =
    Inr (pop[y := (pop ! y)\<lparr>mc_genes := take k (mc_genes (pop ! x)) @ drop k (mc_genes (pop ! y))\<rparr>])"
  using k
proof (induction k)
  case 0
  then show ?case by simp
next
  case (Suc k)
  note len = genes_ok_nth[OF ok x] genes_ok_nth[OF ok y(1)]
  have "(take k (mc_genes (pop ! x)) @ drop k (mc_genes (pop ! y)))[k := mc_genes (pop ! x) ! k] =
      take (Suc k) (mc_genes (pop ! x)) @ drop (Suc k) (mc_genes (pop ! y))"
    using Suc.prems len by (simp add: list_update_append take_Suc_conv_app_nth Cons_nth_drop_Suc[symmetric])
  then show ?case
    using Suc len x y by (simp add: res_fold_append copy_gene_def py_nth_def)
qed

lemma chromosome_copy: "c\<lparr>mc_genes := mc_genes d, mc_fitness := mc_fitness d\<rparr> = (d :: mg_chromosome)"
  by simp

lemma copy_chromosome_eval:
  assumes ok: "genes_ok m pop" and x: "x < length pop" and y: "y < length pop" "x \<noteq> y"
  shows "copy_chromosome m x y pop = Inr (pop[y := pop ! x])"
  using copy_genes_eval[OF ok x y order_refl] genes_ok_nth[OF ok x] genes_ok_nth[OF ok y(1)] x y
  by (simp add: copy_chromosome_def py_nth_def chromosome_copy)

section \<open>Draws of the crossover\<close>

definition positions_ok :: "nat \<Rightarrow> nat list \<Rightarrow> bool" where
  "positions_ok m position \<longleftrightarrow> length position = 6 \<and> (\<forall>p \<in> set position. p \<le> m)"

definition crossing_ok :: "nat \<Rightarrow> crossing \<Rightarrow> bool" where
  "crossing_ok m st \<longleftrightarrow> positions_ok m (cr_position st) \<and> (\<forall>s \<in> set (cr_selected st). s < 6) \<and> draws_ok (cr_draws st)"

lemma positions_ok_update: "positions_ok m ps \<Longrightarrow> p \<le> m \<Longrightarrow> positions_ok m (ps[j := p])"
  using set_update_subset_insert[of ps j p] by (auto simp: positions_ok_def)

lemma positions_ok_nth: "positions_ok m ps \<Longrightarrow> j < 6 \<Longrightarrow> ps ! j \<le> m"
  by (simp add: positions_ok_def)

lemma scale_draw_le: "0 \<le> u \<Longrightarrow> u < 1 \<Longrightarrow> scale_draw u n \<le> n"
  using scale_draw_less[of u n] by (cases "n = 0") (auto simp: scale_draw_def)

lemma draw_positions_ok:
  "draws_ok us \<Longrightarrow> positions_ok m ps \<Longrightarrow> draw_positions m js ps us = (ps', us') \<Longrightarrow> positions_ok m ps' \<and> draws_ok us'"
proof (induction js arbitrary: ps us)
  case (Cons j js)
  obtain u us1 where n: "next_draw us = (u, us1)" by fastforce
  note u = draws_ok_next[OF Cons.prems(1) n]
  show ?case using Cons.IH[of us1 "ps[j := scale_draw u m]"] Cons.prems(2,3) u n
    by (simp add: positions_ok_update scale_draw_le)
qed simp

lemma order_pair_ok: "positions_ok m ps \<Longrightarrow> k < 5 \<Longrightarrow> positions_ok m (order_pair ps k)"
  by (simp add: order_pair_def positions_ok_update positions_ok_nth)

lemma order_pairs_ok: "positions_ok m ps \<Longrightarrow> \<forall>k \<in> set ks. k < 5 \<Longrightarrow> positions_ok m (foldl order_pair ps ks)"
  by (induction ks arbitrary: ps) (simp_all add: order_pair_ok)

lemma order_rounds_ok:
  "positions_ok m ps \<Longrightarrow> \<forall>j \<in> set js. j \<le> 5 \<Longrightarrow> positions_ok m (foldl (\<lambda>p j. foldl order_pair p [1..<j]) ps js)"
proof (induction js arbitrary: ps)
  case (Cons j js)
  then have "positions_ok m (foldl order_pair ps [1..<j])" by (intro order_pairs_ok) auto
  then show ?case using Cons by simp
qed simp

lemma order_positions_ok: "positions_ok m ps \<Longrightarrow> positions_ok m (order_positions ps)"
  unfolding order_positions_def by (rule order_rounds_ok) simp_all

lemma draw_selected_ok:
  "draws_ok us \<Longrightarrow> \<forall>s \<in> set sel. s < 6 \<Longrightarrow> draw_selected k sel us = (sel', us') \<Longrightarrow> (\<forall>s \<in> set sel'. s < 6) \<and> draws_ok us'"
proof (induction k arbitrary: sel us)
  case (Suc k)
  obtain u us1 where n: "next_draw us = (u, us1)" by fastforce
  note u = draws_ok_next[OF Suc.prems(1) n]
  have "scale_draw u 6 < 6" using u by (intro scale_draw_less) auto
  define sel1 where "sel1 = (if scale_draw u 6 \<notin> set sel then sel @ [scale_draw u 6] else sel)"
  have "\<forall>s \<in> set sel1. s < 6" using Suc.prems(2) \<open>scale_draw u 6 < 6\<close> by (simp add: sel1_def)
  moreover have "draw_selected k sel1 us1 = (sel', us')" using Suc.prems(3) n by (simp only: draw_selected.simps prod.case Let_def sel1_def)
  ultimately show ?case using Suc.IH u by blast
qed simp

lemma segment_ok: "positions_ok m ps \<Longrightarrow> s < 6 \<Longrightarrow> k \<in> set (segment m ps s) \<Longrightarrow> k < m"
  using positions_ok_nth[of m ps "Suc s"] by (auto simp: segment_def split: if_splits)

lemma mg_shuffle_mset:
  "draws_ok us \<Longrightarrow> \<forall>i \<in> set is. i < length s \<Longrightarrow> mg_shuffle is s us = (s', us') \<Longrightarrow> mset s' = mset s \<and> draws_ok us'"
proof (induction "is" arbitrary: s us)
  case (Cons i "is")
  obtain u us1 where n: "next_draw us = (u, us1)" by fastforce
  note u = draws_ok_next[OF Cons.prems(1) n]
  have i: "i < length s" using Cons.prems(2) by simp
  have "scale_draw u i \<le> i" using u by (intro scale_draw_le) auto
  then have j: "scale_draw u i < length s" using i by simp
  show ?case using Cons.IH[of us1 "s[i := s ! scale_draw u i, scale_draw u i := s ! i]"] Cons.prems(2,3) u n mset_swap[OF j i]
    by (simp add: Let_def)
qed simp

section \<open>Crossover and variation spare the best chromosome\<close>

lemma cross_two_touched:
  assumes ok: "genes_ok m (cr_population st)" "crossing_ok m st" and x: "x < length (cr_population st)" "y < length (cr_population st)"
  shows "\<exists>st'. cross_two m pr x y st = Inr st' \<and> crossing_ok m st' \<and> cr_follow st' = cr_follow st \<and>
    touched m {x, y} (cr_population st) (cr_population st')"
proof -
  obtain u us1 where n: "next_draw (cr_draws st) = (u, us1)" by fastforce
  have us1: "draws_ok us1" using draws_ok_next[OF _ n] ok(2) by (simp add: crossing_ok_def)
  obtain ps us2 where ps: "draw_positions m [1..<6] (cr_position st) us1 = (ps, us2)" by fastforce
  obtain sel us3 where sel: "draw_selected 3 (cr_selected st) us2 = (sel, us3)" by fastforce
  have ps_ok: "positions_ok m (order_positions ps)" "draws_ok us2"
    using draw_positions_ok[OF us1 _ ps] ok(2) by (auto simp: crossing_ok_def intro: order_positions_ok)
  have sel_ok: "\<forall>s \<in> set sel. s < 6" "draws_ok us3"
    using draw_selected_ok[OF ps_ok(2) _ sel] ok(2) by (simp_all add: crossing_ok_def)
  have "k < m" if "k \<in> set (concat (map (segment m (order_positions ps)) sel))" for k
    using that segment_ok[OF ps_ok(1)] sel_ok(1) by auto
  then obtain pop' where pop': "res_fold (swap_gene x y) (cr_population st) (concat (map (segment m (order_positions ps)) sel)) = Inr pop'"
    "touched m {x, y} (cr_population st) pop'" using swap_genes_touched[OF x ok(1)] by blast
  show ?thesis
  proof (cases "u < pr")
    case True
    then have "cross_two m pr x y st = Inr (st\<lparr>cr_population := pop', cr_position := order_positions ps, cr_selected := sel, cr_draws := us3\<rparr>)"
      using n ps sel pop'(1) by (simp add: cross_two_def Let_def)
    then show ?thesis using pop'(2) ps_ok(1) sel_ok by (simp add: crossing_ok_def)
  next
    case False
    then have "cross_two m pr x y st = Inr (st\<lparr>cr_draws := us1\<rparr>)" using n by (simp add: cross_two_def)
    then show ?thesis using ok us1 by (simp add: crossing_ok_def touched_refl)
  qed
qed

text \<open>What becomes of the best chromosome \<open>out\<close>: it stays, and its partner becomes a copy of it.\<close>

definition elite_kept :: "nat option \<Rightarrow> nat list \<Rightarrow> nat option \<Rightarrow> nat option \<Rightarrow> mg_chromosome list \<Rightarrow> mg_chromosome list \<Rightarrow> bool" where
  "elite_kept out seq follow follow' pop pop' \<longleftrightarrow>
     (case out of
        None \<Rightarrow> follow' = follow
      | Some x \<Rightarrow> if x \<in> set seq then \<exists>y \<in> set seq. y \<noteq> x \<and> follow' = Some y \<and> pop' ! y = pop ! x else follow' = follow)"

lemma mg_cross_pairs_touched:
  assumes "genes_ok m (cr_population st)" "crossing_ok m st" "distinct seq" "even (length seq)"
    "\<forall>x \<in> set seq. x < length (cr_population st)"
  shows "\<exists>st'. mg_cross_pairs m pr out seq st = Inr st' \<and> crossing_ok m st' \<and>
    touched m {x \<in> set seq. Some x \<noteq> out} (cr_population st) (cr_population st') \<and>
    elite_kept out seq (cr_follow st) (cr_follow st') (cr_population st) (cr_population st')"
  using assms
proof (induction m pr out seq st rule: mg_cross_pairs.induct)
  case (1 m pr out st)
  then show ?case by (auto simp: touched_refl elite_kept_def split: option.splits)
next
  case (2 m pr out x st)
  then show ?case by simp
next
  case (3 m pr out x y rest st)
  let ?pop = "cr_population st"
  have xy: "x < length ?pop" "y < length ?pop" "x \<noteq> y" using "3.prems" by auto
  have cont: "\<exists>st'. mg_cross_pairs m pr out rest st1 = Inr st' \<and> crossing_ok m st' \<and>
      touched m {z \<in> set rest. Some z \<noteq> out} (cr_population st1) (cr_population st') \<and>
      elite_kept out rest (cr_follow st1) (cr_follow st') (cr_population st1) (cr_population st')"
    if "(if Some x \<noteq> out \<and> Some y \<noteq> out then cross_two m pr x y st
        else if Some x = out
        then res_bind (copy_chromosome m x y ?pop) (\<lambda>pop. Inr (st\<lparr>cr_population := pop, cr_follow := Some y\<rparr>))
        else res_bind (copy_chromosome m y x ?pop) (\<lambda>pop. Inr (st\<lparr>cr_population := pop, cr_follow := Some x\<rparr>))) = Inr st1"
      "crossing_ok m st1" "touched m X ?pop (cr_population st1)" for st1 X
    using that "3.prems" by (intro "3.IH") (auto simp: touched_def)
  consider (other) "Some x \<noteq> out" "Some y \<noteq> out" | (first) "out = Some x" | (second) "out = Some y" by metis
  then show ?case
  proof cases
    case other
    from cross_two_touched[OF "3.prems"(1,2) xy(1,2)] obtain st1 where st1: "cross_two m pr x y st = Inr st1"
      "crossing_ok m st1" "cr_follow st1 = cr_follow st" "touched m {x, y} ?pop (cr_population st1)" by blast
    from cont[OF _ st1(2,4)] other st1(1) obtain st2 where st2: "mg_cross_pairs m pr out rest st1 = Inr st2" "crossing_ok m st2"
      "touched m {z \<in> set rest. Some z \<noteq> out} (cr_population st1) (cr_population st2)"
      "elite_kept out rest (cr_follow st1) (cr_follow st2) (cr_population st1) (cr_population st2)" by auto
    have "touched m {z \<in> set (x # y # rest). Some z \<noteq> out} ?pop (cr_population st2)"
      by (rule touched_trans[OF st1(4) st2(3)]) (use other in auto)
    moreover have "cr_population st1 ! z = ?pop ! z" if "out = Some z" "z \<in> set rest" for z
      using st1(4) that other "3.prems"(5) by (auto simp: touched_def)
    then have "elite_kept out (x # y # rest) (cr_follow st) (cr_follow st2) ?pop (cr_population st2)"
      using st2(4) st1(3) other by (auto simp: elite_kept_def split: option.splits if_splits)
    ultimately show ?thesis using st1(1) st2(1,2) other by auto
  next
    case first
    let ?st1 = "st\<lparr>cr_population := ?pop[y := ?pop ! x], cr_follow := Some y\<rparr>"
    have t: "touched m {y} ?pop (cr_population ?st1)"
      using genes_ok_nth[OF "3.prems"(1) xy(1)] "3.prems"(1) by (auto intro!: touched_update)
    have c1: "crossing_ok m ?st1" using "3.prems"(2) by (simp add: crossing_ok_def)
    have e1: "copy_chromosome m x y ?pop = Inr (?pop[y := ?pop ! x])" by (rule copy_chromosome_eval[OF "3.prems"(1) xy])
    from cont[OF _ c1 t] first e1 obtain st2 where st2: "mg_cross_pairs m pr out rest ?st1 = Inr st2" "crossing_ok m st2"
      "touched m {z \<in> set rest. Some z \<noteq> out} (cr_population ?st1) (cr_population st2)"
      "elite_kept out rest (cr_follow ?st1) (cr_follow st2) (cr_population ?st1) (cr_population st2)" by auto
    have "touched m {z \<in> set (x # y # rest). Some z \<noteq> out} ?pop (cr_population st2)"
      by (rule touched_trans[OF t st2(3)]) (use first xy(3) in auto)
    moreover have "y \<notin> set rest" "x \<notin> set rest" using "3.prems"(3) by auto
    then have "cr_follow st2 = Some y" "cr_population st2 ! y = ?pop ! x"
      using st2(3,4) first xy(2) by (auto simp: touched_def elite_kept_def)
    then have "elite_kept out (x # y # rest) (cr_follow st) (cr_follow st2) ?pop (cr_population st2)"
      using first xy(3) by (simp add: elite_kept_def)
    ultimately show ?thesis using first e1 st2(1,2) by auto
  next
    case second
    let ?st1 = "st\<lparr>cr_population := ?pop[x := ?pop ! y], cr_follow := Some x\<rparr>"
    have t: "touched m {x} ?pop (cr_population ?st1)"
      using genes_ok_nth[OF "3.prems"(1) xy(2)] "3.prems"(1) by (auto intro!: touched_update)
    have c1: "crossing_ok m ?st1" using "3.prems"(2) by (simp add: crossing_ok_def)
    have e1: "copy_chromosome m y x ?pop = Inr (?pop[x := ?pop ! y])"
      by (rule copy_chromosome_eval[OF "3.prems"(1) xy(2,1) xy(3)[symmetric]])
    from cont[OF _ c1 t] second xy(3) e1 obtain st2 where st2: "mg_cross_pairs m pr out rest ?st1 = Inr st2" "crossing_ok m st2"
      "touched m {z \<in> set rest. Some z \<noteq> out} (cr_population ?st1) (cr_population st2)"
      "elite_kept out rest (cr_follow ?st1) (cr_follow st2) (cr_population ?st1) (cr_population st2)" by auto
    have "touched m {z \<in> set (x # y # rest). Some z \<noteq> out} ?pop (cr_population st2)"
      by (rule touched_trans[OF t st2(3)]) (use second xy(3) in auto)
    moreover have "y \<notin> set rest" "x \<notin> set rest" using "3.prems"(3) by auto
    then have "cr_follow st2 = Some x" "cr_population st2 ! x = ?pop ! y"
      using st2(3,4) second xy(1) by (auto simp: touched_def elite_kept_def)
    then have "elite_kept out (x # y # rest) (cr_follow st) (cr_follow st2) ?pop (cr_population st2)"
      using second xy(3) by (simp add: elite_kept_def)
    ultimately show ?thesis using second xy(3) e1 st2(1,2) by auto
  qed
qed

lemma crossover_touched:
  assumes "genes_ok (mg_edges_quantity a) pop" "draws_ok us" "mg_chromosome_quantity a \<le> length pop" "even (mg_chromosome_quantity a)"
  shows "\<exists>pop' follow us'. crossover_multi_point a out pop us = Inr (pop', follow, us') \<and> draws_ok us' \<and>
    touched (mg_edges_quantity a) {x. x < mg_chromosome_quantity a \<and> Some x \<noteq> out} pop pop' \<and>
    elite_kept out [0..<mg_chromosome_quantity a] None follow pop pop'"
proof -
  let ?q = "mg_chromosome_quantity a" and ?m = "mg_edges_quantity a"
  obtain seq us1 where sh: "mg_shuffle [0..<?q] [0..<?q] us = (seq, us1)" by fastforce
  have s: "mset seq = mset [0..<?q]" "draws_ok us1" using mg_shuffle_mset[OF assms(2) _ sh] by auto
  have "set seq = set [0..<?q]" by (rule mset_eq_setD[OF s(1)])
  moreover have "distinct seq" using mset_eq_imp_distinct_iff[OF s(1)] distinct_upt by (rule iffD2)
  moreover have "length seq = length [0..<?q]" by (rule mset_eq_length[OF s(1)])
  ultimately have st: "set seq = {..<?q}" "distinct seq" "length seq = ?q" by (simp_all only: set_upt length_upt atLeast0LessThan diff_zero)
  define st0 where "st0 = \<lparr>cr_population = pop, cr_position = [0, 0, 0, 0, 0, 0], cr_selected = [], cr_follow = None, cr_draws = us1\<rparr>"
  have "crossing_ok ?m st0" using s(2) by (simp add: crossing_ok_def positions_ok_def st0_def)
  then have "\<exists>st1. mg_cross_pairs ?m (mg_crossover_probability a) out seq st0 = Inr st1 \<and> crossing_ok ?m st1 \<and>
      touched ?m {x \<in> set seq. Some x \<noteq> out} (cr_population st0) (cr_population st1) \<and>
      elite_kept out seq (cr_follow st0) (cr_follow st1) (cr_population st0) (cr_population st1)"
    using assms(1,3,4) st by (intro mg_cross_pairs_touched) (simp_all add: st0_def)
  then obtain st1 where
    st1: "mg_cross_pairs ?m (mg_crossover_probability a) out seq st0 = Inr st1" "crossing_ok ?m st1"
    "touched ?m {x \<in> set seq. Some x \<noteq> out} pop (cr_population st1)"
    "elite_kept out seq None (cr_follow st1) pop (cr_population st1)" by (auto simp only: st0_def crossing.simps)
  have "{x \<in> set seq. Some x \<noteq> out} = {x. x < ?q \<and> Some x \<noteq> out}" using st(1) by auto
  moreover have "elite_kept out [0..<?q] None (cr_follow st1) pop (cr_population st1)"
    using st1(4) unfolding elite_kept_def st(1) set_upt atLeast0LessThan .
  moreover have "crossover_multi_point a out pop us = Inr (cr_population st1, cr_follow st1, cr_draws st1)"
    using sh st1(1) by (simp add: crossover_multi_point_def st0_def)
  ultimately show ?thesis using st1(2,3) by (auto simp: crossing_ok_def)
qed

lemma flip_genes_ok:
  "draws_ok us \<Longrightarrow> \<forall>j \<in> set js. j < length gs \<Longrightarrow>
     \<exists>gs' us'. flip_genes pr js gs us = Inr (gs', us') \<and> length gs' = length gs \<and> draws_ok us'"
proof (induction js arbitrary: gs us)
  case (Cons j js)
  obtain u us1 where n: "next_draw us = (u, us1)" by fastforce
  have "draws_ok us1" using draws_ok_next[OF Cons.prems(1) n] by simp
  then show ?case using Cons.IH[of us1 gs] Cons.IH[of us1 "gs[j := \<not> gs ! j]"] Cons.prems(2) n by auto
qed simp

lemma vary_touched:
  "draws_ok us \<Longrightarrow> genes_ok m pop \<Longrightarrow> \<forall>i \<in> set is. i < length pop \<Longrightarrow>
     \<exists>pop' us'. vary m pr out follow is pop us = Inr (pop', us') \<and> draws_ok us' \<and>
       touched m {i \<in> set is. Some i \<noteq> out \<and> Some i \<noteq> follow} pop pop'"
proof (induction "is" arbitrary: pop us)
  case Nil
  then show ?case by (simp add: touched_refl)
next
  case (Cons i "is")
  show ?case
  proof (cases "Some i \<noteq> out \<and> Some i \<noteq> follow")
    case True
    have i: "i < length pop" using Cons.prems(3) by simp
    have "\<forall>j \<in> set [0..<m]. j < length (mc_genes (pop ! i))" using genes_ok_nth[OF Cons.prems(2) i] by simp
    from flip_genes_ok[OF Cons.prems(1) this, of pr] obtain gs us1 where
      f: "flip_genes pr [0..<m] (mc_genes (pop ! i)) us = Inr (gs, us1)" "length gs = m" "draws_ok us1"
      using genes_ok_nth[OF Cons.prems(2) i] by auto
    have t: "touched m {i} pop (pop[i := (pop ! i)\<lparr>mc_genes := gs\<rparr>])" using Cons.prems(2) f(2) by (intro touched_update) auto
    with Cons.IH[OF f(3), of "pop[i := (pop ! i)\<lparr>mc_genes := gs\<rparr>]"] Cons.prems(3) obtain pop' us' where
      v: "vary m pr out follow is (pop[i := (pop ! i)\<lparr>mc_genes := gs\<rparr>]) us1 = Inr (pop', us')" "draws_ok us'"
      "touched m {i \<in> set is. Some i \<noteq> out \<and> Some i \<noteq> follow} (pop[i := (pop ! i)\<lparr>mc_genes := gs\<rparr>]) pop'"
      by (auto simp: touched_def)
    have "touched m {j \<in> set (i # is). Some j \<noteq> out \<and> Some j \<noteq> follow} pop pop'"
      by (rule touched_trans[OF t v(3)]) (use True in auto)
    then show ?thesis using v(1,2) f(1) True i by (simp add: py_nth_def)
  next
    case False
    then have "{j \<in> set (i # is). Some j \<noteq> out \<and> Some j \<noteq> follow} = {j \<in> set is. Some j \<noteq> out \<and> Some j \<noteq> follow}" by auto
    then show ?thesis using False Cons by auto
  qed
qed

lemma variation_touched:
  assumes "draws_ok us" "genes_ok (mg_edges_quantity a) pop" "mg_chromosome_quantity a \<le> length pop"
  shows "\<exists>pop' us'. variation a out follow pop us = Inr (pop', us') \<and> draws_ok us' \<and>
       touched (mg_edges_quantity a) {i. i < mg_chromosome_quantity a \<and> Some i \<noteq> out \<and> Some i \<noteq> follow} pop pop'"
proof -
  have "{i \<in> set [0..<mg_chromosome_quantity a]. Some i \<noteq> out \<and> Some i \<noteq> follow} =
      {i. i < mg_chromosome_quantity a \<and> Some i \<noteq> out \<and> Some i \<noteq> follow}" by auto
  with vary_touched[OF assms(1,2), of "[0..<mg_chromosome_quantity a]"] assms(3) show ?thesis
    unfolding variation_def by auto
qed

section \<open>Evaluation and selection\<close>

text \<open>A chromosome whose stored fitness is that of its genes.\<close>

definition rated :: "mg \<Rightarrow> mg_chromosome \<Rightarrow> bool" where
  "rated a c \<longleftrightarrow> length (mc_genes c) = mg_edges_quantity a \<and> fitness_of a (mc_genes c) = Some (Inr (mc_fitness c))"

lemma evaluate_all_rated:
  assumes ok: "mg_net_ok a" "mg_lists_ok a" "mg_des_vertexes a \<noteq> []"
  shows "genes_ok (mg_edges_quantity a) pop \<Longrightarrow> \<forall>j \<in> set js. j < length pop \<Longrightarrow>
    \<exists>pop'. evaluate_all a js pop = Some (Inr pop') \<and> touched (mg_edges_quantity a) (set js) pop pop' \<and> (\<forall>j \<in> set js. rated a (pop' ! j))"
proof (induction js arbitrary: pop)
  case Nil
  then show ?case by (simp add: touched_refl)
next
  case (Cons j js)
  have j: "j < length pop" and len: "length (mc_genes (pop ! j)) = mg_edges_quantity a"
    using Cons.prems genes_ok_nth[OF Cons.prems(1), of j] by simp_all
  from fitness_of_tree[OF ok(1,2) len ok(3)] obtain f where f: "fitness_of a (mc_genes (pop ! j)) = Some (Inr f)" by blast
  let ?c = "(pop ! j)\<lparr>mc_fitness := f\<rparr>"
  have t: "touched (mg_edges_quantity a) {j} pop (pop[j := ?c])" using Cons.prems(1) len by (intro touched_update) auto
  with Cons.IH[of "pop[j := ?c]"] Cons.prems(2) obtain pop' where
    p: "evaluate_all a js (pop[j := ?c]) = Some (Inr pop')" "touched (mg_edges_quantity a) (set js) (pop[j := ?c]) pop'"
    "\<forall>j \<in> set js. rated a (pop' ! j)" by (auto simp: touched_def)
  have "rated a ?c" using f len by (simp add: rated_def)
  then have "rated a (pop' ! j)" using p(2,3) j by (cases "j \<in> set js") (auto simp: touched_def)
  moreover have "touched (mg_edges_quantity a) (set (j # js)) pop pop'" by (rule touched_trans[OF t p(2)]) auto
  moreover have "evaluate_all a (j # js) pop = Some (Inr pop')"
    using p(1) f j by (simp add: py_nth_def mg_fitness_evaluate_def)
  ultimately show ?case using p(3) by simp
qed

lemma evaluate_population_spec:
  assumes "q \<le> length pop" "0 < q"
  shows "\<exists>b < q. evaluate_population q pop = Inr b \<and>
    (\<forall>i < q. mc_fitness (pop ! i) < ENDLESS_FLOAT \<longrightarrow> mc_fitness (pop ! b) \<le> mc_fitness (pop ! i))"
proof -
  let ?f = "\<lambda>(best_fitness, outstanding) i. res_bind (py_nth pop i) (\<lambda>c.
        Inr (if best_fitness > mc_fitness c then (mc_fitness c, i) else (best_fitness, outstanding)))"
  have "\<exists>m b. res_fold ?f (ENDLESS_FLOAT, 0) [0..<k] = Inr (m, b) \<and> b < q \<and> m \<le> ENDLESS_FLOAT \<and>
      (m < ENDLESS_FLOAT \<longrightarrow> m = mc_fitness (pop ! b)) \<and> (\<forall>i < k. mc_fitness (pop ! i) < ENDLESS_FLOAT \<longrightarrow> m \<le> mc_fitness (pop ! i))"
    if "k \<le> q" for k
    using that
  proof (induction k)
    case 0
    then show ?case using assms(2) by simp
  next
    case (Suc k)
    then obtain m b where mb: "res_fold ?f (ENDLESS_FLOAT, 0) [0..<k] = Inr (m, b)" "b < q" "m \<le> ENDLESS_FLOAT"
      "m < ENDLESS_FLOAT \<longrightarrow> m = mc_fitness (pop ! b)"
      "\<forall>i < k. mc_fitness (pop ! i) < ENDLESS_FLOAT \<longrightarrow> m \<le> mc_fitness (pop ! i)" by auto
    show ?case
    proof (cases "m > mc_fitness (pop ! k)")
      case True
      then have "res_fold ?f (ENDLESS_FLOAT, 0) [0..<Suc k] = Inr (mc_fitness (pop ! k), k)"
        using mb(1) Suc.prems assms(1) by (simp add: res_fold_append py_nth_def)
      then show ?thesis using True mb(2-5) Suc.prems by (force simp: less_Suc_eq)
    next
      case False
      then have "res_fold ?f (ENDLESS_FLOAT, 0) [0..<Suc k] = Inr (m, b)"
        using mb(1) Suc.prems assms(1) by (simp add: res_fold_append py_nth_def)
      then show ?thesis using False mb(2-5) by (force simp: less_Suc_eq)
    qed
  qed
  from this[OF order_refl] obtain m b where mb: "res_fold ?f (ENDLESS_FLOAT, 0) [0..<q] = Inr (m, b)" "b < q" "m \<le> ENDLESS_FLOAT"
      "m < ENDLESS_FLOAT \<longrightarrow> m = mc_fitness (pop ! b)"
      "\<forall>i < q. mc_fitness (pop ! i) < ENDLESS_FLOAT \<longrightarrow> m \<le> mc_fitness (pop ! i)" by blast
  have "evaluate_population q pop = Inr b" using mb(1) by (simp add: evaluate_population_def)
  moreover have "mc_fitness (pop ! b) \<le> mc_fitness (pop ! i)" if "i < q" "mc_fitness (pop ! i) < ENDLESS_FLOAT" for i
    using mb(4,5) that by fastforce
  ultimately show ?thesis using mb(2) by blast
qed

lemma championship_ok:
  "draws_ok us \<Longrightarrow> 0 < q \<Longrightarrow> q \<le> length pop \<Longrightarrow> b < q \<Longrightarrow> \<exists>b' us'. championship k q pop b us = Inr (b', us') \<and> b' < q \<and> draws_ok us'"
proof (induction k arbitrary: b us)
  case (Suc k)
  obtain u us1 where n: "next_draw us = (u, us1)" by fastforce
  note u = draws_ok_next[OF Suc.prems(1) n]
  have r: "scale_draw u q < q" using u Suc.prems(2) by (intro scale_draw_less) auto
  show ?case
    using Suc.IH[of us1 "if mc_fitness (pop ! b) > mc_fitness (pop ! scale_draw u q) then scale_draw u q else b"] Suc.prems u r n
    by (simp add: py_nth_def Let_def)
qed simp

lemma select_champions_ok:
  assumes q: "0 < mg_chromosome_quantity a" "mg_chromosome_quantity a \<le> length pop"
    and r: "\<forall>i < mg_chromosome_quantity a. rated a (pop ! i)"
  shows "draws_ok us \<Longrightarrow> \<exists>cs us'. select_champions k a pop us = Inr (cs, us') \<and> length cs = k \<and> draws_ok us' \<and> (\<forall>c \<in> set cs. rated a c)"
proof (induction k arbitrary: us)
  case (Suc k)
  let ?q = "mg_chromosome_quantity a"
  obtain u us1 where n: "next_draw us = (u, us1)" by fastforce
  note u = draws_ok_next[OF Suc.prems n]
  have "scale_draw u ?q < ?q" using u q(1) by (intro scale_draw_less) auto
  from championship_ok[OF _ q this, of us1 "mg_candidate_quantity a - 1"] u obtain b us2 where
    b: "championship (mg_candidate_quantity a - 1) ?q pop (scale_draw u ?q) us1 = Inr (b, us2)" "b < ?q" "draws_ok us2" by auto
  from Suc.IH[OF b(3)] obtain cs us3 where
    cs: "select_champions k a pop us2 = Inr (cs, us3)" "length cs = k" "draws_ok us3" "\<forall>c \<in> set cs. rated a c" by blast
  have rb: "rated a (pop ! b)" using r b(2) by simp
  then have "res_map (py_nth (mc_genes (pop ! b))) [0..<mg_edges_quantity a] = Inr (map (nth (mc_genes (pop ! b))) [0..<mg_edges_quantity a])"
    by (intro res_map_total) (simp add: py_nth_def rated_def)
  also have "map (nth (mc_genes (pop ! b))) [0..<mg_edges_quantity a] = mc_genes (pop ! b)"
    using rb map_nth[of "mc_genes (pop ! b)"] by (simp add: rated_def)
  finally have gs: "res_map (py_nth (mc_genes (pop ! b))) [0..<mg_edges_quantity a] = Inr (mc_genes (pop ! b))" .
  have "py_nth pop b = Inr (pop ! b)" using b(2) q(2) by (simp add: py_nth_def)
  with gs have "select_champions (Suc k) a pop us = Inr (\<lparr>mc_genes = mc_genes (pop ! b), mc_fitness = mc_fitness (pop ! b)\<rparr> # cs, us3)"
    using n b(1) cs(1) by simp
  then show ?case using cs(2-4) rb by (simp add: rated_def)
qed simp

section \<open>Generations\<close>

text \<open>A population the algorithm can work on; in later runs it also holds chromosomes of earlier ones.\<close>

definition population_ok :: "mg \<Rightarrow> mg_chromosome list \<Rightarrow> bool" where
  "population_ok a pop \<longleftrightarrow> genes_ok (mg_edges_quantity a) pop \<and> mg_chromosome_quantity a \<le> length pop \<and>
     even (mg_chromosome_quantity a) \<and> 0 < mg_chromosome_quantity a"

lemma rated_population:
  "(\<forall>c \<in> set pop. rated a c) \<Longrightarrow> length pop = mg_chromosome_quantity a \<Longrightarrow> even (mg_chromosome_quantity a) \<Longrightarrow>
     0 < mg_chromosome_quantity a \<Longrightarrow> population_ok a pop"
  by (simp add: population_ok_def genes_ok_def rated_def)

lemma mg_generation_ok:
  assumes ok: "mg_net_ok a" "mg_lists_ok a" "mg_des_vertexes a \<noteq> []" and pop: "population_ok a pop" and us: "draws_ok us"
  shows "\<exists>best pop' us'. mg_generation a out pop us = Some (Inr (best, pop', us')) \<and> draws_ok us' \<and>
    population_ok a pop' \<and> length pop' = mg_chromosome_quantity a \<and> (\<forall>c \<in> set pop'. rated a c)"
proof -
  let ?q = "mg_chromosome_quantity a" and ?m = "mg_edges_quantity a"
  have p: "genes_ok ?m pop" "?q \<le> length pop" "even ?q" "0 < ?q" using pop by (simp_all add: population_ok_def)
  from crossover_touched[OF p(1) us p(2,3), of out] obtain pop1 follow us1 where
    c: "crossover_multi_point a out pop us = Inr (pop1, follow, us1)" "draws_ok us1" "genes_ok ?m pop1" "length pop1 = length pop"
    by (auto simp: touched_def)
  from variation_touched[OF c(2,3), of out follow] p(2) c(4) obtain pop2 us2 where
    v: "variation a out follow pop1 us1 = Inr (pop2, us2)" "draws_ok us2" "genes_ok ?m pop2" "length pop2 = length pop"
    by (auto simp: touched_def)
  from evaluate_all_rated[OF ok v(3), of "[0..<?q]"] p(2) v(4) obtain pop3 where
    e: "evaluate_all a [0..<?q] pop2 = Some (Inr pop3)" "length pop3 = length pop" "\<forall>i < ?q. rated a (pop3 ! i)"
    by (auto simp: touched_def)
  from select_champions_ok[OF p(4) _ e(3) v(2), of ?q] p(2) e(2) obtain pop4 us3 where
    s: "select_champions ?q a pop3 us2 = Inr (pop4, us3)" "length pop4 = ?q" "draws_ok us3" "\<forall>c \<in> set pop4. rated a c" by auto
  from evaluate_population_spec[of ?q pop4] s(2) p(4) obtain best where "evaluate_population ?q pop4 = Inr best" by auto
  then have "mg_generation a out pop us = Some (Inr (best, pop4, us3))"
    using c(1) v(1) e(1) s(1) by (simp add: mg_generation_def selection_championships_def)
  then show ?thesis using s(2-4) rated_population[OF s(4,2) p(3,4)] by blast
qed

lemma mg_generations_ok:
  assumes ok: "mg_net_ok a" "mg_lists_ok a" "mg_des_vertexes a \<noteq> []"
  shows "population_ok a pop \<Longrightarrow> draws_ok us \<Longrightarrow>
    \<exists>pop' us'. mg_generations k a out pop us = Some (Inr (pop', us')) \<and> draws_ok us' \<and> population_ok a pop' \<and>
      (0 < k \<longrightarrow> length pop' = mg_chromosome_quantity a \<and> (\<forall>c \<in> set pop'. rated a c))"
proof (induction k arbitrary: out pop us)
  case (Suc k)
  from mg_generation_ok[OF ok Suc.prems, of out] obtain best pop1 us1 where
    g: "mg_generation a out pop us = Some (Inr (best, pop1, us1))" "draws_ok us1" "population_ok a pop1"
    "length pop1 = mg_chromosome_quantity a" "\<forall>c \<in> set pop1. rated a c" by blast
  from Suc.IH[OF g(3,2), of "Some best"] g show ?case by (cases k) auto
qed auto

section \<open>Property\<close>

text \<open>
  C17. Crossover and variation spare the best chromosome: they never raise, the chromosome at \<open>outstanding\<close> is
  unchanged afterwards, genes and fitness, and the chromosome it was paired with, whose position \<open>follow_outstanding\<close> reports,
  is an exact copy of it.
\<close>

theorem operators_keep_outstanding:
  assumes "genes_ok (mg_edges_quantity a) pop" "mg_chromosome_quantity a \<le> length pop" "even (mg_chromosome_quantity a)"
    and "x < mg_chromosome_quantity a" "draws_ok us"
  shows "\<exists>pop1 y us1 pop2 us2. crossover_multi_point a (Some x) pop us = Inr (pop1, Some y, us1) \<and>
    variation a (Some x) (Some y) pop1 us1 = Inr (pop2, us2) \<and> genes_ok (mg_edges_quantity a) pop2 \<and> length pop2 = length pop \<and>
    y \<noteq> x \<and> y < mg_chromosome_quantity a \<and> pop2 ! x = pop ! x \<and> pop2 ! y = pop ! x"
proof -
  let ?m = "mg_edges_quantity a"
  from crossover_touched[OF assms(1,5,2,3), of "Some x"] obtain pop1 f us1 where
    c: "crossover_multi_point a (Some x) pop us = Inr (pop1, f, us1)" "draws_ok us1"
    "touched ?m {z. z < mg_chromosome_quantity a \<and> Some z \<noteq> Some x} pop pop1"
    "elite_kept (Some x) [0..<mg_chromosome_quantity a] None f pop pop1" by blast
  then obtain y where y: "y < mg_chromosome_quantity a" "y \<noteq> x" "f = Some y" "pop1 ! y = pop ! x"
    using assms(4) by (auto simp: elite_kept_def)
  have p1: "genes_ok ?m pop1" "length pop1 = length pop" "pop1 ! x = pop ! x" using c(3) assms(2,4) by (auto simp: touched_def)
  from variation_touched[OF c(2) p1(1), of "Some x" "Some y"] assms(2) p1(2) obtain pop2 us2 where
    v: "variation a (Some x) (Some y) pop1 us1 = Inr (pop2, us2)"
    "touched ?m {i. i < mg_chromosome_quantity a \<and> Some i \<noteq> Some x \<and> Some i \<noteq> Some y} pop1 pop2" by auto
  then have "pop2 ! x = pop1 ! x" "pop2 ! y = pop1 ! y" "genes_ok ?m pop2" "length pop2 = length pop1"
    using assms(2,4) p1(2) y(1) by (auto simp: touched_def)
  then show ?thesis using c(1) v(1) y p1(2,3) by auto
qed

theorem operators_keep_outstanding_witness:
  "\<exists>pop1 y us1 pop2 us2.
    crossover_multi_point (wit_mg\<lparr>mg_chromosome_quantity := 2\<rparr>) (Some 1)
      [new_mg_chromosome 3, \<lparr>mc_genes = [True, True, False], mc_fitness = 2\<rparr>] [] = Inr (pop1, Some y, us1) \<and>
    variation (wit_mg\<lparr>mg_chromosome_quantity := 2\<rparr>) (Some 1) (Some y) pop1 us1 = Inr (pop2, us2) \<and>
    y = 0 \<and> pop2 ! 0 = \<lparr>mc_genes = [True, True, False], mc_fitness = 2\<rparr>"
proof -
  let ?a = "wit_mg\<lparr>mg_chromosome_quantity := 2\<rparr>"
  let ?pop = "[new_mg_chromosome 3, \<lparr>mc_genes = [True, True, False], mc_fitness = 2\<rparr>]"
  have h: "genes_ok (mg_edges_quantity ?a) ?pop" "mg_chromosome_quantity ?a \<le> length ?pop" "even (mg_chromosome_quantity ?a)"
    "1 < mg_chromosome_quantity ?a" "draws_ok []"
    by (simp_all add: genes_ok_def wit_mg_simps new_mg_chromosome_def draws_ok_def)
  from operators_keep_outstanding[OF h] obtain pop1 y us1 pop2 us2 where
    "crossover_multi_point ?a (Some 1) ?pop [] = Inr (pop1, Some y, us1)" "variation ?a (Some 1) (Some y) pop1 us1 = Inr (pop2, us2)"
    "y \<noteq> 1" "y < 2" "pop2 ! y = ?pop ! 1" by auto
  moreover from this have "y = 0" by linarith
  ultimately show ?thesis by auto
qed

end
