(* ===== verification/Mg_Group.thy ===== *)
theory Mg_Group
  imports Mg_Evolution Route_Graph
begin

text \<open>
  \<open>MGAlgorithm\<close> from the switch and link tables to the paths of a group: what \<open>init_algorithm\<close> and \<open>update_link_status\<close>
  build from well-formed tables, that \<open>run\<close> ends, and that the paths of \<open>get_link\<close> are a distribution tree on the switches.
\<close>

section \<open>From the tables to the graph\<close>

text \<open>
  The tables as the topology keeps them: one entry per pair of joined switches, in one order only; the neighbours
  of a switch are the switches it is joined with; every first cable is measured, and costs are small.
\<close>

definition cabled :: "link_table_api \<Rightarrow> nat \<Rightarrow> nat \<Rightarrow> bool" where
  "cabled lnks u v \<longleftrightarrow> (u, v) \<in> set (dict_keys lnks) \<or> (v, u) \<in> set (dict_keys lnks)"

definition mg_tables_ok :: "switch_table \<Rightarrow> link_table_api \<Rightarrow> bool" where
  "mg_tables_ok switches lnks \<longleftrightarrow> graph_input_ok switches lnks \<and> dict_ok lnks \<and>
     (\<forall>(u, v) \<in> set (dict_keys lnks). (v, u) \<notin> set (dict_keys lnks)) \<and>
     (\<forall>(d, sw) \<in> set switches. \<forall>n. n \<in> set (dict_keys (sw_neighbors sw)) \<longleftrightarrow> cabled lnks d n) \<and>
     (\<forall>(k, par) \<in> set lnks. link_available_band (snd (hd par)) \<noteq> None \<and> link_total_band (snd (hd par)) \<noteq> Some 0 \<and>
        0 \<le> the (link_cost (snd (hd par))) \<and>
        real (length switches + length lnks) * (the (link_cost (snd (hd par))) / COST_INDEX) < ENDLESS_FLOAT)"

lemma mg_tablesD:
  assumes "mg_tables_ok switches lnks"
  shows "graph_input_ok switches lnks" "dict_ok lnks" "dict_ok switches"
    "(u, v) \<in> set (dict_keys lnks) \<Longrightarrow> (v, u) \<notin> set (dict_keys lnks)"
    "(d, sw) \<in> set switches \<Longrightarrow> n \<in> set (dict_keys (sw_neighbors sw)) \<longleftrightarrow> cabled lnks d n"
  using assms graph_input_keys[of switches lnks] unfolding mg_tables_ok_def by blast+

lemma mg_tables_link:
  assumes "mg_tables_ok switches lnks" "((u, v), par) \<in> set lnks"
  shows "u \<in> set (dict_keys switches)" "v \<in> set (dict_keys switches)" "par \<noteq> []" "measured (snd (hd par))"
    "link_available_band (snd (hd par)) \<noteq> None" "link_total_band (snd (hd par)) \<noteq> Some 0" "0 \<le> the (link_cost (snd (hd par)))"
    "real (length switches + length lnks) * (the (link_cost (snd (hd par))) / COST_INDEX) < ENDLESS_FLOAT"
  using assms unfolding mg_tables_ok_def graph_input_ok_def by blast+

definition mg_edge_of :: "nat list \<Rightarrow> nat \<Rightarrow> (nat \<times> nat) \<times> (nat \<times> nat, link) pydict \<Rightarrow> mg_edge" where
  "mg_edge_of queue i e =
     new_mg_edge\<lparr>me_id := i, me_v0 := pos queue (fst (fst e)), me_v1 := pos queue (snd (fst e)),
       me_delay := the (link_delay (snd (hd (snd e)))), me_cost := the (link_cost (snd (hd (snd e)))) / COST_INDEX,
       me_width := the (link_total_band (snd (hd (snd e))))\<rparr>"

lemma mg_edge_of_id: "me_id (mg_edge_of queue i e) = i"
  by (simp add: mg_edge_of_def)

lemma map_map_cong: "(\<And>x. x \<in> set xs \<Longrightarrow> f (g x) = h x) \<Longrightarrow> map f (map g xs) = map h xs"
  by (induction xs) auto

lemma fill_edge_eval:
  assumes ok: "mg_tables_ok switches lnks" and k: "k < length lnks" "length es = length lnks" "es ! k = new_mg_edge"
  shows "fill_edge (dict_keys lnks) (dict_keys switches) es (lnks ! k) =
    Inr (es[k := mg_edge_of (dict_keys switches) k (lnks ! k)], k, snd (hd (snd (lnks ! k))))"
proof -
  obtain u v par where e: "lnks ! k = ((u, v), par)" by (metis prod.exhaust)
  then have m: "((u, v), par) \<in> set lnks" using k(1) by (metis nth_mem)
  note l = mg_tables_link[OF ok m]
  have "dict_keys lnks ! k = (u, v)" using k(1) e by simp
  then have "py_index (dict_keys lnks) (u, v) = Inr k"
    using pos_nth[OF mg_tablesD(2)[OF ok], of k] k(1) py_index_mem[of "(u, v)" "dict_keys lnks"] by (metis length_map nth_mem)
  moreover have "py_nth (dict_values par) 0 = Inr (snd (hd par))" using l(3) by (cases par) (auto simp: py_nth_def)
  ultimately show ?thesis
    using l(1,2,4) k e by (auto simp: fill_edge_def py_index_mem py_nth_def py_float_def measured_def mg_edge_of_def simp del: set_map)
qed

definition mg_vertex_of :: "nat list \<Rightarrow> mg_edge list \<Rightarrow> nat \<Rightarrow> nat \<times> switch \<Rightarrow> mg_vertex" where
  "mg_vertex_of queue es i e =
     (let ns = map (pos queue) (dict_keys (sw_neighbors (snd e)))
      in \<lparr>mv_id = i, mv_degree = length ns, mv_connect_vertex = ns,
          mv_connect_edge = concat (map (\<lambda>n. map me_id (filter (\<lambda>e. mg_joins e i n) es)) ns)\<rparr>)"

abbreviation mg_built_edges :: "switch_table \<Rightarrow> link_table_api \<Rightarrow> mg_edge list" where
  "mg_built_edges switches lnks \<equiv> map (\<lambda>i. mg_edge_of (dict_keys switches) i (lnks ! i)) [0..<length lnks]"

definition mg_built :: "switch_table \<Rightarrow> link_table_api \<Rightarrow> mg \<Rightarrow> mg" where
  "mg_built switches lnks a =
     a\<lparr>mg_switch_queue := dict_keys switches, mg_edge_queue := dict_keys lnks,
       mg_vertexes := map (\<lambda>i. mg_vertex_of (dict_keys switches) (mg_built_edges switches lnks) i (switches ! i)) [0..<length switches],
       mg_edges := mg_built_edges switches lnks, mg_vertexes_quantity := length switches, mg_edges_quantity := length lnks\<rparr>"

lemma mg_init_eval:
  assumes ok: "mg_tables_ok switches lnks" and a: "mg_vertexes a = []" "mg_edges a = []"
  shows "mg_init_algorithm switches lnks a = Inr (mg_built switches lnks a)"
proof -
  let ?q = "dict_keys switches" and ?es = "mg_built_edges switches lnks"
  let ?ns = "\<lambda>i. map (pos ?q) (dict_keys (sw_neighbors (snd (switches ! i))))"
  let ?v1 = "\<lambda>i. new_mg_vertex\<lparr>mv_id := i, mv_connect_vertex := ?ns i, mv_degree := length (?ns i)\<rparr>"
  have vs: "res_fold (fill_vertex ?q) (replicate (length switches) new_mg_vertex) switches = Inr (map ?v1 [0..<length switches])"
  proof (rule res_fold_positions)
    fix k ys assume k: "k < length switches" "length ys = length switches" "ys ! k = replicate (length switches) new_mg_vertex ! k"
    obtain d sw where e: "switches ! k = (d, sw)" by fastforce
    have mem: "(d, sw) \<in> set switches" using k(1) e by (metis nth_mem)
    have "?q ! k = d" using k(1) e by simp
    then have num: "py_index ?q d = Inr k"
      using pos_nth[OF mg_tablesD(3)[OF ok], of k] k(1) py_index_mem[of d ?q] by (metis length_map nth_mem)
    have "n \<in> set ?q" if "n \<in> set (dict_keys (sw_neighbors sw))" for n
      using graph_input_nbs[OF mg_tablesD(1)[OF ok] mem] that unfolding snd_conv by (rule subsetD)
    then have "res_map (py_index ?q) (dict_keys (sw_neighbors sw)) = Inr (?ns k)"
      unfolding e snd_conv by (intro res_map_total py_index_mem)
    then show "fill_vertex ?q ys (switches ! k) = Inr (ys[k := ?v1 k])"
      using k num by (simp add: fill_vertex_def e py_nth_def put_at_def)
  qed simp
  have es: "res_fold (\<lambda>es e. res_bind (fill_edge (dict_keys lnks) ?q es e) (\<lambda>(es', _). Inr es')) (replicate (length lnks) new_mg_edge) lnks = Inr ?es"
    using fill_edge_eval[OF ok] by (intro res_fold_positions) auto
  have cs: "res_fold (connect_vertex_edges ?es) (map ?v1 [0..<length switches]) [0..<length (map ?v1 [0..<length switches])] =
      Inr (map (\<lambda>i. mg_vertex_of ?q ?es i (switches ! i)) [0..<length [0..<length (map ?v1 [0..<length switches])]])"
  proof (rule res_fold_positions)
    fix k ys assume k: "k < length [0..<length (map ?v1 [0..<length switches])]" "length ys = length [0..<length (map ?v1 [0..<length switches])]"
      "ys ! k = map ?v1 [0..<length switches] ! k"
    then have k': "k < length switches" "length ys = length switches" "ys ! k = ?v1 k" by simp_all
    have hits: "(?v1 k)\<lparr>mv_connect_edge := connecting_edges ?es (?v1 k)\<rparr> = mg_vertex_of ?q ?es k (switches ! k)"
      by (simp add: mg_vertex_of_def connecting_edges_def new_mg_vertex_def Let_def)
    have "?v1 k = mg_vertex_of ?q ?es k (switches ! k)" if "connecting_edges ?es (?v1 k) = []"
      using hits that by (simp add: new_mg_vertex_def)
    then show "connect_vertex_edges ?es ys ([0..<length (map ?v1 [0..<length switches])] ! k) = Inr (ys[k := mg_vertex_of ?q ?es k (switches ! k)])"
      using k' hits list_update_id[of ys k] by (simp add: connect_vertex_edges_def py_nth_def put_at_def Let_def new_mg_vertex_def)
  qed simp
  show ?thesis
    using vs es cs by (simp add: mg_init_algorithm_def fill_vertexes_and_edges_def a mg_built_def Let_def)
qed

definition mg_ready :: "switch_table \<Rightarrow> link_table_api \<Rightarrow> mg \<Rightarrow> mg" where
  "mg_ready switches lnks a = (mg_built switches lnks a)\<lparr>mg_edges :=
     map (\<lambda>i. (mg_edge_of (dict_keys switches) i (lnks ! i))\<lparr>me_available_width := ENDLESS_FLOAT\<rparr>) [0..<length lnks]\<rparr>"

lemma mg_update_eval:
  assumes ok: "mg_tables_ok switches lnks"
  shows "mg_update_link_status lnks (mg_built switches lnks a) = Inr (mg_ready switches lnks a)"
proof -
  have "res_fold (mg_refresh_edge (dict_keys lnks) (dict_keys switches)) (replicate (length lnks) new_mg_edge) lnks =
      Inr (map (\<lambda>i. (mg_edge_of (dict_keys switches) i (lnks ! i))\<lparr>me_available_width := ENDLESS_FLOAT\<rparr>) [0..<length lnks])"
  proof (rule res_fold_positions)
    fix k es assume k: "k < length lnks" "length es = length lnks" "es ! k = replicate (length lnks) new_mg_edge ! k"
    obtain u v par where e: "lnks ! k = ((u, v), par)" by (metis prod.exhaust)
    then have "((u, v), par) \<in> set lnks" using k(1) by (metis nth_mem)
    note l = mg_tables_link(5,6)[OF ok this]
    have "es ! k = new_mg_edge" using k by simp
    from fill_edge_eval[OF ok k(1,2) this] k(1,2) l e
    show "mg_refresh_edge (dict_keys lnks) (dict_keys switches) es (lnks ! k) =
        Inr (es[k := (mg_edge_of (dict_keys switches) k (lnks ! k))\<lparr>me_available_width := ENDLESS_FLOAT\<rparr>])"
      by (auto simp: mg_refresh_edge_def py_float_def)
  qed simp
  then show ?thesis by (simp add: mg_update_link_status_def mg_built_def mg_ready_def)
qed

lemma mg_joins_built:
  assumes ok: "mg_tables_ok switches lnks" and i: "i < length lnks"
  shows "mg_joins (mg_edge_of (dict_keys switches) i (lnks ! i)) x y \<longleftrightarrow>
    (\<exists>u v. u \<in> set (dict_keys switches) \<and> v \<in> set (dict_keys switches) \<and> x = pos (dict_keys switches) u \<and> y = pos (dict_keys switches) v \<and>
       (dict_keys lnks ! i = (u, v) \<or> dict_keys lnks ! i = (v, u)))"
proof -
  obtain a b par where e: "lnks ! i = ((a, b), par)" by (metis prod.exhaust)
  then have "((a, b), par) \<in> set lnks" using i by (metis nth_mem)
  note l = mg_tables_link(1,2)[OF ok this]
  have "dict_keys lnks ! i = (a, b)" using i e by simp
  then show ?thesis using l by (auto simp: mg_joins_def mg_edge_of_def new_mg_edge_def e simp del: set_map)
qed

lemma built_edges_unique:
  assumes ok: "mg_tables_ok switches lnks" and ij: "i < length lnks" "j < length lnks"
    and m: "mg_joins (mg_edge_of (dict_keys switches) i (lnks ! i)) x y" "mg_joins (mg_edge_of (dict_keys switches) j (lnks ! j)) x y"
  shows "i = j"
proof -
  let ?q = "dict_keys switches" and ?k = "dict_keys lnks"
  obtain u v where uv: "u \<in> set ?q" "v \<in> set ?q" "x = pos ?q u" "y = pos ?q v" "?k ! i = (u, v) \<or> ?k ! i = (v, u)"
    using m(1) unfolding mg_joins_built[OF ok ij(1)] by blast
  obtain u' v' where uv': "u' \<in> set ?q" "v' \<in> set ?q" "x = pos ?q u'" "y = pos ?q v'" "?k ! j = (u', v') \<or> ?k ! j = (v', u')"
    using m(2) unfolding mg_joins_built[OF ok ij(2)] by blast
  have eq: "u' = u" "v' = v" using pos_inj uv(1-4) uv'(1-4) by metis+
  have mem: "?k ! i \<in> set ?k" "?k ! j \<in> set ?k" using ij nth_mem[of _ ?k] unfolding length_map by blast+
  have "?k ! i = ?k ! j"
  proof (rule ccontr)
    assume "?k ! i \<noteq> ?k ! j"
    then have "(u, v) \<in> set ?k" "(v, u) \<in> set ?k" using uv(5) uv'(5) mem unfolding eq by metis+
    then show False using mg_tablesD(4)[OF ok] by blast
  qed
  then show ?thesis using nth_eq_iff_index_eq[OF mg_tablesD(2)[OF ok]] ij by simp
qed

lemma built_edge_of_cable:
  assumes ok: "mg_tables_ok switches lnks" and c: "cabled lnks d n"
  shows "\<exists>i < length lnks. filter (\<lambda>e. mg_joins e (pos (dict_keys switches) d) (pos (dict_keys switches) n)) (mg_built_edges switches lnks) =
      [mg_edge_of (dict_keys switches) i (lnks ! i)] \<and>
    mg_joins (mg_edge_of (dict_keys switches) i (lnks ! i)) (pos (dict_keys switches) d) (pos (dict_keys switches) n)"
proof -
  let ?q = "dict_keys switches" and ?es = "mg_built_edges switches lnks"
  obtain i where i: "i < length lnks" "dict_keys lnks ! i = (d, n) \<or> dict_keys lnks ! i = (n, d)"
    using c unfolding cabled_def in_set_conv_nth by auto
  obtain a b par where e: "lnks ! i = ((a, b), par)" by (metis prod.exhaust)
  then have "((a, b), par) \<in> set lnks" using i(1) by (metis nth_mem)
  from mg_tables_link(1,2)[OF ok this] have "d \<in> set ?q" "n \<in> set ?q" using i e by auto
  then have j: "mg_joins (mg_edge_of ?q i (lnks ! i)) (pos ?q d) (pos ?q n)"
    unfolding mg_joins_built[OF ok i(1)] using i(2) by blast
  have "filter (\<lambda>e. mg_joins e (pos ?q d) (pos ?q n)) ?es = [?es ! i]"
  proof (rule filter_unique)
    fix k assume "k < length ?es" "mg_joins (?es ! k) (pos ?q d) (pos ?q n)"
    then show "k = i" using built_edges_unique[OF ok _ i(1) _ j, of k] by simp
  qed (use i(1) j in simp_all)
  then show ?thesis using i(1) j by auto
qed

lemma mg_ready_lists:
  assumes ok: "mg_tables_ok switches lnks"
  shows "mg_lists_ok (update_request s ds bw (mg_ready switches lnks a))"
proof -
  let ?q = "dict_keys switches" and ?a = "update_request s ds bw (mg_ready switches lnks a)"
  have a: "mg_edges_quantity ?a = length lnks" "mg_vertexes_quantity ?a = length switches" "length (mg_vertexes ?a) = length switches"
    by (simp_all add: update_request_def mg_ready_def mg_built_def)
  have join: "mg_joins (mg_edges ?a ! i) x y \<longleftrightarrow> mg_joins (mg_edge_of ?q i (lnks ! i)) x y" if "i < length lnks" for i x y
    using that by (simp add: update_request_def mg_ready_def mg_joins_def)
  have vert: "mg_vertexes ?a ! u = mg_vertex_of ?q (mg_built_edges switches lnks) u (switches ! u)" if "u < length switches" for u
    using that by (simp add: update_request_def mg_ready_def mg_built_def)
  have uq: "i = j" if "i < length lnks" "j < length lnks" "mg_joins (mg_edges ?a ! i) x y" "mg_joins (mg_edges ?a ! j) x y" for i j x y
    using built_edges_unique[OF ok that(1,2)] that(3,4) unfolding join[OF that(1)] join[OF that(2)] by blast
  have "case mg_vertexes ?a ! u of v \<Rightarrow>
        mv_degree v = length (mv_connect_vertex v) \<and> mv_degree v = length (mv_connect_edge v) \<and>
        (\<forall>k < mv_degree v. mv_connect_edge v ! k < length lnks \<and>
           mg_joins (mg_edges ?a ! (mv_connect_edge v ! k)) u (mv_connect_vertex v ! k)) \<and>
        (\<forall>i < length lnks. \<forall>y. mg_joins (mg_edges ?a ! i) u y \<longrightarrow> y \<in> set (mv_connect_vertex v))"
    if u: "u < length switches" for u
  proof -
    obtain d sw where e: "switches ! u = (d, sw)" by fastforce
    have mem: "(d, sw) \<in> set switches" using u e by (metis nth_mem)
    have d: "pos ?q d = u" using pos_nth[OF mg_tablesD(3)[OF ok], of u] u e by simp
    let ?nb = "dict_keys (sw_neighbors sw)"
    have "\<exists>i < length lnks. filter (\<lambda>e. mg_joins e u (pos ?q n)) (mg_built_edges switches lnks) = [mg_edge_of ?q i (lnks ! i)] \<and>
        mg_joins (mg_edge_of ?q i (lnks ! i)) u (pos ?q n)" if "n \<in> set ?nb" for n
      using built_edge_of_cable[OF ok, of d n] mg_tablesD(5)[OF ok mem] that unfolding d by blast
    then have "\<forall>n \<in> set ?nb. \<exists>i. i < length lnks \<and>
        filter (\<lambda>e. mg_joins e u (pos ?q n)) (mg_built_edges switches lnks) = [mg_edge_of ?q i (lnks ! i)] \<and>
        mg_joins (mg_edge_of ?q i (lnks ! i)) u (pos ?q n)" by (rule ballI)
    from bchoice[OF this] obtain h where "\<forall>n \<in> set ?nb. h n < length lnks \<and>
        filter (\<lambda>e. mg_joins e u (pos ?q n)) (mg_built_edges switches lnks) = [mg_edge_of ?q (h n) (lnks ! h n)] \<and>
        mg_joins (mg_edge_of ?q (h n) (lnks ! h n)) u (pos ?q n)" by (elim exE)
    note h = bspec[OF this]
    have "map me_id (filter (\<lambda>e. mg_joins e u (pos ?q n)) (mg_built_edges switches lnks)) = [h n]" if "n \<in> set ?nb" for n
      using h[OF that] by (simp only: list.map mg_edge_of_id)
    then have "map (\<lambda>n. map me_id (filter (\<lambda>e. mg_joins e u n) (mg_built_edges switches lnks))) (map (pos ?q) ?nb) = map (\<lambda>n. [h n]) ?nb"
      by (rule map_map_cong)
    then have ce: "mv_connect_edge (mg_vertexes ?a ! u) = map h ?nb"
      unfolding vert[OF u] mg_vertex_of_def Let_def e snd_conv mg_vertex.simps by (simp only: concat_map_singleton)
    have cv: "mv_connect_vertex (mg_vertexes ?a ! u) = map (pos ?q) ?nb" "mv_degree (mg_vertexes ?a ! u) = length ?nb"
      unfolding vert[OF u] by (simp_all add: mg_vertex_of_def Let_def e)
    have "y \<in> set (map (pos ?q) ?nb)" if i: "i < length lnks" "mg_joins (mg_edges ?a ! i) u y" for i y
    proof -
      obtain d' n where dn: "d' \<in> set ?q" "u = pos ?q d'" "y = pos ?q n" "dict_keys lnks ! i = (d', n) \<or> dict_keys lnks ! i = (n, d')"
        using i(2) unfolding join[OF i(1)] mg_joins_built[OF ok i(1)] by blast
      have "d \<in> set ?q" using imageI[OF mem, of fst] by (simp only: set_map fst_conv)
      from pos_inj[OF this dn(1), THEN iffD1, OF trans[OF d dn(2)]] have "d = d'" .
      moreover have "dict_keys lnks ! i \<in> set (dict_keys lnks)" using i(1) nth_mem[of i "dict_keys lnks"] unfolding length_map by blast
      ultimately have "n \<in> set ?nb" using dn(4) mg_tablesD(5)[OF ok mem] unfolding cabled_def by metis
      then show ?thesis using dn(3) by auto
    qed
    moreover have "h (?nb ! k) < length lnks \<and> mg_joins (mg_edges ?a ! h (?nb ! k)) u (pos ?q (?nb ! k))" if "k < length ?nb" for k
      using h[OF nth_mem[OF that]] join[of "h (?nb ! k)"] by (simp del: set_map)
    ultimately show ?thesis unfolding ce cv by (simp del: set_map)
  qed
  then show ?thesis unfolding mg_lists_ok_def a using uq by blast
qed

lemma mg_ready_net:
  assumes ok: "mg_tables_ok switches lnks" and s: "src \<in> set (dict_keys switches)" "set dsts \<subseteq> set (dict_keys switches)"
  shows "mg_net_ok (update_request (pos (dict_keys switches) src) (map (pos (dict_keys switches)) dsts) bw (mg_ready switches lnks a))"
proof -
  let ?q = "dict_keys switches"
  have "pos ?q d < length switches" if "d \<in> set ?q" for d using pos_mem[OF that] by simp
  note P = this
  have "pos ?q (fst (fst (lnks ! i))) < length switches \<and> pos ?q (snd (fst (lnks ! i))) < length switches \<and>
      0 \<le> the (link_cost (snd (hd (snd (lnks ! i))))) / COST_INDEX \<and>
      real (length switches + length lnks) * (the (link_cost (snd (hd (snd (lnks ! i))))) / COST_INDEX) < ENDLESS_FLOAT"
    if "i < length lnks" for i
  proof -
    obtain u v par where e: "lnks ! i = ((u, v), par)" by (metis prod.exhaust)
    then have "((u, v), par) \<in> set lnks" using that by (metis nth_mem)
    note l = mg_tables_link[OF ok this]
    show ?thesis using P[OF l(1)] P[OF l(2)] l(7,8) by (simp add: e COST_INDEX_def)
  qed
  note E = this
  let ?a = "update_request (pos ?q src) (map (pos ?q) dsts) bw (mg_ready switches lnks a)"
  have a: "mg_edges_quantity ?a = length lnks" "mg_vertexes_quantity ?a = length switches" "length (mg_edges ?a) = length lnks"
    "mg_sou_vertex ?a = pos ?q src" "mg_des_vertexes ?a = map (pos ?q) dsts" "mg_des_vertexes_quantity ?a = length dsts"
    by (simp_all add: update_request_def mg_ready_def mg_built_def)
  have "me_v0 e < length switches \<and> me_v1 e < length switches \<and> 0 \<le> me_cost e \<and>
      real (length switches + length lnks) * me_cost e < ENDLESS_FLOAT" if "e \<in> set (mg_edges ?a)" for e
  proof -
    have "mg_edges ?a = map (\<lambda>i. (mg_edge_of ?q i (lnks ! i))\<lparr>me_available_width := ENDLESS_FLOAT\<rparr>) [0..<length lnks]"
      by (simp add: update_request_def mg_ready_def)
    with that obtain i where "i < length lnks" "e = (mg_edge_of ?q i (lnks ! i))\<lparr>me_available_width := ENDLESS_FLOAT\<rparr>" by auto
    then show ?thesis using E[of i] by (simp add: mg_edge_of_def del: of_nat_add)
  qed
  moreover have "v < length switches" if v: "v \<in> set (map (pos ?q) dsts)" for v
  proof -
    obtain d where "d \<in> set dsts" "v = pos ?q d" using v by auto
    then show ?thesis using P s(2) by blast
  qed
  ultimately show ?thesis using P[OF s(1)] unfolding mg_net_ok_def a by (simp del: set_map of_nat_add)
qed

section \<open>From a request to the paths\<close>

text \<open>The network of an object and its request do not depend on the population.\<close>

lemma selected_graph_population:
  "selected_graph (a\<lparr>mg_population := pop, mg_chromosome_quantity := q\<rparr>) genes = selected_graph a genes"
  by (simp add: selected_graph_def)

lemma population_irrelevant:
  fixes a :: mg and pop q
  defines "b \<equiv> a\<lparr>mg_population := pop, mg_chromosome_quantity := q\<rparr>"
  shows "mg_net_ok b \<longleftrightarrow> mg_net_ok a" "mg_lists_ok b \<longleftrightarrow> mg_lists_ok a" "fitness_of b genes = fitness_of a genes"
    "delete_circuit b genes = delete_circuit a genes" "serves b genes \<longleftrightarrow> serves a genes"
    "mg_route b genes v p \<longleftrightarrow> mg_route a genes v p" "rated b c \<longleftrightarrow> rated a c"
proof -
  have F: "mg_sou_vertex b = mg_sou_vertex a" "mg_edges b = mg_edges a" "mg_min_available_bandwidth b = mg_min_available_bandwidth a"
    "mg_vertexes_quantity b = mg_vertexes_quantity a" "mg_vertexes b = mg_vertexes a" "mg_des_vertexes b = mg_des_vertexes a"
    "mg_des_vertexes_quantity b = mg_des_vertexes_quantity a" "mg_edges_quantity b = mg_edges_quantity a" "selected_graph b genes = selected_graph a genes" for genes
    by (simp_all add: b_def selected_graph_population)
  have pred: "mg_predecessors b genes = mg_predecessors a genes" for genes unfolding mg_predecessors_def F ..
  show fit: "fitness_of b genes = fitness_of a genes" for genes unfolding fitness_of_def pred F ..
  show "delete_circuit b genes = delete_circuit a genes" unfolding delete_circuit_def pred F ..
  show route: "mg_route b genes v p \<longleftrightarrow> mg_route a genes v p" for v p unfolding mg_route_def usable_def F ..
  show "serves b genes \<longleftrightarrow> serves a genes" unfolding serves_def route F ..
  show "rated b c \<longleftrightarrow> rated a c" unfolding rated_def fit F ..
qed (simp_all add: b_def mg_net_ok_def mg_lists_ok_def)

lemma mg_random_genes_length: "mg_random_genes pr k us = (gs, us') \<Longrightarrow> draws_ok us \<Longrightarrow> length gs = k \<and> draws_ok us'"
proof (induction k arbitrary: us gs)
  case (Suc k)
  obtain u us1 where n: "next_draw us = (u, us1)" by fastforce
  have "draws_ok us1" using draws_ok_next[OF Suc.prems(2) n] by simp
  then show ?case using Suc.IH[of us1] Suc.prems(1) n by (auto split: prod.splits)
qed simp

lemma mg_random_population_ok:
  "mg_random_population k m us = (cs, us') \<Longrightarrow> draws_ok us \<Longrightarrow> length cs = k \<and> genes_ok m cs \<and> draws_ok us'"
proof (induction k arbitrary: us cs)
  case (Suc k)
  obtain gs us1 where g: "mg_random_genes (7 / 10) m us = (gs, us1)" by fastforce
  note len = mg_random_genes_length[OF g Suc.prems(2)]
  then show ?case using Suc.IH[of us1] Suc.prems(1) g by (auto simp: genes_ok_def split: prod.splits)
qed (simp add: genes_ok_def)

text \<open>\<open>run\<close> ends, with a population in which every fitness is that of the genes.\<close>

lemma mg_run_ok:
  assumes q: "mg_switch_queue a = queue" "src \<in> set queue" "set dsts \<subseteq> set queue" "dsts \<noteq> []"
    and ok: "mg_net_ok (update_request (pos queue src) (map (pos queue) dsts) bw a)"
      "mg_lists_ok (update_request (pos queue src) (map (pos queue) dsts) bw a)"
    and par: "0 < mg_max_chromosome_quantity a" "0 < mg_max_generation a" and pop: "genes_ok (mg_edges_quantity a) (mg_population a)"
    and us: "draws_ok us"
  shows "\<exists>pop q us'. mg_run src dsts bw us a =
      Some (Inr ((update_request (pos queue src) (map (pos queue) dsts) bw a)\<lparr>mg_population := pop, mg_chromosome_quantity := q\<rparr>, us')) \<and>
    length pop = q \<and> 0 < q \<and> (\<forall>c \<in> set pop. rated (update_request (pos queue src) (map (pos queue) dsts) bw a) c)"
proof -
  let ?a = "update_request (pos queue src) (map (pos queue) dsts) bw a"
  let ?q = "if mg_max_chromosome_quantity a mod 2 = 1 then mg_max_chromosome_quantity a + 1 else mg_max_chromosome_quantity a"
  obtain cs us1 where c: "mg_random_population ?q (mg_edges_quantity a) us = (cs, us1)" by fastforce
  note cs = mg_random_population_ok[OF c us]
  define a1 where "a1 = ?a\<lparr>mg_population := mg_population a @ cs, mg_chromosome_quantity := ?q\<rparr>"
  have "population_init (mg_max_chromosome_quantity a) us ?a = (a1, us1)"
    using c by (simp add: population_init_def a1_def update_request_def Let_def)
  moreover have "res_map (py_index queue) dsts = Inr (map (pos queue) dsts)"
    using q(3) by (intro res_map_total py_index_mem) auto
  ultimately have run: "mg_run src dsts bw us a = genetic_algorithm us1 a1"
    using q(1,2) by (simp add: mg_run_def py_index_mem)
  note irr = population_irrelevant[where a = ?a and pop = "mg_population a @ cs" and q = ?q, folded a1_def]
  have net: "mg_net_ok a1" "mg_lists_ok a1" using ok irr by simp_all
  have a1: "mg_des_vertexes a1 \<noteq> []" "mg_max_generation a1 = mg_max_generation a" "mg_population a1 = mg_population a @ cs"
    "mg_chromosome_quantity a1 = ?q" "mg_edges_quantity a1 = mg_edges_quantity a"
    using q(4) by (simp_all add: a1_def update_request_def)
  have "even ?q" "0 < ?q" using par(1) by presburger+
  then have "population_ok a1 (mg_population a1)"
    using pop cs unfolding population_ok_def a1 by (auto simp: genes_ok_def)
  from mg_generations_ok[OF net a1(1) this, of us1 "mg_max_generation a1" None] cs par(2) obtain pop' us' where
    g: "mg_generations (mg_max_generation a1) a1 None (mg_population a1) us1 = Some (Inr (pop', us'))"
    "length pop' = ?q" "\<forall>c \<in> set pop'. rated a1 c" unfolding a1(2,4) by auto
  have "genetic_algorithm us1 a1 = Some (Inr (a1\<lparr>mg_population := pop'\<rparr>, us'))" using g(1) by (simp add: genetic_algorithm_def)
  moreover have "a1\<lparr>mg_population := pop'\<rparr> = ?a\<lparr>mg_population := pop', mg_chromosome_quantity := ?q\<rparr>" by (simp add: a1_def)
  ultimately have "mg_run src dsts bw us a = Some (Inr (?a\<lparr>mg_population := pop', mg_chromosome_quantity := ?q\<rparr>, us'))"
    using run by (simp only:)
  moreover have "\<forall>c \<in> set pop'. rated ?a c" using g(3) irr(7) by blast
  ultimately show ?thesis using g(2) \<open>0 < ?q\<close> by blast
qed

text \<open>The chromosome that \<open>get_link\<close> takes serves the group if any chromosome does.\<close>

lemma best_serves:
  assumes ok: "mg_net_ok a" "mg_lists_ok a" "mg_des_vertexes a \<noteq> []" and r: "\<forall>c \<in> set pop. rated a c" "0 < length pop"
  shows "\<exists>b < length pop. evaluate_population (length pop) pop = Inr b \<and>
    ((\<exists>c \<in> set pop. serves a (mc_genes c)) \<longrightarrow> serves a (mc_genes (pop ! b)))"
proof -
  obtain b where b: "b < length pop" "evaluate_population (length pop) pop = Inr b"
    "\<forall>i < length pop. mc_fitness (pop ! i) < ENDLESS_FLOAT \<longrightarrow> mc_fitness (pop ! b) \<le> mc_fitness (pop ! i)"
    using evaluate_population_spec[OF order_refl r(2)] by blast
  have fit: "serves a (mc_genes c) \<longleftrightarrow> mc_fitness c < ENDLESS_FLOAT" if c: "c \<in> set pop" for c
  proof -
    have rc: "length (mc_genes c) = mg_edges_quantity a" "fitness_of a (mc_genes c) = Some (Inr (mc_fitness c))"
      using r(1) c by (simp_all add: rated_def)
    from fitness_of_tree[OF ok(1,2) rc(1) ok(3)] rc(2) show ?thesis by (auto split: if_splits)
  qed
  have "serves a (mc_genes (pop ! b))" if s: "c \<in> set pop" "serves a (mc_genes c)" for c
  proof -
    obtain i where i: "i < length pop" "pop ! i = c" using s(1) by (auto simp: in_set_conv_nth)
    then have "mc_fitness (pop ! i) < ENDLESS_FLOAT" using fit[OF s(1)] s(2) by simp
    then have "mc_fitness (pop ! b) < ENDLESS_FLOAT" using b(3) i(1) by (meson le_less_trans)
    then show ?thesis using fit b(1) by simp
  qed
  then show ?thesis using b(1,2) by blast
qed

text \<open>
  A distribution tree on the switches: a path along cables from the source to every destination, in their order, without
  repetition, two paths being equal up to any switch they share.
\<close>

definition dpid_tree :: "link_table_api \<Rightarrow> nat \<Rightarrow> nat list \<Rightarrow> nat list list \<Rightarrow> bool" where
  "dpid_tree lnks src dsts ps \<longleftrightarrow>
     list_all2 (\<lambda>d p. p \<noteq> [] \<and> hd p = src \<and> last p = d \<and> distinct p \<and>
       (\<forall>i. Suc i < length p \<longrightarrow> cabled lnks (p ! i) (p ! Suc i))) dsts ps \<and> common_prefixes ps"

lemma common_prefixes_map:
  assumes "inj_on f (\<Union> (set ` set ps))" "common_prefixes ps"
  shows "common_prefixes (map (map f) ps)"
  unfolding common_prefixes_def
proof (intro ballI allI impI)
  fix p' q' i j assume h: "p' \<in> set (map (map f) ps)" "q' \<in> set (map (map f) ps)" "i < length p'" "j < length q'" "p' ! i = q' ! j"
  obtain p q where pq: "p \<in> set ps" "p' = map f p" "q \<in> set ps" "q' = map f q" using h(1,2) by auto
  have ij: "i < length p" "j < length q" "f (p ! i) = f (q ! j)" using h(3-5) pq by simp_all
  have "p ! i \<in> \<Union> (set ` set ps)" "q ! j \<in> \<Union> (set ` set ps)" using pq(1,3) ij(1,2) nth_mem by blast+
  then have "p ! i = q ! j" by (rule inj_onD[OF assms(1) ij(3)])
  then have "take (Suc i) p = take (Suc j) q" using assms(2) pq(1,3) ij(1,2) unfolding common_prefixes_def by blast
  then show "take (Suc i) p' = take (Suc j) q'" using pq(2,4) by (simp add: take_map)
qed

lemma route_dpids:
  assumes ok: "mg_tables_ok switches lnks" and s: "src \<in> set (dict_keys switches)" "set dsts \<subseteq> set (dict_keys switches)" "d \<in> set dsts"
    and r: "mg_route (update_request (pos (dict_keys switches) src) (map (pos (dict_keys switches)) dsts) bw (mg_ready switches lnks a)) genes
      (pos (dict_keys switches) d) p"
  defines "p' \<equiv> map (nth (dict_keys switches)) p"
  shows "p' \<noteq> [] \<and> hd p' = src \<and> last p' = d \<and> distinct p' \<and> (\<forall>i. Suc i < length p' \<longrightarrow> cabled lnks (p' ! i) (p' ! Suc i))"
    "\<forall>v \<in> set p. v < length (dict_keys switches)"
proof -
  let ?q = "dict_keys switches"
  let ?a = "update_request (pos ?q src) (map (pos ?q) dsts) bw (mg_ready switches lnks a)"
  have a: "mg_edges_quantity ?a = length lnks" "mg_vertexes_quantity ?a = length switches" "mg_sou_vertex ?a = pos ?q src"
    by (simp_all add: update_request_def mg_ready_def mg_built_def)
  show below: "\<forall>v \<in> set p. v < length ?q"
    using route_vertices(2)[OF mg_ready_net[OF ok s(1,2)] r] unfolding a length_map .
  have p: "p \<noteq> []" "hd p = pos ?q src" "last p = pos ?q d" "distinct p"
    "\<And>i. Suc i < length p \<Longrightarrow> usable ?a genes (p ! i) (p ! Suc i)" using r by (simp_all add: mg_route_def a)
  have "d \<in> set ?q" using s(2,3) by blast
  then have "?q ! pos ?q d = d" "?q ! pos ?q src = src" using pos_mem[of d ?q] pos_mem[OF s(1)] by blast+
  then have ends: "hd p' = src" "last p' = d"
    unfolding p'_def hd_map[OF p(1)] last_map[OF p(1)] p(2,3) by blast+
  have "inj_on (nth ?q) (set p)" using below mg_tablesD(3)[OF ok] by (intro inj_on_nth) auto
  then have dist: "distinct p'" using p(4) unfolding p'_def by (simp only: distinct_map)
  have "cabled lnks (p' ! i) (p' ! Suc i)" if i: "Suc i < length p'" for i
  proof -
    have i': "Suc i < length p" using i by (simp add: p'_def)
    then obtain e where e: "e < length lnks" "mg_joins (mg_edges ?a ! e) (p ! i) (p ! Suc i)" using p(5)[OF i'] unfolding usable_def a by blast
    then have "mg_joins (mg_edge_of ?q e (lnks ! e)) (p ! i) (p ! Suc i)" by (simp add: update_request_def mg_ready_def mg_joins_def)
    then obtain u v where uv: "u \<in> set ?q" "v \<in> set ?q" "p ! i = pos ?q u" "p ! Suc i = pos ?q v"
      "dict_keys lnks ! e = (u, v) \<or> dict_keys lnks ! e = (v, u)" unfolding mg_joins_built[OF ok e(1)] by blast
    have "dict_keys lnks ! e \<in> set (dict_keys lnks)" using e(1) nth_mem[of e "dict_keys lnks"] unfolding length_map by blast
    then have "cabled lnks u v" using uv(5) unfolding cabled_def by metis
    moreover have "p' ! i = u" "p' ! Suc i = v"
      using i' uv(3,4) pos_mem[OF uv(1)] pos_mem[OF uv(2)] unfolding p'_def by (simp_all only: nth_map Suc_lessD)
    ultimately show ?thesis by simp
  qed
  then show "p' \<noteq> [] \<and> hd p' = src \<and> last p' = d \<and> distinct p' \<and> (\<forall>i. Suc i < length p' \<longrightarrow> cabled lnks (p' ! i) (p' ! Suc i))"
    using ends dist p(1) by (simp add: p'_def)
qed

lemma paths_dpids:
  assumes ok: "mg_tables_ok switches lnks" and s: "src \<in> set (dict_keys switches)" "set dsts \<subseteq> set (dict_keys switches)"
    and r: "list_all2 (mg_route (update_request (pos (dict_keys switches) src) (map (pos (dict_keys switches)) dsts) bw (mg_ready switches lnks a)) genes)
      (map (pos (dict_keys switches)) dsts) vps" "common_prefixes vps"
  shows "res_map (res_map (py_nth (dict_keys switches))) vps = Inr (map (map (nth (dict_keys switches))) vps)"
    "dpid_tree lnks src dsts (map (map (nth (dict_keys switches))) vps)"
proof -
  let ?q = "dict_keys switches"
  have len: "length vps = length dsts" using list_all2_lengthD[OF r(1)] by simp
  have "list_all2 (\<lambda>d p. mg_route (update_request (pos ?q src) (map (pos ?q) dsts) bw (mg_ready switches lnks a)) genes (pos ?q d) p) dsts vps"
    using r(1) unfolding list_all2_map1 .
  note nth = this[unfolded list_all2_conv_all_nth, THEN conjunct2, rule_format]
  have below: "\<forall>v \<in> set p. v < length ?q" if p: "p \<in> set vps" for p
  proof -
    obtain i where i: "i < length vps" "p = vps ! i" using p by (auto simp: in_set_conv_nth)
    then show ?thesis using route_dpids(2)[OF ok s _ nth[of i]] len by simp
  qed
  have "res_map (py_nth ?q) p = Inr (map (nth ?q) p)" if "p \<in> set vps" for p
    using below[OF that] by (intro res_map_total) (simp add: py_nth_def)
  then show "res_map (res_map (py_nth ?q)) vps = Inr (map (map (nth ?q)) vps)" by (rule res_map_total)
  have "inj_on (nth ?q) (\<Union> (set ` set vps))" using below mg_tablesD(3)[OF ok] by (intro inj_on_nth) auto
  from common_prefixes_map[OF this r(2)] have "common_prefixes (map (map (nth ?q)) vps)" .
  moreover have "list_all2 (\<lambda>d p. p \<noteq> [] \<and> hd p = src \<and> last p = d \<and> distinct p \<and>
       (\<forall>i. Suc i < length p \<longrightarrow> cabled lnks (p ! i) (p ! Suc i))) dsts (map (map (nth ?q)) vps)"
  proof (rule list_all2_all_nthI)
    fix i assume i: "i < length dsts"
    then have eq: "map (map (nth ?q)) vps ! i = map (nth ?q) (vps ! i)" using len by (simp only: nth_map)
    show "map (map (nth ?q)) vps ! i \<noteq> [] \<and> hd (map (map (nth ?q)) vps ! i) = src \<and> last (map (map (nth ?q)) vps ! i) = dsts ! i \<and>
        distinct (map (map (nth ?q)) vps ! i) \<and>
        (\<forall>k. Suc k < length (map (map (nth ?q)) vps ! i) \<longrightarrow> cabled lnks (map (map (nth ?q)) vps ! i ! k) (map (map (nth ?q)) vps ! i ! Suc k))"
      unfolding eq by (rule route_dpids(1)[OF ok s nth_mem[OF i] nth[OF i]])
  qed (simp add: len)
  ultimately show "dpid_tree lnks src dsts (map (map (nth ?q)) vps)" by (simp only: dpid_tree_def)
qed

section \<open>Property\<close>

text \<open>
  C14. The first group of a fresh algorithm object, from the tables to the switches: when the object has no vertexes, no edges and no
  population yet, then with well-formed tables, any group on them and any draws, \<open>init_algorithm\<close>, \<open>update_link_status\<close>, \<open>run\<close> and
  \<open>get_link\<close> all return without an exception. (The program keeps one object, whose lists \<open>init_algorithm\<close> does not clear: the groups
  after the first, and a second initialisation, are not covered.) If a chromosome of the final population joins the
  source with every destination, the paths returned are a distribution tree for the group along the cables of the link table;
  otherwise no path is returned.
\<close>

theorem mg_group_end_to_end:
  assumes tables: "mg_tables_ok switches lnks" and group: "src \<in> set (dict_keys switches)" "set dsts \<subseteq> set (dict_keys switches)" "dsts \<noteq> []"
    and new: "mg_vertexes a = []" "mg_edges a = []" "mg_population a = []" "0 < mg_max_chromosome_quantity a" "0 < mg_max_generation a"
    and us: "draws_ok us"
  shows "\<exists>a1 a2 a3 us' ps. mg_init_algorithm switches lnks a = Inr a1 \<and> mg_update_link_status lnks a1 = Inr a2 \<and>
    mg_run src dsts bw us a2 = Some (Inr (a3, us')) \<and> mg_get_link a3 = Some (Inr ps) \<and>
    (if \<exists>c \<in> set (mg_population a3). serves a3 (mc_genes c) then dpid_tree lnks src dsts ps else ps = [])"
proof -
  let ?q = "dict_keys switches"
  define a2 where "a2 = mg_ready switches lnks a"
  define r where "r = update_request (pos ?q src) (map (pos ?q) dsts) bw a2"
  note net = mg_ready_net[OF tables group(1,2), of bw a, folded a2_def, folded r_def]
  note lists = mg_ready_lists[OF tables, of "pos ?q src" "map (pos ?q) dsts" bw a, folded a2_def, folded r_def]
  have a2: "mg_switch_queue a2 = ?q" "0 < mg_max_chromosome_quantity a2" "0 < mg_max_generation a2" "mg_population a2 = []"
    using new by (simp_all add: a2_def mg_ready_def mg_built_def)
  have des: "mg_des_vertexes r = map (pos ?q) dsts" "mg_switch_queue r = ?q" using a2(1) by (simp_all add: r_def update_request_def)
  have "genes_ok (mg_edges_quantity a2) (mg_population a2)" by (simp add: a2(4) genes_ok_def)
  from mg_run_ok[OF a2(1) group net[unfolded r_def] lists[unfolded r_def] a2(2,3) this us, folded r_def] obtain pop k us' where
    run: "mg_run src dsts bw us a2 = Some (Inr (r\<lparr>mg_population := pop, mg_chromosome_quantity := k\<rparr>, us'))"
    and pop: "length pop = k" "0 < k" "\<forall>c \<in> set pop. rated r c" by blast
  define a3 where "a3 = r\<lparr>mg_population := pop, mg_chromosome_quantity := k\<rparr>"
  note irr = population_irrelevant[where a = r and pop = pop and q = k, folded a3_def]
  have a3: "mg_population a3 = pop" "mg_chromosome_quantity a3 = k" "mg_switch_queue a3 = ?q" using des by (simp_all add: a3_def)
  have "mg_des_vertexes r \<noteq> []" "0 < length pop" using group(3) des pop(1,2) by simp_all
  from best_serves[OF net lists this(1) pop(3) this(2)] obtain b where b: "b < k" "evaluate_population k pop = Inr b"
    "(\<exists>c \<in> set pop. serves r (mc_genes c)) \<longrightarrow> serves r (mc_genes (pop ! b))" unfolding pop(1) by blast
  have c: "pop ! b \<in> set pop" "py_nth pop b = Inr (pop ! b)" using b(1) pop(1) by (simp_all add: py_nth_def)
  have len: "length (mc_genes (pop ! b)) = mg_edges_quantity r" using pop(3) c(1) by (simp add: rated_def)
  have get: "mg_get_link a3 = run_bind (delete_circuit r (mc_genes (pop ! b))) (\<lambda>vps. Some (res_map (res_map (py_nth ?q)) vps))"
    unfolding mg_get_link_def a3 b(2) irr by (simp add: c(2))
  have "\<exists>ps. mg_get_link a3 = Some (Inr ps) \<and> (if \<exists>c \<in> set pop. serves r (mc_genes c) then dpid_tree lnks src dsts ps else ps = [])"
    using net len
  proof (cases rule: delete_circuit_cases)
    case no_source
    then have "\<not> serves r (mc_genes (pop ! b))" using des group(3) by simp
    then show ?thesis using get no_source(2) b(3) by auto
  next
    case (unreached prev)
    then show ?thesis using get b(3) by auto
  next
    case (tree prev vps)
    have "list_all2 (mg_route r (mc_genes (pop ! b))) (map (pos ?q) dsts) vps" using tree(5) unfolding des(1) .
    note pd = paths_dpids[OF tables group(1,2) this[unfolded r_def a2_def] tree(6)]
    have "mg_get_link a3 = Some (Inr (map (map (nth ?q)) vps))" using get tree(4) pd(1) by simp
    moreover have "\<exists>c \<in> set pop. serves r (mc_genes c)" using tree(3) c(1) by blast
    ultimately show ?thesis using pd(2) by auto
  qed
  then show ?thesis
    using mg_init_eval[OF tables new(1,2)] mg_update_eval[OF tables, of a] run[folded a3_def]
    unfolding a2_def[symmetric] a3(1)[symmetric] irr(5)[symmetric] by blast
qed

text \<open>Three switches in a row, each with one cable to the next.\<close>

definition wit_mg_switch :: "nat \<Rightarrow> nat list \<Rightarrow> nat \<times> switch" where
  "wit_mg_switch d ns = (d, (new_switch \<lparr>dp_id = d, dp_address = [], dp_ports = []\<rparr>)\<lparr>sw_neighbors := map (\<lambda>n. (n, [n])) ns\<rparr>)"

definition wit_mg_cable :: "nat \<Rightarrow> nat \<Rightarrow> (nat \<times> nat) \<times> (nat \<times> nat, link) pydict" where
  "wit_mg_cable s d = ((s, d), [((d, s), (wit_link s d d s)\<lparr>link_delay := Some 0, link_cost := Some 10,
     link_total_band := Some 1, link_available_band := Some 1\<rparr>)])"

definition wit_mg_switches :: switch_table where
  "wit_mg_switches = [wit_mg_switch 11 [12], wit_mg_switch 12 [11, 13], wit_mg_switch 13 [12]]"

definition wit_mg_cables :: link_table_api where
  "wit_mg_cables = [wit_mg_cable 11 12, wit_mg_cable 12 13]"

lemma wit_mg_keys: "dict_keys wit_mg_switches = [11, 12, 13]" "dict_keys wit_mg_cables = [(11, 12), (12, 13)]"
  by (simp_all add: wit_mg_switches_def wit_mg_switch_def wit_mg_cables_def wit_mg_cable_def)

lemma wit_mg_tables: "mg_tables_ok wit_mg_switches wit_mg_cables"
proof -
  have "graph_input_ok wit_mg_switches wit_mg_cables"
    by (simp add: graph_input_ok_def wit_mg_switches_def wit_mg_switch_def wit_mg_cables_def wit_mg_cable_def measured_def)
  moreover have "\<forall>(d, sw) \<in> set wit_mg_switches. \<forall>n. n \<in> set (dict_keys (sw_neighbors sw)) \<longleftrightarrow> cabled wit_mg_cables d n"
    unfolding cabled_def wit_mg_keys by (auto simp: wit_mg_switches_def wit_mg_switch_def)
  moreover have "\<forall>(k, par) \<in> set wit_mg_cables. link_available_band (snd (hd par)) \<noteq> None \<and> link_total_band (snd (hd par)) \<noteq> Some 0 \<and>
        0 \<le> the (link_cost (snd (hd par))) \<and>
        real (length wit_mg_switches + length wit_mg_cables) * (the (link_cost (snd (hd par))) / COST_INDEX) < ENDLESS_FLOAT"
    by (simp add: wit_mg_switches_def wit_mg_cables_def wit_mg_cable_def COST_INDEX_def ENDLESS_FLOAT_def)
  ultimately show ?thesis unfolding mg_tables_ok_def wit_mg_keys by simp
qed

theorem mg_group_end_to_end_witness:
  "\<exists>a1 a2 a3 us' ps. mg_init_algorithm wit_mg_switches wit_mg_cables mg_new = Inr a1 \<and> mg_update_link_status wit_mg_cables a1 = Inr a2 \<and>
    mg_run 12 [11, 13] 1 [] a2 = Some (Inr (a3, us')) \<and> mg_get_link a3 = Some (Inr ps) \<and>
    (if \<exists>c \<in> set (mg_population a3). serves a3 (mc_genes c) then dpid_tree wit_mg_cables 12 [11, 13] ps else ps = [])"
proof -
  have "12 \<in> set (dict_keys wit_mg_switches)" "set [11, 13] \<subseteq> set (dict_keys wit_mg_switches)" "[11, 13 :: nat] \<noteq> []"
    unfolding wit_mg_keys by simp_all
  moreover have "mg_vertexes mg_new = []" "mg_edges mg_new = []" "mg_population mg_new = []"
    "0 < mg_max_chromosome_quantity mg_new" "0 < mg_max_generation mg_new" "draws_ok []"
    by (simp_all add: mg_new_def draws_ok_def)
  ultimately show ?thesis by (rule mg_group_end_to_end[OF wit_mg_tables])
qed

end
