(* ===== verification/Proxy_Arp.thy ===== *)
theory Proxy_Arp
  imports OpenFlow
begin

text \<open>
  The ARP proxy of \<open>topology_manage/ProxyArp.py\<close>: the table of known hosts with its expiry, the
  answer to ARP requests and the controlled flooding of the requests that cannot be answered. The
  thread that \<open>trigger_update\<close> starts takes the queued pairs one at a time: it is a separate
  operation here, so that it may run at any moment between two packets. The same holds for a sweep
  of the garbage collector.
\<close>

section \<open>The ARP table\<close>

datatype entry_state = LIVE | TIMEOUT | DEL

record arp_entry =
  ae_mac :: string
  ae_timestamp :: real
  ae_state :: entry_state

type_synonym arp_table = "(string, arp_entry) pydict"

abbreviation ARP_ENTRY_TIMEOUT :: real where "ARP_ENTRY_TIMEOUT \<equiv> 1200"

definition new_arp_entry :: "real \<Rightarrow> string \<Rightarrow> arp_entry" where
  "new_arp_entry now mac = \<lparr>ae_mac = mac, ae_timestamp = now, ae_state = LIVE\<rparr>"

definition update_entry :: "real \<Rightarrow> string \<Rightarrow> string \<Rightarrow> arp_table \<Rightarrow> arp_table" where
  "update_entry now ip mac t =
     (case dict_get t ip of
        Some e \<Rightarrow> dict_set ip (e\<lparr>ae_mac := mac, ae_timestamp := now, ae_state := LIVE\<rparr>) t
      | None \<Rightarrow> dict_set ip (new_arp_entry now mac) t)"

definition get_mac :: "string \<Rightarrow> arp_table \<Rightarrow> string option" where
  "get_mac ip t =
     (case dict_get t ip of
        Some e \<Rightarrow> (if ae_state e = LIVE then Some (ae_mac e) else None)
      | None \<Rightarrow> None)"

definition gc_entry :: "real \<Rightarrow> string \<Rightarrow> arp_entry \<Rightarrow> arp_table \<Rightarrow> arp_table" where
  "gc_entry now ip e t =
     (if ae_state e = LIVE
      then (if ae_timestamp e < now - ARP_ENTRY_TIMEOUT then dict_set ip (e\<lparr>ae_state := TIMEOUT\<rparr>) t else t)
      else if ae_state e = TIMEOUT
      then (if ae_timestamp e < now then dict_del ip t else t)
      else t)"

definition garbage_collect :: "real \<Rightarrow> arp_table \<Rightarrow> arp_table" where
  "garbage_collect now t = foldl (\<lambda>t' (ip, e). gc_entry now ip e t') t t"

section \<open>The proxy\<close>

type_synonym flood_key = "nat \<times> string \<times> string"

record proxy_arp =
  mac_to_port :: "(nat, (string, nat) pydict) pydict"
  port_block_list :: "(flood_key, nat \<times> nat \<times> real) pydict"
  arp_queue :: "(string \<times> string) list"
  the_arp_table :: arp_table

abbreviation ARP_FLOW_PRIORITY :: nat where "ARP_FLOW_PRIORITY \<equiv> 200"
abbreviation ARP_FLOOD_TIMES_CONTROL :: nat where "ARP_FLOOD_TIMES_CONTROL \<equiv> 5"
abbreviation ARP_FLOOD_CONTROL_TIMEOUT :: real where "ARP_FLOOD_CONTROL_TIMEOUT \<equiv> 10"
abbreviation ARP_REQUEST :: nat where "ARP_REQUEST \<equiv> 1"
abbreviation ARP_REPLY :: nat where "ARP_REPLY \<equiv> 2"

definition GATEWAY_MAC_DICT :: "(string, string) pydict" where
  "GATEWAY_MAC_DICT = [(''10.0.0.201'', ''c9:c9:c9:c9:c9:c9''), (''10.0.0.202'', ''ca:ca:ca:ca:ca:ca''),
     (''10.0.0.203'', ''cb:cb:cb:cb:cb:cb'')]"

definition GATEWAY_IP_LIST :: "string list" where
  "GATEWAY_IP_LIST = [''10.0.0.201'', ''10.0.0.202'', ''10.0.0.203'']"

definition arp_table_miss_flow_entry :: "bool \<Rightarrow> nat \<Rightarrow> out_msg list" where
  "arp_table_miss_flow_entry install_flow dpid =
     (if \<not> install_flow then []
      else [FlowAdd \<lparr>fm_dpid = dpid, fm_priority = ARP_FLOW_PRIORITY, fm_idle_timeout = 0, fm_hard_timeout = 0,
              fm_flags = 0, fm_match = [EthType ETH_TYPE_ARP], fm_actions = [Output OFPP_CONTROLLER]\<rparr>])"

definition add_to_queue :: "string \<times> string \<Rightarrow> proxy_arp \<Rightarrow> proxy_arp" where
  "add_to_queue m st = st\<lparr>arp_queue := arp_queue st @ [m]\<rparr>"

text \<open>One round of the loop of \<open>process_queued_msg\<close>, and the whole loop.\<close>

definition process_one :: "real \<Rightarrow> proxy_arp \<Rightarrow> proxy_arp" where
  "process_one now st =
     (case arp_queue st of
        [] \<Rightarrow> st
      | (ip, mac) # q \<Rightarrow> st\<lparr>arp_queue := q, the_arp_table := update_entry now ip mac (the_arp_table st)\<rparr>)"

definition process_queued_msg :: "real \<Rightarrow> proxy_arp \<Rightarrow> proxy_arp" where
  "process_queued_msg now st = (process_one now ^^ length (arp_queue st)) st"

definition proxy_arp_reply :: "nat \<Rightarrow> string \<Rightarrow> string \<Rightarrow> string \<Rightarrow> string \<Rightarrow> nat \<Rightarrow> out_msg" where
  "proxy_arp_reply dpid eth_src eth_dst ip_src ip_dst out_port =
     PacketOut dpid OFP_NO_BUFFER OFPP_CONTROLLER [Output out_port]
       (ArpFrame eth_dst eth_src \<lparr>arp_opcode = ARP_REPLY, arp_src_mac = eth_src, arp_src_ip = ip_src,
          arp_dst_mac = eth_dst, arp_dst_ip = ip_dst\<rparr>)"

definition flood :: "packet_in \<Rightarrow> out_msg" where
  "flood msg = PacketOut (pi_dpid msg) (pi_buffer_id msg) (pi_in_port msg) [Output OFPP_FLOOD]
     (if pi_buffer_id msg = OFP_NO_BUFFER then Raw (pi_data msg) else NoData)"

definition drop_request :: "packet_in \<Rightarrow> out_msg" where
  "drop_request msg = PacketOut (pi_dpid msg) OFP_NO_BUFFER (pi_in_port msg) [] NoData"

definition flooding_strategy :: "real \<Rightarrow> packet_in \<Rightarrow> string \<Rightarrow> string \<Rightarrow> proxy_arp \<Rightarrow> proxy_arp \<times> out_msg list" where
  "flooding_strategy now msg src dst st =
     (let key = (pi_dpid msg, src, dst)
      in case dict_get (port_block_list st) key of
           Some (port, flood_times, timestamp) \<Rightarrow>
             (if now - timestamp > ARP_FLOOD_CONTROL_TIMEOUT
              then (st\<lparr>port_block_list := dict_del key (port_block_list st)\<rparr>, [])
              else if port \<noteq> pi_in_port msg then (st, [drop_request msg])
              else if flood_times < ARP_FLOOD_TIMES_CONTROL
              then (st\<lparr>port_block_list := dict_set key (port, flood_times + 1, timestamp) (port_block_list st)\<rparr>, [flood msg])
              else (st, []))
         | None \<Rightarrow>
             (st\<lparr>port_block_list := dict_set key (pi_in_port msg, 1, now) (port_block_list st)\<rparr>, [flood msg]))"

text \<open>
  \<open>eth_src in self.mac_to_port[dpid]\<close>: answer with \<open>mac\<close> when the port of the requester is known, else
  go on.
\<close>

definition answer_or :: "packet_in \<Rightarrow> string \<Rightarrow> string \<Rightarrow> arp_packet \<Rightarrow> proxy_arp \<Rightarrow>
    proxy_arp \<times> (pyerr + out_msg list) \<Rightarrow> proxy_arp \<times> (pyerr + out_msg list)" where
  "answer_or msg src mac a st otherwise =
     (case dict_get (mac_to_port st) (pi_dpid msg) of
        None \<Rightarrow> (st, Inl KeyError)
      | Some ports \<Rightarrow>
          (case dict_get ports src of
             Some out_port \<Rightarrow> (st, Inr [proxy_arp_reply (pi_dpid msg) mac src (arp_dst_ip a) (arp_src_ip a) out_port])
           | None \<Rightarrow> otherwise))"

definition eth_dst_lookup :: "string \<Rightarrow> proxy_arp \<Rightarrow> string option" where
  "eth_dst_lookup ip st =
     (if ip \<in> set GATEWAY_IP_LIST then dict_get GATEWAY_MAC_DICT ip else get_mac ip (the_arp_table st))"

definition handle_arp_request :: "real \<Rightarrow> packet_in \<Rightarrow> string \<Rightarrow> string \<Rightarrow> arp_packet \<Rightarrow> proxy_arp \<Rightarrow>
    proxy_arp \<times> (pyerr + out_msg list)" where
  "handle_arp_request now msg src dst a st =
     (let flooded = (case flooding_strategy now msg src (arp_dst_ip a) st of (st', ms) \<Rightarrow> (st', Inr ms));
          broadcast = (case eth_dst_lookup (arp_dst_ip a) st of
                         None \<Rightarrow> flooded
                       | Some mac \<Rightarrow> (if mac = [] then flooded else answer_or msg src mac a st flooded))
      in if dst \<noteq> BROADCAST_STR then answer_or msg src dst a st broadcast else broadcast)"

definition learn_port :: "packet_in \<Rightarrow> string \<Rightarrow> proxy_arp \<Rightarrow> proxy_arp" where
  "learn_port msg src st =
     (let ports = (case dict_get (mac_to_port st) (pi_dpid msg) of None \<Rightarrow> [] | Some d \<Rightarrow> d)
      in st\<lparr>mac_to_port := dict_set (pi_dpid msg) (dict_set src (pi_in_port msg) ports) (mac_to_port st)\<rparr>)"

definition handle_arp :: "real \<Rightarrow> packet_in \<Rightarrow> arp_packet \<Rightarrow> proxy_arp \<Rightarrow> proxy_arp \<times> (pyerr + out_msg list)" where
  "handle_arp now msg a st =
     (case parse_ethernet (pi_protocols msg) of
        None \<Rightarrow> (st, Inl AttributeError)
      | Some (src, dst) \<Rightarrow>
          (let st1 = add_to_queue (arp_src_ip a, arp_src_mac a) st;
               st2 = learn_port msg src st1
           in if src = DEFAULT_ARP_PING_SRC_MAC then (st, Inr [])
              else if dst = DEFAULT_ARP_PING_SRC_MAC then (st1, Inr [])
              else if arp_opcode a = ARP_REQUEST then handle_arp_request now msg src dst a st2
              else (st2, Inr [])))"

fun packet_in_layers :: "real \<Rightarrow> packet_in \<Rightarrow> protocol list \<Rightarrow> proxy_arp \<Rightarrow> proxy_arp \<times> out_msg list \<times> pyerr option" where
  "packet_in_layers now msg [] st = (st, [], None)"
| "packet_in_layers now msg (p # ps) st =
     (case p of
        Arp a \<Rightarrow>
          (case handle_arp now msg a st of
             (st', Inl e) \<Rightarrow> (st', [], Some e)
           | (st', Inr ms) \<Rightarrow>
               (case packet_in_layers now msg ps st' of (st'', ms', e) \<Rightarrow> (st'', ms @ ms', e)))
      | _ \<Rightarrow> packet_in_layers now msg ps st)"

definition packet_in_handler :: "real \<Rightarrow> packet_in \<Rightarrow> proxy_arp \<Rightarrow> proxy_arp \<times> out_msg list \<times> pyerr option" where
  "packet_in_handler now msg st = packet_in_layers now msg (pi_protocols msg) st"

section \<open>What the table knows\<close>

datatype arp_event = Learn real string string | Sweep real

fun arp_event_step :: "arp_event \<Rightarrow> arp_table \<Rightarrow> arp_table" where
  "arp_event_step (Learn now ip mac) t = update_entry now ip mac t"
| "arp_event_step (Sweep now) t = garbage_collect now t"

text \<open>The live entries, with the time they were confirmed.\<close>

definition live :: "arp_table \<Rightarrow> string \<Rightarrow> (string \<times> real) option" where
  "live t ip =
     (case dict_get t ip of
        Some e \<Rightarrow> (if ae_state e = LIVE then Some (ae_mac e, ae_timestamp e) else None)
      | None \<Rightarrow> None)"

lemma get_mac_live: "get_mac ip t = map_option fst (live t ip)"
  by (simp add: get_mac_def live_def split: option.splits)

lemma live_update: "live (update_entry now ip mac t) k = (if k = ip then Some (mac, now) else live t k)"
  by (cases "dict_get t ip") (simp_all add: live_def update_entry_def new_arp_entry_def)

lemma update_entry_ok [ok_intros]: "dict_ok t \<Longrightarrow> dict_ok (update_entry now ip mac t)"
  by (simp add: update_entry_def split: option.splits)

lemma gc_entry_ok [ok_intros]: "dict_ok t \<Longrightarrow> dict_ok (gc_entry now ip e t)"
  by (simp add: gc_entry_def)

lemma gc_entry_other: "k \<noteq> ip \<Longrightarrow> dict_get (gc_entry now ip e t) k = dict_get t k"
  by (simp add: gc_entry_def)

lemma gc_fold_other:
  "k \<notin> set (dict_keys es) \<Longrightarrow> dict_get (foldl (\<lambda>t (ip, e). gc_entry now ip e t) t es) k = dict_get t k"
  by (induction es arbitrary: t) (auto simp: gc_entry_other)

lemma gc_fold_ok: "dict_ok t \<Longrightarrow> dict_ok (foldl (\<lambda>t (ip, e). gc_entry now ip e t) t es)"
  by (induction es arbitrary: t) (auto simp: gc_entry_ok)

lemma garbage_collect_ok [ok_intros]: "dict_ok t \<Longrightarrow> dict_ok (garbage_collect now t)"
  unfolding garbage_collect_def by (rule gc_fold_ok)

lemma gc_fold_get:
  "dict_ok es \<Longrightarrow> dict_get es k = Some e \<Longrightarrow> dict_get t k = Some e \<Longrightarrow>
     dict_get (foldl (\<lambda>t (ip, e). gc_entry now ip e t) t es) k = dict_get (gc_entry now k e t) k"
proof (induction es arbitrary: t)
  case (Cons p es)
  obtain k' e' where p: "p = (k', e')" by fastforce
  show ?case
  proof (cases "k' = k")
    case True
    then show ?thesis using Cons.prems p gc_fold_other[of k es now "gc_entry now k e t"] by simp
  next
    case False
    then have "dict_get (gc_entry now k' e' t) k = Some e" using Cons.prems(3) by (simp add: gc_entry_other)
    then show ?thesis using Cons.IH[of "gc_entry now k' e' t"] Cons.prems p False
      by (simp add: gc_entry_def)
  qed
qed simp

lemma live_garbage_collect:
  assumes "dict_ok t"
  shows "live (garbage_collect now t) k =
    (case live t k of Some (mac, ts) \<Rightarrow> (if ts < now - ARP_ENTRY_TIMEOUT then None else Some (mac, ts)) | None \<Rightarrow> None)"
proof (cases "dict_get t k")
  case None
  then have "dict_get (garbage_collect now t) k = None"
    using gc_fold_other[of k t now t] unfolding garbage_collect_def by (simp add: map_of_eq_None_iff)
  then show ?thesis using None by (simp add: live_def)
next
  case (Some e)
  then have "dict_get (garbage_collect now t) k = dict_get (gc_entry now k e t) k"
    unfolding garbage_collect_def by (intro gc_fold_get[OF assms])
  then show ?thesis using Some by (simp add: live_def gc_entry_def)
qed

text \<open>
  \<open>confirmed evs ip mac t\<close>: the latest confirmation of \<open>ip\<close> in \<open>evs\<close> was \<open>mac\<close> at time \<open>t\<close>, and no sweep
  since then came more than the timeout later.
\<close>

definition confirmed :: "arp_event list \<Rightarrow> string \<Rightarrow> string \<Rightarrow> real \<Rightarrow> bool" where
  "confirmed evs ip mac t \<longleftrightarrow>
     (\<exists>before after. evs = before @ Learn t ip mac # after \<and>
        (\<forall>ev \<in> set after. case ev of Learn _ ip' _ \<Rightarrow> ip' \<noteq> ip | Sweep g \<Rightarrow> g \<le> t + ARP_ENTRY_TIMEOUT))"

lemma confirmed_snoc:
  "confirmed (evs @ [ev]) ip mac t \<longleftrightarrow>
     (case ev of Learn t' ip' mac' \<Rightarrow> (if ip' = ip then mac' = mac \<and> t' = t else confirmed evs ip mac t)
      | Sweep g \<Rightarrow> confirmed evs ip mac t \<and> g \<le> t + ARP_ENTRY_TIMEOUT)" (is "?L \<longleftrightarrow> ?R")
proof -
  let ?good = "\<lambda>ev. case ev of Learn _ ip' _ \<Rightarrow> ip' \<noteq> ip | Sweep g \<Rightarrow> g \<le> t + ARP_ENTRY_TIMEOUT"
  have "?L \<longleftrightarrow> ev = Learn t ip mac \<or> (confirmed evs ip mac t \<and> ?good ev)"
  proof
    assume ?L
    then obtain before after where e: "evs @ [ev] = before @ Learn t ip mac # after" "\<forall>ev \<in> set after. ?good ev"
      unfolding confirmed_def by blast
    show "ev = Learn t ip mac \<or> (confirmed evs ip mac t \<and> ?good ev)"
    proof (cases after rule: rev_cases)
      case Nil
      then show ?thesis using e by simp
    next
      case (snoc as a)
      then show ?thesis using e unfolding confirmed_def by auto
    qed
  next
    assume "ev = Learn t ip mac \<or> (confirmed evs ip mac t \<and> ?good ev)"
    then show ?L
    proof
      assume "ev = Learn t ip mac"
      then show ?L unfolding confirmed_def by (intro exI[of _ evs] exI[of _ "[]"]) simp
    next
      assume r: "confirmed evs ip mac t \<and> ?good ev"
      then obtain before after where "evs = before @ Learn t ip mac # after" "\<forall>ev \<in> set after. ?good ev"
        unfolding confirmed_def by blast
      then show ?L using r unfolding confirmed_def by (intro exI[of _ before] exI[of _ "after @ [ev]"]) auto
    qed
  qed
  also have "\<dots> \<longleftrightarrow> ?R" by (cases ev) auto
  finally show ?thesis .
qed

lemma live_confirmed:
  "dict_ok (fold arp_event_step evs []) \<and> (live (fold arp_event_step evs []) ip = Some (mac, t) \<longleftrightarrow> confirmed evs ip mac t)"
proof (induction evs arbitrary: mac t rule: rev_induct)
  case Nil
  then show ?case by (simp add: live_def confirmed_def)
next
  case (snoc ev evs)
  let ?T = "fold arp_event_step evs []"
  have ok: "dict_ok ?T" using snoc.IH by blast
  have iff: "live ?T ip = Some (m', t') \<longleftrightarrow> confirmed evs ip m' t'" for m' t' using snoc.IH by blast
  show ?case
  proof (cases ev)
    case (Learn now ip' mac')
    then show ?thesis using ok iff by (auto simp: confirmed_snoc live_update update_entry_ok)
  next
    case (Sweep now)
    have "live (garbage_collect now ?T) ip = Some (mac, t) \<longleftrightarrow> live ?T ip = Some (mac, t) \<and> now \<le> t + ARP_ENTRY_TIMEOUT"
      by (cases "live ?T ip") (auto simp: live_garbage_collect[OF ok] split: if_splits)
    then show ?thesis using Sweep ok iff by (simp add: confirmed_snoc garbage_collect_ok)
  qed
qed

text \<open>
  C21. After any sequence of confirmations and sweeps the table resolves an address to a MAC exactly
  when the latest confirmation of the address announced this MAC and no sweep since then came more
  than 1200 seconds after it.
\<close>

theorem arp_table_tracks_learning:
  "get_mac ip (fold arp_event_step evs []) = Some mac \<longleftrightarrow> (\<exists>t. confirmed evs ip mac t)"
  using live_confirmed[of evs ip mac] by (auto simp: get_mac_live)

section \<open>Controlled flooding\<close>

text \<open>A run of \<open>flooding_strategy\<close>: the calls, each with its time, and what each call sent.\<close>

type_synonym flood_call = "real \<times> packet_in \<times> string \<times> string"

fun call_key :: "flood_call \<Rightarrow> flood_key" where
  "call_key (now, msg, src, dst) = (pi_dpid msg, src, dst)"

fun call_port :: "flood_call \<Rightarrow> nat" where
  "call_port (now, msg, src, dst) = pi_in_port msg"

fun flood_run :: "flood_call list \<Rightarrow> proxy_arp \<Rightarrow> (flood_call \<times> out_msg list) list" where
  "flood_run [] st = []"
| "flood_run ((now, msg, src, dst) # cs) st =
     (case flooding_strategy now msg src dst st of (st', ms) \<Rightarrow> ((now, msg, src, dst), ms) # flood_run cs st')"

definition is_flood :: "out_msg list \<Rightarrow> bool" where
  "is_flood ms \<longleftrightarrow> (\<exists>m \<in> set ms. po_actions m = [Output OFPP_FLOOD])"

definition floods_of :: "flood_key \<Rightarrow> (flood_call \<times> out_msg list) list \<Rightarrow> flood_call list" where
  "floods_of k tr = map fst (filter (\<lambda>(c, ms). call_key c = k \<and> is_flood ms) tr)"

lemma floods_of_simps [simp]:
  "floods_of k [] = []"
  "floods_of k ((c, ms) # tr) = (if call_key c = k \<and> is_flood ms then c # floods_of k tr else floods_of k tr)"
  by (simp_all add: floods_of_def)

lemma is_flood_simps [simp]: "\<not> is_flood []" "is_flood [flood m]" "\<not> is_flood [drop_request m]"
  by (simp_all add: is_flood_def flood_def drop_request_def)

lemma flooding_other:
  "k \<noteq> (pi_dpid msg, src, dst) \<Longrightarrow>
     dict_get (port_block_list (fst (flooding_strategy now msg src dst st))) k = dict_get (port_block_list st) k"
  by (simp add: flooding_strategy_def Let_def split: option.splits)

lemma flood_run_blocked:
  "dict_get (port_block_list st) k = Some (port, n, ts) \<Longrightarrow> n \<le> 5 \<Longrightarrow> \<forall>c \<in> set cs. fst c \<le> ts + ARP_FLOOD_CONTROL_TIMEOUT \<Longrightarrow>
     length (floods_of k (flood_run cs st)) + n \<le> 5 \<and> (\<forall>c \<in> set (floods_of k (flood_run cs st)). call_port c = port)"
proof (induction cs arbitrary: st n)
  case (Cons c cs)
  obtain now msg src dst where c: "c = (now, msg, src, dst)" by (cases c)
  obtain st' ms where f: "flooding_strategy now msg src dst st = (st', ms)" by fastforce
  have times: "\<forall>c \<in> set cs. fst c \<le> ts + ARP_FLOOD_CONTROL_TIMEOUT" "now \<le> ts + ARP_FLOOD_CONTROL_TIMEOUT"
    using Cons.prems(3) c by auto
  show ?case
  proof (cases "k = (pi_dpid msg, src, dst)")
    case False
    then have "dict_get (port_block_list st') k = Some (port, n, ts)"
      using flooding_other[OF False, of now st] f Cons.prems(1) by simp
    from Cons.IH[OF this Cons.prems(2) times(1)] show ?thesis using c f False by auto
  next
    case True
    consider "port = pi_in_port msg" "n < 5" | "\<not> (port = pi_in_port msg \<and> n < 5)" by blast
    then show ?thesis
    proof cases
      case 1
      then have eq: "dict_get (port_block_list st') k = Some (port, Suc n, ts)" "ms = [flood msg]"
        using f Cons.prems(1) True times(2) by (auto simp: flooding_strategy_def Let_def)
      from Cons.IH[OF eq(1) _ times(1)] show ?thesis using c f True 1 eq(2) by auto
    next
      case 2
      then have eq: "st' = st" "\<not> is_flood ms"
        using f Cons.prems(1) True times(2) by (auto simp: flooding_strategy_def Let_def split: if_splits)
      from Cons.IH[OF Cons.prems(1,2) times(1)] show ?thesis using c f eq by auto
    qed
  qed
qed simp

lemma flood_run_fresh:
  "dict_get (port_block_list st) k = None \<Longrightarrow> \<forall>c \<in> set cs. t0 \<le> fst c \<and> fst c \<le> t0 + ARP_FLOOD_CONTROL_TIMEOUT \<Longrightarrow>
     length (floods_of k (flood_run cs st)) \<le> 5 \<and> (\<exists>port. \<forall>c \<in> set (floods_of k (flood_run cs st)). call_port c = port)"
proof (induction cs arbitrary: st)
  case (Cons c cs)
  obtain now msg src dst where c: "c = (now, msg, src, dst)" by (cases c)
  obtain st' ms where f: "flooding_strategy now msg src dst st = (st', ms)" by fastforce
  show ?case
  proof (cases "k = (pi_dpid msg, src, dst)")
    case False
    then have "dict_get (port_block_list st') k = None"
      using flooding_other[OF False, of now st] f Cons.prems(1) by simp
    from Cons.IH[OF this] show ?thesis using c f False Cons.prems(2) by auto
  next
    case True
    then have eq: "dict_get (port_block_list st') k = Some (pi_in_port msg, 1, now)" "ms = [flood msg]"
      using f Cons.prems(1) by (auto simp: flooding_strategy_def Let_def)
    have "\<forall>c \<in> set cs. fst c \<le> now + ARP_FLOOD_CONTROL_TIMEOUT" using Cons.prems(2) c by force
    from flood_run_blocked[OF eq(1) _ this] show ?thesis using c f True eq(2) by auto
  qed
qed simp

text \<open>
  An entry that expires in the window: what it still allows is flooded from its port, the request that
  finds it expired deletes it and is not flooded, and the rest is as without an entry.
\<close>

lemma flood_run_window:
  "dict_get (port_block_list st) k = Some (port, n, ts) \<Longrightarrow> n \<le> 5 \<Longrightarrow> \<forall>c \<in> set cs. t0 \<le> fst c \<and> fst c \<le> t0 + ARP_FLOOD_CONTROL_TIMEOUT \<Longrightarrow>
     length (floods_of k (flood_run cs st)) + n \<le> 10 \<and> (\<exists>port'. \<forall>c \<in> set (floods_of k (flood_run cs st)). call_port c \<in> {port, port'})"
proof (induction cs arbitrary: st n)
  case (Cons c cs)
  obtain now msg src dst where c: "c = (now, msg, src, dst)" by (cases c)
  obtain st' ms where f: "flooding_strategy now msg src dst st = (st', ms)" by fastforce
  have times: "\<forall>c \<in> set cs. t0 \<le> fst c \<and> fst c \<le> t0 + ARP_FLOOD_CONTROL_TIMEOUT" using Cons.prems(3) by simp
  consider (other) "k \<noteq> (pi_dpid msg, src, dst)" | (expired) "k = (pi_dpid msg, src, dst)" "now - ts > ARP_FLOOD_CONTROL_TIMEOUT"
    | (flood) "k = (pi_dpid msg, src, dst)" "\<not> now - ts > ARP_FLOOD_CONTROL_TIMEOUT" "port = pi_in_port msg" "n < 5"
    | (quiet) "k = (pi_dpid msg, src, dst)" "\<not> now - ts > ARP_FLOOD_CONTROL_TIMEOUT" "\<not> (port = pi_in_port msg \<and> n < 5)" by blast
  then show ?case
  proof cases
    case other
    then have "dict_get (port_block_list st') k = Some (port, n, ts)"
      using flooding_other[OF other, of now st] f Cons.prems(1) by simp
    from Cons.IH[OF this Cons.prems(2) times] show ?thesis using c f other by auto
  next
    case expired
    then have "dict_get (port_block_list st') k = None" "ms = []"
      using f Cons.prems(1) by (auto simp: flooding_strategy_def Let_def)
    from flood_run_fresh[OF this(1) times] show ?thesis using c f \<open>ms = []\<close> Cons.prems(2) by auto
  next
    case flood
    then have eq: "dict_get (port_block_list st') k = Some (port, Suc n, ts)" "ms = [flood msg]"
      using f Cons.prems(1) by (auto simp: flooding_strategy_def Let_def)
    from Cons.IH[OF eq(1) _ times] flood(4) obtain port' where
      "length (floods_of k (flood_run cs st')) + Suc n \<le> 10" "\<forall>c \<in> set (floods_of k (flood_run cs st')). call_port c \<in> {port, port'}" by auto
    then show ?thesis using c f flood eq(2) by auto
  next
    case quiet
    then have eq: "st' = st" "\<not> is_flood ms"
      using f Cons.prems(1) by (auto simp: flooding_strategy_def Let_def split: if_splits)
    from Cons.IH[OF Cons.prems(1,2) times] show ?thesis using c f eq by auto
  qed
qed simp

definition wit_request :: packet_in where
  "wit_request = \<lparr>pi_dpid = 1, pi_in_port = 3, pi_buffer_id = 7, pi_data = [],
     pi_protocols = [Ethernet ''00:00:00:00:00:01'' BROADCAST_STR]\<rparr>"

definition wit_proxy :: proxy_arp where
  "wit_proxy = \<lparr>mac_to_port = [], port_block_list = [], arp_queue = [], the_arp_table = []\<rparr>"

section \<open>Replies are true\<close>

text \<open>
  \<open>arp_reach H st\<close>: the proxy can get into the state \<open>st\<close> when \<open>H\<close> are the pairs of an address and
  a MAC that the ARP packets received so far have announced. Packets, rounds of the update thread
  and sweeps come in any order.
\<close>

inductive arp_reach :: "(string \<times> string) set \<Rightarrow> proxy_arp \<Rightarrow> bool" where
  start: "arp_reach {} \<lparr>mac_to_port = [], port_block_list = [], arp_queue = [], the_arp_table = []\<rparr>"
| arrive: "arp_reach H st \<Longrightarrow> arp_reach (insert (arp_src_ip a, arp_src_mac a) H) (fst (handle_arp now msg a st))"
| update: "arp_reach H st \<Longrightarrow> arp_reach H (process_one now st)"
| sweep: "arp_reach H st \<Longrightarrow> arp_reach H (st\<lparr>the_arp_table := garbage_collect now (the_arp_table st)\<rparr>)"

definition heard :: "(string \<times> string) set \<Rightarrow> proxy_arp \<Rightarrow> bool" where
  "heard H st \<longleftrightarrow> set (arp_queue st) \<subseteq> H \<and> dict_ok (the_arp_table st) \<and>
     (\<forall>ip mac t. live (the_arp_table st) ip = Some (mac, t) \<longrightarrow> (ip, mac) \<in> H)"

lemma flooding_strategy_keeps:
  "arp_queue (fst (flooding_strategy now msg src dst st)) = arp_queue st"
  "the_arp_table (fst (flooding_strategy now msg src dst st)) = the_arp_table st"
  by (simp_all add: flooding_strategy_def Let_def split: option.splits)

lemma answer_or_keeps:
  "P st \<Longrightarrow> P (fst r) \<Longrightarrow> P (fst (answer_or msg src mac a st r))"
  by (simp add: answer_or_def split: option.splits)

lemma handle_arp_request_keeps:
  assumes "\<And>now msg src dst. P (fst (flooding_strategy now msg src dst st))" "P st"
  shows "P (fst (handle_arp_request now msg src dst a st))"
proof -
  obtain st' ms where f: "flooding_strategy now msg src (arp_dst_ip a) st = (st', ms)" by fastforce
  then have "P st'" using assms(1)[of now msg src "arp_dst_ip a"] by simp
  note keep = answer_or_keeps[of P, OF assms(2)]
  let ?b = "case eth_dst_lookup (arp_dst_ip a) st of None \<Rightarrow> (st', Inr ms)
    | Some mac \<Rightarrow> (if mac = [] then (st', Inr ms) else answer_or msg src mac a st (st', Inr ms))"
  have "P (fst ?b)" using \<open>P st'\<close> keep by (cases "eth_dst_lookup (arp_dst_ip a) st") simp_all
  then show ?thesis using keep[of ?b] f by (simp add: handle_arp_request_def Let_def)
qed

lemma handle_arp_rule:
  assumes "P st" "P (add_to_queue (arp_src_ip a, arp_src_mac a) st)"
    "\<And>src. P (learn_port msg src (add_to_queue (arp_src_ip a, arp_src_mac a) st))"
    "\<And>src dst. P (fst (handle_arp_request now msg src dst a (learn_port msg src (add_to_queue (arp_src_ip a, arp_src_mac a) st))))"
  shows "P (fst (handle_arp now msg a st))"
  using assms by (simp add: handle_arp_def Let_def split: option.splits)

lemma handle_arp_keeps:
  "arp_queue (fst (handle_arp now msg a st)) \<in> {arp_queue st, arp_queue st @ [(arp_src_ip a, arp_src_mac a)]} \<and>
   the_arp_table (fst (handle_arp now msg a st)) = the_arp_table st"
proof (rule handle_arp_rule, goal_cases)
  case (4 src dst)
  show ?case by (rule handle_arp_request_keeps) (simp_all add: flooding_strategy_keeps learn_port_def add_to_queue_def)
qed (simp_all add: learn_port_def add_to_queue_def)

lemma arp_reach_heard: "arp_reach H st \<Longrightarrow> heard H st"
proof (induction rule: arp_reach.induct)
  case start
  then show ?case by (simp add: heard_def live_def)
next
  case (arrive H st a now msg)
  have "set (arp_queue (fst (handle_arp now msg a st))) \<subseteq> insert (arp_src_ip a, arp_src_mac a) (set (arp_queue st))"
    using handle_arp_keeps[of now msg a st] by auto
  moreover have "the_arp_table (fst (handle_arp now msg a st)) = the_arp_table st"
    using handle_arp_keeps[of now msg a st] by blast
  ultimately show ?case using arrive.IH unfolding heard_def by auto
next
  case (update H st now)
  show ?case
  proof (cases "arp_queue st")
    case Nil
    then show ?thesis using update by (simp add: process_one_def)
  next
    case (Cons p q)
    obtain ip mac where "p = (ip, mac)" by fastforce
    then show ?thesis using update.IH Cons by (auto simp: heard_def process_one_def live_update update_entry_ok)
  qed
next
  case (sweep H st now)
  then have ok: "dict_ok (the_arp_table st)" by (simp add: heard_def)
  have "live (the_arp_table st) ip = Some (mac, t)" if "live (garbage_collect now (the_arp_table st)) ip = Some (mac, t)" for ip mac t
    using that by (cases "live (the_arp_table st) ip") (auto simp: live_garbage_collect[OF ok] split: if_splits)
  then show ?case using sweep.IH by (simp add: heard_def garbage_collect_ok[OF ok])
qed

text \<open>The counter of an entry counts from one to the limit.\<close>

definition blocks_ok :: "proxy_arp \<Rightarrow> bool" where
  "blocks_ok st \<longleftrightarrow> (\<forall>k port n ts. dict_get (port_block_list st) k = Some (port, n, ts) \<longrightarrow> 1 \<le> n \<and> n \<le> ARP_FLOOD_TIMES_CONTROL)"

lemma blocks_ok_get: "blocks_ok st \<Longrightarrow> dict_get (port_block_list st) k = Some (port, n, ts) \<Longrightarrow> 1 \<le> n \<and> n \<le> ARP_FLOOD_TIMES_CONTROL"
  unfolding blocks_ok_def by blast

lemma blocks_ok_update:
  "blocks_ok st \<Longrightarrow> 1 \<le> n \<Longrightarrow> n \<le> ARP_FLOOD_TIMES_CONTROL \<Longrightarrow> blocks_ok (st\<lparr>port_block_list := dict_set k (port, n, ts) (port_block_list st)\<rparr>)"
  "blocks_ok st \<Longrightarrow> blocks_ok (st\<lparr>port_block_list := dict_del k (port_block_list st)\<rparr>)"
  by (auto simp: blocks_ok_def)

lemma flooding_strategy_blocks:
  assumes "blocks_ok st" shows "blocks_ok (fst (flooding_strategy now msg src dst st))"
proof (cases "dict_get (port_block_list st) (pi_dpid msg, src, dst)")
  case None
  then show ?thesis using assms by (simp add: flooding_strategy_def blocks_ok_update del: One_nat_def)
next
  case (Some e)
  obtain port n ts where e: "e = (port, n, ts)" by (cases e)
  show ?thesis using assms Some e blocks_ok_get[OF assms Some[unfolded e]]
    by (simp add: flooding_strategy_def blocks_ok_update Let_def del: One_nat_def)
qed

lemma arp_reach_blocks: "arp_reach H st \<Longrightarrow> blocks_ok st"
proof (induction rule: arp_reach.induct)
  case (arrive H st a now msg)
  have same: "blocks_ok st'" if "port_block_list st' = port_block_list st" for st' using arrive.IH that by (simp add: blocks_ok_def)
  have queued: "blocks_ok (add_to_queue (arp_src_ip a, arp_src_mac a) st)" by (rule same) (simp add: add_to_queue_def)
  have learnt: "blocks_ok (learn_port msg src (add_to_queue (arp_src_ip a, arp_src_mac a) st))" for src
    by (rule same) (simp add: learn_port_def add_to_queue_def Let_def)
  show ?case
    by (rule handle_arp_rule[where P = blocks_ok, OF arrive.IH queued learnt])
      (rule handle_arp_request_keeps[where P = blocks_ok, OF flooding_strategy_blocks[OF learnt] learnt])
next
  case (update H st now)
  then show ?case by (simp add: blocks_ok_def process_one_def split: list.splits prod.splits)
qed (simp_all add: blocks_ok_def)

text \<open>
  C22. In any ten seconds, from any state the proxy can reach, requests of one host for one address are flooded by a switch
  at most nine times and only from at most two ports, whatever other requests come in between. As long as no
  entry of the list of blocked ports expires in the window, or when there is none at its start, it is at
  most five times, the floods before the window that the entry has counted included, and from one port.
\<close>

theorem flooding_bounded:
  assumes "arp_reach H st" and "\<forall>c \<in> set cs. t0 \<le> fst c \<and> fst c \<le> t0 + ARP_FLOOD_CONTROL_TIMEOUT"
  shows "length (floods_of k (flood_run cs st)) < 2 * ARP_FLOOD_TIMES_CONTROL \<and>
    (\<exists>p p'. \<forall>c \<in> set (floods_of k (flood_run cs st)). call_port c \<in> {p, p'}) \<and>
    (case dict_get (port_block_list st) k of
       None \<Rightarrow> length (floods_of k (flood_run cs st)) \<le> ARP_FLOOD_TIMES_CONTROL \<and>
         (\<exists>p. \<forall>c \<in> set (floods_of k (flood_run cs st)). call_port c = p)
     | Some (port, n, ts) \<Rightarrow>
         (\<forall>c \<in> set cs. fst c \<le> ts + ARP_FLOOD_CONTROL_TIMEOUT) \<longrightarrow>
           length (floods_of k (flood_run cs st)) + n \<le> ARP_FLOOD_TIMES_CONTROL \<and>
           (\<forall>c \<in> set (floods_of k (flood_run cs st)). call_port c = port))"
proof (cases "dict_get (port_block_list st) k")
  case None
  from flood_run_fresh[OF this assms(2)] obtain p where p: "length (floods_of k (flood_run cs st)) \<le> 5"
    "\<forall>c \<in> set (floods_of k (flood_run cs st)). call_port c = p" by blast
  then have "\<forall>c \<in> set (floods_of k (flood_run cs st)). call_port c \<in> {p, p}" by simp
  then show ?thesis using None p by auto
next
  case (Some e)
  obtain port n ts where e: "e = (port, n, ts)" by (cases e)
  have n: "1 \<le> n" "n \<le> 5" using blocks_ok_get[OF arp_reach_blocks[OF assms(1)] Some[unfolded e]] by simp_all
  from flood_run_window[OF Some[unfolded e] n(2) assms(2)] obtain p where
    "length (floods_of k (flood_run cs st)) + n \<le> 10" "\<forall>c \<in> set (floods_of k (flood_run cs st)). call_port c \<in> {port, p}" by blast
  then show ?thesis using n(1) flood_run_blocked[OF Some[unfolded e] n(2)] Some e by auto
qed

text \<open>A request is flooded at 0; in the window from 2 to 12 the entry is found expired at 11, and floods come from the ports 3 and 4.\<close>

definition wit_arp_unknown :: arp_packet where
  "wit_arp_unknown = \<lparr>arp_opcode = ARP_REQUEST, arp_src_mac = ''00:00:00:00:00:01'', arp_src_ip = ''10.0.0.1'',
     arp_dst_mac = ''00:00:00:00:00:00'', arp_dst_ip = ''10.0.0.9''\<rparr>"

definition wit_flooded :: proxy_arp where
  "wit_flooded = fst (handle_arp 0 wit_request wit_arp_unknown wit_proxy)"

definition wit_calls :: "flood_call list" where
  "wit_calls = map (\<lambda>(t, p). (t, wit_request\<lparr>pi_in_port := p\<rparr>, ''00:00:00:00:00:01'', ''10.0.0.9'')) [(2, 3), (11, 4), (12, 4)]"

lemma wit_flooded_block: "port_block_list wit_flooded = [((1, ''00:00:00:00:00:01'', ''10.0.0.9''), (3, 1, 0))]"
  by (simp add: wit_flooded_def handle_arp_def wit_request_def parse_ethernet_def wit_arp_unknown_def wit_proxy_def add_to_queue_def learn_port_def
    handle_arp_request_def eth_dst_lookup_def GATEWAY_IP_LIST_def GATEWAY_MAC_DICT_def flooding_strategy_def get_mac_def Let_def)

theorem flooding_bounded_witness:
  "length (floods_of (1, ''00:00:00:00:00:01'', ''10.0.0.9'') (flood_run wit_calls wit_flooded)) < 10 \<and>
   map call_port (floods_of (1, ''00:00:00:00:00:01'', ''10.0.0.9'') (flood_run wit_calls wit_flooded)) = [3, 4]"
proof -
  have r: "arp_reach (insert (arp_src_ip wit_arp_unknown, arp_src_mac wit_arp_unknown) {}) wit_flooded"
    unfolding wit_flooded_def by (rule arp_reach.arrive) (simp add: wit_proxy_def arp_reach.start)
  have t: "\<forall>c \<in> set wit_calls. 2 \<le> fst c \<and> fst c \<le> 2 + ARP_FLOOD_CONTROL_TIMEOUT" by (simp add: wit_calls_def)
  have "map call_port (floods_of (1, ''00:00:00:00:00:01'', ''10.0.0.9'') (flood_run wit_calls wit_flooded)) = [3, 4]"
    by (simp add: wit_calls_def wit_request_def flooding_strategy_def Let_def wit_flooded_block)
  then show ?thesis using conjunct1[OF flooding_bounded[OF r t, of "(1, ''00:00:00:00:00:01'', ''10.0.0.9'')"]] by simp
qed

lemma flooding_no_reply: "snd (flooding_strategy now msg src dst st) \<in> {[], [flood msg], [drop_request msg]}"
  by (simp add: flooding_strategy_def Let_def split: option.splits)

text \<open>
  C20. Whatever packets, update rounds and sweeps came before, handling an ARP packet with an
  Ethernet header does not raise. Every ARP reply it sends goes back to the requester on the port
  of the request; and if the request was a broadcast, the address and the MAC of the reply are
  those of a gateway or were announced by an ARP packet.
\<close>

theorem arp_replies_true:
  assumes "arp_reach H st" and "parse_ethernet (pi_protocols msg) = Some (src, dst)"
  shows "\<exists>st' ms. handle_arp now msg a st = (st', Inr ms) \<and>
    (\<forall>d s p. \<forall>m \<in> set ms. po_data m = ArpFrame d s p \<longrightarrow>
       d = src \<and> arp_dst_ip p = arp_src_ip a \<and> po_actions m = [Output (pi_in_port msg)] \<and>
       (dst = BROADCAST_STR \<longrightarrow> (arp_dst_ip a, s) \<in> set GATEWAY_MAC_DICT \<union> H))"
proof -
  let ?st = "learn_port msg src (add_to_queue (arp_src_ip a, arp_src_mac a) st)"
  let ?good = "\<lambda>d s p m. d = src \<and> arp_dst_ip p = arp_src_ip a \<and> po_actions m = [Output (pi_in_port msg)] \<and>
       (dst = BROADCAST_STR \<longrightarrow> (arp_dst_ip a, s) \<in> set GATEWAY_MAC_DICT \<union> H)"
  have heard: "heard H st" by (rule arp_reach_heard[OF assms(1)])
  have port: "\<exists>ports. dict_get (mac_to_port ?st) (pi_dpid msg) = Some ports \<and> dict_get ports src = Some (pi_in_port msg)"
    by (simp add: learn_port_def Let_def)
  have ans: "answer_or msg src mac a ?st r =
      (?st, Inr [proxy_arp_reply (pi_dpid msg) mac src (arp_dst_ip a) (arp_src_ip a) (pi_in_port msg)])" for mac r
    using port by (auto simp: answer_or_def)
  have known: "(arp_dst_ip a, mac) \<in> set GATEWAY_MAC_DICT \<union> H" if "eth_dst_lookup (arp_dst_ip a) ?st = Some mac" for mac
    using that heard
    by (auto simp: eth_dst_lookup_def heard_def learn_port_def add_to_queue_def get_mac_live dest: map_of_SomeD split: if_splits)
  have req: "\<exists>st' ms. handle_arp_request now msg src dst a ?st = (st', Inr ms) \<and>
      (\<forall>d s p. \<forall>m \<in> set ms. po_data m = ArpFrame d s p \<longrightarrow> ?good d s p m)"
  proof (cases "dst \<noteq> BROADCAST_STR")
    case True
    then show ?thesis by (simp add: handle_arp_request_def ans proxy_arp_reply_def)
  next
    case False
    obtain st' ms where f: "flooding_strategy now msg src (arp_dst_ip a) ?st = (st', ms)" by fastforce
    then have "\<forall>m \<in> set ms. \<forall>d s p. po_data m \<noteq> ArpFrame d s p"
      using flooding_no_reply[of now msg src "arp_dst_ip a" ?st] by (auto simp: flood_def drop_request_def split: if_splits)
    then show ?thesis using False f known
      by (cases "eth_dst_lookup (arp_dst_ip a) ?st") (auto simp: handle_arp_request_def Let_def ans proxy_arp_reply_def)
  qed
  then show ?thesis using assms(2) by (auto simp: handle_arp_def Let_def)
qed

definition wit_arp :: arp_packet where
  "wit_arp = \<lparr>arp_opcode = ARP_REQUEST, arp_src_mac = ''00:00:00:00:00:01'', arp_src_ip = ''10.0.0.1'',
     arp_dst_mac = ''00:00:00:00:00:00'', arp_dst_ip = ''10.0.0.201''\<rparr>"

theorem arp_replies_true_witness:
  "\<exists>st' ms. handle_arp 0 wit_request wit_arp wit_proxy = (st', Inr ms) \<and> ms \<noteq> []"
proof -
  have "arp_reach {} wit_proxy" unfolding wit_proxy_def by (rule arp_reach.start)
  moreover have "parse_ethernet (pi_protocols wit_request) = Some (''00:00:00:00:00:01'', BROADCAST_STR)"
    by (simp add: wit_request_def parse_ethernet_def)
  ultimately obtain st' ms where h: "handle_arp 0 wit_request wit_arp wit_proxy = (st', Inr ms)"
    using arp_replies_true[of "{}" wit_proxy wit_request _ _ 0 wit_arp] by blast
  moreover have "snd (handle_arp 0 wit_request wit_arp wit_proxy) \<noteq> Inr []"
    by (simp add: handle_arp_def wit_request_def parse_ethernet_def wit_arp_def wit_proxy_def add_to_queue_def learn_port_def
        handle_arp_request_def eth_dst_lookup_def GATEWAY_IP_LIST_def GATEWAY_MAC_DICT_def answer_or_def)
  ultimately show ?thesis by auto
qed

end
