(* ===== verification/Load_Balance.thy ===== *)
theory Load_Balance
  imports Prelude
begin

text \<open>
  The choice of a server: \<open>LC\<close> and \<open>WLC\<close> of \<open>load_balance/load_balancing_algorithm/wlc.py\<close> and
  \<open>LoadBalancer\<close> of \<open>load_balance/load_balancer.py\<close>. A server is known by its address, the first
  element of its \<open>server_info\<close>. \<open>sorted\<close> is stable, as \<^const>\<open>sort_key\<close> is.
\<close>

section \<open>Least connection\<close>

type_synonym 'i server_dict = "(string, (string \<times> 'i) list) pydict"

record 'i lc =
  connection_num :: "(string, nat) pydict"
  lc_server_dict :: "'i server_dict"

definition new_LC :: "'i server_dict \<Rightarrow> 'i lc" where
  "new_LC server_dict =
     \<lparr>connection_num = foldl (\<lambda>c s. dict_set (fst s) 1 c) [] (concat (dict_values server_dict)), lc_server_dict = server_dict\<rparr>"

definition calculate_dst_server :: "string \<Rightarrow> 'i lc \<Rightarrow> pyerr + ('i lc \<times> string option)" where
  "calculate_dst_server net_address a =
     (case dict_get (lc_server_dict a) net_address of
        None \<Rightarrow> Inl KeyError
      | Some dst_server_list \<Rightarrow>
          (let dst_servers = map fst dst_server_list;
               all_sorted_servers = map fst (sort_key snd (connection_num a))
           in case find (\<lambda>s. s \<in> set dst_servers) all_sorted_servers of
                None \<Rightarrow> Inr (a, None)
              | Some s \<Rightarrow>
                  (case dict_get (connection_num a) s of
                     None \<Rightarrow> Inl KeyError
                   | Some n \<Rightarrow> Inr (a\<lparr>connection_num := dict_set s (n + 1) (connection_num a)\<rparr>, Some s))))"

definition calculate_src_gateway_ip :: "string \<Rightarrow> 'i lc \<Rightarrow> string option" where
  "calculate_src_gateway_ip server_ip a =
     map_option fst (find (\<lambda>(gateway, servers_info). \<exists>s \<in> set servers_info. fst s = server_ip) (lc_server_dict a))"

section \<open>Weighted least connection\<close>

record wlc =
  w_connection_num :: "(string, nat) pydict"
  weight_of_server :: "(string, nat) pydict"

definition new_WLC :: "string list \<Rightarrow> (string, nat) pydict \<Rightarrow> wlc" where
  "new_WLC servers weights = \<lparr>w_connection_num = foldl (\<lambda>c s. dict_set s 1 c) [] servers, weight_of_server = weights\<rparr>"

text \<open>The division is that of integers: it rounds down.\<close>

definition calculate_server_allocate_value :: "wlc \<Rightarrow> (string, nat) pydict" where
  "calculate_server_allocate_value a =
     [(s, n div w). (s, n) \<leftarrow> w_connection_num a, w \<leftarrow> (case dict_get (weight_of_server a) s of Some w \<Rightarrow> (if 0 < w then [w] else []) | None \<Rightarrow> [])]"

definition wlc_dst_server :: "wlc \<Rightarrow> pyerr + (wlc \<times> string)" where
  "wlc_dst_server a =
     (case map fst (sort_key snd (calculate_server_allocate_value a)) of
        [] \<Rightarrow> Inl IndexError
      | s # _ \<Rightarrow>
          (case dict_get (w_connection_num a) s of
             None \<Rightarrow> Inl KeyError
           | Some n \<Rightarrow> Inr (a\<lparr>w_connection_num := dict_set s (n + 1) (w_connection_num a)\<rparr>, s)))"

section \<open>The load balancer\<close>

record 'i load_balancer =
  lb_status :: bool
  lb_algorithm :: "'i lc"
  configuration :: "'i server_dict"

definition new_load_balancer :: "'i load_balancer" where
  "new_load_balancer = \<lparr>lb_status = False, lb_algorithm = new_LC [], configuration = []\<rparr>"

text \<open>The clusters are given by their addresses and types.\<close>

definition lb_init :: "(string, string) pydict \<Rightarrow> 'i server_dict \<Rightarrow> 'i load_balancer \<Rightarrow> pyerr + 'i load_balancer" where
  "lb_init cluster_types servers_based_on_type lb =
     res_bind (res_fold (\<lambda>d (cluster_ip, ty).
         case dict_get servers_based_on_type ty of None \<Rightarrow> Inl KeyError | Some ss \<Rightarrow> Inr (dict_set cluster_ip ss d)) [] cluster_types) (\<lambda>d.
     Inr (lb\<lparr>configuration := d, lb_status := True\<rparr>))"

definition lb_update :: "'i load_balancer \<Rightarrow> 'i load_balancer" where
  "lb_update lb = lb\<lparr>lb_algorithm := new_LC (configuration lb)\<rparr>"

definition lb_get_server :: "string \<Rightarrow> 'i load_balancer \<Rightarrow> pyerr + ('i load_balancer \<times> string option)" where
  "lb_get_server dst_ip lb =
     (if \<not> lb_status lb then Inr (lb, None)
      else res_bind (calculate_dst_server dst_ip (lb_algorithm lb)) (\<lambda>(a, s). Inr (lb\<lparr>lb_algorithm := a\<rparr>, s)))"

section \<open>The least loaded server\<close>

definition conn :: "'i lc \<Rightarrow> string \<Rightarrow> nat" where
  "conn a s = (case dict_get (connection_num a) s of None \<Rightarrow> 0 | Some n \<Rightarrow> n)"

definition servers_of :: "'i lc \<Rightarrow> string \<Rightarrow> string set" where
  "servers_of a addr = (case dict_get (lc_server_dict a) addr of None \<Rightarrow> {} | Some ss \<Rightarrow> fst ` set ss)"

definition lc_ok :: "'i lc \<Rightarrow> bool" where
  "lc_ok a \<longleftrightarrow> dict_ok (connection_num a) \<and> (\<forall>addr. servers_of a addr \<subseteq> set (dict_keys (connection_num a)))"

lemma find_sorted_min:
  assumes "find (\<lambda>s. s \<in> S) (map fst (sort_key snd d)) = Some s" "dict_ok d"
  shows "s \<in> S \<and> (\<exists>n. dict_get d s = Some n \<and> (\<forall>s' n'. s' \<in> S \<longrightarrow> dict_get d s' = Some n' \<longrightarrow> n \<le> n'))"
proof -
  let ?d = "sort_key snd d"
  obtain i where i: "i < length ?d" "s = fst (?d ! i)" "s \<in> S" "\<And>j. j < i \<Longrightarrow> fst (?d ! j) \<notin> S"
    using assms(1) by (auto simp: find_Some_iff)
  have "(s, snd (?d ! i)) \<in> set d" using nth_mem[OF i(1)] i(2) by simp
  then have "dict_get d s = Some (snd (?d ! i))" using assms(2) by simp
  moreover have "snd (?d ! i) \<le> n'" if "s' \<in> S" "dict_get d s' = Some n'" for s' n'
  proof -
    have "(s', n') \<in> set ?d" using that(2) map_of_SomeD by fastforce
    then obtain j where j: "j < length ?d" "?d ! j = (s', n')" by (metis in_set_conv_nth)
    then have "i \<le> j" using i(4)[of j] that(1) by (metis fst_conv not_le_imp_less)
    then show ?thesis using sorted_nth_mono[of "map snd ?d" i j] j i(1) by simp
  qed
  ultimately show ?thesis using i(3) by blast
qed

lemma choose_least:
  assumes ok: "lc_ok a" and addr: "dict_get (lc_server_dict a) addr = Some ss" and ne: "ss \<noteq> []"
  obtains s where "s \<in> servers_of a addr" "\<And>s'. s' \<in> servers_of a addr \<Longrightarrow> conn a s \<le> conn a s'"
    "calculate_dst_server addr a = Inr (a\<lparr>connection_num := dict_set s (conn a s + 1) (connection_num a)\<rparr>, Some s)"
proof -
  let ?S = "set (map fst ss)"
  have S: "servers_of a addr = ?S" using addr by (simp add: servers_of_def)
  have sub: "?S \<subseteq> set (dict_keys (connection_num a))" using ok S by (auto simp: lc_ok_def)
  have dok: "dict_ok (connection_num a)" using ok by (simp add: lc_ok_def)
  have "find (\<lambda>s. s \<in> ?S) (map fst (sort_key snd (connection_num a))) \<noteq> None"
  proof -
    have "fst (hd ss) \<in> ?S" using ne by simp
    moreover have "fst (hd ss) \<in> set (map fst (sort_key snd (connection_num a)))" using calculation sub by auto
    ultimately show ?thesis unfolding find_None_iff by blast
  qed
  then obtain s where f: "find (\<lambda>s. s \<in> ?S) (map fst (sort_key snd (connection_num a))) = Some s" by blast
  from find_sorted_min[OF this dok] obtain n where s: "s \<in> ?S" "dict_get (connection_num a) s = Some n"
    "\<And>s' n'. s' \<in> ?S \<Longrightarrow> dict_get (connection_num a) s' = Some n' \<Longrightarrow> n \<le> n'" by blast
  have "conn a s \<le> conn a s'" if "s' \<in> servers_of a addr" for s'
  proof -
    have "s' \<in> ?S" using that S by simp
    then obtain n' where "dict_get (connection_num a) s' = Some n'" using sub by (metis dict_get_None_iff not_None_eq subsetD)
    then show ?thesis using s(2) s(3)[OF \<open>s' \<in> ?S\<close>] by (simp add: conn_def)
  qed
  moreover have "calculate_dst_server addr a = Inr (a\<lparr>connection_num := dict_set s (conn a s + 1) (connection_num a)\<rparr>, Some s)"
    using addr f s(2) by (simp add: calculate_dst_server_def Let_def conn_def del: set_map)
  ultimately show ?thesis using that s(1) S by blast
qed

text \<open>Requests, one after the other; a request that raises changes nothing.\<close>

fun lc_run :: "string list \<Rightarrow> 'i lc \<Rightarrow> 'i lc" where
  "lc_run [] a = a"
| "lc_run (addr # reqs) a = lc_run reqs (case calculate_dst_server addr a of Inr (a', _) \<Rightarrow> a' | Inl _ \<Rightarrow> a)"

definition balanced :: "'i lc \<Rightarrow> bool" where
  "balanced a \<longleftrightarrow> (\<forall>addr. \<forall>s \<in> servers_of a addr. \<forall>s' \<in> servers_of a addr. conn a s \<le> conn a s' + 1)"

definition grouped :: "'i server_dict \<Rightarrow> bool" where
  "grouped d \<longleftrightarrow> (\<forall>(addr, ss) \<in> set d. \<forall>(addr', ss') \<in> set d. fst ` set ss = fst ` set ss' \<or> fst ` set ss \<inter> fst ` set ss' = {})"

lemma grouped_servers:
  "grouped (lc_server_dict a) \<Longrightarrow> servers_of a x = servers_of a y \<or> servers_of a x \<inter> servers_of a y = {}"
proof (cases "dict_get (lc_server_dict a) x"; cases "dict_get (lc_server_dict a) y")
  fix ss ss' assume g: "grouped (lc_server_dict a)" and
    s: "dict_get (lc_server_dict a) x = Some ss" "dict_get (lc_server_dict a) y = Some ss'"
  have "fst ` set ss = fst ` set ss' \<or> fst ` set ss \<inter> fst ` set ss' = {}"
    using g map_of_SomeD[OF s(1)] map_of_SomeD[OF s(2)] unfolding grouped_def by fast
  then show ?thesis by (simp add: servers_of_def s)
qed (simp_all add: servers_of_def)

lemma servers_of_conn [simp]: "servers_of (a\<lparr>connection_num := c\<rparr>) = servers_of a"
  by (simp add: servers_of_def fun_eq_iff)

lemma lc_step:
  assumes ok: "lc_ok a" "balanced a" "grouped (lc_server_dict a)" and r: "calculate_dst_server addr a = Inr (a', r)"
  shows "lc_ok a' \<and> balanced a' \<and> lc_server_dict a' = lc_server_dict a"
proof -
  obtain ss where ss: "dict_get (lc_server_dict a) addr = Some ss" using r by (auto simp: calculate_dst_server_def split: option.splits)
  show ?thesis
  proof (cases "ss = []")
    case True
    have "find (\<lambda>s. False) (map fst (sort_key snd (connection_num a))) = None" by (simp add: find_None_iff)
    then have "a' = a" using True r ss by (simp add: calculate_dst_server_def)
    then show ?thesis using ok by simp
  next
    case False
    obtain s where s: "s \<in> servers_of a addr" "\<And>s'. s' \<in> servers_of a addr \<Longrightarrow> conn a s \<le> conn a s'"
      "a' = a\<lparr>connection_num := dict_set s (conn a s + 1) (connection_num a)\<rparr>"
      using choose_least[OF ok(1) ss False] r by (metis Inr_inject prod.inject)
    have c: "conn a' x = (if x = s then conn a s + 1 else conn a x)" for x by (simp add: s(3) conn_def)
    have "conn a' x \<le> conn a' y + 1" if "x \<in> servers_of a z" "y \<in> servers_of a z" for x y z
    proof -
      have b: "conn a x \<le> conn a y + 1" using ok(2) that by (simp add: balanced_def)
      show ?thesis
      proof (cases "x = s")
        case True
        then have "servers_of a z = servers_of a addr" using grouped_servers[OF ok(3), of z addr] that(1) s(1) by auto
        then show ?thesis using True c s(2) that(2) by auto
      next
        case False
        then show ?thesis using b c[of x] c[of y] by auto
      qed
    qed
    moreover have "lc_ok a'" using ok(1) unfolding lc_ok_def s(3) by (auto simp: keys_dict_set simp del: set_map)
    ultimately show ?thesis using s(3) by (simp add: balanced_def)
  qed
qed

lemma lc_run_inv:
  "lc_ok a \<Longrightarrow> balanced a \<Longrightarrow> grouped (lc_server_dict a) \<Longrightarrow> balanced (lc_run reqs a) \<and> lc_ok (lc_run reqs a) \<and> lc_server_dict (lc_run reqs a) = lc_server_dict a"
proof (induction reqs arbitrary: a)
  case (Cons addr reqs)
  show ?case
  proof (cases "calculate_dst_server addr a")
    case (Inl e)
    then show ?thesis using Cons by simp
  next
    case (Inr p)
    obtain a' r where "p = (a', r)" by fastforce
    then show ?thesis using Inr lc_step[OF Cons.prems, of addr a' r] Cons.IH[of a'] Cons.prems(3) by simp
  qed
qed simp

lemma new_LC_ok:
  fixes d :: "'i server_dict"
  shows "lc_ok (new_LC d) \<and> balanced (new_LC d) \<and> lc_server_dict (new_LC d) = d"
proof -
  have "dict_ok (foldl (\<lambda>c s. dict_set (fst s) 1 c) c (ss :: (string \<times> 'i) list)) \<and>
      set (dict_keys (foldl (\<lambda>c s. dict_set (fst s) 1 c) c ss)) = set (dict_keys c) \<union> fst ` set ss \<and>
      (\<forall>s n. dict_get (foldl (\<lambda>c s. dict_set (fst s) 1 c) c ss) s = Some n \<longrightarrow> n = (1 :: nat))"
    if "dict_ok c" "\<forall>s n. dict_get c s = Some n \<longrightarrow> n = 1" for c ss using that
  proof (induction ss arbitrary: c)
    case (Cons x ss)
    have "dict_ok (dict_set (fst x) 1 c)" "\<forall>s n. dict_get (dict_set (fst x) 1 c) s = Some n \<longrightarrow> n = 1" using Cons.prems by auto
    from Cons.IH[OF this] show ?case by (auto simp: keys_dict_set simp del: set_map)
  qed simp
  from this[of "[]" "concat (dict_values d)"]
  have c: "dict_ok (connection_num (new_LC d))" "set (dict_keys (connection_num (new_LC d))) = fst ` set (concat (dict_values d))"
    "\<And>s n. dict_get (connection_num (new_LC d)) s = Some n \<Longrightarrow> n = 1"
    by (simp_all add: new_LC_def)
  have "servers_of (new_LC d) addr \<subseteq> fst ` set (concat (dict_values d))" for addr
    by (force simp: servers_of_def new_LC_def split: option.splits dest: map_of_SomeD)
  then have ok: "lc_ok (new_LC d)" using c(1,2) by (simp add: lc_ok_def)
  then have "conn (new_LC d) s = 1" if "s \<in> servers_of (new_LC d) addr" for s addr
    using that c(3) dict_get_None_iff[of "connection_num (new_LC d)" s] unfolding lc_ok_def conn_def by (fastforce split: option.splits)
  then show ?thesis using ok by (auto simp: balanced_def new_LC_def)
qed

text \<open>
  C30. Starting from the configuration, after any sequence of requests the numbers of connections given
  to two servers of one address differ by at most one, provided that two addresses have the same
  servers or none in common.
\<close>

theorem least_connection_balances:
  assumes "grouped d" and "s \<in> servers_of (new_LC d) addr" "s' \<in> servers_of (new_LC d) addr"
  shows "conn (lc_run reqs (new_LC d)) s \<le> conn (lc_run reqs (new_LC d)) s' + 1"
proof -
  note ok = new_LC_ok[of d]
  have r: "balanced (lc_run reqs (new_LC d)) \<and> lc_ok (lc_run reqs (new_LC d)) \<and> lc_server_dict (lc_run reqs (new_LC d)) = lc_server_dict (new_LC d)"
    by (rule lc_run_inv) (use ok assms(1) in auto)
  then have "servers_of (lc_run reqs (new_LC d)) = servers_of (new_LC d)" by (simp add: servers_of_def fun_eq_iff)
  then show ?thesis using r assms(2,3) by (simp add: balanced_def)
qed

theorem least_connection_balances_witness:
  "conn (lc_run [''10.0.0.201'', ''10.0.0.201'', ''10.0.0.201''] (new_LC [(''10.0.0.201'', [(''10.0.0.1'', ()), (''10.0.0.2'', ())])])) ''10.0.0.1''
   \<le> conn (lc_run [''10.0.0.201'', ''10.0.0.201'', ''10.0.0.201''] (new_LC [(''10.0.0.201'', [(''10.0.0.1'', ()), (''10.0.0.2'', ())])])) ''10.0.0.2'' + 1"
  by (rule least_connection_balances[of _ _ "''10.0.0.201''"]) (simp_all add: grouped_def servers_of_def new_LC_def)

end
