(* ===== verification/Server_Cluster.thy ===== *)
theory Server_Cluster
  imports Prelude
begin

text \<open>
  Servers and clusters: \<open>host_manage/object/server.py\<close>, \<open>host_manage/object/cluster.py\<close> and
  \<open>ClusterManage\<close> of \<open>host_manage/cluster_manage.py\<close>. The servers of a cluster live in the cluster;
  \<open>ClusterManage.servers\<close> refers to the same objects, so it maps the address of a server to the
  cluster that holds it. Clusters are never replaced (\<open>setdefault\<close>), so such a reference stays valid.
\<close>

abbreviation SERVER_STATE_UP :: string where "SERVER_STATE_UP \<equiv> ''UP''"
abbreviation SERVER_STATE_DOWN :: string where "SERVER_STATE_DOWN \<equiv> ''DOWN''"

definition SERVER_STATUS :: "(nat, string) pydict" where
  "SERVER_STATUS = [(1, SERVER_STATE_UP), (0, SERVER_STATE_DOWN)]"

record server =
  sv_status :: string
  sv_location :: "(nat \<times> nat) option"
  sv_ip :: "string option"
  sv_mac :: "string option"

definition new_server :: server where
  "new_server = \<lparr>sv_status = SERVER_STATE_DOWN, sv_location = None, sv_ip = None, sv_mac = None\<rparr>"

text \<open>The list \<open>[cluster_ip, switch_dpid, switch_port, mac_address, server_status]\<close> of a configuration.\<close>

record server_info =
  si_cluster :: string
  si_switch :: nat
  si_port :: nat
  si_mac :: string
  si_status :: nat

definition server_place :: "string \<Rightarrow> server_info \<Rightarrow> server \<Rightarrow> server" where
  "server_place ip si s = s\<lparr>sv_location := Some (si_switch si, si_port si), sv_ip := Some ip, sv_mac := Some (si_mac si)\<rparr>"

definition server_init :: "string \<Rightarrow> server_info \<Rightarrow> server \<Rightarrow> server \<times> pyerr option" where
  "server_init ip si s =
     (case dict_get SERVER_STATUS (si_status si) of
        None \<Rightarrow> (server_place ip si s, Some KeyError)
      | Some st \<Rightarrow> ((server_place ip si s)\<lparr>sv_status := st\<rparr>, None))"

section \<open>Clusters\<close>

record cluster =
  cl_servers :: "(string, server) pydict"
  cl_ip :: string
  cl_status :: int
  cl_type :: string

definition new_cluster :: "string \<Rightarrow> string \<Rightarrow> cluster" where
  "new_cluster ip ty = \<lparr>cl_servers = [], cl_ip = ip, cl_status = 0, cl_type = ty\<rparr>"

text \<open>
  \<open>init_server\<close>: a new object is in the table before its attributes are set, so it stays there when
  the status is not a key of \<^const>\<open>SERVER_STATUS\<close>.
\<close>

definition init_server :: "string \<Rightarrow> server_info \<Rightarrow> cluster \<Rightarrow> cluster \<times> pyerr option" where
  "init_server ip si c =
     (let s = (case dict_get (cl_servers c) ip of None \<Rightarrow> new_server | Some s \<Rightarrow> s)
      in case server_init ip si s of (s', e) \<Rightarrow> (c\<lparr>cl_servers := dict_set ip s' (cl_servers c)\<rparr>, e))"

definition add_server :: "string \<Rightarrow> cluster \<Rightarrow> cluster" where
  "add_server ip c = (if ip \<notin> set (dict_keys (cl_servers c)) then c\<lparr>cl_servers := dict_set ip new_server (cl_servers c)\<rparr> else c)"

definition del_server :: "string \<Rightarrow> cluster \<Rightarrow> cluster \<times> bool" where
  "del_server ip c =
     (if ip \<in> set (dict_keys (cl_servers c)) then (c\<lparr>cl_servers := dict_del ip (cl_servers c)\<rparr>, True) else (c, False))"

definition get_server :: "string \<Rightarrow> cluster \<Rightarrow> server option" where
  "get_server ip c = dict_get (cl_servers c) ip"

text \<open>\<open>if status\<close>: a string is false exactly when it is empty.\<close>

definition update_server :: "string \<Rightarrow> string \<Rightarrow> cluster \<Rightarrow> cluster \<times> (pyerr + bool)" where
  "update_server ip status c =
     (case dict_get (cl_servers c) ip of
        None \<Rightarrow> (c, Inr False)
      | Some s \<Rightarrow>
          (let c1 = c\<lparr>cl_servers := dict_set ip (s\<lparr>sv_status := status\<rparr>) (cl_servers c)\<rparr>
           in if status \<noteq> [] then (c1\<lparr>cl_status := cl_status c1 + 1\<rparr>, Inr True)
              else
                (let c2 = c1\<lparr>cl_status := cl_status c1 - 1\<rparr>
                 in if cl_status c2 \<ge> 0 then (c2, Inr True) else (c2, Inl AssertionError))))"

section \<open>ClusterManage\<close>

record cluster_manage =
  clusters :: "(string, cluster) pydict"
  cm_servers :: "(string, string) pydict"
  cluster_conf :: "(string, string) pydict"
  server_conf :: "(string, server_info) pydict"

definition dict_setdefault :: "'k \<Rightarrow> 'v \<Rightarrow> ('k, 'v) pydict \<Rightarrow> ('k, 'v) pydict" where
  "dict_setdefault k v d = (if k \<in> set (dict_keys d) then d else dict_set k v d)"

definition init_clusters :: "(string, string) pydict \<Rightarrow> (string, cluster) pydict \<Rightarrow> (string, cluster) pydict" where
  "init_clusters conf d = foldl (\<lambda>d (ip, ty). dict_setdefault ip (new_cluster ip ty) d) d conf"

fun init_servers :: "(string, server_info) pydict \<Rightarrow> cluster_manage \<Rightarrow> cluster_manage \<times> pyerr option" where
  "init_servers [] m = (m, None)"
| "init_servers ((ip, si) # conf) m =
     (case dict_get (clusters m) (si_cluster si) of
        None \<Rightarrow> init_servers conf m
      | Some c \<Rightarrow>
          (case init_server ip si c of
             (c', Some e) \<Rightarrow> (m\<lparr>clusters := dict_set (si_cluster si) c' (clusters m)\<rparr>, Some e)
           | (c', None) \<Rightarrow>
               init_servers conf
                 (m\<lparr>clusters := dict_set (si_cluster si) c' (clusters m), cm_servers := dict_setdefault ip (si_cluster si) (cm_servers m)\<rparr>)))"

definition cluster_init :: "cluster_manage \<Rightarrow> cluster_manage \<times> pyerr option" where
  "cluster_init m = init_servers (server_conf m) (m\<lparr>clusters := init_clusters (cluster_conf m) (clusters m)\<rparr>)"

definition cm_update_server_status :: "string \<Rightarrow> string \<Rightarrow> cluster_manage \<Rightarrow> cluster_manage \<times> pyerr option" where
  "cm_update_server_status ip status m =
     (case dict_get (cm_servers m) ip of
        None \<Rightarrow> (m, None)
      | Some cip \<Rightarrow>
          (case dict_get (clusters m) cip of
             None \<Rightarrow> (m, None)
           | Some c \<Rightarrow>
               (case update_server ip status c of
                  (c', r) \<Rightarrow> (m\<lparr>clusters := dict_set cip c' (clusters m)\<rparr>, (case r of Inl e \<Rightarrow> Some e | Inr _ \<Rightarrow> None)))))"

text \<open>
  The configuration files and the requests of \<open>ClusterManageRestController\<close>, parsed: \<open>None\<close> when a file cannot
  be opened.
\<close>

definition read_cluster_configuration :: "(string, string) pydict option \<Rightarrow> cluster_manage \<Rightarrow> cluster_manage" where
  "read_cluster_configuration f m = (case f of None \<Rightarrow> m | Some conf \<Rightarrow> m\<lparr>cluster_conf := conf\<rparr>)"

definition read_server_configuration :: "(string, server_info) pydict option \<Rightarrow> cluster_manage \<Rightarrow> cluster_manage" where
  "read_server_configuration f m = (case f of None \<Rightarrow> m | Some conf \<Rightarrow> m\<lparr>server_conf := conf\<rparr>)"

definition add_cluster :: "(string, string) pydict \<Rightarrow> cluster_manage \<Rightarrow> cluster_manage" where
  "add_cluster msg m = m\<lparr>clusters := init_clusters msg (clusters m)\<rparr>"

text \<open>\<open>server.status is False\<close>: the status is a string, and no string is the object \<open>False\<close>.\<close>

definition status_is_False :: "string \<Rightarrow> bool" where
  "status_is_False status = False"

fun update_server_cluster :: "(string, server_info) pydict \<Rightarrow> cluster_manage \<Rightarrow> cluster_manage \<times> pyerr option" where
  "update_server_cluster [] m = (m, None)"
| "update_server_cluster ((ip, si) # msg) m =
     (case dict_get (clusters m) (si_cluster si) of
        None \<Rightarrow> update_server_cluster msg m
      | Some c \<Rightarrow>
          (case get_server ip c of
             None \<Rightarrow> update_server_cluster msg m
           | Some s \<Rightarrow>
               if status_is_False (sv_status s)
               then (case init_server ip si c of
                       (c', Some e) \<Rightarrow> (m\<lparr>clusters := dict_set (si_cluster si) c' (clusters m)\<rparr>, Some e)
                     | (c', None) \<Rightarrow> update_server_cluster msg (m\<lparr>clusters := dict_set (si_cluster si) c' (clusters m)\<rparr>))
               else update_server_cluster msg m))"

section \<open>What the requests and the configuration do\<close>

text \<open>A cluster that exists is never replaced, so that references to it stay valid.\<close>

lemma init_clusters_get:
  "dict_get (init_clusters conf d) ip = (case dict_get d ip of Some c \<Rightarrow> Some c | None \<Rightarrow> map_option (new_cluster ip) (dict_get conf ip))"
proof (induction conf arbitrary: d)
  case (Cons x conf)
  obtain k ty where x: "x = (k, ty)" by (cases x)
  have "init_clusters (x # conf) d = init_clusters conf (dict_setdefault k (new_cluster k ty) d)"
    by (simp add: init_clusters_def x)
  then show ?case using Cons.IH[of "dict_setdefault k (new_cluster k ty) d"] x dict_get_None_iff[of d k]
    by (auto simp: dict_setdefault_def split: option.splits simp del: set_map)
qed (simp add: init_clusters_def split: option.splits)

text \<open>The request to add clusters adds the new ones, without servers, and keeps the others as they are.\<close>

lemma add_cluster_get:
  "dict_get (clusters (add_cluster msg m)) ip =
     (case dict_get (clusters m) ip of Some c \<Rightarrow> Some c | None \<Rightarrow> map_option (new_cluster ip) (dict_get msg ip))"
  by (simp add: add_cluster_def init_clusters_get)

text \<open>The request to update servers never changes anything.\<close>

lemma update_server_cluster_does_nothing: "update_server_cluster msg m = (m, None)"
  by (induction msg m rule: update_server_cluster.induct) (auto simp: status_is_False_def split: option.splits)

section \<open>What the reports do\<close>

text \<open>
  A report is the address of a server and \<open>UP\<close> or \<open>DOWN\<close>, as \<open>HostManageMain.host_state_handler\<close>
  sends it.
\<close>

fun reported :: "(string \<times> bool) list \<Rightarrow> cluster \<Rightarrow> cluster" where
  "reported [] c = c"
| "reported ((ip, up) # rs) c = reported rs (fst (update_server ip (if up then SERVER_STATE_UP else SERVER_STATE_DOWN) c))"

lemma update_server_report:
  "update_server ip (if up then SERVER_STATE_UP else SERVER_STATE_DOWN) c =
     (case dict_get (cl_servers c) ip of
        None \<Rightarrow> (c, Inr False)
      | Some s \<Rightarrow> (c\<lparr>cl_servers := dict_set ip (s\<lparr>sv_status := (if up then SERVER_STATE_UP else SERVER_STATE_DOWN)\<rparr>) (cl_servers c),
                    cl_status := cl_status c + 1\<rparr>, Inr True))"
  by (simp add: update_server_def split: option.splits)

lemma reported_status:
  "cl_status (reported rs c) = cl_status c + int (length (filter (\<lambda>r. fst r \<in> set (dict_keys (cl_servers c))) rs)) \<and>
   set (dict_keys (cl_servers (reported rs c))) = set (dict_keys (cl_servers c))"
proof (induction rs arbitrary: c)
  case (Cons r rs)
  obtain ip up where r: "r = (ip, up)" by fastforce
  show ?case
  proof (cases "dict_get (cl_servers c) ip")
    case None
    then have "ip \<notin> set (dict_keys (cl_servers c))" by (simp only: dict_get_None_iff not_False_eq_True)
    then show ?thesis using Cons.IH[of c] None r by (simp add: update_server_report del: set_map)
  next
    case (Some s)
    let ?c = "fst (update_server ip (if up then SERVER_STATE_UP else SERVER_STATE_DOWN) c)"
    have mem: "ip \<in> set (dict_keys (cl_servers c))" using Some dict_get_None_iff[of "cl_servers c" ip] by auto
    then have k: "set (dict_keys (cl_servers ?c)) = set (dict_keys (cl_servers c))" "cl_status ?c = cl_status c + 1"
      using Some by (auto simp: update_server_report keys_dict_set simp del: set_map)
    show ?thesis using Cons.IH[of ?c] mem r unfolding k by (simp del: set_map)
  qed
qed simp

text \<open>
  The status of a cluster counts the reports about its servers, whether they say up or down: both
  strings count as true. It never goes down, and it is not the number of servers that are up, which
  the code documents it to be.
\<close>

theorem cluster_status_counts_reports:
  "cl_status (reported rs c) = cl_status c + int (length (filter (\<lambda>r. fst r \<in> set (dict_keys (cl_servers c))) rs))"
  using reported_status[of rs c] by blast

fun last_report :: "string \<Rightarrow> (string \<times> bool) list \<Rightarrow> string \<Rightarrow> string" where
  "last_report ip [] st = st"
| "last_report ip ((ip', up) # rs) st = last_report ip rs (if ip' = ip then (if up then SERVER_STATE_UP else SERVER_STATE_DOWN) else st)"

lemma reported_server:
  "get_server ip c = Some s \<Longrightarrow> \<exists>s'. get_server ip (reported rs c) = Some s' \<and> sv_status s' = last_report ip rs (sv_status s) \<and> sv_location s' = sv_location s"
proof (induction rs arbitrary: c s)
  case (Cons r rs)
  obtain ip' up where r: "r = (ip', up)" by fastforce
  let ?c = "fst (update_server ip' (if up then SERVER_STATE_UP else SERVER_STATE_DOWN) c)"
  have "\<exists>s1. get_server ip ?c = Some s1 \<and> sv_location s1 = sv_location s \<and>
      sv_status s1 = (if ip' = ip then (if up then SERVER_STATE_UP else SERVER_STATE_DOWN) else sv_status s)"
    using Cons.prems by (simp add: update_server_report get_server_def split: option.splits)
  then show ?case using Cons.IH[of ?c] r by auto
qed simp

text \<open>
  After any sequence of reports a server that belongs to the cluster has the status of the latest
  report about it, and its former status when there is none.
\<close>

theorem server_status_latest_report:
  assumes "get_server ip c = Some s"
  shows "\<exists>s'. get_server ip (reported rs c) = Some s' \<and> sv_status s' = last_report ip rs (sv_status s)"
  using reported_server[OF assms, of rs] by blast

theorem server_status_latest_report_witness:
  "\<exists>s'. get_server ''10.0.0.1'' (reported [(''10.0.0.1'', True), (''10.0.0.1'', False)] (add_server ''10.0.0.1'' (new_cluster ''10.0.0.201'' ''FTP''))) = Some s' \<and>
     sv_status s' = SERVER_STATE_DOWN"
  using server_status_latest_report[of "''10.0.0.1''" "add_server ''10.0.0.1'' (new_cluster ''10.0.0.201'' ''FTP'')" new_server
      "[(''10.0.0.1'', True), (''10.0.0.1'', False)]"]
  by (simp add: add_server_def new_cluster_def get_server_def)

end
