(* ===== verification/Fault_Classifier.thy ===== *)
theory Fault_Classifier
  imports Route_Task Server_Cluster
begin

text \<open>
  \<open>fault_recovery/fault_classifier.py\<close>: what the controller knows about ports and servers, and the
  recovery of a route whose server or link has failed; and the host events of
  \<open>host_manage/host_manage_main.py\<close>, which keep it up to date. The list that
  \<open>_find_all_redundancy_servers\<close> works on is the classifier's own list, so the failed server
  disappears from it.
\<close>

section \<open>Ports\<close>

type_synonym port_index = "nat \<times> nat"
type_synonym server_at = "string \<times> nat \<times> nat"

record classifier =
  edge_switch_to_server_ports :: "port_index list"
  edge_switch_to_topo_ports :: "port_index list"
  intra_topo_ports :: "port_index list"
  access_switch_to_topo_ports :: "port_index list"
  access_switch_to_user_ports :: "port_index list"
  servers_based_on_type :: "(string, server_at list) pydict"
  servers_based_on_ip :: "(string, string \<times> nat \<times> nat) pydict"
  servers_based_on_port :: "(port_index, string \<times> string) pydict"
  servers_state_based_on_port :: "(port_index, string) pydict"
  server_ip_mac_dict :: "(string, string) pydict"

definition open_ports :: "nat \<Rightarrow> switch \<Rightarrow> nat list \<Rightarrow> port_index list" where
  "open_ports dpid sw skip = [(dpid, p). (p, port) \<leftarrow> sw_ports sw, p \<notin> set skip \<and> \<not> is_reserved port]"

text \<open>
  The loop over the neighbours of an edge or access switch: the first port towards each neighbour, and
  those of them that lead to a switch with one of the attributes \<open>up\<close>.
\<close>

fun neighbor_ports :: "switch_table \<Rightarrow> nat \<Rightarrow> switch \<Rightarrow> string list \<Rightarrow> (nat, nat list) pydict \<Rightarrow> pyerr + (nat list \<times> port_index list)" where
  "neighbor_ports st dpid sw up [] = Inr ([], [])"
| "neighbor_ports st dpid sw up ((nd, ps) # ns) =
     res_bind (py_nth ps 0) (\<lambda>p.
     case get_switch nd st of
       None \<Rightarrow> Inl AttributeError
     | Some nsw \<Rightarrow>
         res_bind
           (if sw_attribute nsw \<in> set up
            then (case dict_get (sw_ports sw) p of None \<Rightarrow> Inl KeyError | Some port \<Rightarrow> Inr (if is_reserved port then [] else [(dpid, p)]))
            else Inr []) (\<lambda>here.
         res_bind (neighbor_ports st dpid sw up ns) (\<lambda>(all, topo). Inr (p # all, here @ topo))))"

definition switch_port_type :: "switch_table \<Rightarrow> nat \<times> switch \<Rightarrow> classifier \<Rightarrow> pyerr + classifier" where
  "switch_port_type st dsw c =
     (case dsw of (dpid, sw) \<Rightarrow>
        if sw_attribute sw = ''core'' \<or> sw_attribute sw = ''aggregation''
        then Inr (c\<lparr>intra_topo_ports := intra_topo_ports c @ open_ports dpid sw []\<rparr>)
        else if sw_attribute sw = ''edge''
        then res_bind (neighbor_ports st dpid sw [''core'', ''aggregation''] (sw_neighbors sw)) (\<lambda>(all, topo).
             Inr (c\<lparr>edge_switch_to_topo_ports := edge_switch_to_topo_ports c @ topo,
                    edge_switch_to_server_ports := edge_switch_to_server_ports c @ open_ports dpid sw all\<rparr>))
        else if sw_attribute sw = ''access''
        then res_bind (neighbor_ports st dpid sw [''core''] (sw_neighbors sw)) (\<lambda>(all, topo).
             Inr (c\<lparr>access_switch_to_topo_ports := access_switch_to_topo_ports c @ topo,
                    access_switch_to_user_ports := access_switch_to_user_ports c @ open_ports dpid sw all\<rparr>))
        else Inr c)"

definition update_port_type :: "switch_table \<Rightarrow> classifier \<Rightarrow> pyerr + classifier" where
  "update_port_type st c = res_fold (\<lambda>c dsw. switch_port_type st dsw c) c st"

datatype fault = ServerToEdgeSwitchFault | UserToAccessSwitchFault | AccessSwitchToTopoFault | IntraTopoFault

definition classify_link_fault_type :: "port_index \<Rightarrow> port_index \<Rightarrow> classifier \<Rightarrow> fault" where
  "classify_link_fault_type src dst c =
     (if src \<in> set (edge_switch_to_server_ports c) \<or> dst \<in> set (edge_switch_to_server_ports c) then ServerToEdgeSwitchFault
      else if src \<in> set (access_switch_to_user_ports c) \<or> dst \<in> set (access_switch_to_user_ports c) then UserToAccessSwitchFault
      else if src \<in> set (access_switch_to_topo_ports c) \<or> dst \<in> set (access_switch_to_topo_ports c) then AccessSwitchToTopoFault
      else IntraTopoFault)"

section \<open>Servers\<close>

definition init_one_server :: "string \<Rightarrow> string \<Rightarrow> server \<Rightarrow> classifier \<Rightarrow> pyerr + classifier" where
  "init_one_server ip ty s c =
     (case sv_location s of
        None \<Rightarrow> Inl TypeError
      | Some (sw, p) \<Rightarrow>
          Inr (c\<lparr>servers_based_on_type := dict_set ty
                    ((case dict_get (servers_based_on_type c) ty of None \<Rightarrow> [] | Some l \<Rightarrow> l) @ [(ip, sw, p)]) (servers_based_on_type c),
                 servers_based_on_ip := dict_set ip (ty, sw, p) (servers_based_on_ip c),
                 servers_based_on_port := dict_set (sw, p) (ip, ty) (servers_based_on_port c),
                 servers_state_based_on_port := dict_set (sw, p) (sv_status s) (servers_state_based_on_port c),
                 server_ip_mac_dict := (case sv_mac s of None \<Rightarrow> dict_del ip (server_ip_mac_dict c) | Some m \<Rightarrow> dict_set ip m (server_ip_mac_dict c))\<rparr>))"

text \<open>The servers of the cluster manager, each with the type of its cluster.\<close>

definition init_server_in_cluster :: "(string \<times> string \<times> server) list \<Rightarrow> classifier \<Rightarrow> pyerr + classifier" where
  "init_server_in_cluster servers c = res_fold (\<lambda>c (ip, ty, s). init_one_server ip ty s c) c servers"

definition update_server_status :: "string \<Rightarrow> string \<Rightarrow> classifier \<Rightarrow> pyerr + classifier" where
  "update_server_status ip status c =
     (if \<not> (status = SERVER_STATE_DOWN \<or> status = SERVER_STATE_UP) then Inl AssertionError
      else case dict_get (servers_based_on_ip c) ip of
             None \<Rightarrow> Inr c
           | Some (ty, sw, p) \<Rightarrow>
               (case dict_get (servers_state_based_on_port c) (sw, p) of
                  None \<Rightarrow> Inl KeyError
                | Some old \<Rightarrow>
                    (if old = status then Inr c
                     else Inr (c\<lparr>servers_state_based_on_port := dict_set (sw, p) status (servers_state_based_on_port c)\<rparr>))))"

text \<open>The state is returned beside the exception: the first two tables are changed by then.\<close>

definition update_server_position :: "string \<Rightarrow> port_index \<Rightarrow> classifier \<Rightarrow> classifier \<times> pyerr option" where
  "update_server_position ip new c =
     (case dict_get (servers_based_on_ip c) ip of
        None \<Rightarrow> (c, None)
      | Some (ty, sw, p) \<Rightarrow>
          (if (sw, p) = new then (c, None)
           else case dict_get (servers_based_on_port c) (sw, p) of
                  None \<Rightarrow> (c, Some KeyError)
                | Some _ \<Rightarrow>
                    (let c1 = c\<lparr>servers_based_on_port := dict_set new (ip, ty) (dict_del (sw, p) (servers_based_on_port c)),
                                servers_based_on_ip := dict_set ip (ty, fst new, snd new) (servers_based_on_ip c)\<rparr>
                     in case dict_get (servers_based_on_type c) ty of
                          None \<Rightarrow> (c1, Some KeyError)
                        | Some l \<Rightarrow>
                            (if (ip, sw, p) \<in> set l
                             then (c1\<lparr>servers_based_on_type := dict_set ty (remove1 (ip, sw, p) l @ [(ip, fst new, snd new)]) (servers_based_on_type c)\<rparr>, None)
                             else (c1, Some ValueError)))))"

definition get_server_mac_by_ip :: "string \<Rightarrow> classifier \<Rightarrow> string option" where
  "get_server_mac_by_ip ip c = dict_get (server_ip_mac_dict c) ip"

section \<open>Recovery\<close>

definition find_delete_server :: "port_index \<Rightarrow> classifier \<Rightarrow> (string \<times> string) option" where
  "find_delete_server dst c = dict_get (servers_based_on_port c) dst"

text \<open>
  The loop that should drop the servers that are down: it looks for a pair in a list of triples, which
  raises, so that it never drops anything.
\<close>

fun scan_redundancy :: "nat \<Rightarrow> classifier \<Rightarrow> server_at list \<Rightarrow> pyerr + server_at list" where
  "scan_redundancy failed_sw c [] = Inr []"
| "scan_redundancy failed_sw c ((ip, sw, p) # ss) =
     (case dict_get (servers_state_based_on_port c) (sw, p) of
        None \<Rightarrow> Inl KeyError
      | Some st \<Rightarrow>
          (if st = SERVER_STATE_DOWN then Inl ValueError
           else res_bind (scan_redundancy failed_sw c ss) (\<lambda>r. Inr (if sw = failed_sw then (ip, sw, p) # r else r))))"

definition find_all_redundancy_servers :: "string \<Rightarrow> string \<Rightarrow> nat \<Rightarrow> nat \<Rightarrow> classifier \<Rightarrow>
    classifier \<times> (pyerr + (server_at list \<times> server_at list))" where
  "find_all_redundancy_servers ip ty sw p c =
     (case dict_get (servers_based_on_type c) ty of
        None \<Rightarrow> (c, Inr ([], []))
      | Some l \<Rightarrow>
          (let l' = filter (\<lambda>s. s \<noteq> (ip, sw, p)) l; c' = c\<lparr>servers_based_on_type := dict_set ty l' (servers_based_on_type c)\<rparr>
           in (c', res_bind (scan_redundancy sw c l') (\<lambda>same. Inr (l', same)))))"

definition choose_alternative_server :: "server_at list \<Rightarrow> server_at list \<Rightarrow> draws \<Rightarrow> pyerr + ((bool \<times> server_at) \<times> draws)" where
  "choose_alternative_server all same us =
     (if same \<noteq> [] then res_bind (randint 0 (length same - 1) us) (\<lambda>(i, us'). Inr ((True, same ! i), us'))
      else if all \<noteq> [] then res_bind (randint 0 (length all - 1) us) (\<lambda>(i, us'). Inr ((False, all ! i), us'))
      else Inl TypeError)"

text \<open>
  \<open>recovery_path\<close> for a failed server. \<open>alg_run\<close> and \<open>alg_get\<close> are the methods of the routing
  algorithm, \<open>deploy\<close> the deployment of the task.
\<close>

definition recover_server ::
    "(nat \<Rightarrow> nat \<Rightarrow> real \<Rightarrow> 'a \<Rightarrow> 'a run) \<Rightarrow> (nat \<Rightarrow> nat \<Rightarrow> 'a \<Rightarrow> pyerr + ('a \<times> (nat list \<times> real) option)) \<Rightarrow>
     (task \<Rightarrow> nat_info \<Rightarrow> nat list option \<Rightarrow> bool sends) \<Rightarrow> (string, string) pydict \<Rightarrow> task \<Rightarrow> nat list \<Rightarrow> task \<times> nat_info \<Rightarrow> draws \<Rightarrow>
     classifier \<Rightarrow> 'a \<Rightarrow> (classifier \<times> (task \<times> nat_info) \<times> 'a \<times> out_msg list \<times> (pyerr + server_at)) option" where
  "recover_server alg_run alg_get deploy servers req former_path entry us c a =
     (case find_delete_server (dst_dpid req, dst_port_no req) c of
        None \<Rightarrow> Some (c, entry, a, [], Inl TypeError)
      | Some (ip, ty) \<Rightarrow>
          (case find_all_redundancy_servers ip ty (dst_dpid req) (dst_port_no req) c of
             (c1, Inl e) \<Rightarrow> Some (c1, entry, a, [], Inl e)
           | (c1, Inr (all, same)) \<Rightarrow>
               (case choose_alternative_server all same us of
                  Inl e \<Rightarrow> Some (c1, entry, a, [], Inl e)
                | Inr ((same_switch, (new_ip, new_sw, new_port)), us') \<Rightarrow>
                    (let path =
                       (if same_switch then Some (Inr (a, Some former_path))
                        else case dict_get servers new_ip of
                               None \<Rightarrow> Some (Inl KeyError)
                             | Some bt \<Rightarrow>
                                 (case dict_get BusinessType bt of
                                    None \<Rightarrow> Some (Inl KeyError)
                                  | Some band \<Rightarrow>
                                      run_bind (alg_run (src_dpid req) new_sw band a) (\<lambda>a1.
                                      run_bind (Some (alg_get (src_dpid req) new_sw a1)) (\<lambda>(a2, r). Some (Inr (a2, map_option fst r))))))
                     in case path of
                          None \<Rightarrow> None
                        | Some (Inl e) \<Rightarrow> Some (c1, entry, a, [], Inl e)
                        | Some (Inr (a', link_list)) \<Rightarrow>
                            (let entry' = update_attribute (Some new_ip) (Some new_port) (get_server_mac_by_ip new_ip c1) entry
                             in case deploy (fst entry') (snd entry') link_list of
                                  (ms, Inl e) \<Rightarrow> Some (c1, entry', a', ms, Inl e)
                                | (ms, Inr _) \<Rightarrow> Some (c1, entry', a', ms, Inr (new_ip, new_sw, new_port)))))))"

definition recover_intra ::
    "(nat \<Rightarrow> nat \<Rightarrow> real \<Rightarrow> 'a \<Rightarrow> 'a run) \<Rightarrow> (nat \<Rightarrow> nat \<Rightarrow> 'a \<Rightarrow> pyerr + ('a \<times> (nat list \<times> real) option)) \<Rightarrow>
     (task \<Rightarrow> nat list \<Rightarrow> bool sends) \<Rightarrow> (string, string) pydict \<Rightarrow> task \<Rightarrow> task \<Rightarrow> 'a \<Rightarrow> ('a \<times> bool sends) run" where
  "recover_intra alg_run alg_get deploy servers req entry a =
     (case dict_get servers (dst_ip req) of
        None \<Rightarrow> Some (Inl KeyError)
      | Some bt \<Rightarrow>
          (case dict_get BusinessType bt of
             None \<Rightarrow> Some (Inl KeyError)
           | Some band \<Rightarrow>
               run_bind (alg_run (src_dpid req) (dst_dpid req) band a) (\<lambda>a1.
               run_bind (Some (alg_get (src_dpid req) (dst_dpid req) a1)) (\<lambda>(a2, r).
               case r of
                 None \<Rightarrow> Some (Inr (a2, pure (Inr False)))
               | Some (link_list, _) \<Rightarrow> Some (Inr (a2, deploy entry link_list))))))"

section \<open>Host events\<close>

text \<open>\<open>HostManageMain.host_state_handler\<close>: a host with the given addresses has joined or left.\<close>

fun host_join :: "string list \<Rightarrow> port_index \<Rightarrow> cluster_manage \<Rightarrow> classifier \<Rightarrow> cluster_manage \<times> classifier \<times> pyerr option" where
  "host_join [] at_port m c = (m, c, None)"
| "host_join (ip # ips) at_port m c =
     (case cm_update_server_status ip SERVER_STATE_UP m of
        (m1, Some e) \<Rightarrow> (m1, c, Some e)
      | (m1, None) \<Rightarrow>
          (case update_server_position ip at_port c of
             (c1, Some e) \<Rightarrow> (m1, c1, Some e)
           | (c1, None) \<Rightarrow>
               (case update_server_status ip SERVER_STATE_UP c1 of
                  Inl e \<Rightarrow> (m1, c1, Some e)
                | Inr c2 \<Rightarrow> host_join ips at_port m1 c2)))"

fun host_leave :: "string list \<Rightarrow> cluster_manage \<Rightarrow> classifier \<Rightarrow> cluster_manage \<times> classifier \<times> pyerr option" where
  "host_leave [] m c = (m, c, None)"
| "host_leave (ip # ips) m c =
     (case cm_update_server_status ip SERVER_STATE_DOWN m of
        (m1, Some e) \<Rightarrow> (m1, c, Some e)
      | (m1, None) \<Rightarrow>
          (case update_server_status ip SERVER_STATE_DOWN c of
             Inl e \<Rightarrow> (m1, c, Some e)
           | Inr c2 \<Rightarrow> host_leave ips m1 c2))"

section \<open>The three views of the servers agree\<close>

definition views_ok :: "classifier \<Rightarrow> bool" where
  "views_ok c \<longleftrightarrow>
     (\<forall>ip ty sw p. dict_get (servers_based_on_ip c) ip = Some (ty, sw, p) \<longleftrightarrow> dict_get (servers_based_on_port c) (sw, p) = Some (ip, ty)) \<and>
     (\<forall>ty l. dict_get (servers_based_on_type c) ty = Some l \<longrightarrow> distinct l) \<and>
     (\<forall>ty ip sw p. (\<exists>l. dict_get (servers_based_on_type c) ty = Some l \<and> (ip, sw, p) \<in> set l) \<longleftrightarrow>
        dict_get (servers_based_on_ip c) ip = Some (ty, sw, p))"

lemma views_port: "views_ok c \<Longrightarrow> dict_get (servers_based_on_ip c) ip = Some (ty, sw, p) \<longleftrightarrow> dict_get (servers_based_on_port c) (sw, p) = Some (ip, ty)"
  by (simp add: views_ok_def)

lemma views_type:
  "views_ok c \<Longrightarrow> (\<exists>l. dict_get (servers_based_on_type c) ty = Some l \<and> (ip, sw, p) \<in> set l) \<longleftrightarrow> dict_get (servers_based_on_ip c) ip = Some (ty, sw, p)"
  by (simp add: views_ok_def)

text \<open>
  When the tables of the servers by address, by port and by type agree, moving a known server to a
  free port succeeds, gives it the new position and leaves the three tables in agreement.
\<close>

theorem update_server_position_views:
  assumes v: "views_ok c" and known: "dict_get (servers_based_on_ip c) ip = Some (ty, sw, p)"
    and free: "dict_get (servers_based_on_port c) new = None"
  shows "\<exists>c'. update_server_position ip new c = (c', None) \<and> views_ok c' \<and>
    dict_get (servers_based_on_ip c') ip = Some (ty, new) \<and> dict_get (servers_based_on_port c') (sw, p) = None"
proof -
  obtain nsw np where new: "new = (nsw, np)" by fastforce
  have old: "dict_get (servers_based_on_port c) (sw, p) = Some (ip, ty)" using views_port[OF v] known by simp
  then have ne: "(sw, p) \<noteq> new" using free by auto
  obtain l where l: "dict_get (servers_based_on_type c) ty = Some l" "(ip, sw, p) \<in> set l" using views_type[OF v] known by blast
  have dl: "distinct l" using v l(1) by (simp add: views_ok_def)
  let ?c = "c\<lparr>servers_based_on_port := dict_set new (ip, ty) (dict_del (sw, p) (servers_based_on_port c)),
      servers_based_on_ip := dict_set ip (ty, nsw, np) (servers_based_on_ip c),
      servers_based_on_type := dict_set ty (remove1 (ip, sw, p) l @ [(ip, nsw, np)]) (servers_based_on_type c)\<rparr>"
  have eq: "update_server_position ip new c = (?c, None)"
    using known ne old l new by (auto simp: update_server_position_def Let_def)
  have only: "ip' = ip" if "dict_get (servers_based_on_ip c) ip' = Some (ty', sw, p)" for ip' ty'
    using that views_port[OF v] old by simp
  have nofree: "dict_get (servers_based_on_ip c) ip' \<noteq> Some (ty', nsw, np)" for ip' ty'
    using views_port[OF v, of ip' ty' nsw np] free new by simp
  have "dict_get (servers_based_on_ip ?c) ip' = Some (ty', sw', p') \<longleftrightarrow> dict_get (servers_based_on_port ?c) (sw', p') = Some (ip', ty')" for ip' ty' sw' p'
    using views_port[OF v, of ip' ty' sw' p'] only[of ip' ty'] nofree[of ip' ty'] known new by auto
  moreover have "dict_get (servers_based_on_type ?c) ty' = Some l' \<Longrightarrow> distinct l'" for ty' l'
  proof -
    have "(ip, nsw, np) \<notin> set l" using nofree views_type[OF v, of ty ip nsw np] l(1) by auto
    then show "dict_get (servers_based_on_type ?c) ty' = Some l' \<Longrightarrow> distinct l'"
      using v dl by (auto simp: views_ok_def split: if_splits dest: notin_set_remove1)
  qed
  moreover have "(\<exists>l'. dict_get (servers_based_on_type ?c) ty' = Some l' \<and> (ip', sw', p') \<in> set l') \<longleftrightarrow> dict_get (servers_based_on_ip ?c) ip' = Some (ty', sw', p')" for ty' ip' sw' p'
  proof (cases "ty' = ty")
    case True
    have "(ip', sw', p') \<in> set l \<longleftrightarrow> dict_get (servers_based_on_ip c) ip' = Some (ty, sw', p')" using views_type[OF v, of ty ip' sw' p'] l(1) by simp
    then show ?thesis using True known dl by (auto simp: set_remove1_eq)
  next
    case False
    then show ?thesis using views_type[OF v, of ty' ip' sw' p'] known by auto
  qed
  ultimately have "views_ok ?c" unfolding views_ok_def by blast
  then show ?thesis using eq new ne by auto
qed

definition wit_classifier :: classifier where
  "wit_classifier = \<lparr>edge_switch_to_server_ports = [], edge_switch_to_topo_ports = [], intra_topo_ports = [], access_switch_to_topo_ports = [],
     access_switch_to_user_ports = [], servers_based_on_type = [(''FTP'', [(''10.0.0.1'', 3001, 3)])],
     servers_based_on_ip = [(''10.0.0.1'', ''FTP'', 3001, 3)], servers_based_on_port = [((3001, 3), ''10.0.0.1'', ''FTP'')],
     servers_state_based_on_port = [((3001, 3), SERVER_STATE_UP)], server_ip_mac_dict = []\<rparr>"

theorem update_server_position_views_witness:
  "\<exists>c'. update_server_position ''10.0.0.1'' (3002, 4) wit_classifier = (c', None) \<and> views_ok c'"
proof -
  have "views_ok wit_classifier" by (auto simp: views_ok_def wit_classifier_def split: if_splits)
  then show ?thesis
    using update_server_position_views[of wit_classifier "''10.0.0.1''" "''FTP''" 3001 3 "(3002, 4)"] by (auto simp: wit_classifier_def)
qed

text \<open>
  The table of the server states is not moved along: when a known server joins on a port where no
  server was before, handling the event leaves with \<open>KeyError\<close>, and the remaining addresses of the
  host are not handled.
\<close>

theorem moved_server_join_raises:
  assumes v: "views_ok c" and known: "dict_get (servers_based_on_ip c) ip = Some (ty, sw, p)"
    and free: "dict_get (servers_based_on_port c) new = None" "dict_get (servers_state_based_on_port c) new = None"
    and m: "cm_update_server_status ip SERVER_STATE_UP m = (m1, None)"
  shows "\<exists>c'. host_join (ip # ips) new m c = (m1, c', Some KeyError)"
proof -
  obtain l where l: "dict_get (servers_based_on_type c) ty = Some l" "(ip, sw, p) \<in> set l" using views_type[OF v] known by blast
  have old: "dict_get (servers_based_on_port c) (sw, p) = Some (ip, ty)" using views_port[OF v] known by simp
  then have ne: "(sw, p) \<noteq> new" using free by auto
  obtain c1 where c1: "update_server_position ip new c = (c1, None)" "dict_get (servers_based_on_ip c1) ip = Some (ty, new)"
    "servers_state_based_on_port c1 = servers_state_based_on_port c"
    using known ne old l by (simp add: update_server_position_def Let_def)
  then have "update_server_status ip SERVER_STATE_UP c1 = Inl KeyError" using free(2) by (cases new) (simp add: update_server_status_def)
  then show ?thesis using m c1 by simp
qed

theorem moved_server_join_raises_witness:
  "\<exists>c'. host_join [''10.0.0.1''] (3002, 4) \<lparr>clusters = [], cm_servers = [], cluster_conf = [], server_conf = []\<rparr> wit_classifier =
     (\<lparr>clusters = [], cm_servers = [], cluster_conf = [], server_conf = []\<rparr>, c', Some KeyError)"
proof -
  have "views_ok wit_classifier" by (auto simp: views_ok_def wit_classifier_def split: if_splits)
  then show ?thesis
    by (rule moved_server_join_raises[where ty = "''FTP''" and sw = 3001 and p = 3])
      (simp_all add: wit_classifier_def cm_update_server_status_def)
qed

section \<open>The replacement of a failed server\<close>

abbreviation others :: "string \<Rightarrow> task \<Rightarrow> server_at list \<Rightarrow> server_at list" where
  "others ip req l \<equiv> filter (\<lambda>s. s \<noteq> (ip, dst_dpid req, dst_port_no req)) l"

abbreviation state_of :: "classifier \<Rightarrow> server_at \<Rightarrow> string option" where
  "state_of c s \<equiv> dict_get (servers_state_based_on_port c) (snd s)"

lemma scan_redundancy_alive:
  "\<forall>s \<in> set l. state_of c s \<noteq> None \<Longrightarrow> \<forall>s \<in> set l. state_of c s \<noteq> Some SERVER_STATE_DOWN \<Longrightarrow>
     scan_redundancy fsw c l = Inr (filter (\<lambda>s. fst (snd s) = fsw) l)"
  by (induction fsw c l rule: scan_redundancy.induct) auto

lemma scan_redundancy_down:
  "\<forall>s \<in> set l. state_of c s \<noteq> None \<Longrightarrow> \<exists>s \<in> set l. state_of c s = Some SERVER_STATE_DOWN \<Longrightarrow> scan_redundancy fsw c l = Inl ValueError"
proof (induction l)
  case (Cons s ss)
  obtain ip sw p y where s: "s = (ip, sw, p)" "dict_get (servers_state_based_on_port c) (sw, p) = Some y"
    using Cons.prems(1) by (cases s) auto
  show ?case
  proof (cases "y = SERVER_STATE_DOWN")
    case False
    then have "scan_redundancy fsw c ss = Inl ValueError" using Cons s by (intro Cons.IH) auto
    then show ?thesis using s False by simp
  qed (use s in simp)
qed simp

lemma choose_same:
  assumes "same \<noteq> []" "draws_ok us"
  shows "\<exists>s us'. choose_alternative_server all same us = Inr ((True, s), us') \<and> s \<in> set same"
proof -
  obtain i us' where i: "randint 0 (length same - 1) us = Inr (i, us')" using randint_defined[of 0 "length same - 1" us] by auto
  then have "i \<le> length same - 1" using randint_range[OF assms(2)] by blast
  then have "i < length same" using assms(1) by (cases same) auto
  then show ?thesis using i assms(1) by (simp add: choose_alternative_server_def)
qed

text \<open>
  C31. The recovery never redirects a task to a server that is down: when a server fails, the states of the other servers of its type are
  known and one of these is on the same switch, the recovery ends. If one of the other servers is down, even one elsewhere, it raises
  \<open>ValueError\<close>, and nothing is deployed. Else, if the deployment succeeds, the task is redirected to a server of
  the same type on the same switch that is not down and not the failed one, and its entries are
  deployed along the former path. In both cases the failed server is no longer a candidate.
\<close>

theorem server_recovery_uses_live_server:
  assumes "find_delete_server (dst_dpid req, dst_port_no req) c = Some (ip, ty)" "dict_get (servers_based_on_type c) ty = Some l"
    and known: "\<forall>s \<in> set (others ip req l). state_of c s \<noteq> None"
    and here: "s0 \<in> set (others ip req l)" "fst (snd s0) = dst_dpid req" and us: "draws_ok us"
    and deploy: "\<And>t n. \<exists>ms. deploy t n (Some path) = (ms, Inr True)"
  shows "\<exists>c'. dict_get (servers_based_on_type c') ty = Some (others ip req l) \<and>
    (if \<exists>s \<in> set (others ip req l). state_of c s = Some SERVER_STATE_DOWN
     then recover_server alg_run alg_get deploy servers req path entry us c a = Some (c', entry, a, [], Inl ValueError)
     else \<exists>entry' ms nip np. recover_server alg_run alg_get deploy servers req path entry us c a =
         Some (c', entry', a, ms, Inr (nip, dst_dpid req, np)) \<and>
       (nip, dst_dpid req, np) \<in> set l \<and> (nip, np) \<noteq> (ip, dst_port_no req) \<and>
       (\<exists>st. dict_get (servers_state_based_on_port c) (dst_dpid req, np) = Some st \<and> st \<noteq> SERVER_STATE_DOWN) \<and>
       entry' = update_attribute (Some nip) (Some np) (get_server_mac_by_ip nip c) entry \<and>
       deploy (fst entry') (snd entry') (Some path) = (ms, Inr True))"
proof (cases "\<exists>s \<in> set (others ip req l). state_of c s = Some SERVER_STATE_DOWN")
  case True
  from scan_redundancy_down[OF known True, of "dst_dpid req"] show ?thesis using True assms(1,2)
    by (simp add: recover_server_def find_all_redundancy_servers_def Let_def)
next
  case False
  then have alive: "\<forall>s \<in> set (others ip req l). state_of c s \<noteq> Some SERVER_STATE_DOWN" by blast
  let ?l = "others ip req l" and ?same = "filter (\<lambda>s. fst (snd s) = dst_dpid req) (others ip req l)"
  let ?c = "c\<lparr>servers_based_on_type := dict_set ty ?l (servers_based_on_type c)\<rparr>"
  have find: "find_all_redundancy_servers ip ty (dst_dpid req) (dst_port_no req) c = (?c, Inr (?l, ?same))"
    using assms(2) scan_redundancy_alive[OF known alive, of "dst_dpid req"] by (simp add: find_all_redundancy_servers_def Let_def)
  have "?same \<noteq> []" using here by (auto simp: filter_empty_conv)
  then obtain s us' where s: "choose_alternative_server ?l ?same us = Inr ((True, s), us')" "s \<in> set ?same"
    using choose_same[OF _ us] by blast
  have "fst (snd s) = dst_dpid req" using s(2) by simp
  then obtain nip np where n: "s = (nip, dst_dpid req, np)" by (metis prod.collapse)
  let ?e = "update_attribute (Some nip) (Some np) (get_server_mac_by_ip nip c) entry"
  obtain ms where ms: "deploy (fst ?e) (snd ?e) (Some path) = (ms, Inr True)" using deploy by blast
  have rec: "recover_server alg_run alg_get deploy servers req path entry us c a = Some (?c, ?e, a, ms, Inr (nip, dst_dpid req, np))"
    using assms(1) find s(1) ms n by (simp add: recover_server_def get_server_mac_by_ip_def Let_def)
  have mem: "s \<in> set ?l" using s(2) by simp
  then have "state_of c s \<noteq> None" "state_of c s \<noteq> Some SERVER_STATE_DOWN" using known alive by blast+
  then obtain st where st: "dict_get (servers_state_based_on_port c) (dst_dpid req, np) = Some st" "st \<noteq> SERVER_STATE_DOWN"
    by (auto simp: n)
  have "dict_get (servers_based_on_type ?c) ty = Some ?l" "(nip, dst_dpid req, np) \<in> set l" "(nip, np) \<noteq> (ip, dst_port_no req)" using mem by (auto simp: n)
  then show ?thesis unfolding if_not_P[OF False] using rec st ms
    by (intro exI[of _ ?c] conjI exI[of _ ?e] exI[of _ ms] exI[of _ nip] exI[of _ np] exI[of _ st]) (assumption | rule refl)+
qed

text \<open>Three servers at the ports 3, 4 and 5 of one switch; the first one fails, and the third one is in the state \<open>st\<close>.\<close>

definition wit_three_servers :: "string \<Rightarrow> classifier" where
  "wit_three_servers st = wit_classifier\<lparr>servers_based_on_type := [(''FTP'', [(''10.0.0.1'', 3001, 3), (''10.0.0.2'', 3001, 4), (''10.0.0.3'', 3001, 5)])],
     servers_state_based_on_port := [((3001, 3), SERVER_STATE_DOWN), ((3001, 4), SERVER_STATE_UP), ((3001, 5), st)]\<rparr>"

definition wit_recovery :: "string \<Rightarrow> (classifier \<times> (task \<times> nat_info) \<times> unit \<times> out_msg list \<times> (pyerr + server_at)) option" where
  "wit_recovery st = recover_server (\<lambda>_ _ _ a. Some (Inr a)) (\<lambda>_ _ a. Inr (a, None)) (\<lambda>_ _ _. ([], Inr True)) []
     (wit_task\<lparr>dst_dpid := 3001, dst_port_no := 3\<rparr>) [11, 12, 3001] (wit_task, \<lparr>gateway_ip = [], gateway_mac = [], server_mac = [], user_mac = []\<rparr>) [0]
     (wit_three_servers st) ()"

theorem server_recovery_uses_live_server_witness:
  "(\<exists>c' entry' ms nip np. wit_recovery SERVER_STATE_UP = Some (c', entry', (), ms, Inr (nip, 3001, np)) \<and> np \<noteq> 3) \<and>
   (\<exists>c' entry. wit_recovery SERVER_STATE_DOWN = Some (c', entry, (), [], Inl ValueError))"
proof -
  let ?req = "wit_task\<lparr>dst_dpid := 3001, dst_port_no := 3\<rparr>" and ?l = "[(''10.0.0.1'', 3001, 3), (''10.0.0.2'', 3001, 4), (''10.0.0.3'', 3001, 5)] :: server_at list"
  have h: "find_delete_server (dst_dpid ?req, dst_port_no ?req) (wit_three_servers st) = Some (''10.0.0.1'', ''FTP'')"
    "dict_get (servers_based_on_type (wit_three_servers st)) ''FTP'' = Some ?l"
    "\<forall>s \<in> set (others ''10.0.0.1'' ?req ?l). state_of (wit_three_servers st) s \<noteq> None"
    "(''10.0.0.2'', 3001, 4) \<in> set (others ''10.0.0.1'' ?req ?l)" "fst (snd (''10.0.0.2'', 3001, 4 :: nat)) = dst_dpid ?req" "draws_ok [0]" for st
    by (simp_all add: find_delete_server_def wit_three_servers_def wit_classifier_def draws_ok_def)
  have d: "\<exists>ms. (\<lambda>_ _ _. ([], Inr True) :: bool sends) t n (Some [11, 12, 3001 :: nat]) = (ms, Inr True)" for t :: task and n :: nat_info by simp
  have up: "\<not> (\<exists>s \<in> set (others ''10.0.0.1'' ?req ?l). state_of (wit_three_servers SERVER_STATE_UP) s = Some SERVER_STATE_DOWN)"
    by (simp add: wit_three_servers_def)
  have down: "\<exists>s \<in> set (others ''10.0.0.1'' ?req ?l). state_of (wit_three_servers SERVER_STATE_DOWN) s = Some SERVER_STATE_DOWN"
    by (simp add: wit_three_servers_def)
  note r = server_recovery_uses_live_server[where deploy = "\<lambda>_ _ _. ([], Inr True)" and path = "[11, 12, 3001]", OF h d,
      where alg_run = "\<lambda>_ _ _ a. Some (Inr a)" and alg_get = "\<lambda>_ _ a. Inr (a, None)" and servers = "[]" and a = "()"
        and entry = "(wit_task, \<lparr>gateway_ip = [], gateway_mac = [], server_mac = [], user_mac = []\<rparr>)"]
  have at: "dst_dpid ?req = 3001" "dst_port_no ?req = 3" by simp_all
  have "\<exists>c' entry' ms nip np. wit_recovery SERVER_STATE_UP = Some (c', entry', (), ms, Inr (nip, 3001, np)) \<and>
      (nip, 3001, np) \<in> set ?l \<and> (nip, np) \<noteq> (''10.0.0.1'', 3)"
    using r[of SERVER_STATE_UP, unfolded if_not_P[OF up], unfolded at] unfolding wit_recovery_def by (elim exE conjE) (intro exI conjI; assumption)
  then have "\<exists>c' entry' ms nip np. wit_recovery SERVER_STATE_UP = Some (c', entry', (), ms, Inr (nip, 3001, np)) \<and> np \<noteq> 3" by auto
  moreover have "\<exists>c' entry. wit_recovery SERVER_STATE_DOWN = Some (c', entry, (), [], Inl ValueError)"
    using r[of SERVER_STATE_DOWN, unfolded if_P[OF down], unfolded at] unfolding wit_recovery_def by (elim exE conjE) (intro exI; assumption)
  ultimately show ?thesis by blast
qed

end
