(* ===== verification/Route_Info.thy ===== *)
theory Route_Info
  imports Fault_Classifier
begin

text \<open>
  The record of deployed routes, \<open>RouteInfoMaintainer\<close> of \<open>route_manage/route_info_maintainer.py\<close>, and
  the handlers of \<open>fault_recovery/fault_recovery_main.py\<close> that look up the routes affected by a fault.
  A \<open>RequestInfo\<close> holds the fields of the task it is made from, so it is a task here; the entry to
  deploy again is of any type. The recovery of one route is an argument of the handlers.
\<close>

type_synonym 'e route_rec = "task \<times> nat list \<times> 'e"

record 'e route_infos =
  request_info_dic :: "(nat \<times> nat, 'e route_rec list) pydict"
  request_info_dic_port :: "(port_index, 'e route_rec list) pydict"
  link_path_old :: "nat list list"

text \<open>
  \<open>RouteInfoMaintainer.update\<close>, the one method that the rest of the program was written to call: it makes the
  record of the route, but the two calls that would store it are commented out.
\<close>

definition maintainer_update :: "'e route_rec \<Rightarrow> 'e route_infos \<Rightarrow> 'e route_infos" where
  "maintainer_update r m = m"

text \<open>
  \<open>self.request_info_dic in link_path_dic_index\<close> asks whether the dictionary is one of the two numbers,
  which it never is: the entry of a link is always a new list.
\<close>

definition update_route_info :: "'e route_rec \<Rightarrow> 'e route_infos \<Rightarrow> 'e route_infos" where
  "update_route_info r m =
     (let path = fst (snd r)
      in m\<lparr>request_info_dic := foldl (\<lambda>d i. dict_set (path ! i, path ! (i + 1)) [r] d) (request_info_dic m) (rev [0..<length path - 1])\<rparr>)"

definition update_route_info_old :: "'e route_rec \<Rightarrow> 'e route_infos \<Rightarrow> 'e route_infos" where
  "update_route_info_old r m = m\<lparr>link_path_old := link_path_old m @ [fst (snd r)]\<rparr>"

definition update_request_info_for_link :: "string \<Rightarrow> 'e route_rec \<Rightarrow> 'e route_infos \<Rightarrow> 'e route_infos" where
  "update_request_info_for_link store_method r m =
     (if store_method = ''improved'' then update_route_info r m
      else if store_method = ''old'' then update_route_info_old r m else m)"

definition update_route_info_port :: "port_index \<Rightarrow> 'e route_rec \<Rightarrow> 'e route_infos \<Rightarrow> 'e route_infos" where
  "update_route_info_port i r m =
     (case dict_get (request_info_dic_port m) i of
        Some l \<Rightarrow> m\<lparr>request_info_dic_port := dict_set i (l @ [r]) (request_info_dic_port m)\<rparr>
      | None \<Rightarrow> m\<lparr>request_info_dic_port := dict_set i [r] (request_info_dic_port m)\<rparr>)"

definition update_request_info_for_ports :: "switch_table \<Rightarrow> classifier \<Rightarrow> 'e route_rec \<Rightarrow> nat \<Rightarrow> nat \<Rightarrow> 'e route_infos \<Rightarrow> pyerr + 'e route_infos" where
  "update_request_info_for_ports st c r src_port dst_port m =
     (let path = fst (snd r)
      in if length path = 1 then
           res_bind (dp_of (get_switch (hd path) st)) (\<lambda>dp.
           let i = (dp_id dp, dst_port)
           in Inr (if i \<in> set (edge_switch_to_server_ports c) then update_route_info_port i r m else m))
         else if length path > 1 then
           res_bind (dp_of (get_switch (hd path) st)) (\<lambda>dp1.
           res_bind (dp_of (get_switch (last path) st)) (\<lambda>dp2.
           let di = (dp_id dp2, dst_port); si = (dp_id dp1, src_port)
           in Inr (if di \<in> set (edge_switch_to_server_ports c) then update_route_info_port di r m
                   else if si \<in> set (edge_switch_to_server_ports c) then update_route_info_port si r m else m)))
         else Inr m)"

section \<open>Affected routes and their recovery\<close>

definition find_affected_route_requests :: "nat \<times> nat \<Rightarrow> nat \<times> nat \<Rightarrow> 'e route_infos \<Rightarrow> 'e route_rec list option" where
  "find_affected_route_requests link_index reverse_index m =
     (case dict_get (request_info_dic m) link_index of
        Some l \<Rightarrow> Some l
      | None \<Rightarrow> dict_get (request_info_dic m) reverse_index)"

definition find_affected_route_path_by_port :: "port_index \<Rightarrow> 'e route_infos \<Rightarrow> 'e route_rec list option" where
  "find_affected_route_path_by_port i m = dict_get (request_info_dic_port m) i"

definition find_affected_route_requests_old :: "nat \<times> nat \<Rightarrow> nat \<times> nat \<Rightarrow> 'e route_infos \<Rightarrow> (nat \<times> nat) list" where
  "find_affected_route_requests_old link_index reverse_index m =
     [h. path \<leftarrow> link_path_old m, i \<leftarrow> [0..<length path - 1], h \<leftarrow> [(path ! i, path ! (i + 1))], h = link_index \<or> h = reverse_index]"

type_synonym ('e, 's) recovery = "fault \<Rightarrow> 'e route_rec \<Rightarrow> 's \<Rightarrow> 's \<times> pyerr option"

fun recover_all :: "('e route_rec \<Rightarrow> 's \<Rightarrow> 's \<times> pyerr option) \<Rightarrow> 'e route_rec list \<Rightarrow> 's \<Rightarrow> 's \<times> pyerr option" where
  "recover_all rec [] s = (s, None)"
| "recover_all rec (r # rs) s = (case rec r s of (s', Some e) \<Rightarrow> (s', Some e) | (s', None) \<Rightarrow> recover_all rec rs s')"

text \<open>\<open>recovery_path\<close> of a fault towards a user or between an access switch and the topology does nothing.\<close>

definition recovery_link_delete_handler :: "('e, 's) recovery \<Rightarrow> port_index \<Rightarrow> port_index \<Rightarrow> classifier \<Rightarrow> 'e route_infos \<Rightarrow> 's \<Rightarrow> 's \<times> pyerr option" where
  "recovery_link_delete_handler rec src dst c m s =
     (let link_fault = classify_link_fault_type src dst c
      in case find_affected_route_requests (fst src, fst dst) (fst dst, fst src) m of
           None \<Rightarrow> (s, None)
         | Some rs \<Rightarrow>
             recover_all (\<lambda>r s. if link_fault \<in> {UserToAccessSwitchFault, AccessSwitchToTopoFault} then (s, None) else rec link_fault r s) rs s)"

definition recovery_port_modify_handler :: "('e, 's) recovery \<Rightarrow> port_index \<Rightarrow> classifier \<Rightarrow> 'e route_infos \<Rightarrow> 's \<Rightarrow> classifier \<times> 's \<times> pyerr option" where
  "recovery_port_modify_handler rec i c m s =
     (case dict_get (servers_state_based_on_port c) i of
        None \<Rightarrow> (c, s, Some KeyError)
      | Some st \<Rightarrow>
          (if st = SERVER_STATE_DOWN then (c, s, None)
           else if i \<in> set (edge_switch_to_server_ports c) then
             (let c1 = c\<lparr>servers_state_based_on_port := dict_set i SERVER_STATE_DOWN (servers_state_based_on_port c)\<rparr>
              in case find_affected_route_path_by_port i m of
                   None \<Rightarrow> (c1, s, None)
                 | Some rs \<Rightarrow> (case recover_all (rec ServerToEdgeSwitchFault) rs s of (s', e) \<Rightarrow> (c1, s', e)))
           else (c, s, None)))"

section \<open>Only the latest route over a link is known\<close>

definition hops :: "nat list \<Rightarrow> (nat \<times> nat) set" where
  "hops path = {(path ! i, path ! (i + 1)) |i. i < length path - 1}"

lemma update_route_info_get:
  "dict_get (request_info_dic (update_route_info r m)) l = (if l \<in> hops (fst (snd r)) then Some [r] else dict_get (request_info_dic m) l)"
proof -
  let ?p = "fst (snd r)"
  have "dict_get (foldl (\<lambda>d i. dict_set (?p ! i, ?p ! (i + 1)) [r] d) d is) l =
      (if l \<in> (\<lambda>i. (?p ! i, ?p ! (i + 1))) ` set is then Some [r] else dict_get d l)" for d "is"
    by (induction "is" arbitrary: d) auto
  moreover have "(\<lambda>i. (?p ! i, ?p ! (i + 1))) ` set (rev [0..<length ?p - 1]) = hops ?p" by (auto simp: hops_def)
  ultimately show ?thesis by (simp add: update_route_info_def Let_def)
qed

lemma recorded:
  "dict_get (request_info_dic (fold update_route_info rs m)) l =
     (case find (\<lambda>r. l \<in> hops (fst (snd r))) (rev rs) of Some r \<Rightarrow> Some [r] | None \<Rightarrow> dict_get (request_info_dic m) l)"
proof (induction rs rule: rev_induct)
  case (snoc r rs)
  then show ?case by (simp add: update_route_info_get)
qed simp

text \<open>
  C32. Which routes a link fault recovers. When routes are recorded by \<open>_update_route_info\<close>, one after the other, the record of
  a link in one direction is the last route that uses it in this direction: a fault reported from \<open>src\<close> to \<open>dst\<close> makes the
  handler recover the last route recorded from \<open>src\<close> to \<open>dst\<close>, or, only if there is none, the last one in
  the other direction, even if that is the newer one; all other routes over the link are left as they are. As the
  program stands, nothing is recorded: \<open>update\<close> does not call \<open>_update_route_info\<close> (and the task handler does not call
  \<open>update\<close>), so that after any number of updates a link fault recovers no route.
\<close>

theorem link_fault_recovers_latest_only:
  assumes "request_info_dic m = []"
  shows "recovery_link_delete_handler rec src dst c (fold update_route_info rs m) s =
    (case find (\<lambda>r. (fst src, fst dst) \<in> hops (fst (snd r))) (rev rs) of
       Some r \<Rightarrow> recovery_link_delete_handler rec src dst c (m\<lparr>request_info_dic := [((fst src, fst dst), [r])]\<rparr>) s
     | None \<Rightarrow>
         (case find (\<lambda>r. (fst dst, fst src) \<in> hops (fst (snd r))) (rev rs) of
            Some r \<Rightarrow> recovery_link_delete_handler rec src dst c (m\<lparr>request_info_dic := [((fst dst, fst src), [r])]\<rparr>) s
          | None \<Rightarrow> (s, None))) \<and>
    recovery_link_delete_handler rec src dst c (fold maintainer_update rs m) s = (s, None)"
proof -
  have f: "find_affected_route_requests (fst src, fst dst) (fst dst, fst src) (fold update_route_info rs m) =
     (case find (\<lambda>r. (fst src, fst dst) \<in> hops (fst (snd r))) (rev rs) of
        Some r \<Rightarrow> Some [r]
      | None \<Rightarrow> (case find (\<lambda>r. (fst dst, fst src) \<in> hops (fst (snd r))) (rev rs) of Some r \<Rightarrow> Some [r] | None \<Rightarrow> None))"
    using recorded[of rs m "(fst src, fst dst)"] recorded[of rs m "(fst dst, fst src)"] assms
    by (simp add: find_affected_route_requests_def split: option.splits)
  have "fold maintainer_update rs m = m" by (induction rs) (simp_all add: maintainer_update_def)
  then have e: "recovery_link_delete_handler rec src dst c (fold maintainer_update rs m) s = (s, None)"
    using assms by (simp add: recovery_link_delete_handler_def find_affected_route_requests_def Let_def)
  show ?thesis
  proof (cases "find (\<lambda>r. (fst src, fst dst) \<in> hops (fst (snd r))) (rev rs)")
    case (Some r)
    then show ?thesis using f e by (simp add: recovery_link_delete_handler_def find_affected_route_requests_def)
  next
    case None
    then show ?thesis using f e
      by (cases "find (\<lambda>r. (fst dst, fst src) \<in> hops (fst (snd r))) (rev rs)")
        (simp_all add: recovery_link_delete_handler_def find_affected_route_requests_def)
  qed
qed

text \<open>
  Two routes from 1 to 2 are recorded, and then one from 2 to 1: when the link from 1 to 2 fails, the recovery sees
  the second route only.
\<close>

definition wit_infos :: "unit route_infos" where
  "wit_infos = \<lparr>request_info_dic = [], request_info_dic_port = [], link_path_old = []\<rparr>"

theorem link_fault_recovers_latest_only_witness:
  "recovery_link_delete_handler (\<lambda>f r s. (s @ [fst (snd r)], None)) (1, 5) (2, 6) wit_classifier
     (fold update_route_info [(wit_task, [1, 2, 3], ()), (wit_task, [1, 2, 4], ()), (wit_task, [4, 2, 1], ())] wit_infos) [] = ([[1, 2, 4]], None) \<and>
   recovery_link_delete_handler (\<lambda>f r s. (s @ [fst (snd r)], None)) (1, 5) (2, 6) wit_classifier
     (fold maintainer_update [(wit_task, [1, 2, 3], ()), (wit_task, [1, 2, 4], ())] wit_infos) [] = ([], None)"
proof -
  have mem: "(1, 2) \<in> hops [1, 2, 4]" "(1, 2) \<notin> hops [4, 2, 1]" by (auto simp: hops_def less_Suc_eq nth_Cons' intro!: exI[of _ 0])
  have e: "request_info_dic wit_infos = []" by (simp add: wit_infos_def)
  note l = link_fault_recovers_latest_only[OF e]
  show ?thesis
    unfolding l[THEN conjunct1] l[THEN conjunct2]
    by (simp add: mem[unfolded One_nat_def] recovery_link_delete_handler_def find_affected_route_requests_def classify_link_fault_type_def wit_classifier_def)
qed

end
