(* ===== verification/Port_Types.thy ===== *)
theory Port_Types
  imports Fault_Classifier
begin

text \<open>
  The requests of \<open>FaultRecoveryDataMaintainer\<close> (\<open>fault_recovery/fault_classifier.py\<close>): the types of ports, as text.
  \<open>init_server_types\<close> only writes a warning.
\<close>

section \<open>Numbers as text\<close>

definition is_space :: "char \<Rightarrow> bool" where
  "is_space c \<longleftrightarrow> c \<in> {CHR '' '', CHR 0x09, CHR 0x0A, CHR 0x0B, CHR 0x0C, CHR 0x0D}"

definition strip :: "string \<Rightarrow> string" where
  "strip s = rev (dropWhile is_space (rev (dropWhile is_space s)))"

definition is_digit :: "char \<Rightarrow> bool" where
  "is_digit c \<longleftrightarrow> 48 \<le> (of_char c :: nat) \<and> (of_char c :: nat) \<le> 57"

definition digits_value :: "string \<Rightarrow> nat" where
  "digits_value ds = foldl (\<lambda>n c. 10 * n + (of_char c - 48)) 0 ds"

text \<open>\<open>int(s)\<close> of a string: blanks around it are dropped, a sign may come first, and the rest are digits.\<close>

definition py_int :: "string \<Rightarrow> pyerr + int" where
  "py_int s =
     (let t = strip s;
          ds = (if t \<noteq> [] \<and> hd t \<in> {CHR ''+'', CHR ''-''} then tl t else t);
          v = int (digits_value ds)
      in if ds \<noteq> [] \<and> list_all is_digit ds then Inr (if hd t = CHR ''-'' then - v else v) else Inl ValueError)"

text \<open>\<open>s.split(c)\<close>.\<close>

fun py_split :: "char \<Rightarrow> string \<Rightarrow> string list" where
  "py_split c [] = [[]]"
| "py_split c (x # xs) = (if x = c then [] # py_split c xs else (case py_split c xs of [] \<Rightarrow> [[x]] | p # ps \<Rightarrow> (x # p) # ps))"

section \<open>The request\<close>

definition PortType_EdgeSwitchToServer :: int where "PortType_EdgeSwitchToServer = 1"
definition PortType_EdgeSwitchToTopo :: int where "PortType_EdgeSwitchToTopo = 2"
definition PortType_IntraTopo :: int where "PortType_IntraTopo = 3"
definition PortType_AccessSwitchToTopo :: int where "PortType_AccessSwitchToTopo = 4"
definition PortType_AccessSwitchToUser :: int where "PortType_AccessSwitchToUser = 5"

text \<open>A port type of the message is a number or a string.\<close>

datatype port_type = JsonInt int | JsonString string

fun port_type_int :: "port_type \<Rightarrow> pyerr + int" where
  "port_type_int (JsonInt n) = Inr n"
| "port_type_int (JsonString s) = py_int s"

definition parse_port_index :: "string \<Rightarrow> pyerr + (int \<times> int)" where
  "parse_port_index key =
     (let port_index_str_list = py_split (CHR '','') key
      in res_bind (py_nth port_index_str_list 0) (\<lambda>a. res_bind (py_int a) (\<lambda>port_index_switch.
         res_bind (py_nth port_index_str_list 1) (\<lambda>b. res_bind (py_int b) (\<lambda>port_index_port_no.
         Inr (port_index_switch, port_index_port_no))))))"

text \<open>
  The lists of the classifier are only asked whether a port of the network is in them, and its numbers are not
  negative; a negative index has no effect on any answer and is left out.
\<close>

definition natural_index :: "int \<times> int \<Rightarrow> port_index list" where
  "natural_index i = (if fst i \<ge> 0 \<and> snd i \<ge> 0 then [(nat (fst i), nat (snd i))] else [])"

definition put_port_type :: "int \<Rightarrow> port_index list \<Rightarrow> classifier \<Rightarrow> classifier" where
  "put_port_type ty ix c =
     (if ty = PortType_EdgeSwitchToServer then c\<lparr>edge_switch_to_server_ports := edge_switch_to_server_ports c @ ix\<rparr>
      else if ty = PortType_AccessSwitchToUser then c\<lparr>access_switch_to_user_ports := access_switch_to_user_ports c @ ix\<rparr>
      else if ty = PortType_AccessSwitchToTopo then c\<lparr>access_switch_to_topo_ports := access_switch_to_topo_ports c @ ix\<rparr>
      else if ty = PortType_EdgeSwitchToTopo then c\<lparr>edge_switch_to_topo_ports := edge_switch_to_topo_ports c @ ix\<rparr>
      else if ty = PortType_IntraTopo then c\<lparr>intra_topo_ports := intra_topo_ports c @ ix\<rparr>
      else c)"

fun init_port_types :: "(string, port_type) pydict \<Rightarrow> classifier \<Rightarrow> classifier \<times> pyerr option" where
  "init_port_types [] c = (c, None)"
| "init_port_types ((key, ty) # msg) c =
     (case port_type_int ty of
        Inl e \<Rightarrow> (c, Some e)
      | Inr n \<Rightarrow>
          (case parse_port_index key of
             Inl e \<Rightarrow> (c, Some e)
           | Inr i \<Rightarrow> init_port_types msg (put_port_type n (natural_index i) c)))"

section \<open>What a request does\<close>

lemma digit_not_special: "is_digit c \<Longrightarrow> \<not> is_space c \<and> c \<notin> {CHR ''+'', CHR ''-'', CHR '',''}"
  by (auto simp: is_digit_def is_space_def)

lemma strip_digits: "list_all is_digit ds \<Longrightarrow> strip ds = ds"
proof -
  assume d: "list_all is_digit ds"
  have id: "dropWhile is_space xs = xs" if "list_all is_digit xs" for xs
    using that digit_not_special by (cases xs) auto
  have "list_all is_digit (rev ds)" using d by (simp add: list_all_iff)
  then show ?thesis using id[OF d] id[of "rev ds"] by (simp add: strip_def)
qed

lemma py_int_digits: "list_all is_digit ds \<Longrightarrow> ds \<noteq> [] \<Longrightarrow> py_int ds = Inr (int (digits_value ds))"
  using digit_not_special[of "hd ds"] by (cases ds) (auto simp: py_int_def Let_def strip_digits)

lemma py_split_no_sep: "c \<notin> set xs \<Longrightarrow> py_split c xs = [xs]"
  by (induction xs) auto

lemma py_split_sep: "c \<notin> set xs \<Longrightarrow> py_split c (xs @ c # ys) = xs # py_split c ys"
  by (induction xs) auto

text \<open>A key that consists of two numbers with a comma between them is read as these numbers.\<close>

lemma parse_port_index_digits:
  assumes "list_all is_digit ds" "ds \<noteq> []" "list_all is_digit es" "es \<noteq> []"
  shows "parse_port_index (ds @ CHR '','' # es) = Inr (int (digits_value ds), int (digits_value es))"
proof -
  have "CHR '','' \<notin> set ds" "CHR '','' \<notin> set es" using assms digit_not_special by (auto simp: list_all_iff)
  then have "py_split (CHR '','') (ds @ CHR '','' # es) = [ds, es]" by (simp add: py_split_sep py_split_no_sep)
  then show ?thesis by (simp add: parse_port_index_def py_nth_def py_int_digits assms)
qed

text \<open>
  The message that the code documents, with keys such as \<open>(3005, 3)\<close>, is refused at its first key: the text
  before the comma is not a number.
\<close>

lemma documented_port_message_raises:
  "init_port_types ((''(3005, 3)'', JsonInt n) # msg) c = (c, Some ValueError)"
  by (simp add: parse_port_index_def py_nth_def py_int_def strip_def is_space_def is_digit_def)

text \<open>A port that a request gives the type of a server port is a server port when its link fails.\<close>

lemma requested_server_port_classified:
  assumes "list_all is_digit ds" "ds \<noteq> []" "list_all is_digit es" "es \<noteq> []"
  shows "\<exists>c'. init_port_types [(ds @ CHR '','' # es, JsonInt 1)] c = (c', None) \<and>
    classify_link_fault_type (digits_value ds, digits_value es) dst c' = ServerToEdgeSwitchFault"
  by (simp add: parse_port_index_digits[OF assms] put_port_type_def PortType_EdgeSwitchToServer_def natural_index_def
      classify_link_fault_type_def)

end
