(* ===== verification/Link_Monitor.thy ===== *)
theory Link_Monitor
  imports Link_Table "HOL-Library.Multiset"
begin

text \<open>
  The bandwidth monitor of \<open>link_monitor/\<close>: \<open>SwitchPortSelector\<close> chooses the ports to poll,
  \<open>MonitorScheduler\<close> asks for their statistics, \<open>LinkMonitor.parse_port_stats_reply\<close> turns two
  readings of a port into the available bandwidth of its links. \<open>StateParser\<close> is the earlier version of
  that parser, which the code keeps but does not call. The counters are Python integers, and \<open>/\<close> of two
  of them rounds down; \<open>time.time()\<close> is the parameter \<open>now\<close>.
\<close>

section \<open>The ports to poll\<close>

type_synonym monitored = "nat \<times> nat \<times> datapath option"

definition monitored_port :: "port \<Rightarrow> monitored" where
  "monitored_port p = (port_dpid p, port_no p, port_datapath p)"

definition select_need_monitor_ports :: "link_table_api \<Rightarrow> monitored list \<Rightarrow> monitored list" where
  "select_need_monitor_ports lt ports =
     ports @ concat (map (\<lambda>(dpids, links). concat (map (\<lambda>(pnos, l). [monitored_port (link_src l), monitored_port (link_dst l)]) links)) lt)"

text \<open>\<open>list.remove\<close> takes out the first of equal elements.\<close>

definition py_remove :: "'a \<Rightarrow> 'a list \<Rightarrow> 'a list \<times> pyerr option" where
  "py_remove x xs = (case remove_by (\<lambda>y. y = x) xs of None \<Rightarrow> (xs, Some ValueError) | Some ys \<Rightarrow> (ys, None))"

definition ADD_PORT :: nat where "ADD_PORT = 0"
definition DELETE_PORT :: nat where "DELETE_PORT = 1"

definition update_need_monitor_ports :: "nat \<Rightarrow> port \<Rightarrow> port \<Rightarrow> monitored list \<Rightarrow> monitored list \<times> pyerr option" where
  "update_need_monitor_ports update_type src dst ports =
     (if update_type = ADD_PORT then (ports @ [monitored_port src] @ [monitored_port dst], None)
      else
        (case py_remove (monitored_port src) ports of
           (ports', Some e) \<Rightarrow> (ports', Some e)
         | (ports', None) \<Rightarrow> py_remove (monitored_port dst) ports'))"

definition OFP_FLOW_STATS_REQUEST :: nat where "OFP_FLOW_STATS_REQUEST = 1"
definition OFP_PORT_STATS_REQUEST :: nat where "OFP_PORT_STATS_REQUEST = 2"

definition select_request_type :: "nat list" where
  "select_request_type = [OFP_FLOW_STATS_REQUEST, OFP_PORT_STATS_REQUEST]"

text \<open>A request for the statistics of a port, as the dpid of the switch and the port.\<close>

fun start_request_ports :: "monitored list \<Rightarrow> (nat \<times> nat) list \<times> pyerr option" where
  "start_request_ports [] = ([], None)"
| "start_request_ports ((dpid, pno, None) # ports) = ([], Some AttributeError)"
| "start_request_ports ((dpid, pno, Some dp) # ports) =
     (case start_request_ports ports of (reqs, e) \<Rightarrow> ((dp_id dp, pno) # reqs, e))"

definition send_request :: "nat list \<Rightarrow> monitored list \<Rightarrow> (nat \<times> nat) list \<times> pyerr option" where
  "send_request types ports = (if OFP_PORT_STATS_REQUEST \<in> set types then start_request_ports ports else ([], None))"

section \<open>Statistics\<close>

record counters =
  rx_packets :: int
  tx_packets :: int
  rx_bytes :: int
  tx_bytes :: int
  rx_dropped :: int
  tx_dropped :: int
  rx_errors :: int
  tx_errors :: int
  rx_frame_err :: int
  rx_over_err :: int
  rx_crc_err :: int
  collisions :: int
  duration_sec :: int
  duration_nsec :: int

definition zero_counters :: counters where
  "zero_counters = \<lparr>rx_packets = 0, tx_packets = 0, rx_bytes = 0, tx_bytes = 0, rx_dropped = 0, tx_dropped = 0, rx_errors = 0, tx_errors = 0,
     rx_frame_err = 0, rx_over_err = 0, rx_crc_err = 0, collisions = 0, duration_sec = 0, duration_nsec = 0\<rparr>"

text \<open>An entry of \<open>port_state\<close>: the counters of a reply, and the time of the reply.\<close>

record saved_stats =
  sv_counters :: counters
  sv_time :: real

text \<open>An entry of \<open>link_state\<close>; its two keys are set one after the other.\<close>

record link_stats =
  error_packet_rate :: "int option"
  speed :: "real option"

record link_monitor =
  lm_port_state :: "(nat, (nat, saved_stats) pydict) pydict"
  lm_link_state :: "(nat, (nat, link_stats) pydict) pydict"
  lm_datapaths :: "(nat, datapath) pydict"
  global_link_table :: link_table_api

text \<open>\<open>EventWebLinkBandChange\<close>.\<close>

type_synonym band_event = "nat \<times> nat \<times> nat \<times> nat \<times> real"

definition state_of :: "(nat, (nat, 'a) pydict) pydict \<Rightarrow> nat \<Rightarrow> (nat, 'a) pydict" where
  "state_of t d = (case dict_get t d of Some x \<Rightarrow> x | None \<Rightarrow> [])"

definition state_set :: "nat \<Rightarrow> nat \<Rightarrow> 'a \<Rightarrow> (nat, (nat, 'a) pydict) pydict \<Rightarrow> (nat, (nat, 'a) pydict) pydict" where
  "state_set d p x t = dict_set d (dict_set p x (state_of t d)) t"

definition lm_state_change_handler :: "bool \<Rightarrow> datapath \<Rightarrow> link_monitor \<Rightarrow> link_monitor" where
  "lm_state_change_handler up dp m =
     (if up then
        (case dict_get (lm_datapaths m) (dp_id dp) of None \<Rightarrow> m\<lparr>lm_datapaths := dict_set (dp_id dp) dp (lm_datapaths m)\<rparr> | Some _ \<Rightarrow> m)
      else m\<lparr>lm_datapaths := dict_del (dp_id dp) (lm_datapaths m)\<rparr>)"

text \<open>The first loop: ports seen for the first time get counters that are zero, and the time zero.\<close>

definition init_port :: "nat \<Rightarrow> nat \<Rightarrow> (nat, (nat, saved_stats) pydict) pydict \<Rightarrow> (nat, (nat, saved_stats) pydict) pydict" where
  "init_port dpid p t =
     (if p \<notin> set (dict_keys (state_of t dpid)) then state_set dpid p \<lparr>sv_counters = zero_counters, sv_time = 0\<rparr> t else t)"

definition Bytes :: real where "Bytes = 8 * 1"

definition error_rate :: "counters \<Rightarrow> counters \<Rightarrow> pyerr + int" where
  "error_rate st old =
     (let error_packet = (tx_errors st + rx_errors st) - (tx_errors old + rx_errors old);
          totle_packet = (tx_packets st + rx_packets st) - (rx_packets old + tx_packets old)
      in if error_packet \<noteq> 0 then (if totle_packet = 0 then Inl ZeroDivisionError else Inr ((error_packet div totle_packet) * 100))
         else Inr 0)"

definition used_band :: "real \<Rightarrow> counters \<Rightarrow> saved_stats \<Rightarrow> real" where
  "used_band now st old =
     (let receive_bytes = (tx_bytes st + rx_bytes st) - (tx_bytes (sv_counters old) + rx_bytes (sv_counters old));
          time_interval = now - sv_time old
      in if receive_bytes \<noteq> 0 \<and> time_interval \<noteq> 0 then of_int receive_bytes / time_interval * Bytes else 0)"

definition in_pair :: "nat \<Rightarrow> nat \<times> nat \<Rightarrow> bool" where
  "in_pair x k \<longleftrightarrow> x = fst k \<or> x = snd k"

text \<open>The links whose keys name the switch and the port.\<close>

definition links_named :: "nat \<Rightarrow> nat \<Rightarrow> link_table_api \<Rightarrow> ((nat \<times> nat) \<times> (nat \<times> nat)) list" where
  "links_named dpid pno lt =
     concat (map (\<lambda>(dk, links). if in_pair dpid dk then map (\<lambda>pk. (dk, pk)) (filter (in_pair pno) (dict_keys links)) else []) lt)"

definition api_link :: "link_table_api \<Rightarrow> nat \<times> nat \<Rightarrow> nat \<times> nat \<Rightarrow> link option" where
  "api_link lt dk pk = (case dict_get lt dk of None \<Rightarrow> None | Some links \<Rightarrow> dict_get links pk)"

definition api_put :: "nat \<times> nat \<Rightarrow> nat \<times> nat \<Rightarrow> link \<Rightarrow> link_table_api \<Rightarrow> link_table_api" where
  "api_put dk pk l lt = (case dict_get lt dk of None \<Rightarrow> lt | Some links \<Rightarrow> dict_set dk (dict_set pk l links) lt)"

fun set_bands :: "real \<Rightarrow> ((nat \<times> nat) \<times> (nat \<times> nat)) list \<Rightarrow> link_table_api \<Rightarrow> link_table_api \<times> band_event list \<times> pyerr option" where
  "set_bands used [] lt = (lt, [], None)"
| "set_bands used ((dk, pk) # ks) lt =
     (case api_link lt dk pk of
        None \<Rightarrow> (lt, [], Some KeyError)
      | Some l \<Rightarrow>
          (case link_total_band l of
             None \<Rightarrow> (lt, [], Some TypeError)
           | Some total_band \<Rightarrow>
               (case set_bands used ks (api_put dk pk (l\<lparr>link_available_band := Some (total_band - used)\<rparr>) lt) of
                  (lt', evs, e) \<Rightarrow> (lt', (fst dk, fst pk, snd dk, snd pk, total_band - used) # evs, e))))"

text \<open>
  The body of the second loop for one port: \<open>last_port\<close> is the variable \<open>port\<close> that the first loop has left,
  and the counters are stored under it.
\<close>

definition port_reply :: "real \<Rightarrow> nat \<Rightarrow> nat \<Rightarrow> nat \<times> counters \<Rightarrow> link_monitor \<Rightarrow> link_monitor \<times> band_event list \<times> pyerr option" where
  "port_reply now dpid last_port ps m =
     (case ps of (pno, st) \<Rightarrow>
        (case dict_get (state_of (lm_port_state m) dpid) pno of
           None \<Rightarrow> (m, [], Some KeyError)
         | Some old \<Rightarrow>
             (case error_rate st (sv_counters old) of
                Inl e \<Rightarrow> (m, [], Some e)
              | Inr rate \<Rightarrow>
                  (let used = used_band now st old;
                       ls = \<lparr>error_packet_rate = Some rate, speed = Some used\<rparr>
                   in case set_bands used (links_named dpid pno (global_link_table m)) (global_link_table m) of
                        (lt, evs, e) \<Rightarrow>
                          (let m' = m\<lparr>lm_link_state := state_set dpid pno ls (lm_link_state m), global_link_table := lt\<rparr>
                           in case e of
                                Some err \<Rightarrow> (m', evs, Some err)
                              | None \<Rightarrow> (m'\<lparr>lm_port_state := state_set dpid last_port \<lparr>sv_counters = st, sv_time = now\<rparr> (lm_port_state m)\<rparr>, evs, None))))))"

fun port_replies :: "real \<Rightarrow> nat \<Rightarrow> nat \<Rightarrow> (nat \<times> counters) list \<Rightarrow> link_monitor \<Rightarrow> link_monitor \<times> band_event list \<times> pyerr option" where
  "port_replies now dpid last_port [] m = (m, [], None)"
| "port_replies now dpid last_port (ps # body) m =
     (case port_reply now dpid last_port ps m of
        (m', evs, Some e) \<Rightarrow> (m', evs, Some e)
      | (m', evs, None) \<Rightarrow> (case port_replies now dpid last_port body m' of (m'', evs', e) \<Rightarrow> (m'', evs @ evs', e)))"

definition parse_port_stats_reply :: "real \<Rightarrow> nat \<Rightarrow> (nat \<times> counters) list \<Rightarrow> link_monitor \<Rightarrow> link_monitor \<times> band_event list \<times> pyerr option" where
  "parse_port_stats_reply now dpid body m =
     (let sorted_body = sort_key fst body;
          t = fold (init_port dpid) (map fst sorted_body) (lm_port_state m)
      in port_replies now dpid (last (0 # map fst sorted_body)) sorted_body (m\<lparr>lm_port_state := t\<rparr>))"

section \<open>The earlier parser\<close>

record state_parser =
  sp_port_state :: "(nat, (nat, counters) pydict) pydict"
  sp_link_state :: "(nat, (nat, int \<times> int) pydict) pydict"

definition sp_init_port :: "nat \<Rightarrow> nat \<Rightarrow> (nat, (nat, counters) pydict) pydict \<Rightarrow> (nat, (nat, counters) pydict) pydict" where
  "sp_init_port dpid p t = (if p \<notin> set (dict_keys (state_of t dpid)) then state_set dpid p zero_counters t else t)"

definition sp_speed :: "counters \<Rightarrow> counters \<Rightarrow> int" where
  "sp_speed st old =
     (let bytes = (tx_bytes st + rx_bytes st) - (tx_bytes old + rx_bytes old);
          time = duration_sec st - duration_sec old
      in if bytes \<noteq> 0 \<and> time \<noteq> 0 then bytes div time else 0)"

fun sp_replies :: "nat \<Rightarrow> (nat \<times> counters) list \<Rightarrow> state_parser \<Rightarrow> state_parser \<times> pyerr option" where
  "sp_replies dpid [] s = (s, None)"
| "sp_replies dpid ((p, st) # body) s =
     (case dict_get (state_of (sp_port_state s) dpid) p of
        None \<Rightarrow> (s, Some KeyError)
      | Some old \<Rightarrow>
          (case error_rate st old of
             Inl e \<Rightarrow> (s, Some e)
           | Inr rate \<Rightarrow>
               sp_replies dpid body
                 (s\<lparr>sp_link_state := state_set dpid p (rate, sp_speed st old) (sp_link_state s), sp_port_state := state_set dpid p st (sp_port_state s)\<rparr>)))"

definition sp_parse_port_stats_reply :: "nat \<Rightarrow> (nat \<times> counters) list \<Rightarrow> state_parser \<Rightarrow> state_parser \<times> pyerr option" where
  "sp_parse_port_stats_reply dpid body s =
     (let sorted_body = sort_key fst body
      in sp_replies dpid sorted_body (s\<lparr>sp_port_state := fold (sp_init_port dpid) (map fst sorted_body) (sp_port_state s)\<rparr>))"


section \<open>Lookups\<close>

lemma state_of_set [simp]: "state_of (state_set d p x t) d' = (if d' = d then dict_set p x (state_of t d) else state_of t d')"
  by (simp add: state_of_def state_set_def)

lemma init_ports_get:
  "dict_get (state_of (fold (init_port d) ps t) d') p =
    (case dict_get (state_of t d') p of Some x \<Rightarrow> Some x
     | None \<Rightarrow> if d' = d \<and> p \<in> set ps then Some \<lparr>sv_counters = zero_counters, sv_time = 0\<rparr> else None)"
proof (induction ps arbitrary: t)
  case (Cons q ps)
  have "dict_get (state_of (init_port d q t) d') p =
      (case dict_get (state_of t d') p of Some x \<Rightarrow> Some x
       | None \<Rightarrow> if d' = d \<and> p = q then Some \<lparr>sv_counters = zero_counters, sv_time = 0\<rparr> else None)"
    using dict_get_None_iff[of "state_of t d" q] by (auto simp: init_port_def split: option.splits simp del: set_map)
  then show ?case using Cons.IH[of "init_port d q t"] by (auto split: option.splits)
qed (simp split: option.splits)

lemma api_link_put: "api_link lt dk pk \<noteq> None \<Longrightarrow> api_link (api_put dk pk l lt) dk' pk' = (if dk' = dk \<and> pk' = pk then Some l else api_link lt dk' pk')"
  by (auto simp: api_link_def api_put_def split: option.splits)

definition api_ok :: "link_table_api \<Rightarrow> bool" where
  "api_ok lt \<longleftrightarrow> dict_ok lt \<and> (\<forall>(dk, links) \<in> set lt. dict_ok links)"

lemma links_named_iff:
  assumes "api_ok lt"
  shows "(dk, pk) \<in> set (links_named d p lt) \<longleftrightarrow> in_pair d dk \<and> in_pair p pk \<and> api_link lt dk pk \<noteq> None"
proof
  assume "(dk, pk) \<in> set (links_named d p lt)"
  then obtain links where l: "(dk, links) \<in> set lt" "in_pair d dk" "in_pair p pk" "pk \<in> set (dict_keys links)"
    by (auto simp: links_named_def split: if_splits)
  then have "dict_get lt dk = Some links" using assms by (simp add: api_ok_def)
  then show "in_pair d dk \<and> in_pair p pk \<and> api_link lt dk pk \<noteq> None" using l dict_get_None_iff[of links pk] by (simp add: api_link_def)
next
  assume a: "in_pair d dk \<and> in_pair p pk \<and> api_link lt dk pk \<noteq> None"
  then obtain links where l: "dict_get lt dk = Some links" "dict_get links pk \<noteq> None" by (auto simp: api_link_def split: option.splits)
  have "pk \<in> set (dict_keys links)" using l(2) dict_get_None_iff[of links pk] by (simp del: set_map)
  then show "(dk, pk) \<in> set (links_named d p lt)" using a map_of_SomeD[OF l(1)]
    unfolding links_named_def set_concat set_map UN_simps by (intro UN_I[of "(dk, links)"]) simp_all
qed

definition band_left :: "real \<Rightarrow> link \<Rightarrow> link" where
  "band_left used l = l\<lparr>link_available_band := Some (the (link_total_band l) - used)\<rparr>"

definition bands_known :: "link_table_api \<Rightarrow> bool" where
  "bands_known lt \<longleftrightarrow> (\<forall>dk pk l. api_link lt dk pk = Some l \<longrightarrow> link_total_band l \<noteq> None)"

lemma api_ok_put: "api_ok lt \<Longrightarrow> api_ok (api_put dk pk l lt)"
  by (auto simp: api_ok_def api_put_def set_dict_set split: option.splits dest!: map_of_SomeD)

lemma set_bands_effect:
  assumes "bands_known lt" "api_ok lt" "\<forall>(dk, pk) \<in> set ks. api_link lt dk pk \<noteq> None"
  shows "\<exists>lt' evs. set_bands used ks lt = (lt', evs, None) \<and> api_ok lt' \<and>
    (\<forall>dk pk. api_link lt' dk pk = map_option (if (dk, pk) \<in> set ks then band_left used else id) (api_link lt dk pk))"
  using assms
proof (induction ks arbitrary: lt)
  case (Cons k ks)
  obtain dk pk where k: "k = (dk, pk)" by (cases k)
  obtain l where l0: "api_link lt dk pk = Some l" using Cons.prems(3) k by auto
  then obtain total_band where l: "api_link lt dk pk = Some l" "link_total_band l = Some total_band"
    using Cons.prems(1) unfolding bands_known_def by blast
  let ?lt = "api_put dk pk (band_left used l) lt"
  have put: "api_link ?lt dk' pk' = (if dk' = dk \<and> pk' = pk then Some (band_left used l) else api_link lt dk' pk')" for dk' pk'
    by (rule api_link_put) (simp add: l)
  have "bands_known ?lt" unfolding bands_known_def put using Cons.prems(1) l(2) by (auto simp: bands_known_def band_left_def)
  moreover have "\<forall>(dk, pk) \<in> set ks. api_link ?lt dk pk \<noteq> None" unfolding put using Cons.prems(3) by auto
  ultimately obtain lt' evs where IH: "set_bands used ks ?lt = (lt', evs, None)" "api_ok lt'"
    "\<And>dk pk. api_link lt' dk pk = map_option (if (dk, pk) \<in> set ks then band_left used else id) (api_link ?lt dk pk)"
    using Cons.IH[OF _ api_ok_put[OF Cons.prems(2)]] by blast
  have "api_link lt' dk' pk' = map_option (if (dk', pk') \<in> set (k # ks) then band_left used else id) (api_link lt dk' pk')" for dk' pk'
    unfolding IH(3) put using l k by (auto simp: band_left_def)
  moreover have "set_bands used (k # ks) lt = (lt', (fst dk, fst pk, snd dk, snd pk, total_band - used) # evs, None)"
    using l IH(1) by (simp add: k band_left_def)
  ultimately show ?case using IH(2) by blast
qed (simp add: option.map_id0)

text \<open>The effect of one port of a reply.\<close>

lemma port_reply_effect:
  assumes old: "dict_get (state_of (lm_port_state m) d) p = Some old" and e: "error_rate c (sv_counters old) = Inr r"
    and lt: "api_ok (global_link_table m)" "bands_known (global_link_table m)"
  shows "\<exists>m' evs. port_reply now d q (p, c) m = (m', evs, None) \<and> api_ok (global_link_table m') \<and>
    lm_port_state m' = state_set d q \<lparr>sv_counters = c, sv_time = now\<rparr> (lm_port_state m) \<and>
    (\<forall>dk pk. api_link (global_link_table m') dk pk =
       map_option (if in_pair d dk \<and> in_pair p pk then band_left (used_band now c old) else id) (api_link (global_link_table m) dk pk))"
proof -
  let ?lt = "global_link_table m"
  have "\<forall>(dk, pk) \<in> set (links_named d p ?lt). api_link ?lt dk pk \<noteq> None" using links_named_iff[OF lt(1)] by blast
  from set_bands_effect[OF lt(2,1) this, of "used_band now c old"] obtain lt' evs where
    s: "set_bands (used_band now c old) (links_named d p ?lt) ?lt = (lt', evs, None)" "api_ok lt'"
    "\<And>dk pk. api_link lt' dk pk = map_option (if (dk, pk) \<in> set (links_named d p ?lt) then band_left (used_band now c old) else id) (api_link ?lt dk pk)" by blast
  have "api_link lt' dk pk = map_option (if in_pair d dk \<and> in_pair p pk then band_left (used_band now c old) else id) (api_link ?lt dk pk)" for dk pk
    unfolding s(3) links_named_iff[OF lt(1)] by (cases "api_link ?lt dk pk") simp_all
  then show ?thesis using old e s(1,2) by (simp add: port_reply_def Let_def)
qed

text \<open>
  C34. A reply for one port: when the counters of an earlier reply are stored for the port, the links that
  name the switch and the port get as available bandwidth the total minus the bits per second carried
  between the two replies, no other link changes, and the new counters are stored. Left out are the replies whose
  handling raises: at the time of the earlier one (division by zero), with more errors counted than before but no more packets
  (division by zero), and with a link in the table whose total bandwidth is not known.
\<close>

theorem single_port_reply_sets_bands:
  assumes "dict_get (state_of (lm_port_state m) d) p = Some \<lparr>sv_counters = c1, sv_time = t1\<rparr>" "t1 \<noteq> t2"
    and "error_rate c2 c1 = Inr r" "api_ok (global_link_table m)" "bands_known (global_link_table m)"
  shows "\<exists>m' evs. parse_port_stats_reply t2 d [(p, c2)] m = (m', evs, None) \<and>
    dict_get (state_of (lm_port_state m') d) p = Some \<lparr>sv_counters = c2, sv_time = t2\<rparr> \<and>
    (\<forall>dk pk l. api_link (global_link_table m) dk pk = Some l \<longrightarrow>
       api_link (global_link_table m') dk pk =
         Some (if in_pair d dk \<and> in_pair p pk then
                 l\<lparr>link_available_band := Some (the (link_total_band l) -
                   8 * (of_int ((tx_bytes c2 + rx_bytes c2) - (tx_bytes c1 + rx_bytes c1)) / (t2 - t1)))\<rparr>
               else l))"
proof -
  let ?old = "\<lparr>sv_counters = c1, sv_time = t1\<rparr>"
  have i: "init_port d p (lm_port_state m) = lm_port_state m"
    using dict_get_None_iff[of "state_of (lm_port_state m) d" p] assms(1) by (auto simp: init_port_def simp del: set_map)
  have "error_rate c2 (sv_counters ?old) = Inr r" using assms(3) by simp
  from port_reply_effect[OF assms(1) this assms(4,5), of t2 p] obtain m' evs where r: "port_reply t2 d p (p, c2) m = (m', evs, None)"
    "lm_port_state m' = state_set d p \<lparr>sv_counters = c2, sv_time = t2\<rparr> (lm_port_state m)"
    "\<And>dk pk. api_link (global_link_table m') dk pk =
       map_option (if in_pair d dk \<and> in_pair p pk then band_left (used_band t2 c2 ?old) else id) (api_link (global_link_table m) dk pk)" by blast
  have "parse_port_stats_reply t2 d [(p, c2)] m = (m', evs, None)" using r(1) i by (simp add: parse_port_stats_reply_def Let_def)
  moreover have "used_band t2 c2 ?old = 8 * (of_int ((tx_bytes c2 + rx_bytes c2) - (tx_bytes c1 + rx_bytes c1)) / (t2 - t1))"
    using assms(2) by (simp add: used_band_def Let_def Bytes_def)
  ultimately show ?thesis using r(2,3) by (intro exI[of _ m'] exI[of _ evs]) (simp add: band_left_def)
qed


definition wit_counters :: "int \<Rightarrow> counters" where
  "wit_counters n = zero_counters\<lparr>tx_bytes := n\<rparr>"

definition wit_end :: "nat \<Rightarrow> nat \<Rightarrow> port" where
  "wit_end d p = \<lparr>port_dpid = d, port_no = p, port_hw_addr = [], port_name = [], port_config = 0, port_state = 0,
     port_datapath = Some \<lparr>dp_id = d, dp_address = [], dp_ports = []\<rparr>\<rparr>"

definition wit_band_link :: "nat \<Rightarrow> nat \<Rightarrow> link" where
  "wit_band_link p q = \<lparr>link_src = wit_end 1 p, link_dst = wit_end 2 q, link_attribute = None, link_pkt_loss = None,
     link_total_band = Some 1000, link_available_band = None, link_delay = None, link_cost = None, link_timestamp = 0\<rparr>"

text \<open>Switch 1 reaches switch 2 from port 3 to port 4, and from port 4 to port 5.\<close>

definition wit_monitor :: link_monitor where
  "wit_monitor = \<lparr>lm_port_state = [(1, [(3, \<lparr>sv_counters = wit_counters 0, sv_time = 10\<rparr>), (4, \<lparr>sv_counters = wit_counters 0, sv_time = 10\<rparr>)])], lm_link_state = [], lm_datapaths = [],
     global_link_table = [((1, 2), [((3, 4), wit_band_link 3 4), ((4, 5), wit_band_link 4 5)])]\<rparr>"

lemma wit_monitor_ok: "api_ok (global_link_table wit_monitor)" "bands_known (global_link_table wit_monitor)"
  by (auto simp: wit_monitor_def api_ok_def bands_known_def api_link_def wit_band_link_def split: if_splits)

theorem single_port_reply_sets_bands_witness:
  "\<exists>m' evs. parse_port_stats_reply 12 1 [(3, wit_counters 50)] wit_monitor = (m', evs, None) \<and>
     api_link (global_link_table m') (1, 2) (3, 4) = Some (wit_band_link 3 4\<lparr>link_available_band := Some 800\<rparr>)"
proof -
  have s: "dict_get (state_of (lm_port_state wit_monitor) 1) 3 = Some \<lparr>sv_counters = wit_counters 0, sv_time = 10\<rparr>"
    by (simp add: wit_monitor_def state_of_def)
  have e: "error_rate (wit_counters 50) (wit_counters 0) = Inr 0" by (simp add: error_rate_def wit_counters_def zero_counters_def)
  have l: "api_link (global_link_table wit_monitor) (1, 2) (3, 4) = Some (wit_band_link 3 4)" by (simp add: wit_monitor_def api_link_def)
  obtain m' evs where m: "parse_port_stats_reply 12 1 [(3, wit_counters 50)] wit_monitor = (m', evs, None)"
    and a: "\<forall>dk pk l. api_link (global_link_table wit_monitor) dk pk = Some l \<longrightarrow>
       api_link (global_link_table m') dk pk =
         Some (if in_pair 1 dk \<and> in_pair 3 pk then
                 l\<lparr>link_available_band := Some (the (link_total_band l) -
                   8 * (of_int ((tx_bytes (wit_counters 50) + rx_bytes (wit_counters 50)) - (tx_bytes (wit_counters 0) + rx_bytes (wit_counters 0))) / (12 - 10)))\<rparr>
               else l)"
    using single_port_reply_sets_bands[OF s _ e wit_monitor_ok, of 12] by auto
  show ?thesis using m a[rule_format, OF l] by (simp add: in_pair_def wit_counters_def zero_counters_def wit_band_link_def)
qed

section \<open>Replies for several ports\<close>

definition no_errors :: "counters \<Rightarrow> bool" where
  "no_errors c \<longleftrightarrow> tx_errors c + rx_errors c = 0"

lemma error_rate_no_errors: "no_errors c \<Longrightarrow> no_errors c' \<Longrightarrow> error_rate c c' = Inr 0"
  by (simp add: error_rate_def no_errors_def Let_def)

text \<open>Two tables with the same links, up to the available bandwidth.\<close>

definition same_links :: "link_table_api \<Rightarrow> link_table_api \<Rightarrow> bool" where
  "same_links lt lt' \<longleftrightarrow> (\<forall>dk pk. map_option (\<lambda>l. l\<lparr>link_available_band := None\<rparr>) (api_link lt' dk pk) =
     map_option (\<lambda>l. l\<lparr>link_available_band := None\<rparr>) (api_link lt dk pk))"

lemma same_links_map:
  assumes "\<And>dk pk. api_link lt' dk pk = map_option (if P dk pk then band_left u else id) (api_link lt dk pk)"
  shows "same_links lt lt'"
  unfolding same_links_def assms by (auto simp: band_left_def option.map_comp o_def intro!: option.map_cong)

lemma same_links_trans: "same_links a b \<Longrightarrow> same_links b c \<Longrightarrow> same_links a c"
  by (simp add: same_links_def)

lemma bands_known_same: "same_links lt lt' \<Longrightarrow> bands_known lt \<Longrightarrow> bands_known lt'"
  unfolding bands_known_def same_links_def
proof (intro allI impI)
  fix dk pk l
  assume s: "\<forall>dk pk. map_option (\<lambda>l. l\<lparr>link_available_band := None\<rparr>) (api_link lt' dk pk) = map_option (\<lambda>l. l\<lparr>link_available_band := None\<rparr>) (api_link lt dk pk)"
    and b: "\<forall>dk pk l. api_link lt dk pk = Some l \<longrightarrow> link_total_band l \<noteq> None" and l: "api_link lt' dk pk = Some l"
  from s l obtain l0 where l0: "api_link lt dk pk = Some l0" "l\<lparr>link_available_band := None\<rparr> = l0\<lparr>link_available_band := None\<rparr>"
    by (metis (no_types, lifting) map_option_eq_Some)
  from l0(2) have "link_total_band l = link_total_band l0" by (metis link.select_convs(5) link.surjective link.update_convs(6))
  then show "link_total_band l \<noteq> None" using b[rule_format, OF l0(1)] by simp
qed

lemma port_replies_effect:
  assumes "\<forall>(p, c) \<in> set body. no_errors c \<and> p \<noteq> q \<and> (\<exists>old. dict_get (state_of (lm_port_state m) d) p = Some old \<and> no_errors (sv_counters old))"
    and "api_ok (global_link_table m)" "bands_known (global_link_table m)"
  shows "\<exists>m' evs. port_replies now d q body m = (m', evs, None) \<and> api_ok (global_link_table m') \<and> same_links (global_link_table m) (global_link_table m') \<and>
    (\<forall>p. dict_get (state_of (lm_port_state m') d) p =
       (if p = q \<and> body \<noteq> [] then Some \<lparr>sv_counters = snd (last body), sv_time = now\<rparr> else dict_get (state_of (lm_port_state m) d) p))"
  using assms
proof (induction body arbitrary: m)
  case (Cons x body)
  obtain p c where x: "x = (p, c)" by (cases x)
  obtain old where old: "dict_get (state_of (lm_port_state m) d) p = Some old" "no_errors (sv_counters old)" "no_errors c" "p \<noteq> q"
    using Cons.prems(1) x by auto
  from port_reply_effect[OF old(1) error_rate_no_errors[OF old(3,2)] Cons.prems(2,3), of now q] obtain m1 evs1 where 1:
    "port_reply now d q x m = (m1, evs1, None)" "api_ok (global_link_table m1)"
    "lm_port_state m1 = state_set d q \<lparr>sv_counters = c, sv_time = now\<rparr> (lm_port_state m)"
    "\<And>dk pk. api_link (global_link_table m1) dk pk =
       map_option (if in_pair d dk \<and> in_pair p pk then band_left (used_band now c old) else id) (api_link (global_link_table m) dk pk)"
    unfolding x by blast
  have sm: "same_links (global_link_table m) (global_link_table m1)" by (rule same_links_map[OF 1(4)])
  have "\<forall>(p, c) \<in> set body. no_errors c \<and> p \<noteq> q \<and> (\<exists>old. dict_get (state_of (lm_port_state m1) d) p = Some old \<and> no_errors (sv_counters old))"
    using Cons.prems(1) 1(3) by auto
  from Cons.IH[OF this 1(2) bands_known_same[OF sm Cons.prems(3)]] obtain m2 evs2 where 2:
    "port_replies now d q body m1 = (m2, evs2, None)" "api_ok (global_link_table m2)" "same_links (global_link_table m1) (global_link_table m2)"
    "\<And>p. dict_get (state_of (lm_port_state m2) d) p =
       (if p = q \<and> body \<noteq> [] then Some \<lparr>sv_counters = snd (last body), sv_time = now\<rparr> else dict_get (state_of (lm_port_state m1) d) p)" by blast
  have "port_replies now d q (x # body) m = (m2, evs1 @ evs2, None)" using 1(1) 2(1) by simp
  moreover have "dict_get (state_of (lm_port_state m2) d) p' =
       (if p' = q \<and> x # body \<noteq> [] then Some \<lparr>sv_counters = snd (last (x # body)), sv_time = now\<rparr> else dict_get (state_of (lm_port_state m) d) p')" for p'
    using 2(4)[of p'] 1(3) x by simp
  ultimately show ?case using 2(2) same_links_trans[OF sm 2(3)] by blast
qed (simp add: same_links_def)


text \<open>
  A reply for several ports loses readings: every reading is stored under the highest port of the
  reply. The stored counters of the other ports stay what they were, so that their next reading is
  compared with old counters; and the highest port itself is compared with the reading of the port before
  it, stored in the same instant, so that its links are reported idle however much traffic they carry.
\<close>

theorem multi_port_reply_loses_readings:
  assumes body: "sorted_wrt (<) (map fst (init @ [(q, c)]))" "init \<noteq> []"
    and noerr: "\<forall>(p, c') \<in> set (init @ [(q, c)]). no_errors c'"
    and stored: "\<And>p x. dict_get (state_of (lm_port_state m) d) p = Some x \<Longrightarrow> no_errors (sv_counters x)"
    and lt: "api_ok (global_link_table m)" "bands_known (global_link_table m)"
  shows "\<exists>m' evs. parse_port_stats_reply now d (init @ [(q, c)]) m = (m', evs, None) \<and>
    (\<forall>p \<in> set (map fst init). dict_get (state_of (lm_port_state m') d) p =
       (case dict_get (state_of (lm_port_state m) d) p of Some x \<Rightarrow> Some x | None \<Rightarrow> Some \<lparr>sv_counters = zero_counters, sv_time = 0\<rparr>)) \<and>
    (\<forall>dk pk l'. in_pair d dk \<longrightarrow> in_pair q pk \<longrightarrow> api_link (global_link_table m') dk pk = Some l' \<longrightarrow>
       link_available_band l' = link_total_band l')"
proof -
  let ?body = "init @ [(q, c)]"
  define t where "t = fold (init_port d) (map fst ?body) (lm_port_state m)"
  let ?m = "m\<lparr>lm_port_state := t\<rparr>"
  have "sorted (map fst ?body)" using body(1) by (simp add: strict_sorted_imp_sorted)
  then have "sort_key fst ?body = ?body" by (simp add: sorted_sort_id sort_key_id_if_sorted)
  then have parse: "parse_port_stats_reply now d ?body m = port_replies now d q ?body ?m"
    by (simp add: parse_port_stats_reply_def Let_def t_def)
  have lookup: "dict_get (state_of t d) p =
      (case dict_get (state_of (lm_port_state m) d) p of Some x \<Rightarrow> Some x
       | None \<Rightarrow> if p \<in> set (map fst ?body) then Some \<lparr>sv_counters = zero_counters, sv_time = 0\<rparr> else None)" for p
    unfolding t_def init_ports_get by simp
  have zero: "no_errors zero_counters" by (simp add: no_errors_def zero_counters_def)
  have ne: "p \<noteq> q" if "p \<in> set (map fst init)" for p using body(1) that by (auto simp: sorted_wrt_append)
  have known: "\<exists>old. dict_get (state_of t d) p = Some old \<and> no_errors (sv_counters old)" if "p \<in> set (map fst ?body)" for p
    unfolding lookup using that stored[of p] zero by (cases "dict_get (state_of (lm_port_state m) d) p") simp_all
  have "\<forall>(p, c') \<in> set init. no_errors c' \<and> p \<noteq> q \<and> (\<exists>old. dict_get (state_of (lm_port_state ?m) d) p = Some old \<and> no_errors (sv_counters old))"
  proof clarify
    fix p c' assume h: "(p, c') \<in> set init"
    then have "p \<in> set (map fst init)" by (simp add: rev_image_eqI)
    then show "no_errors c' \<and> p \<noteq> q \<and> (\<exists>old. dict_get (state_of (lm_port_state ?m) d) p = Some old \<and> no_errors (sv_counters old))"
      using noerr h ne[of p] known[of p] by auto
  qed
  from port_replies_effect[OF this, of now] lt obtain m1 evs1 where 1: "port_replies now d q init ?m = (m1, evs1, None)" "api_ok (global_link_table m1)"
    "same_links (global_link_table m) (global_link_table m1)"
    "\<And>p. dict_get (state_of (lm_port_state m1) d) p =
       (if p = q \<and> init \<noteq> [] then Some \<lparr>sv_counters = snd (last init), sv_time = now\<rparr> else dict_get (state_of t d) p)" by auto
  let ?old = "\<lparr>sv_counters = snd (last init), sv_time = now\<rparr>"
  have old: "dict_get (state_of (lm_port_state m1) d) q = Some ?old" using 1(4) body(2) by simp
  have "last init \<in> set ?body" using body(2) by simp
  then have "no_errors (snd (last init))" "no_errors c" using noerr by (auto simp: case_prod_beta)
  then have e: "error_rate c (sv_counters ?old) = Inr 0" by (simp add: error_rate_no_errors)
  from port_reply_effect[OF old e 1(2) bands_known_same[OF 1(3) lt(2)], of now q] obtain m2 evs2 where 2:
    "port_reply now d q (q, c) m1 = (m2, evs2, None)"
    "lm_port_state m2 = state_set d q \<lparr>sv_counters = c, sv_time = now\<rparr> (lm_port_state m1)"
    "\<And>dk pk. api_link (global_link_table m2) dk pk =
       map_option (if in_pair d dk \<and> in_pair q pk then band_left (used_band now c ?old) else id) (api_link (global_link_table m1) dk pk)" by blast
  have app: "port_replies now d q (xs @ ys) m = (case port_replies now d q xs m of (m', evs, None) \<Rightarrow>
      (case port_replies now d q ys m' of (m'', evs', e) \<Rightarrow> (m'', evs @ evs', e)) | (m', evs, Some e) \<Rightarrow> (m', evs, Some e))" for xs ys m
    by (induction xs arbitrary: m) (auto split: prod.splits option.splits)
  have "parse_port_stats_reply now d ?body m = (m2, evs1 @ evs2, None)" unfolding parse app using 1(1) 2(1) by simp
  moreover have "dict_get (state_of (lm_port_state m2) d) p =
       (case dict_get (state_of (lm_port_state m) d) p of Some x \<Rightarrow> Some x | None \<Rightarrow> Some \<lparr>sv_counters = zero_counters, sv_time = 0\<rparr>)"
    if h: "p \<in> set (map fst init)" for p
    using ne[OF h] 2(2) 1(4)[of p] lookup[of p] h by (auto split: option.splits)
  moreover have "link_available_band l' = link_total_band l'"
    if h: "in_pair d dk" "in_pair q pk" "api_link (global_link_table m2) dk pk = Some l'" for dk pk l'
  proof -
    have "used_band now c ?old = 0" by (simp add: used_band_def Let_def)
    then obtain l where l: "api_link (global_link_table m1) dk pk = Some l" "l' = band_left 0 l" using h 2(3) by auto
    have "link_total_band l \<noteq> None" using bands_known_same[OF 1(3) lt(2)] l(1) unfolding bands_known_def by blast
    then show ?thesis using l(2) by (auto simp: band_left_def)
  qed
  ultimately show ?thesis by blast
qed

theorem multi_port_reply_loses_readings_witness:
  "\<exists>m' evs. parse_port_stats_reply 12 1 [(3, wit_counters 50), (4, wit_counters 200)] wit_monitor = (m', evs, None) \<and>
     dict_get (state_of (lm_port_state m') 1) 3 = Some \<lparr>sv_counters = wit_counters 0, sv_time = 10\<rparr>"
proof -
  have "sorted_wrt (<) (map fst ([(3, wit_counters 50)] @ [(4::nat, wit_counters 200)]))" by simp
  moreover have "\<forall>(p, c') \<in> set ([(3, wit_counters 50)] @ [(4::nat, wit_counters 200)]). no_errors c'"
    by (simp add: no_errors_def wit_counters_def zero_counters_def)
  moreover have "no_errors (sv_counters x)" if "dict_get (state_of (lm_port_state wit_monitor) 1) p = Some x" for p x
    using that by (auto simp: wit_monitor_def state_of_def no_errors_def wit_counters_def zero_counters_def split: if_splits)
  ultimately obtain m' evs where m: "parse_port_stats_reply 12 1 ([(3, wit_counters 50)] @ [(4, wit_counters 200)]) wit_monitor = (m', evs, None)"
    and s: "\<forall>p \<in> set (map fst [(3::nat, wit_counters 50)]). dict_get (state_of (lm_port_state m') 1) p =
       (case dict_get (state_of (lm_port_state wit_monitor) 1) p of Some x \<Rightarrow> Some x | None \<Rightarrow> Some \<lparr>sv_counters = zero_counters, sv_time = 0\<rparr>)"
    using multi_port_reply_loses_readings[of "[(3, wit_counters 50)]" 4 "wit_counters 200" wit_monitor 1 12] wit_monitor_ok by blast
  then show ?thesis by (simp add: wit_monitor_def state_of_def)
qed

section \<open>Polling\<close>

lemma start_request_ports_total:
  "\<forall>(d, p, dp) \<in> set ports. dp \<noteq> None \<Longrightarrow> start_request_ports ports = (map (\<lambda>(d, p, dp). (dp_id (the dp), p)) ports, None)"
  by (induction ports rule: start_request_ports.induct) auto

lemma mset_py_remove: "x \<in> set xs \<Longrightarrow> \<exists>ys. py_remove x xs = (ys, None) \<and> mset xs = add_mset x (mset ys)"
proof -
  assume "x \<in> set xs"
  then obtain ys where ys: "remove_by (\<lambda>y. y = x) xs = Some ys" using remove_by_None_iff[of "\<lambda>y. y = x" xs] by (cases "remove_by (\<lambda>y. y = x) xs") auto
  obtain us vs where "xs = us @ x # vs" "ys = us @ vs" using remove_by_Some[OF ys] by auto
  then show ?thesis using ys by (simp add: py_remove_def)
qed

text \<open>
  C36. Adding the ports of a link to the polled ports and deleting them again gives back the same
  ports, each as often as before: a port that is an end of several links stays polled for the others.
\<close>

theorem monitor_ports_add_delete:
  "\<exists>ports'. update_need_monitor_ports DELETE_PORT src dst (fst (update_need_monitor_ports ADD_PORT src dst ports)) = (ports', None) \<and>
     mset ports' = mset ports"
proof -
  let ?a = "monitored_port src" and ?b = "monitored_port dst"
  let ?xs = "ports @ [?a] @ [?b]"
  obtain ys where ys: "py_remove ?a ?xs = (ys, None)" "mset ?xs = add_mset ?a (mset ys)" using mset_py_remove[of ?a ?xs] by auto
  then have m: "mset ys = add_mset ?b (mset ports)" by simp
  then have "?b \<in> set ys" by (metis set_mset_mset union_single_eq_member)
  from mset_py_remove[OF this] obtain zs where zs: "py_remove ?b ys = (zs, None)" "mset ys = add_mset ?b (mset zs)" by (elim exE conjE)
  have "update_need_monitor_ports DELETE_PORT src dst (fst (update_need_monitor_ports ADD_PORT src dst ports)) = (zs, None)"
    using ys(1) zs(1) by (simp add: update_need_monitor_ports_def ADD_PORT_def DELETE_PORT_def)
  then show ?thesis using zs(2) m by simp
qed

definition api_links :: "link_table_api \<Rightarrow> link list" where
  "api_links lt = concat (map (\<lambda>(dk, links). dict_values links) lt)"

lemma select_ports_eq: "select_need_monitor_ports lt [] = concat (map (\<lambda>l. [monitored_port (link_src l), monitored_port (link_dst l)]) (api_links lt))"
  unfolding select_need_monitor_ports_def api_links_def by (induction lt) (auto simp: o_def case_prod_beta)

text \<open>
  Every end of every link of the table is polled, and nothing else: when the ports have their switches,
  a round of requests asks for exactly the ends of the links, each switch for its own port.
\<close>

lemma one_round_asks_ends:
  assumes "\<forall>l \<in> set (api_links lt). \<forall>e \<in> {link_src l, link_dst l}. \<exists>dp. port_datapath e = Some dp \<and> dp_id dp = port_dpid e"
  shows "\<exists>reqs. send_request select_request_type (select_need_monitor_ports lt []) = (reqs, None) \<and>
    set reqs = {(port_dpid e, port_no e) |e l. l \<in> set (api_links lt) \<and> e \<in> {link_src l, link_dst l}}"
proof -
  let ?ports = "concat (map (\<lambda>l. [monitored_port (link_src l), monitored_port (link_dst l)]) (api_links lt))"
  let ?f = "\<lambda>(d, p, dp). (dp_id (the dp), p)"
  have dp: "\<exists>dp. port_datapath (link_src l) = Some dp \<and> dp_id dp = port_dpid (link_src l)"
    "\<exists>dp. port_datapath (link_dst l) = Some dp \<and> dp_id dp = port_dpid (link_dst l)" if "l \<in> set (api_links lt)" for l
    using assms that by blast+
  have dp': "dp_id (the (port_datapath (link_src l))) = port_dpid (link_src l)" "dp_id (the (port_datapath (link_dst l))) = port_dpid (link_dst l)"
    if "l \<in> set (api_links lt)" for l using dp[OF that] by auto
  have "\<forall>(d, p, dp) \<in> set ?ports. dp \<noteq> None" using dp by (fastforce simp: monitored_port_def)
  then have r: "start_request_ports ?ports = (map ?f ?ports, None)" by (rule start_request_ports_total)
  have "map ?f ?ports = concat (map (\<lambda>l. [(port_dpid (link_src l), port_no (link_src l)), (port_dpid (link_dst l), port_no (link_dst l))]) (api_links lt))"
    unfolding map_concat map_map o_def using dp' by (intro arg_cong[where f = concat] map_cong) (auto simp: monitored_port_def)
  then have "set (map ?f ?ports) = {(port_dpid e, port_no e) |e l. l \<in> set (api_links lt) \<and> e \<in> {link_src l, link_dst l}}"
    by auto
  then show ?thesis using r unfolding select_ports_eq send_request_def select_request_type_def OFP_PORT_STATS_REQUEST_def by simp
qed

end
