(* ===== verification/Monitor_Start.thy ===== *)
theory Monitor_Start
  imports Link_Monitor
begin

text \<open>
  How the monitor starts: \<open>LinkMonitor.topo_initialize_end_handler\<close>, which \<open>TopologyManage\<close> calls when its
  timer ends, and the loop of \<open>PollingScheduler\<close>. \<open>hub.spawn\<close> is given the value of
  \<open>start_poll_monitor(stats_request_type)\<close>, so the loop runs before \<open>hub.spawn\<close> is called. Not returning is the value
  \<open>None\<close>; what the loop sends meanwhile is given by its first rounds.
\<close>

section \<open>The polling loop\<close>

text \<open>
  The loop ends only with an exception; the requests sent until then are part of the result. Nothing in the
  program changes the list of ports while the loop sleeps.
\<close>

partial_function (option) start_poll_monitor ::
  "nat list \<Rightarrow> monitored list \<Rightarrow> (nat \<times> nat) list \<Rightarrow> ((nat \<times> nat) list \<times> pyerr) option" where
  [code]: "start_poll_monitor types ports sent =
     (case send_request types ports of
        (reqs, Some e) \<Rightarrow> Some (sent @ reqs, e)
      | (reqs, None) \<Rightarrow> start_poll_monitor types ports (sent @ reqs))"

text \<open>The requests of the first \<open>n\<close> rounds.\<close>

fun poll_rounds :: "nat \<Rightarrow> nat list \<Rightarrow> monitored list \<Rightarrow> (nat \<times> nat) list \<times> pyerr option" where
  "poll_rounds 0 types ports = ([], None)"
| "poll_rounds (Suc n) types ports =
     (case send_request types ports of
        (reqs, Some e) \<Rightarrow> (reqs, Some e)
      | (reqs, None) \<Rightarrow> (case poll_rounds n types ports of (rest, e) \<Rightarrow> (reqs @ rest, e)))"

definition start_monitor_band :: "nat list \<Rightarrow> monitored list \<Rightarrow> unit run" where
  "start_monitor_band types ports = map_option (\<lambda>(sent, e). Inl e) (start_poll_monitor types ports [])"

section \<open>The end of the initialisation\<close>

record monitor_app = link_monitor +
  ma_link_table :: "link_table_api option"
  ma_stats_request_type :: "nat list"
  ma_need_monitor_ports :: "monitored list"
  ma_timers :: "nat list"

text \<open>
  The state in which the polling starts, and the state after it, where the second timer for
  \<open>change_number\<close> is running. \<open>ma_timers\<close> are the delays of these timers; \<open>__init__\<close> starts the first.
\<close>

definition POLL_CHANGE_DELAY :: nat where "POLL_CHANGE_DELAY = 30"

definition new_monitor_app :: "link_table_api \<Rightarrow> monitor_app" where
  "new_monitor_app glt =
     \<lparr>lm_port_state = [], lm_link_state = [], lm_datapaths = [], global_link_table = glt,
      ma_link_table = None, ma_stats_request_type = [], ma_need_monitor_ports = [], ma_timers = [60]\<rparr>"

definition topo_initialize_end_handler :: "link_table_api \<Rightarrow> monitor_app \<Rightarrow> monitor_app \<times> monitor_app run" where
  "topo_initialize_end_handler lt m =
     (let m1 = m\<lparr>global_link_table := lt, ma_link_table := Some lt, ma_stats_request_type := select_request_type,
                 ma_need_monitor_ports := select_need_monitor_ports lt []\<rparr>
      in (m1, run_bind (start_monitor_band (ma_stats_request_type m1) (ma_need_monitor_ports m1)) (\<lambda>_.
              Some (Inr (m1\<lparr>ma_timers := ma_timers m1 @ [POLL_CHANGE_DELAY]\<rparr>)))))"

section \<open>Polling never ends\<close>

lemma poll_returns_raised: "start_poll_monitor types ports sent = Some r \<Longrightarrow> snd (send_request types ports) \<noteq> None"
  by (erule start_poll_monitor.raw_induct[rotated]) (fastforce split: prod.splits option.splits)

lemma poll_forever: "snd (send_request types ports) = None \<Longrightarrow> start_poll_monitor types ports sent = None"
  using poll_returns_raised[of types ports sent] by (cases "start_poll_monitor types ports sent") auto

lemma poll_raises:
  "send_request types ports = (reqs, Some e) \<Longrightarrow> start_poll_monitor types ports sent = Some (sent @ reqs, e)"
  by (subst start_poll_monitor.simps) simp

lemma poll_rounds_total:
  "send_request types ports = (reqs, None) \<Longrightarrow> poll_rounds n types ports = (concat (replicate n reqs), None)"
  by (induction n) simp_all

lemma start_monitor_band_never_returns: "start_monitor_band types ports \<noteq> Some (Inr u)"
  by (auto simp: start_monitor_band_def)

text \<open>
  A port that has no datapath is the end of the monitor: the first round raises at that port, after it has asked
  for the ports before it.
\<close>

lemma start_request_ports_stops:
  "\<forall>(d, p, dp) \<in> set ps. dp \<noteq> None \<Longrightarrow>
   start_request_ports (ps @ (d, p, None) # qs) = (map (\<lambda>(d, p, dp). (dp_id (the dp), p)) ps, Some AttributeError)"
  by (induction ps rule: start_request_ports.induct) auto

lemma missing_datapath_ends_monitor:
  assumes "select_need_monitor_ports lt [] = ps @ (d, p, None) # qs" "\<forall>(d, p, dp) \<in> set ps. dp \<noteq> None"
  shows "snd (topo_initialize_end_handler lt m) = Some (Inl AttributeError)"
proof -
  have "send_request select_request_type (select_need_monitor_ports lt []) = (map (\<lambda>(d, p, dp). (dp_id (the dp), p)) ps, Some AttributeError)"
    unfolding assms(1) send_request_def using start_request_ports_stops[OF assms(2)]
    by (simp add: select_request_type_def OFP_PORT_STATS_REQUEST_def)
  from poll_raises[OF this] show ?thesis by (simp add: topo_initialize_end_handler_def start_monitor_band_def Let_def)
qed

text \<open>
  C35. When every end of a link has its switch, the monitor polls for ever: every round asks for exactly the ends of
  the links of the table, however many rounds pass, with the table of the event as the table that the
  replies update; and the handler does not return, so that it never starts its second timer.
\<close>

theorem monitor_polls_forever:
  assumes "\<forall>l \<in> set (api_links lt). \<forall>e \<in> {link_src l, link_dst l}. \<exists>dp. port_datapath e = Some dp \<and> dp_id dp = port_dpid e"
  shows "\<exists>reqs. set reqs = {(port_dpid e, port_no e) |e l. l \<in> set (api_links lt) \<and> e \<in> {link_src l, link_dst l}} \<and>
    (\<exists>m1. topo_initialize_end_handler lt m = (m1, None) \<and> global_link_table m1 = lt \<and>
       (\<forall>n. poll_rounds n (ma_stats_request_type m1) (ma_need_monitor_ports m1) = (concat (replicate n reqs), None)))"
proof -
  from one_round_asks_ends[OF assms] obtain reqs where
    r: "send_request select_request_type (select_need_monitor_ports lt []) = (reqs, None)"
    and s: "set reqs = {(port_dpid e, port_no e) |e l. l \<in> set (api_links lt) \<and> e \<in> {link_src l, link_dst l}}" by blast
  have n: "start_monitor_band select_request_type (select_need_monitor_ports lt []) = None"
    using poll_forever[of select_request_type "select_need_monitor_ports lt []" "[]"] r by (simp add: start_monitor_band_def)
  show ?thesis
    by (rule exI[of _ reqs]) (simp add: s n topo_initialize_end_handler_def Let_def poll_rounds_total[OF r])
qed

theorem monitor_polls_forever_witness:
  "\<exists>reqs m1. topo_initialize_end_handler (global_link_table wit_monitor) (new_monitor_app []) = (m1, None) \<and>
     poll_rounds 3 (ma_stats_request_type m1) (ma_need_monitor_ports m1) = (reqs @ reqs @ reqs, None) \<and> (2, 5) \<in> set reqs"
proof -
  let ?lt = "global_link_table wit_monitor"
  have l: "set (api_links ?lt) = {wit_band_link 3 4, wit_band_link 4 5}" by (simp add: api_links_def wit_monitor_def)
  have "\<forall>l \<in> set (api_links ?lt). \<forall>e \<in> {link_src l, link_dst l}. \<exists>dp. port_datapath e = Some dp \<and> dp_id dp = port_dpid e"
    unfolding l by (simp add: wit_band_link_def wit_end_def)
  from monitor_polls_forever[OF this, of "new_monitor_app []"] obtain reqs m1 where
    s: "set reqs = {(port_dpid e, port_no e) |e l. l \<in> set (api_links ?lt) \<and> e \<in> {link_src l, link_dst l}}"
    and m: "topo_initialize_end_handler ?lt (new_monitor_app []) = (m1, None)"
    and p: "\<And>n. poll_rounds n (ma_stats_request_type m1) (ma_need_monitor_ports m1) = (concat (replicate n reqs), None)" by blast
  have "(port_dpid (wit_end 2 5), port_no (wit_end 2 5)) \<in> set reqs" unfolding s l
    by (intro CollectI exI[of _ "wit_end 2 5"] exI[of _ "wit_band_link 4 5"]) (simp add: wit_band_link_def)
  then show ?thesis using m p[of 3] by (auto simp: wit_end_def numeral_3_eq_3)
qed

end
