(* ===== verification/Spec2Isabelle.thy ===== *)
theory Spec2Isabelle
  imports Topology_Routing Mg_Group Proxy_Arp Load_Balance Route_Info Port_Types Monitor_Start
begin

text \<open>
  Verification of SD-Route, a controller for OpenFlow networks written in Python 2 on top of the
  framework Ryu. The controller learns the topology and the hosts from the events of the
  switches, answers ARP requests, computes a route for the first packet of every connection, installs
  the route as flow entries, measures the bandwidth of the links, follows the members of multicast groups,
  and deploys new routes when a link or a server fails. Paths below are paths under \<open>src/\<close>.

  \<^bold>\<open>The parts of the program and how they interact.\<close>

  Switches, ports and links arrive as events at \<open>topology_manage/TopologyManage.py\<close>, which keeps the
  switch table and the link table and tells the other applications of every change. The ARP proxy
  and the host tracker listen to the packets the switches send up; the tracker publishes the place of
  every host. \<open>route_manage/RouteManage.py\<close> combines the three: a first packet between two known hosts becomes
  a task in the queue of \<open>route_manage/route_task.py\<close>; the handler of the queue runs the chosen
  route algorithm on a numbered copy of the tables, and turns the route into flow entries. \<open>route_manage/route_info_maintainer.py\<close>
  records routes for \<open>fault_recovery/\<close>, which searches the record when a port or a link goes down; the calls that would
  make the task handler fill it are commented out. Requests to a cluster of servers go through \<open>load_balance/\<close> first.

  \<^bold>\<open>The theories.\<close>

  \<^item> \<open>Prelude\<close>: exceptions as values, Python dictionaries and lists, random draws, and the interface
    \<open>set_machine\<close> of a store driven by events.
  \<^item> \<open>Link_Table\<close>, \<open>Switch_Table\<close> (\<open>topology_manage/object/link.py\<close>, \<open>port.py\<close>, \<open>switch.py\<close>): ports, links,
    parallel and virtual links, neighbours. The link table refines a set of cables: after any sequence
    of events it holds exactly the cables whose latest event added them.
  \<^item> \<open>Topology_Manage\<close> (\<open>TopologyManage.py\<close>, \<open>lib/project_lib.py\<close>): one definition per event handler; the
    invariant of every reachable topology; what remains of a switch that leaves.
  \<^item> \<open>Route_Graph\<close>, \<open>Dijkstra_Route\<close>, \<open>Path_DFS\<close>, \<open>GA_Operators\<close>, \<open>GA_Route\<close>, \<open>Nx_Route\<close>
    (\<open>route_manage/route_algorithm/RouteAlgorithm.py\<close>): the numbered graph, Dijkstra with the weights of the
    code, the search for all simple paths, the genetic operators and the genetic algorithm, and the default
    algorithm on top of networkx. The routes are shortest (Dijkstra up to the weight 10000 that it takes for infinite, default), all simple paths are found
    exactly once, and the genetic algorithm ends with routes whatever the draws.
  \<^item> \<open>Moea_Individual\<close>, \<open>Pareto_Sort\<close>, \<open>Nsga2\<close> (\<open>MOEARouteAlgorithm.py\<close>, \<open>NSGA2.py\<close>): the multicast algorithm the
    program starts, on an explicit store of individuals; the non-dominated sort computes the Pareto layers of a
    population, and where individuals occur twice, as in the external population of the first generation, it is shown which fronts come
    out instead; the tree returned serves every member of the group.
  \<^item> \<open>Search_Tree\<close>: what the two Dijkstra implementations share, the invariant of the search and the
    walks back along its predecessors.
  \<^item> \<open>Mg_Route\<close>, \<open>Mg_Evolution\<close>, \<open>Mg_Group\<close> (\<open>MulticastRouteAlgorithm.py\<close>): the other multicast algorithm, which no
    part of the program instantiates: the tree of a chromosome without its circuits, the fitness as the cost of
    that tree, the genetic operators, and the way from the tables to the paths of a group. The paths of the first group of
    an object reach the members, and no operator loses the outstanding chromosome.
  \<^item> \<open>OpenFlow\<close>: the messages the controller sends and the packets it receives, as values, and what a flow table
    does with a packet.
  \<^item> \<open>Route_Deploy\<close>, \<open>Multicast_Deploy\<close>, \<open>Route_Task\<close> (\<open>route_manage/route_task.py\<close>): flow entries of a unicast
    route and of a multicast tree, and the queue of tasks. A packet put on a deployed route arrives.
  \<^item> \<open>Route_Manage\<close> (\<open>route_manage/RouteManage.py\<close>): the application that makes tasks of packets, with the limit on
    repeated requests and the types of the waiting tasks.
  \<^item> \<open>Proxy_Arp\<close> (\<open>topology_manage/ProxyArp.py\<close>), \<open>Host_Track\<close> (\<open>host_manage/HostTrack.py\<close>, \<open>HostDiscovery.py\<close>),
    \<open>Igmp_Querier\<close> (\<open>multicast/igmplib.py\<close>): tables learned from packets, with their expiry.
  \<^item> \<open>Server_Cluster\<close>, \<open>Load_Balance\<close>, \<open>Fault_Classifier\<close>, \<open>Port_Types\<close>, \<open>Route_Info\<close> (\<open>host_manage/\<close>, \<open>load_balance/\<close>,
    \<open>fault_recovery/\<close>, \<open>route_info_maintainer.py\<close>): servers, least-connection balancing, recovery of servers and routes. A server
    that is down is never chosen, and of the routes recorded for a link only the last one is recovered.
  \<^item> \<open>Link_Monitor\<close>, \<open>Monitor_Start\<close> (\<open>link_monitor/\<close>): ports to poll, requests, the parsing of the replies, and the
    polling loop, which asks for every end of a link in every round and never returns to its caller.
  \<^item> \<open>Unicast_Routing\<close>, \<open>Topology_Routing\<close>, \<open>Request_Routing\<close>: the parts together. \<open>Unicast_Routing\<close> states as the locale
    \<open>route_algorithm\<close> what the deployment needs of an algorithm; Dijkstra, the genetic algorithm and the default
    algorithm are its interpretations. \<open>Topology_Routing\<close> connects the topology handlers with the algorithms, and
    \<open>Request_Routing\<close> follows a first packet to the flow entries that carry it.

  \<^bold>\<open>How the code is modelled.\<close>

  An object is a record, a method a function on it; a handler returns the new state, the messages it sends and
  the exception it raises, if any, so that the state an exception leaves behind is part of the model. A
  dictionary is an association list with distinct keys whose order is the iteration order; the
  properties hold for every order. A float is a real number, \<open>time.time()\<close> a parameter of the handler (in the
  sweeps of the host tracker, which read the clock for every test, one parameter for every reading), and \<open>random\<close> a list of draws. Objects that two parts share and change (the individuals of the multicast
  algorithm, the entries of the tracker that the route manager holds) are references into a store. A handler
  that sleeps is split at the sleep. Log messages and prints are left out, except where the
  evaluation of their arguments can raise.

  Loops over lists are recursion or folds. A loop that nothing in the code bounds is a partial
  function of type \<open>option\<close>, and the properties show that it ends (the walks back along predecessors in both Dijkstra implementations, the
  depth-first search, the genetic algorithms, the sort into layers). The one loop that ends only with
  probability 1, the draw of two different positions in \<open>Nsga2\<close>, is covered by a hypothesis on the draws
  (\<open>lively\<close>: nowhere do \<open>g\<close> successive pairs of draws all repeat a position, for a \<open>g\<close> one may choose as large as one likes), which
  independent draws satisfy up to a probability that vanishes with \<open>g\<close>, and a witness satisfies too. No fuel is used.

  The packages networkx and netaddr are parameters. What the code relies on in networkx is the
  locale \<open>networkx_laws\<close>, interpreted on a reference implementation that searches all walks.

  \<^bold>\<open>Not modelled.\<close>

  Ryu itself (event dispatch, sockets, codecs). The REST controllers of the topology: those that answer with JSON change
  nothing; those that add and delete virtual links put a link without a port into the table when the port
  number is unknown, which the type of links here excludes. Configuration files beyond their parsed contents, and
  writing them. The delay probes of the monitor, which nothing calls. The web service, the mininet and measurement scripts,
  the logger, and \<open>link_monitor/backup.py\<close>, an unused copy of the monitor.
\<close>

end
